(* ===== verification/Afl_Prelude.thy ===== *)
theory Afl_Prelude
  imports Main "HOL-Library.Word"
begin

text \<open>
  The shared vocabulary of the development: the fixed-width integers of
  \<^verbatim>\<open>AFLplusplus/include/types.h\<close>, the little-endian view that the C code takes of a byte
  buffer when it casts \<^verbatim>\<open>u8 *\<close> to \<^verbatim>\<open>u32 *\<close> or \<^verbatim>\<open>u64 *\<close>, and the list and word lemmas that
  several components use. The named collections \<open>bytes_simps\<close> and \<open>list_upd_simps\<close> gather them.
\<close>

unbundle bit_operations_syntax

named_theorems bytes_simps \<open>length and index facts of little-endian loads and stores\<close>
named_theorems list_upd_simps \<open>index facts of list updates\<close>

type_synonym u8 = "8 word"
type_synonym u16 = "16 word"
type_synonym u32 = "32 word"
type_synonym u64 = "64 word"

type_synonym bytes = "u8 list"

section \<open>Little-endian words inside byte buffers\<close>

text \<open>The value of a run of bytes, the first one being the least significant.\<close>

definition le_word :: "bytes \<Rightarrow> 'w::len word" where
  "le_word bs = foldr (\<lambda>b acc. ucast b OR push_bit 8 acc) bs 0"

definition le_bytes :: "nat \<Rightarrow> 'w::len word \<Rightarrow> bytes" where
  "le_bytes k w = map (\<lambda>i. ucast (drop_bit (8 * i) w)) [0..<k]"

lemma length_le_bytes [simp]: "length (le_bytes k w) = k"
  by (simp add: le_bytes_def)

lemma nth_le_bytes [simp]: "i < k \<Longrightarrow> le_bytes k w ! i = ucast (drop_bit (8 * i) w)"
  by (simp add: le_bytes_def)

lemma bit_byte_bound: "bit (b :: u8) n \<Longrightarrow> n < 8"
  using bit_imp_le_length [of b n] by simp

lemma bit_le_word:
  "bit (le_word bs :: 'w::len word) n \<longleftrightarrow>
     n < LENGTH('w) \<and> n div 8 < length bs \<and> bit (bs ! (n div 8)) (n mod 8)"
proof (induction bs arbitrary: n)
  case Nil
  then show ?case by (simp add: le_word_def)
next
  case (Cons b bs)
  have unfold: "(le_word (b # bs) :: 'w word) = ucast b OR push_bit 8 (le_word bs)"
    by (simp add: le_word_def)
  show ?case
  proof (cases "n < 8")
    case True
    then show ?thesis
      by (auto simp: unfold bit_or_iff bit_push_bit_iff bit_ucast_iff)
  next
    case False
    then obtain m where m: "n = 8 + m" using le_Suc_ex by (metis not_less)
    have d: "n div 8 = Suc (m div 8)" "n mod 8 = m mod 8" unfolding m by auto
    have "\<not> bit b n" using False bit_byte_bound by blast
    then show ?thesis
      using Cons.IH [of m]
      by (auto simp: unfold d bit_or_iff bit_push_bit_iff bit_ucast_iff) (simp_all add: m)
  qed
qed

lemma le_bytes_le_word:
  assumes "LENGTH('w::len) = 8 * length bs"
  shows "le_bytes (length bs) (le_word bs :: 'w word) = bs"
proof (rule nth_equalityI)
  show "length (le_bytes (length bs) (le_word bs :: 'w word)) = length bs" by simp
next
  fix i
  assume "i < length (le_bytes (length bs) (le_word bs :: 'w word))"
  then have i: "i < length bs" by simp
  show "le_bytes (length bs) (le_word bs :: 'w word) ! i = bs ! i"
  proof (rule bit_word_eqI)
    fix n
    assume n: "n < LENGTH(8)"
    have d: "(8 * i + n) div 8 = i" "(8 * i + n) mod 8 = n" using n by auto
    have b: "8 * i + n < 8 * length bs" using i n by simp
    have "bit (le_bytes (length bs) (le_word bs :: 'w word) ! i) n \<longleftrightarrow>
      bit (le_word bs :: 'w word) (8 * i + n)"
      using i n by (simp add: bit_ucast_iff bit_drop_bit_eq)
    also have "\<dots> \<longleftrightarrow> bit (bs ! i) n"
      unfolding bit_le_word d using assms i b by simp
    finally show "bit (le_bytes (length bs) (le_word bs :: 'w word) ! i) n = bit (bs ! i) n" .
  qed
qed

lemma le_word_le_bytes:
  assumes "LENGTH('w::len) = 8 * k"
  shows "le_word (le_bytes k w) = (w :: 'w word)"
proof (rule bit_word_eqI)
  fix n
  assume n: "n < LENGTH('w)"
  then have k: "n div 8 < k" using assms by auto
  have e: "8 * (n div 8) + n mod 8 = n" by simp
  show "bit (le_word (le_bytes k w) :: 'w word) n = bit w n"
    unfolding bit_le_word using n k by (simp add: bit_ucast_iff bit_drop_bit_eq e)
qed

text \<open>
  \<open>ld_word m k\<close> is \<^verbatim>\<open>((uN *)m)[k]\<close> and \<open>st_word m k w\<close> is \<^verbatim>\<open>((uN *)m)[k] = w\<close>, for the width of
  the word type. Both are meant for accesses inside the buffer; every theorem that uses them
  carries the buffer's length as a hypothesis.
\<close>

definition wsize :: "'w::len itself \<Rightarrow> nat" where
  "wsize t = LENGTH('w) div 8"

definition ld_word :: "bytes \<Rightarrow> nat \<Rightarrow> 'w::len word" where
  "ld_word m k = le_word (take (wsize TYPE('w)) (drop (wsize TYPE('w) * k) m))"

definition st_word :: "bytes \<Rightarrow> nat \<Rightarrow> 'w::len word \<Rightarrow> bytes" where
  "st_word m k w = (let n = wsize TYPE('w) in
     take (n * k) m @ le_bytes n w @ drop (n * k + n) m)"

lemma wsize_simps [simp]:
  "wsize TYPE(16) = 2" "wsize TYPE(32) = 4" "wsize TYPE(64) = 8"
  by (simp_all add: wsize_def)

definition byte_width :: "'w::len itself \<Rightarrow> bool" where
  "byte_width t \<longleftrightarrow> LENGTH('w) = 8 * wsize TYPE('w)"

lemma byte_width_simps [simp]:
  "byte_width TYPE(16)" "byte_width TYPE(32)" "byte_width TYPE(64)"
  by (simp_all add: byte_width_def)

lemma byte_width_pos: "byte_width TYPE('w::len) \<Longrightarrow> 0 < wsize TYPE('w)"
  by (metis byte_width_def len_gt_0 mult_0_right not_gr_zero)

lemma in_buffer: "n * Suc k \<le> length m \<Longrightarrow> n * k + n \<le> length m"
  by simp

lemma length_st_word [bytes_simps]:
  "wsize TYPE('w::len) * Suc k \<le> length m \<Longrightarrow> length (st_word m k (w :: 'w word)) = length m"
  by (simp add: st_word_def Let_def)

lemma nth_st_word [bytes_simps]:
  assumes "wsize TYPE('w::len) * Suc k \<le> length m" "i < length m"
  shows "st_word m k (w :: 'w word) ! i =
    (if wsize TYPE('w) * k \<le> i \<and> i < wsize TYPE('w) * Suc k
     then le_bytes (wsize TYPE('w)) w ! (i - wsize TYPE('w) * k) else m ! i)"
  using assms by (auto simp: st_word_def Let_def nth_append min_def)

lemma le_bytes_ld_word [bytes_simps]:
  assumes "byte_width TYPE('w::len)" "wsize TYPE('w) * Suc k \<le> length m"
  shows "le_bytes (wsize TYPE('w)) (ld_word m k :: 'w word) =
    take (wsize TYPE('w)) (drop (wsize TYPE('w) * k) m)"
proof -
  let ?bs = "take (wsize TYPE('w)) (drop (wsize TYPE('w) * k) m)"
  have len: "length ?bs = wsize TYPE('w)" using assms(2) by simp
  have "LENGTH('w) = 8 * length ?bs" using assms(1) len by (simp add: byte_width_def)
  from le_bytes_le_word [OF this] show ?thesis unfolding ld_word_def len .
qed

lemma nth_le_bytes_ld_word [bytes_simps]:
  assumes "byte_width TYPE('w::len)" "wsize TYPE('w) * Suc k \<le> length m" "j < wsize TYPE('w)"
  shows "le_bytes (wsize TYPE('w)) (ld_word m k :: 'w word) ! j = m ! (wsize TYPE('w) * k + j)"
  using assms by (subst le_bytes_ld_word) auto

text \<open>Words are equal when their bytes are, and a word is zero when all its bytes are.\<close>

lemma le_bytes_inject:
  assumes "byte_width TYPE('w::len)" "le_bytes (wsize TYPE('w)) v = le_bytes (wsize TYPE('w)) w"
  shows "v = (w :: 'w word)"
  by (metis assms byte_width_def le_word_le_bytes)

lemma le_bytes_zero [simp]: "le_bytes n 0 = replicate n 0"
  by (rule nth_equalityI) simp_all

lemma word_eq_0_iff_bytes:
  assumes "byte_width TYPE('w::len)"
  shows "(w :: 'w word) = 0 \<longleftrightarrow> (\<forall>j < wsize TYPE('w). le_bytes (wsize TYPE('w)) w ! j = 0)"
    (is "_ \<longleftrightarrow> ?R")
proof
  assume ?R
  then have "le_bytes (wsize TYPE('w)) w = le_bytes (wsize TYPE('w)) 0"
    by (intro nth_equalityI) (simp_all del: nth_le_bytes)
  with assms show "w = 0" by (rule le_bytes_inject)
next
  assume "w = 0"
  then show ?R by (simp del: nth_le_bytes)
qed

text \<open>Bitwise operations on words act on each byte alone.\<close>

lemma le_bytes_bitwise [simp]:
  "j < n \<Longrightarrow> 8 * n \<le> LENGTH('w) \<Longrightarrow>
     le_bytes n (v AND w :: 'w::len word) ! j = le_bytes n v ! j AND le_bytes n w ! j"
  "j < n \<Longrightarrow> 8 * n \<le> LENGTH('w) \<Longrightarrow>
     le_bytes n (v OR w :: 'w word) ! j = le_bytes n v ! j OR le_bytes n w ! j"
  "j < n \<Longrightarrow> 8 * n \<le> LENGTH('w) \<Longrightarrow>
     le_bytes n (NOT w :: 'w word) ! j = NOT (le_bytes n w ! j)"
  by (auto intro!: bit_word_eqI
      simp: bit_ucast_iff bit_drop_bit_eq bit_and_iff bit_or_iff bit_not_iff)

lemma and_not_self_zero [simp]: "(c :: 'w::len word) AND (v AND NOT c) = 0"
  by (rule bit_word_eqI) (simp add: bit_and_iff bit_not_iff)

section \<open>Counted word loops\<close>

text \<open>
  \<^verbatim>\<open>while (i--) { ... *p ...; p++; }\<close> walks the words \<open>0, 1, \<dots>, i - 1\<close> of a buffer and is written
  \<open>fold body [0..<i]\<close>. When the body rewrites word \<open>k\<close> by a function that acts on each byte by
  \<open>g\<close>, the loop maps \<open>g\<close> over the bytes it covers and leaves the rest alone.
\<close>

lemma word_loop_bytes:
  fixes body :: "nat \<Rightarrow> bytes \<Rightarrow> bytes" and t :: "'w::len itself"
  assumes step: "\<And>k m. wsize t * Suc k \<le> length m \<Longrightarrow>
      length (body k m) = length m \<and>
      (\<forall>i < length m. body k m ! i =
         (if wsize t * k \<le> i \<and> i < wsize t * Suc k then g (m ! i) else m ! i))"
    and len: "wsize t * cnt \<le> length m"
  shows "fold body [0..<cnt] m = map g (take (wsize t * cnt) m) @ drop (wsize t * cnt) m"
  using len
proof (induction cnt)
  case 0
  then show ?case by simp
next
  case (Suc c)
  let ?n = "wsize t"
  let ?m = "map g (take (?n * c) m) @ drop (?n * c) m"
  have IH: "fold body [0..<c] m = ?m" using Suc by simp
  have L: "length ?m = length m" using Suc.prems by simp
  have body: "length (body c ?m) = length m"
    "\<And>i. i < length m \<Longrightarrow> body c ?m ! i =
       (if ?n * c \<le> i \<and> i < ?n * Suc c then g (?m ! i) else ?m ! i)"
    using step [of c ?m] Suc.prems L by auto
  have "body c ?m = map g (take (?n * Suc c) m) @ drop (?n * Suc c) m"
  proof (rule nth_equalityI)
    show "length (body c ?m) = length (map g (take (?n * Suc c) m) @ drop (?n * Suc c) m)"
      using body(1) Suc.prems by simp
  next
    fix i
    assume "i < length (body c ?m)"
    then have i: "i < length m" using body(1) by simp
    have "?n * c \<le> length m" "?n * c + ?n \<le> length m" using Suc.prems by auto
    then show "body c ?m ! i = (map g (take (?n * Suc c) m) @ drop (?n * Suc c) m) ! i"
      unfolding body(2) [OF i] using i
      by (auto simp: nth_append min_def)
  qed
  then show ?case using IH by simp
qed

text \<open>The instances for the widths the code uses.\<close>

lemma unat_u8_less [simp]: "unat (b :: u8) < 256"
  using unsigned_less [of b, where 'a=nat] by simp

lemma fold_upd_range:
  fixes g :: "nat \<Rightarrow> 'a"
  assumes "c + n \<le> length t"
  shows "length (fold (\<lambda>i t. t[c + i := g i]) [0..<n] t) = length t"
    and "j < length t \<Longrightarrow> fold (\<lambda>i t. t[c + i := g i]) [0..<n] t ! j =
           (if c \<le> j \<and> j < c + n then g (j - c) else t ! j)"
proof -
  have "length (fold (\<lambda>i t. t[c + i := g i]) [0..<n] t) = length t \<and>
    (\<forall>j < length t. fold (\<lambda>i t. t[c + i := g i]) [0..<n] t ! j =
           (if c \<le> j \<and> j < c + n then g (j - c) else t ! j))"
    using assms
  proof (induction n)
    case (Suc n)
    then show ?case by (auto simp: nth_list_update)
  qed auto
  then show "length (fold (\<lambda>i t. t[c + i := g i]) [0..<n] t) = length t"
    and "j < length t \<Longrightarrow> fold (\<lambda>i t. t[c + i := g i]) [0..<n] t ! j =
           (if c \<le> j \<and> j < c + n then g (j - c) else t ! j)" by auto
qed

lemma unat_le_word2: "unat (le_word [lo, hi] :: u16) = unat lo + 256 * unat hi"
proof -
  have "(le_word [lo, hi] :: u16) = of_nat (unat lo + 256 * unat hi)"
  proof -
    have "(ucast lo OR push_bit 8 (ucast hi) :: u16) = ucast lo + push_bit 8 (ucast hi)"
      by (rule disjunctive_add [symmetric])
         (auto simp: bit_ucast_iff bit_push_bit_iff dest: bit_byte_bound)
    then show ?thesis
      by (simp add: le_word_def push_bit_eq_mult)
  qed
  moreover have "unat lo + 256 * unat hi < 65536"
    using unat_u8_less [of lo] unat_u8_less [of hi] by linarith
  ultimately show ?thesis by (simp only: unat_of_nat) simp
qed

lemma list8:
  assumes "length xs = 8"
  obtains b0 b1 b2 b3 b4 b5 b6 b7 where "xs = [b0, b1, b2, b3, b4, b5, b6, b7]"
  using assms by (auto simp: length_Suc_conv eval_nat_numeral)

lemma le_bytes2_le_word [simp]: "le_bytes 2 (le_word [x, y] :: u16) = [x, y]"
  using le_bytes_le_word [where 'w = 16 and bs = "[x, y]"] by (simp add: numeral_2_eq_2)

lemma le_bytes8_le_word [simp]: "length bs = 8 \<Longrightarrow> le_bytes 8 (le_word bs :: u64) = bs"
  using le_bytes_le_word [where 'w = 64 and bs = bs] by simp

lemma u64_zero_bytes: "(w :: u64) = 0 \<longleftrightarrow> (\<forall>j < 8. le_bytes 8 w ! j = 0)"
  using word_eq_0_iff_bytes [where 'w = 64 and w = w] by simp

lemma nth_le_bytes_ld64:
  "8 * Suc k \<le> length m \<Longrightarrow> j < 8 \<Longrightarrow> le_bytes 8 (ld_word m k :: u64) ! j = m ! (8 * k + j)"
  using nth_le_bytes_ld_word [where 'w = 64 and k = k and m = m and j = j] by simp

lemma st64_bytes:
  assumes "8 * Suc k \<le> length m"
  shows "length (st_word m k (w :: u64)) = length m"
    and "i < length m \<Longrightarrow> st_word m k (w :: u64) ! i =
      (if 8 * k \<le> i \<and> i < 8 * Suc k then le_bytes 8 w ! (i - 8 * k) else m ! i)"
  using length_st_word [where 'w = 64 and k = k and m = m]
    nth_st_word [where 'w = 64 and k = k and m = m] assms by simp_all

lemma and_ff [simp]: "(b :: u8) AND 255 = b"
proof -
  have "(255 :: u8) = -1" by simp
  then show ?thesis by (simp only: and.right_neutral)
qed

lemma ld_word_cong:
  assumes "length m = length m'" "\<And>i. wsize TYPE('w::len) * k \<le> i \<Longrightarrow>
      i < wsize TYPE('w) * Suc k \<Longrightarrow> i < length m \<Longrightarrow> m ! i = m' ! i"
  shows "(ld_word m k :: 'w word) = ld_word m' k"
proof -
  have "take (wsize TYPE('w)) (drop (wsize TYPE('w) * k) m) =
    take (wsize TYPE('w)) (drop (wsize TYPE('w) * k) m')"
    using assms by (intro nth_equalityI) auto
  then show ?thesis by (simp add: ld_word_def)
qed

lemma ex_less_Suc_block:
  "(\<exists>i < 8 * Suc c. P i) \<longleftrightarrow> (\<exists>i < 8 * c. P i) \<or> (\<exists>j < 8. P (8 * c + j))" (is "?L \<longleftrightarrow> ?R")
proof
  assume ?L
  then obtain i where i: "i < 8 * Suc c" "P i" by blast
  show ?R
  proof (cases "i < 8 * c")
    case False
    then have "P (8 * c + (i - 8 * c))" "i - 8 * c < 8" using i by auto
    then show ?R by blast
  qed (use i in blast)
next
  assume ?R
  moreover have "\<exists>i < 8 * Suc c. P i" if "i < 8 * c" "P i" for i
    using that by (intro exI [of _ i]) simp
  moreover have "\<exists>i < 8 * Suc c. P i" if "j < 8" "P (8 * c + j)" for j
    using that by (intro exI [of _ "8 * c + j"]) simp
  ultimately show ?L by blast
qed

lemma ld_st_word:
  assumes "byte_width TYPE('w::len)" "wsize TYPE('w) * Suc k \<le> length m" "wsize TYPE('w) * Suc j \<le> length m"
  shows "(ld_word (st_word m k (w :: 'w word)) j :: 'w word) = (if j = k then w else ld_word m j)"
proof -
  let ?n = "wsize TYPE('w)"
  have n: "0 < ?n" using assms(1) by (rule byte_width_pos)
  have L: "length (st_word m k w) = length m" using assms(2) by (rule length_st_word)
  show ?thesis
  proof (cases "j = k")
    case True
    have "le_bytes ?n (ld_word (st_word m k w) k :: 'w word) = le_bytes ?n w"
      using assms L by (intro nth_equalityI)
        (simp_all add: nth_le_bytes_ld_word nth_st_word del: nth_le_bytes)
    then show ?thesis using True le_bytes_inject [OF assms(1)] by metis
  next
    case False
    have "(ld_word (st_word m k w) j :: 'w word) = ld_word m j"
    proof (rule ld_word_cong)
      show "length (st_word m k w) = length m" by (rule L)
      fix i
      assume i: "?n * j \<le> i" "i < ?n * Suc j" "i < length (st_word m k w)"
      have "\<not> (?n * k \<le> i \<and> i < ?n * Suc k)"
      proof
        assume "?n * k \<le> i \<and> i < ?n * Suc k"
        then have "i div ?n = k" "i div ?n = j" using i by (intro div_nat_eqI; simp)+
        with False show False by simp
      qed
      then show "st_word m k w ! i = m ! i" using i L assms(2) by (subst nth_st_word) auto
    qed
    then show ?thesis using False by simp
  qed
qed

end
