(* ===== verification/Bitmap.thy ===== *)
theory Bitmap
  imports Afl_Prelude
begin

text \<open>
  The coverage map routines of \<^verbatim>\<open>AFLplusplus/src/afl-fuzz-bitmap.c\<close> and of the 64-bit flavour
  \<^verbatim>\<open>AFLplusplus/include/coverage-64.h\<close> it includes: hit-count classification, trace
  simplification, novelty detection against a virgin map, the counters of the status screen
  and the compaction of a trace into one bit per edge.

  A map is a byte list. The C code reads and writes it through \<^verbatim>\<open>u64 *\<close> and \<^verbatim>\<open>u32 *\<close> pointers;
  the model does the same with \<open>ld_word\<close> and \<open>st_word\<close>, and the theorems say what this means
  for the single bytes. Sizes are \<^verbatim>\<open>u32\<close> and are computed with \<^verbatim>\<open>u32\<close> arithmetic.
\<close>

section \<open>State\<close>

text \<open>The part of \<^verbatim>\<open>afl_state_t\<close> and of its \<^verbatim>\<open>fsrv\<close> that these routines touch.\<close>

record bitmap_state =
  trace_bits :: bytes
  map_size :: u32
  real_map_size :: u32
  virgin_bits :: bytes
  virgin_tmout :: bytes
  virgin_crash :: bytes
  bitmap_changed :: u8

text \<open>The virgin map a caller passes by pointer; \<^verbatim>\<open>has_new_bits\<close> compares that pointer with
  \<^verbatim>\<open>afl->virgin_bits\<close>.\<close>

datatype virgin_map = Virgin_Bits | Virgin_Tmout | Virgin_Crash

fun get_virgin :: "virgin_map \<Rightarrow> 'a bitmap_state_scheme \<Rightarrow> bytes" where
  "get_virgin Virgin_Bits s = virgin_bits s"
| "get_virgin Virgin_Tmout s = virgin_tmout s"
| "get_virgin Virgin_Crash s = virgin_crash s"

fun put_virgin :: "virgin_map \<Rightarrow> bytes \<Rightarrow> 'a bitmap_state_scheme \<Rightarrow> 'a bitmap_state_scheme" where
  "put_virgin Virgin_Bits m s = s\<lparr>virgin_bits := m\<rparr>"
| "put_virgin Virgin_Tmout m s = s\<lparr>virgin_tmout := m\<rparr>"
| "put_virgin Virgin_Crash m s = s\<lparr>virgin_crash := m\<rparr>"

section \<open>Lookup tables\<close>

definition simplify_lookup :: "u8 \<Rightarrow> u8" where
  "simplify_lookup b = (if b = 0 then 1 else 128)"

definition count_class_lookup8 :: "u8 \<Rightarrow> u8" where
  "count_class_lookup8 b =
     (if b = 0 then 0 else if b = 1 then 1 else if b = 2 then 2 else if b = 3 then 4
      else if b \<le> 7 then 8 else if b \<le> 15 then 16 else if b \<le> 31 then 32
      else if b \<le> 127 then 64 else 128)"

text \<open>\<^verbatim>\<open>count_class_lookup16\<close> is a zero-initialised global of 65536 entries; this fills it.\<close>

definition init_count_class16 :: "u16 list \<Rightarrow> u16 list" where
  "init_count_class16 tab =
     fold (\<lambda>b1. fold (\<lambda>b2 t. t[b1 * 256 + b2 :=
         push_bit 8 (ucast (count_class_lookup8 (of_nat b1)))
           OR ucast (count_class_lookup8 (of_nat b2))]) [0..<256])
       [0..<256] tab"

definition count_class_lookup16 :: "u16 list" where
  "count_class_lookup16 = init_count_class16 (replicate 65536 0)"

section \<open>Classification and simplification of a trace\<close>

text \<open>\<^verbatim>\<open>memcpy\<close> to \<^verbatim>\<open>u16 mem16[4]\<close>, four table lookups, \<^verbatim>\<open>memcpy\<close> back.\<close>

definition classify_word :: "u16 list \<Rightarrow> u64 \<Rightarrow> u64" where
  "classify_word tab word =
     (let mem16 = le_bytes 8 word;
          mem16 = st_word mem16 0 (tab ! unat (ld_word mem16 0 :: u16));
          mem16 = st_word mem16 1 (tab ! unat (ld_word mem16 1 :: u16));
          mem16 = st_word mem16 2 (tab ! unat (ld_word mem16 2 :: u16));
          mem16 = st_word mem16 3 (tab ! unat (ld_word mem16 3 :: u16))
      in le_word mem16)"

definition classify_counts_mem :: "u16 list \<Rightarrow> u32 \<Rightarrow> bytes \<Rightarrow> bytes" where
  "classify_counts_mem tab msize mem =
     fold (\<lambda>k m. if (ld_word m k :: u64) \<noteq> 0
                 then st_word m k (classify_word tab (ld_word m k)) else m)
       [0..<unat (drop_bit 3 msize)] mem"

definition classify_counts :: "u16 list \<Rightarrow> 'a bitmap_state_scheme \<Rightarrow> 'a bitmap_state_scheme" where
  "classify_counts tab s = s\<lparr>trace_bits := classify_counts_mem tab (map_size s) (trace_bits s)\<rparr>"

definition simplify_trace_mem :: "u32 \<Rightarrow> bytes \<Rightarrow> bytes" where
  "simplify_trace_mem msize bytes =
     fold (\<lambda>k m. if (ld_word m k :: u64) \<noteq> 0
         then st_word m k (le_word (map simplify_lookup (le_bytes 8 (ld_word m k :: u64))) :: u64)
         else st_word m k (0x0101010101010101 :: u64))
       [0..<unat (drop_bit 3 msize)] bytes"

definition simplify_trace :: "'a bitmap_state_scheme \<Rightarrow> 'a bitmap_state_scheme" where
  "simplify_trace s = s\<lparr>trace_bits := simplify_trace_mem (map_size s) (trace_bits s)\<rparr>"

section \<open>Novelty\<close>

definition discover_word :: "u8 \<Rightarrow> u64 \<Rightarrow> u64 \<Rightarrow> u8 \<times> u64" where
  "discover_word ret current virgin =
     (if current AND virgin \<noteq> 0 then
        (if ret < 2 then
           (let cur = le_bytes 8 current; vir = le_bytes 8 virgin in
            if list_ex (\<lambda>j. cur ! j \<noteq> 0 \<and> vir ! j = 0xff) [0..<8] then 2 else 1)
         else ret,
         virgin AND NOT current)
      else (ret, virgin))"

definition new_bits_body :: "bytes \<Rightarrow> nat \<Rightarrow> u8 \<times> bytes \<Rightarrow> u8 \<times> bytes" where
  "new_bits_body trace k = (\<lambda>(ret, virgin).
     if (ld_word trace k :: u64) \<noteq> 0 then
       (let (r, v) = discover_word ret (ld_word trace k) (ld_word virgin k)
        in (r, st_word virgin k v))
     else (ret, virgin))"

definition has_new_bits :: "virgin_map \<Rightarrow> 'a bitmap_state_scheme \<Rightarrow> u8 \<times> 'a bitmap_state_scheme" where
  "has_new_bits vm s =
     (let i = drop_bit 3 (real_map_size s + 7);
          (ret, v) = fold (new_bits_body (trace_bits s)) [0..<unat i] (0, get_virgin vm s);
          s = put_virgin vm v s
      in (ret, if ret \<noteq> 0 \<and> vm = Virgin_Bits then s\<lparr>bitmap_changed := 1\<rparr> else s))"

text \<open>
  The portable \<^verbatim>\<open>skim\<close>: four words at a time while the pointer is below the end of the map.
\<close>

definition skim_word :: "u16 list \<Rightarrow> bytes \<Rightarrow> bytes \<Rightarrow> nat \<Rightarrow> bool" where
  "skim_word tab virgin current k \<longleftrightarrow>
     (ld_word current k :: u64) \<noteq> 0 \<and>
     classify_word tab (ld_word current k) AND ld_word virgin k \<noteq> 0"

function skim_from :: "u16 list \<Rightarrow> bytes \<Rightarrow> bytes \<Rightarrow> nat \<Rightarrow> nat \<Rightarrow> u32" where
  "skim_from tab virgin current msize k =
     (if 8 * k < msize then
        if skim_word tab virgin current k then 1
        else if skim_word tab virgin current (k + 1) then 1
        else if skim_word tab virgin current (k + 2) then 1
        else if skim_word tab virgin current (k + 3) then 1
        else skim_from tab virgin current msize (k + 4)
      else 0)"
  by pat_completeness auto
termination
  by (relation "measure (\<lambda>(tab, virgin, current, msize, k). msize - 8 * k)") auto

declare skim_from.simps [simp del]

definition skim :: "u16 list \<Rightarrow> bytes \<Rightarrow> bytes \<Rightarrow> u32 \<Rightarrow> u32" where
  "skim tab virgin current msize = skim_from tab virgin current (unat msize) 0"

definition has_new_bits_unclassified ::
  "u16 list \<Rightarrow> virgin_map \<Rightarrow> bool \<Rightarrow> 'a bitmap_state_scheme \<Rightarrow> u8 \<times> bool \<times> 'a bitmap_state_scheme"
where
  "has_new_bits_unclassified tab vm classified s =
     (if skim tab (get_virgin vm s) (trace_bits s) (map_size s) = 0 then (0, classified, s)
      else (let (r, s) = has_new_bits vm (classify_counts tab s) in (r, True, s)))"

section \<open>Counters and compaction\<close>

text \<open>
  \<^verbatim>\<open>__builtin_popcount\<close>, which current compilers have; the arithmetic fallback under the
  \<^verbatim>\<open>#else\<close> is not modelled.
\<close>

definition builtin_popcount :: "'w::len word \<Rightarrow> nat" where
  "builtin_popcount v = length (filter (bit v) [0..<LENGTH('w)])"

definition count_bits :: "'a bitmap_state_scheme \<Rightarrow> bytes \<Rightarrow> u32" where
  "count_bits s mem =
     fold (\<lambda>k ret. let v = ld_word mem k :: u32 in
         if v = 0xffffffff then ret + 32 else ret + of_nat (builtin_popcount v))
       [0..<unat (drop_bit 2 (real_map_size s + 3))] 0"

definition count_bytes :: "'a bitmap_state_scheme \<Rightarrow> bytes \<Rightarrow> u32" where
  "count_bytes s mem =
     fold (\<lambda>k ret. let v = ld_word mem k :: u32 in
         if v = 0 then ret
         else (let ret = (if v AND 0x000000ff \<noteq> 0 then ret + 1 else ret);
                   ret = (if v AND 0x0000ff00 \<noteq> 0 then ret + 1 else ret);
                   ret = (if v AND 0x00ff0000 \<noteq> 0 then ret + 1 else ret)
               in (if v AND 0xff000000 \<noteq> 0 then ret + 1 else ret)))
       [0..<unat (drop_bit 2 (real_map_size s + 3))] 0"

definition count_non_255_bytes :: "'a bitmap_state_scheme \<Rightarrow> bytes \<Rightarrow> u32" where
  "count_non_255_bytes s mem =
     fold (\<lambda>k ret. let v = ld_word mem k :: u32 in
         if v = 0xffffffff then ret
         else (let ret = (if v AND 0x000000ff \<noteq> 0x000000ff then ret + 1 else ret);
                   ret = (if v AND 0x0000ff00 \<noteq> 0x0000ff00 then ret + 1 else ret);
                   ret = (if v AND 0x00ff0000 \<noteq> 0x00ff0000 then ret + 1 else ret)
               in (if v AND 0xff000000 \<noteq> 0xff000000 then ret + 1 else ret)))
       [0..<unat (drop_bit 2 (real_map_size s + 3))] 0"

definition minimize_bits :: "u32 \<Rightarrow> bytes \<Rightarrow> bytes \<Rightarrow> bytes" where
  "minimize_bits msize dst src =
     fold (\<lambda>i d. if src ! i \<noteq> 0
                 then d[i div 8 := d ! (i div 8) OR push_bit (i mod 8) 1] else d)
       [0..<unat msize] dst"

section \<open>Specification\<close>

text \<open>
  What a probe of a trace against a virgin map should answer, byte by byte: 2 when an edge is
  hit that was never hit before, 1 when only a new hit-count bucket shows up, 0 otherwise;
  and what it should leave of the virgin map.
\<close>

definition class16 :: "nat \<Rightarrow> nat \<Rightarrow> u16" where
  "class16 b1 b2 = push_bit 8 (ucast (count_class_lookup8 (of_nat b1)))
           OR ucast (count_class_lookup8 (of_nat b2))"

definition novelty :: "bytes \<Rightarrow> bytes \<Rightarrow> nat \<Rightarrow> u8" where
  "novelty trace virgin n =
     (if \<exists>i<n. trace ! i \<noteq> 0 \<and> virgin ! i = 0xff then 2
      else if \<exists>i<n. trace ! i AND virgin ! i \<noteq> 0 then 1 else 0)"

definition clear_seen :: "bytes \<Rightarrow> nat \<Rightarrow> bytes \<Rightarrow> bytes" where
  "clear_seen trace n virgin =
     map (\<lambda>i. if i < n then virgin ! i AND NOT (trace ! i) else virgin ! i) [0..<length virgin]"

definition map_bytes :: "'a bitmap_state_scheme \<Rightarrow> nat" where
  "map_bytes s = 8 * unat (drop_bit 3 (real_map_size s + 7))"

definition maps_allocated :: "'a bitmap_state_scheme \<Rightarrow> bool" where
  "maps_allocated s \<longleftrightarrow>
     map_bytes s \<le> length (trace_bits s) \<and>
     8 * unat (drop_bit 3 (map_size s)) \<le> length (trace_bits s) \<and>
     length (virgin_bits s) = length (trace_bits s) \<and>
     length (virgin_tmout s) = length (trace_bits s) \<and>
     length (virgin_crash s) = length (trace_bits s)"

definition count_span :: "'a bitmap_state_scheme \<Rightarrow> nat" where
  "count_span s = 4 * unat (drop_bit 2 (real_map_size s + 3))"

text \<open>
  A campaign probes one trace after the other and collects the ones that were reported.
\<close>

fun campaign :: "('t \<Rightarrow> 's \<Rightarrow> u8 \<times> 's) \<Rightarrow> 't list \<Rightarrow> 's \<Rightarrow> 't list \<times> 's" where
  "campaign probe [] s = ([], s)"
| "campaign probe (t # ts) s =
     (let (r, s') = probe t s; (found, s'') = campaign probe ts s'
      in (if r \<noteq> 0 then t # found else found, s''))"

definition probe_trace :: "virgin_map \<Rightarrow> bytes \<Rightarrow> bitmap_state \<Rightarrow> u8 \<times> bitmap_state" where
  "probe_trace vm t s = has_new_bits vm (s\<lparr>trace_bits := t\<rparr>)"

definition trace_fits :: "bytes \<Rightarrow> bitmap_state \<Rightarrow> bool" where
  "trace_fits t s \<longleftrightarrow> maps_allocated (s\<lparr>trace_bits := t\<rparr>)"

text \<open>Two small maps for the concrete runs.\<close>

definition ex_state :: bitmap_state where
  "ex_state = \<lparr>trace_bits = replicate 8 0, map_size = 8, real_map_size = 8,
     virgin_bits = replicate 8 255, virgin_tmout = replicate 8 255, virgin_crash = replicate 8 255,
     bitmap_changed = 0\<rparr>"

definition ex_map32 :: bitmap_state where
  "ex_map32 = \<lparr>trace_bits = replicate 32 0, map_size = 32, real_map_size = 30,
     virgin_bits = replicate 32 255, virgin_tmout = replicate 32 255, virgin_crash = replicate 32 255,
     bitmap_changed = 0\<rparr>"

section \<open>Lookup tables and classification\<close>


lemma init_count_class16_rows:
  assumes "n \<le> 256" "length tab = 65536"
  shows "length (fold (\<lambda>b1. fold (\<lambda>b2 t. t[b1 * 256 + b2 := class16 b1 b2]) [0..<256]) [0..<n] tab) = 65536 \<and>
    (\<forall>j < 65536. fold (\<lambda>b1. fold (\<lambda>b2 t. t[b1 * 256 + b2 := class16 b1 b2]) [0..<256]) [0..<n] tab ! j =
       (if j < 256 * n then class16 (j div 256) (j mod 256) else tab ! j))"
  using assms(1)
proof (induction n)
  case 0
  then show ?case using assms(2) by simp
next
  case (Suc n)
  let ?t = "fold (\<lambda>b1. fold (\<lambda>b2 t. t[b1 * 256 + b2 := class16 b1 b2]) [0..<256]) [0..<n] tab"
  from Suc have IH: "length ?t = 65536"
    "\<And>j. j < 65536 \<Longrightarrow> ?t ! j = (if j < 256 * n then class16 (j div 256) (j mod 256) else tab ! j)"
    by simp_all
  have b: "n * 256 + 256 \<le> length ?t" using Suc.prems IH(1) by simp
  show ?case
  proof (intro conjI allI impI)
    show "length (fold (\<lambda>b1. fold (\<lambda>b2 t. t[b1 * 256 + b2 := class16 b1 b2]) [0..<256]) [0..<Suc n] tab) = 65536"
      using fold_upd_range(1) [OF b] IH(1) by simp
    fix j :: nat
    assume j: "j < 65536"
    have d: "j div 256 = n" "j mod 256 = j - n * 256" if "n * 256 \<le> j" "j < n * 256 + 256"
    proof -
      from that obtain r where r: "j = n * 256 + r" "r < 256" using le_Suc_ex
        by (metis add_less_cancel_left)
      then show "j div 256 = n" "j mod 256 = j - n * 256" by simp_all
    qed
    show "fold (\<lambda>b1. fold (\<lambda>b2 t. t[b1 * 256 + b2 := class16 b1 b2]) [0..<256]) [0..<Suc n] tab ! j =
      (if j < 256 * Suc n then class16 (j div 256) (j mod 256) else tab ! j)"
      using fold_upd_range(2) [OF b, of j "class16 n"] IH(1) IH(2) [OF j] j d by auto
  qed
qed

lemma count_class_lookup16_nth:
  assumes "b1 < 256" "b2 < 256"
  shows "count_class_lookup16 ! (b2 + 256 * b1) = class16 b1 b2"
proof -
  have l: "b2 + 256 * b1 < 65536" using assms by simp
  have "(b2 + 256 * b1) div 256 = b1" "(b2 + 256 * b1) mod 256 = b2" using assms by simp_all
  then show ?thesis
    using init_count_class16_rows [of 256 "replicate 65536 0"] l
    unfolding count_class_lookup16_def init_count_class16_def class16_def [symmetric] by auto
qed

lemma count_class_lookup16_bytes:
  "count_class_lookup16 ! unat (le_word [lo, hi] :: u16) =
     le_word [count_class_lookup8 lo, count_class_lookup8 hi]"
  unfolding unat_le_word2
  by (subst count_class_lookup16_nth) (simp_all add: class16_def le_word_def or.commute)

lemma le_bytes_classify_word:
  "le_bytes 8 (classify_word count_class_lookup16 w) = map count_class_lookup8 (le_bytes 8 w)"
proof -
  obtain b0 b1 b2 b3 b4 b5 b6 b7 where "le_bytes 8 w = [b0, b1, b2, b3, b4, b5, b6, b7]"
    by (rule list8 [OF length_le_bytes])
  then show ?thesis
    by (simp add: classify_word_def Let_def ld_word_def st_word_def count_class_lookup16_bytes)
qed

lemma count_class_lookup8_0 [simp]: "count_class_lookup8 0 = 0"
  by (simp add: count_class_lookup8_def)

lemma classify_counts_mem_bytes:
  assumes "8 * unat (drop_bit 3 msize) \<le> length mem"
  shows "classify_counts_mem count_class_lookup16 msize mem =
     map count_class_lookup8 (take (8 * unat (drop_bit 3 msize)) mem)
       @ drop (8 * unat (drop_bit 3 msize)) mem"
proof -
  define body where "body k m = (if (ld_word m k :: u64) \<noteq> 0
      then st_word m k (classify_word count_class_lookup16 (ld_word m k)) else m)" for k m
  have "length (body k m) = length m \<and> (\<forall>i < length m. body k m ! i =
      (if 8 * k \<le> i \<and> i < 8 * Suc k then count_class_lookup8 (m ! i) else m ! i))"
    if "8 * Suc k \<le> length m" for k m
  proof (cases "(ld_word m k :: u64) = 0")
    case True
    then have "m ! i = 0" if "8 * k \<le> i" "i < 8 * Suc k" for i
      using nth_le_bytes_ld64 [of k m "i - 8 * k"] that \<open>8 * Suc k \<le> length m\<close>
      by (simp del: nth_le_bytes)
    then show ?thesis using True by (simp add: body_def)
  next
    case False
    then show ?thesis
      using that nth_le_bytes_ld64 [OF that] st64_bytes [OF that]
      by (auto simp: body_def le_bytes_classify_word simp del: nth_le_bytes)
  qed
  from word_loop_bytes [where t = "TYPE(64)", of body count_class_lookup8] this assms show ?thesis
    unfolding classify_counts_mem_def body_def by simp
qed

lemma simplify_trace_mem_bytes:
  assumes "8 * unat (drop_bit 3 msize) \<le> length mem"
  shows "simplify_trace_mem msize mem =
     map simplify_lookup (take (8 * unat (drop_bit 3 msize)) mem)
       @ drop (8 * unat (drop_bit 3 msize)) mem"
proof -
  define body where "body k m = (if (ld_word m k :: u64) \<noteq> 0
         then st_word m k (le_word (map simplify_lookup (le_bytes 8 (ld_word m k :: u64))) :: u64)
         else st_word m k (0x0101010101010101 :: u64))" for k m
  have ones: "le_bytes 8 (0x0101010101010101 :: u64) = replicate 8 1"
    by code_simp
  have "length (body k m) = length m \<and> (\<forall>i < length m. body k m ! i =
      (if 8 * k \<le> i \<and> i < 8 * Suc k then simplify_lookup (m ! i) else m ! i))"
    if "8 * Suc k \<le> length m" for k m
  proof (cases "(ld_word m k :: u64) = 0")
    case True
    then have "m ! i = 0" if "8 * k \<le> i" "i < 8 * Suc k" for i
      using nth_le_bytes_ld64 [of k m "i - 8 * k"] that \<open>8 * Suc k \<le> length m\<close>
      by (simp del: nth_le_bytes)
    then show ?thesis using True that
      by (auto simp: body_def st64_bytes [OF that] ones simplify_lookup_def simp del: nth_le_bytes)
  next
    case False
    then show ?thesis
      using that nth_le_bytes_ld64 [OF that] st64_bytes [OF that]
      by (auto simp: body_def simp del: nth_le_bytes)
  qed
  from word_loop_bytes [where t = "TYPE(64)", of body simplify_lookup] this assms show ?thesis
    unfolding simplify_trace_mem_def body_def by simp
qed

lemma length_clear_seen [simp]: "length (clear_seen t n v) = length v"
  by (simp add: clear_seen_def)

lemma nth_clear_seen [simp]:
  "i < length v \<Longrightarrow> clear_seen t n v ! i = (if i < n then v ! i AND NOT (t ! i) else v ! i)"
  by (simp add: clear_seen_def)

lemma discover_word_bytes:
  "discover_word ret cur vir =
     (let c = le_bytes 8 cur; v = le_bytes 8 vir in
      (if ret < 2 then
         if \<exists>j<8. c ! j \<noteq> 0 \<and> v ! j = 0xff then 2
         else if \<exists>j<8. c ! j AND v ! j \<noteq> 0 then 1 else ret
       else ret, vir AND NOT cur))"
proof -
  have z: "cur AND vir \<noteq> 0 \<longleftrightarrow> (\<exists>j<8. le_bytes 8 cur ! j AND le_bytes 8 vir ! j \<noteq> 0)"
    unfolding u64_zero_bytes by (simp del: nth_le_bytes)
  have p: "(\<exists>j<8. le_bytes 8 cur ! j \<noteq> 0 \<and> le_bytes 8 vir ! j = 0xff) \<Longrightarrow> cur AND vir \<noteq> 0"
    unfolding z by (auto simp del: nth_le_bytes)
  have m: "cur AND vir = 0 \<Longrightarrow> vir AND NOT cur = vir"
    by (auto simp: bit_eq_iff bit_and_iff bit_not_iff)
  show ?thesis
    using z p m by (auto simp: discover_word_def Let_def list_ex_iff simp del: nth_le_bytes)
qed

lemma new_bits_fold:
  assumes "8 * cnt \<le> length trace" "length virgin = length trace"
  shows "fold (new_bits_body trace) [0..<cnt] (0, virgin) =
    (novelty trace virgin (8 * cnt), clear_seen trace (8 * cnt) virgin)"
  using assms(1)
proof (induction cnt)
  case 0
  then show ?case by (simp add: novelty_def clear_seen_def map_nth)
next
  case (Suc c)
  let ?v = "clear_seen trace (8 * c) virgin"
  have b: "8 * Suc c \<le> length trace" "8 * Suc c \<le> length virgin" "8 * Suc c \<le> length ?v"
    using Suc.prems assms(2) by auto
  have eqv: "(ld_word ?v c :: u64) = ld_word virgin c"
    by (rule ld_word_cong) auto
  have bt: "le_bytes 8 (ld_word trace c :: u64) ! j = trace ! (8 * c + j)" if "j < 8" for j
    using nth_le_bytes_ld64 [OF b(1) that] .
  have bv: "le_bytes 8 (ld_word virgin c :: u64) ! j = virgin ! (8 * c + j)" if "j < 8" for j
    using nth_le_bytes_ld64 [OF b(2) that] .
  have st: "st_word ?v c (ld_word virgin c AND NOT (ld_word trace c) :: u64) =
      clear_seen trace (8 * Suc c) virgin"
    by (rule nth_equalityI)
      (auto simp: st64_bytes [OF b(3)] bt bv simp del: nth_le_bytes)
  have nov: "(if novelty trace virgin (8 * c) < 2 then
         if \<exists>j<8. trace ! (8 * c + j) \<noteq> 0 \<and> virgin ! (8 * c + j) = 0xff then 2
         else if \<exists>j<8. trace ! (8 * c + j) AND virgin ! (8 * c + j) \<noteq> 0 then 1
         else novelty trace virgin (8 * c)
       else novelty trace virgin (8 * c)) = novelty trace virgin (8 * Suc c)"
    unfolding novelty_def ex_less_Suc_block by auto
  have body: "new_bits_body trace c (novelty trace virgin (8 * c), ?v) =
      (novelty trace virgin (8 * Suc c), clear_seen trace (8 * Suc c) virgin)"
  proof (cases "(ld_word trace c :: u64) = 0")
    case True
    then have z: "\<forall>j<8. trace ! (8 * c + j) = 0" using bt by (simp del: nth_le_bytes)
    then have "novelty trace virgin (8 * Suc c) = novelty trace virgin (8 * c)"
      unfolding nov [symmetric] by auto
    moreover have "clear_seen trace (8 * Suc c) virgin = ?v"
    proof (rule nth_equalityI)
      fix i assume "i < length (clear_seen trace (8 * Suc c) virgin)"
      then show "clear_seen trace (8 * Suc c) virgin ! i = ?v ! i"
        using z [rule_format, of "i - 8 * c"] by auto
    qed simp
    ultimately show ?thesis using True by (simp add: new_bits_body_def)
  next
    case False
    have e: "(\<exists>j<8. le_bytes 8 (ld_word trace c :: u64) ! j \<noteq> 0 \<and>
          le_bytes 8 (ld_word virgin c :: u64) ! j = 0xff) \<longleftrightarrow>
        (\<exists>j<8. trace ! (8 * c + j) \<noteq> 0 \<and> virgin ! (8 * c + j) = 0xff)"
      "(\<exists>j<8. le_bytes 8 (ld_word trace c :: u64) ! j AND
          le_bytes 8 (ld_word virgin c :: u64) ! j \<noteq> 0) \<longleftrightarrow>
        (\<exists>j<8. trace ! (8 * c + j) AND virgin ! (8 * c + j) \<noteq> 0)"
      using bt bv by (auto simp del: nth_le_bytes)
    have "discover_word (novelty trace virgin (8 * c)) (ld_word trace c) (ld_word virgin c) =
        (novelty trace virgin (8 * Suc c), ld_word virgin c AND NOT (ld_word trace c))"
      unfolding discover_word_bytes Let_def e nov ..
    then show ?thesis using False st by (simp add: new_bits_body_def eqv)
  qed
  then show ?case using Suc by simp
qed

section \<open>Novelty detection\<close>

lemma get_virgin_length: "maps_allocated s \<Longrightarrow> length (get_virgin vm s) = length (trace_bits s)"
  by (cases vm) (simp_all add: maps_allocated_def)

lemma put_virgin_simps [simp]:
  "trace_bits (put_virgin vm m s) = trace_bits s"
  "map_size (put_virgin vm m s) = map_size s"
  "real_map_size (put_virgin vm m s) = real_map_size s"
  "bitmap_changed (put_virgin vm m s) = bitmap_changed s"
  "get_virgin vm (put_virgin vm m s) = m"
  by (cases vm; simp)+

lemma get_virgin_other [simp]:
  "vm \<noteq> vm' \<Longrightarrow> get_virgin vm (put_virgin vm' m s) = get_virgin vm s"
  by (cases vm; cases vm'; simp)

lemma get_virgin_upd [simp]:
  "get_virgin vm (s\<lparr>bitmap_changed := b\<rparr>) = get_virgin vm s"
  "get_virgin vm (s\<lparr>trace_bits := t\<rparr>) = get_virgin vm s"
  by (cases vm; simp)+

lemma has_new_bits_eq:
  assumes "maps_allocated s"
  shows "has_new_bits vm s =
    (let ret = novelty (trace_bits s) (get_virgin vm s) (map_bytes s);
         s' = put_virgin vm (clear_seen (trace_bits s) (map_bytes s) (get_virgin vm s)) s
     in (ret, if ret \<noteq> 0 \<and> vm = Virgin_Bits then s'\<lparr>bitmap_changed := 1\<rparr> else s'))"
  using new_bits_fold [of "unat (drop_bit 3 (real_map_size s + 7))" "trace_bits s" "get_virgin vm s"]
    get_virgin_length [OF assms, of vm] assms
  by (simp add: has_new_bits_def map_bytes_def maps_allocated_def Let_def)

lemma novelty_cleared:
  assumes "n \<le> length v"
  shows "novelty t (clear_seen t n v) n = 0"
proof -
  have "(clear_seen t n v ! i = 255) \<Longrightarrow> t ! i = 0" if "i < n" for i
  proof -
    assume "clear_seen t n v ! i = 255"
    then have "v ! i AND NOT (t ! i) = 255" using that assms by simp
    moreover have "t ! i AND (v ! i AND NOT (t ! i)) = 0" by simp
    ultimately show "t ! i = 0" by simp
  qed
  then show ?thesis using assms by (auto simp: novelty_def)
qed

lemma novelty_zero_iff: "novelty t v n = 0 \<longleftrightarrow> (\<forall>i<n. t ! i AND v ! i = 0)"
  by (auto simp: novelty_def)

lemma clear_seen_zero:
  assumes "novelty t v n = 0"
  shows "clear_seen t n v = v"
proof (rule nth_equalityI)
  fix i
  assume i: "i < length (clear_seen t n v)"
  have "v ! i AND NOT (t ! i) = v ! i" if "i < n"
  proof -
    from assms that have "t ! i AND v ! i = 0" by (simp add: novelty_zero_iff)
    then show ?thesis by (auto simp: bit_eq_iff bit_and_iff bit_not_iff)
  qed
  then show "clear_seen t n v ! i = v ! i" using i by simp
qed simp

lemma novelty_antimono:
  assumes "novelty u v n = 0" "n \<le> length v"
  shows "novelty u (clear_seen t n v) n = 0"
  unfolding novelty_zero_iff
proof (intro allI impI)
  fix i
  assume i: "i < n"
  with assms(1) have "u ! i AND v ! i = 0" by (simp add: novelty_zero_iff)
  then have "(u ! i AND v ! i) AND NOT (t ! i) = 0" by simp
  then show "u ! i AND clear_seen t n v ! i = 0" using i assms(2) by (simp add: and.assoc)
qed

section \<open>The fast path\<close>

lemma skim_word_bytes:
  assumes "8 * Suc k \<le> length current" "8 * Suc k \<le> length virgin"
  shows "skim_word count_class_lookup16 virgin current k \<longleftrightarrow>
    (\<exists>j<8. count_class_lookup8 (current ! (8 * k + j)) AND virgin ! (8 * k + j) \<noteq> 0)"
proof -
  let ?c = "ld_word current k :: u64"
  have c: "le_bytes 8 (classify_word count_class_lookup16 ?c) ! j =
      count_class_lookup8 (current ! (8 * k + j))" if "j < 8" for j
    using that nth_le_bytes_ld64 [OF assms(1) that]
    by (simp add: le_bytes_classify_word del: nth_le_bytes)
  have v: "le_bytes 8 (ld_word virgin k :: u64) ! j = virgin ! (8 * k + j)" if "j < 8" for j
    using nth_le_bytes_ld64 [OF assms(2) that] .
  have z: "current ! (8 * k + j) = 0" if "?c = 0" "j < 8" for j
    using nth_le_bytes_ld64 [OF assms(1) that(2)] that by (simp del: nth_le_bytes)
  have "classify_word count_class_lookup16 ?c AND ld_word virgin k \<noteq> 0 \<longleftrightarrow>
     (\<exists>j<8. count_class_lookup8 (current ! (8 * k + j)) AND virgin ! (8 * k + j) \<noteq> 0)"
    unfolding u64_zero_bytes by (simp add: c v del: nth_le_bytes cong: conj_cong)
  then show ?thesis using z by (auto simp: skim_word_def)
qed

lemma skim_from_eq:
  assumes "32 dvd msize" "4 dvd k"
  shows "skim_from tab virgin current msize k =
    (if \<exists>j \<ge> k. 8 * j < msize \<and> skim_word tab virgin current j then 1 else 0)"
  using assms
proof (induction tab virgin current msize k rule: skim_from.induct)
  case (1 tab virgin current msize k)
  let ?P = "skim_word tab virgin current"
  show ?case
  proof (cases "8 * k < msize")
    case False
    then show ?thesis by (subst skim_from.simps) auto
  next
    case True
    from 1(2,3) True obtain a b where ab: "msize = 32 * a" "k = 4 * b" by (auto elim!: dvdE)
    with True have inr: "8 * (k + 3) < msize" by simp
    have split: "(\<exists>j \<ge> k. 8 * j < msize \<and> ?P j) \<longleftrightarrow>
       ?P k \<or> ?P (k + 1) \<or> ?P (k + 2) \<or> ?P (k + 3) \<or> (\<exists>j \<ge> k + 4. 8 * j < msize \<and> ?P j)"
       (is "?L \<longleftrightarrow> ?R")
    proof
      assume ?L
      then obtain j where j: "k \<le> j" "8 * j < msize" "?P j" by blast
      from j(1) have "j = k \<or> j = k + 1 \<or> j = k + 2 \<or> j = k + 3 \<or> k + 4 \<le> j" by arith
      with j(2,3) show ?R by metis
    next
      have "?L" if "?P (k + i)" "i \<le> 3" for i
        using that inr by (intro exI [of _ "k + i"]) simp
      from this [of 0] this [of 1] this [of 2] this [of 3]
      have "?P k \<or> ?P (k + 1) \<or> ?P (k + 2) \<or> ?P (k + 3) \<Longrightarrow> ?L" by fastforce
      moreover have "\<exists>j \<ge> k + 4. 8 * j < msize \<and> ?P j \<Longrightarrow> ?L" by (meson add_leD1)
      moreover assume ?R
      ultimately show ?L by blast
    qed
    have d: "4 dvd k + 4" using ab(2) by simp
    have IH: "\<not> ?P k \<Longrightarrow> \<not> ?P (k + 1) \<Longrightarrow> \<not> ?P (k + 2) \<Longrightarrow> \<not> ?P (k + 3) \<Longrightarrow>
      skim_from tab virgin current msize (k + 4) =
        (if \<exists>j \<ge> k + 4. 8 * j < msize \<and> ?P j then 1 else 0)"
      using 1 True d by blast
    show ?thesis
      unfolding split skim_from.simps [of tab virgin current msize k]
      using True IH by (cases "?P k"; cases "?P (k + 1)"; cases "?P (k + 2)"; cases "?P (k + 3)") simp_all
  qed
qed

lemma skim_zero_iff:
  assumes "32 dvd unat msize" "unat msize \<le> length current" "unat msize \<le> length virgin"
  shows "skim count_class_lookup16 virgin current msize = 0 \<longleftrightarrow>
    (\<forall>i < unat msize. count_class_lookup8 (current ! i) AND virgin ! i = 0)"
proof -
  let ?Q = "\<lambda>i. count_class_lookup8 (current ! i) AND virgin ! i \<noteq> 0"
  obtain a where a: "unat msize = 32 * a" using assms(1) by (auto elim: dvdE)
  have w: "skim_word count_class_lookup16 virgin current k \<longleftrightarrow> (\<exists>j<8. ?Q (8 * k + j))"
    if "8 * k < unat msize" for k
    using that a assms(2,3) by (intro skim_word_bytes) auto
  have "(\<exists>k. 8 * k < unat msize \<and> skim_word count_class_lookup16 virgin current k) \<longleftrightarrow>
    (\<exists>i < unat msize. ?Q i)"
  proof
    assume "\<exists>k. 8 * k < unat msize \<and> skim_word count_class_lookup16 virgin current k"
    then obtain k j where "8 * k < unat msize" "j < 8" "?Q (8 * k + j)" using w by blast
    moreover from this have "8 * k + j < unat msize" using a by auto
    ultimately show "\<exists>i < unat msize. ?Q i" by blast
  next
    assume "\<exists>i < unat msize. ?Q i"
    then obtain i where i: "i < unat msize" "?Q i" by blast
    have e: "8 * (i div 8) + i mod 8 = i" by simp
    have "\<exists>j<8. ?Q (8 * (i div 8) + j)" using i(2) e by (intro exI [of _ "i mod 8"]) simp
    moreover have "8 * (i div 8) < unat msize" using i(1) e by linarith
    ultimately show "\<exists>k. 8 * k < unat msize \<and> skim_word count_class_lookup16 virgin current k"
      using w by blast
  qed
  then show ?thesis
    using skim_from_eq [OF assms(1), of 0] by (auto simp: skim_def)
qed

end
