(* ===== verification/Bitmap_Props.thy ===== *)
theory Bitmap_Props
  imports Bitmap
begin

text \<open>
  What the coverage map promises its clients: the novelty interface and its campaigns, the
  exactness of the probe, of its fast path, of the compaction, of the counters and of the two
  passes over a trace.
\<close>

section \<open>The interface the fuzzing loop relies on\<close>

text \<open>
  What the rest of the fuzzer uses of the virgin maps: a probe answers 0 for a trace that was
  probed before, and a trace that is not new never becomes new again. A whole campaign then
  reports every trace at most once.
\<close>


locale novelty_detector =
  fixes probe :: "'t \<Rightarrow> 's \<Rightarrow> u8 \<times> 's"
    and fits :: "'t \<Rightarrow> 's \<Rightarrow> bool"
  assumes fits_probe: "fits t s \<Longrightarrow> fits u s \<Longrightarrow> fits u (snd (probe t s))"
    and probe_seen: "fits t s \<Longrightarrow> fst (probe t (snd (probe t s))) = 0"
    and probe_stays: "fits t s \<Longrightarrow> fits u s \<Longrightarrow> fst (probe u s) = 0 \<Longrightarrow>
      fst (probe u (snd (probe t s))) = 0"
begin

lemma campaign_stays:
  "\<forall>t \<in> insert u (set ts). fits t s \<Longrightarrow> fst (probe u s) = 0 \<Longrightarrow>
     u \<notin> set (fst (campaign probe ts s)) \<and> fst (probe u (snd (campaign probe ts s))) = 0"
proof (induction ts arbitrary: s)
  case (Cons t ts)
  let ?s = "snd (probe t s)"
  have "fst (probe u ?s) = 0" using Cons.prems probe_stays by simp
  moreover have "\<forall>t \<in> insert u (set ts). fits t ?s" using Cons.prems(1) fits_probe by simp
  ultimately have "u \<notin> set (fst (campaign probe ts ?s)) \<and>
      fst (probe u (snd (campaign probe ts ?s))) = 0"
    by (intro Cons.IH)
  then show ?case using Cons.prems(2) by (auto simp: Let_def split: prod.splits)
qed simp

lemma campaign_found_distinct:
  "\<forall>t \<in> set ts. fits t s \<Longrightarrow> distinct (fst (campaign probe ts s))"
proof (induction ts arbitrary: s)
  case (Cons t ts)
  let ?s = "snd (probe t s)"
  have f: "\<forall>u \<in> insert t (set ts). fits u ?s" using Cons.prems fits_probe by simp
  moreover have "fst (probe t ?s) = 0" using Cons.prems probe_seen by simp
  ultimately have "t \<notin> set (fst (campaign probe ts ?s))" using campaign_stays by blast
  moreover have "distinct (fst (campaign probe ts ?s))" using f by (intro Cons.IH) simp
  ultimately show ?case by (auto simp: Let_def split: prod.splits)
qed simp

lemma campaign_all_seen:
  "\<forall>t \<in> set ts. fits t s \<Longrightarrow> u \<in> set ts \<Longrightarrow> fst (probe u (snd (campaign probe ts s))) = 0"
proof (induction ts arbitrary: s)
  case (Cons t ts)
  let ?s = "snd (probe t s)"
  have f: "\<forall>u \<in> insert t (set ts). fits u ?s" using Cons.prems fits_probe by simp
  have "fst (probe u (snd (campaign probe ts ?s))) = 0"
  proof (cases "u \<in> set ts")
    case True
    then show ?thesis using f by (intro Cons.IH) simp_all
  next
    case False
    then have "u = t" using Cons.prems(2) by simp
    then show ?thesis using f probe_seen Cons.prems campaign_stays [of t ts ?s] by simp
  qed
  then show ?case by (auto simp: Let_def split: prod.splits)
qed simp

end

lemma get_virgin_frame [simp]:
  "vm \<noteq> Virgin_Bits \<Longrightarrow> get_virgin vm (s\<lparr>virgin_bits := m\<rparr>) = get_virgin vm s"
  by (cases vm) simp_all

lemma map_bytes_simps [simp]:
  "map_bytes (put_virgin vm m s) = map_bytes s"
  "map_bytes (s\<lparr>trace_bits := t\<rparr>) = map_bytes s"
  "map_bytes (s\<lparr>bitmap_changed := b\<rparr>) = map_bytes s"
  "map_bytes (s\<lparr>virgin_bits := m\<rparr>) = map_bytes s"
  "map_bytes (s\<lparr>virgin_tmout := m\<rparr>) = map_bytes s"
  "map_bytes (s\<lparr>virgin_crash := m\<rparr>) = map_bytes s"
  by (simp_all add: map_bytes_def)

lemma probe_trace_eq:
  assumes "trace_fits t s"
  shows "fst (probe_trace vm t s) = novelty t (get_virgin vm s) (map_bytes s)"
    and "get_virgin vm (snd (probe_trace vm t s)) = clear_seen t (map_bytes s) (get_virgin vm s)"
    and "map_bytes (snd (probe_trace vm t s)) = map_bytes s"
    and "map_bytes s \<le> length (get_virgin vm s)"
  using assms has_new_bits_eq [of "s\<lparr>trace_bits := t\<rparr>" vm] get_virgin_length [of "s\<lparr>trace_bits := t\<rparr>" vm]
  by (auto simp: probe_trace_def trace_fits_def maps_allocated_def Let_def)

lemma trace_fits_probe:
  assumes "trace_fits t s" "trace_fits u s"
  shows "trace_fits u (snd (probe_trace vm t s))"
  using assms has_new_bits_eq [of "s\<lparr>trace_bits := t\<rparr>" vm]
  by (cases vm) (auto simp: probe_trace_def trace_fits_def maps_allocated_def Let_def)

interpretation coverage: novelty_detector "probe_trace vm" trace_fits
proof
  fix t u :: bytes and s :: bitmap_state
  assume t: "trace_fits t s"
  {
    assume u: "trace_fits u s"
    show "trace_fits u (snd (probe_trace vm t s))" using t u by (rule trace_fits_probe)
    show "fst (probe_trace vm u (snd (probe_trace vm t s))) = 0" if "fst (probe_trace vm u s) = 0"
      using that probe_trace_eq [OF t, of vm] probe_trace_eq(1) [OF u, of vm]
        probe_trace_eq(1) [OF trace_fits_probe [OF t u], of vm] novelty_antimono by simp
  }
  show "fst (probe_trace vm t (snd (probe_trace vm t s))) = 0"
    using probe_trace_eq [OF t, of vm] probe_trace_eq(1) [OF trace_fits_probe [OF t t], of vm]
      novelty_cleared by simp
qed

text \<open>Property C1. Over any sequence of traces fed to one virgin map, no trace is reported twice as new,
  and once the campaign is over every trace of it is known: probing it again reports nothing.\<close>

theorem campaign_reports_once:
  assumes "\<forall>t \<in> set ts. trace_fits t s"
  shows "distinct (fst (campaign (probe_trace vm) ts s)) \<and>
    (\<forall>u \<in> set ts. fst (probe_trace vm u (snd (campaign (probe_trace vm) ts s))) = 0)"
  using assms coverage.campaign_found_distinct coverage.campaign_all_seen by blast

theorem campaign_reports_once_witness:
  "fst (campaign (probe_trace Virgin_Bits) [[1,0,0,0,0,0,0,0], [1,0,0,0,0,0,0,0], [2,0,0,0,0,0,0,0]] ex_state) =
     [[1,0,0,0,0,0,0,0], [2,0,0,0,0,0,0,0]] \<and>
   distinct (fst (campaign (probe_trace Virgin_Bits) [[1,0,0,0,0,0,0,0], [1,0,0,0,0,0,0,0], [2,0,0,0,0,0,0,0]] ex_state))"
proof
  have "\<forall>t \<in> set [[1,0,0,0,0,0,0,0], [1,0,0,0,0,0,0,0], [2,0,0,0,0,0,0,0::u8]]. trace_fits t ex_state"
    by code_simp
  from campaign_reports_once [OF this, of Virgin_Bits]
  show "distinct (fst (campaign (probe_trace Virgin_Bits) [[1,0,0,0,0,0,0,0], [1,0,0,0,0,0,0,0], [2,0,0,0,0,0,0,0]] ex_state))"
    by blast
qed code_simp

text \<open>Property C3. \<^verbatim>\<open>has_new_bits\<close> returns 2 exactly when some byte of the map
  is hit that was never hit before (its virgin byte is 255), returns nonzero exactly when some set
  bit of the trace is still virgin, and afterwards precisely the bits of the trace are cleared from
  the virgin map; the trace is untouched and the map is flagged as changed exactly when the
  campaign-wide map gained.\<close>

theorem has_new_bits_exact:
  assumes "maps_allocated s"
  shows "case has_new_bits vm s of (ret, s') \<Rightarrow>
     (ret = 2 \<longleftrightarrow> (\<exists>i < map_bytes s. trace_bits s ! i \<noteq> 0 \<and> get_virgin vm s ! i = 0xff)) \<and>
     (ret \<noteq> 0 \<longleftrightarrow> (\<exists>i < map_bytes s. trace_bits s ! i AND get_virgin vm s ! i \<noteq> 0)) \<and>
     ret \<in> {0, 1, 2} \<and>
     get_virgin vm s' = clear_seen (trace_bits s) (map_bytes s) (get_virgin vm s) \<and>
     (\<forall>vm'. vm' \<noteq> vm \<longrightarrow> get_virgin vm' s' = get_virgin vm' s) \<and>
     trace_bits s' = trace_bits s \<and>
     bitmap_changed s' = (if ret \<noteq> 0 \<and> vm = Virgin_Bits then 1 else bitmap_changed s)"
proof -
  have "novelty t v n \<noteq> 0 \<longleftrightarrow> (\<exists>i<n. t ! i AND v ! i \<noteq> 0)" for t v n
    by (simp add: novelty_zero_iff)
  moreover have "novelty t v n = 2 \<longleftrightarrow> (\<exists>i<n. t ! i \<noteq> 0 \<and> v ! i = 0xff)"
    "novelty t v n \<in> {0, 1, 2}" for t v n
    by (simp_all add: novelty_def)
  ultimately show ?thesis
    unfolding has_new_bits_eq [OF assms] Let_def by auto
qed

theorem has_new_bits_exact_witness:
  "fst (has_new_bits Virgin_Crash (ex_state\<lparr>trace_bits := [0,0,3,0,0,0,0,0]\<rparr>)) = 2 \<and>
   (case has_new_bits Virgin_Crash (ex_state\<lparr>trace_bits := [0,0,3,0,0,0,0,0]\<rparr>) of (ret, s') \<Rightarrow>
      ret \<in> {0, 1, 2})"
proof
  have "maps_allocated (ex_state\<lparr>trace_bits := [0,0,3,0,0,0,0,0]\<rparr>)" by code_simp
  from has_new_bits_exact [OF this, of Virgin_Crash]
  show "case has_new_bits Virgin_Crash (ex_state\<lparr>trace_bits := [0,0,3,0,0,0,0,0]\<rparr>) of (ret, s') \<Rightarrow>
      ret \<in> {0, 1, 2}"
    by auto
qed code_simp

lemma length_classify_counts_mem:
  "8 * unat (drop_bit 3 msize) \<le> length mem \<Longrightarrow>
     length (classify_counts_mem count_class_lookup16 msize mem) = length mem"
  by (simp add: classify_counts_mem_bytes)

lemma unat_drop_bit3: "unat (drop_bit 3 (x :: u32)) = unat x div 8"
  by (simp only: unat_drop_bit_eq) (simp add: drop_bit_eq_div)

text \<open>Property C2. The vectorised fast path gives the answer of the slow path:
  \<^verbatim>\<open>has_new_bits_unclassified\<close> on a raw trace returns what
  \<^verbatim>\<open>has_new_bits\<close> returns on the classified trace and leaves the same virgin
  map; when the trace is not classified in place, nothing was new and nothing has changed.\<close>

theorem has_new_bits_unclassified_equiv:
  assumes "maps_allocated s" "32 dvd unat (map_size s)" "map_bytes s \<le> unat (map_size s)"
  shows "let slow = has_new_bits vm (classify_counts count_class_lookup16 s);
             (ret, classified, s') = has_new_bits_unclassified count_class_lookup16 vm False s
         in ret = fst slow \<and>
            get_virgin vm s' = get_virgin vm (snd slow) \<and>
            s' = (if classified then snd slow else s) \<and>
            (\<not> classified \<longrightarrow> ret = 0)"
proof -
  let ?m = "unat (map_size s)" and ?t = "trace_bits s" and ?v = "get_virgin vm s"
  let ?s = "classify_counts count_class_lookup16 s"
  have d8: "8 * unat (drop_bit 3 (map_size s)) = ?m"
    using assms(2) unfolding unat_drop_bit3 by (auto elim!: dvdE)
  have len: "?m \<le> length ?t" "length ?v = length ?t"
    using assms(1) d8 get_virgin_length [OF assms(1)] by (auto simp: maps_allocated_def)
  have tb: "trace_bits ?s = map count_class_lookup8 (take ?m ?t) @ drop ?m ?t"
    using classify_counts_mem_bytes [of "map_size s" ?t] len(1) d8
    by (simp add: classify_counts_def)
  have al: "maps_allocated ?s" using assms(1) len tb
    by (simp add: maps_allocated_def classify_counts_def map_bytes_def)
  have same: "get_virgin vm ?s = ?v" "map_bytes ?s = map_bytes s"
    by (simp_all add: classify_counts_def)
  show ?thesis
  proof (cases "skim count_class_lookup16 ?v ?t (map_size s) = 0")
    case False
    then show ?thesis by (auto simp: has_new_bits_unclassified_def Let_def split: prod.splits)
  next
    case True
    then have z: "\<forall>i < ?m. count_class_lookup8 (?t ! i) AND ?v ! i = 0"
      using skim_zero_iff [of "map_size s" ?t ?v] assms(2) len by simp
    have "novelty (trace_bits ?s) ?v (map_bytes s) = 0"
      unfolding novelty_zero_iff using z len assms(3) by (simp add: tb nth_append)
    then have "fst (has_new_bits vm ?s) = 0" "get_virgin vm (snd (has_new_bits vm ?s)) = ?v"
      using has_new_bits_eq [OF al, of vm] same clear_seen_zero by (auto simp: Let_def)
    with True show ?thesis by (simp add: has_new_bits_unclassified_def)
  qed
qed

theorem has_new_bits_unclassified_equiv_witness:
  "maps_allocated ex_map32 \<and>
   (let slow = has_new_bits Virgin_Bits (classify_counts count_class_lookup16 ex_map32);
        (ret, classified, s') =
          has_new_bits_unclassified count_class_lookup16 Virgin_Bits False ex_map32
    in ret = fst slow)"
proof
  show a: "maps_allocated ex_map32" by code_simp
  have "32 dvd unat (map_size ex_map32)" "map_bytes ex_map32 \<le> unat (map_size ex_map32)"
    by code_simp+
  from has_new_bits_unclassified_equiv [OF a this, of Virgin_Bits]
  show "let slow = has_new_bits Virgin_Bits (classify_counts count_class_lookup16 ex_map32);
        (ret, classified, s') =
          has_new_bits_unclassified count_class_lookup16 Virgin_Bits False ex_map32
    in ret = fst slow"
    by (auto simp: Let_def split: prod.splits)
qed

lemma minimize_bits_loop:
  assumes "n \<le> 8 * length dst"
  shows "length (fold (\<lambda>i d. if src ! i \<noteq> 0
             then d[i div 8 := d ! (i div 8) OR push_bit (i mod 8) 1] else d) [0..<n] dst) = length dst \<and>
    (\<forall>j < 8 * length dst.
       bit (fold (\<lambda>i d. if src ! i \<noteq> 0
             then d[i div 8 := d ! (i div 8) OR push_bit (i mod 8) 1] else d) [0..<n] dst ! (j div 8)) (j mod 8) \<longleftrightarrow>
       bit (dst ! (j div 8) :: u8) (j mod 8) \<or> j < n \<and> src ! j \<noteq> 0)"
  using assms
proof (induction n)
  case (Suc n)
  let ?f = "fold (\<lambda>i d. if src ! i \<noteq> 0
             then d[i div 8 := d ! (i div 8) OR push_bit (i mod 8) 1] else d) [0..<n] dst"
  have IH: "length ?f = length dst" "\<And>j. j < 8 * length dst \<Longrightarrow>
      bit (?f ! (j div 8)) (j mod 8) \<longleftrightarrow> bit (dst ! (j div 8)) (j mod 8) \<or> j < n \<and> src ! j \<noteq> 0"
    using Suc by simp_all
  have nb: "n div 8 < length dst" using Suc.prems by auto
  have eq: "j div 8 = n div 8 \<Longrightarrow> j mod 8 = n mod 8 \<longleftrightarrow> j = n" for j
    by (metis div_mult_mod_eq)
  have "bit (?f[n div 8 := ?f ! (n div 8) OR push_bit (n mod 8) 1] ! (j div 8)) (j mod 8) \<longleftrightarrow>
      bit (?f ! (j div 8)) (j mod 8) \<or> j = n" if "j < 8 * length dst" for j
    using that eq [of j] nb IH(1)
    by (auto simp: nth_list_update bit_or_iff bit_exp_iff possible_bit_def)
  then show ?case using IH by (auto simp: less_Suc_eq)
qed simp

lemma minimize_bits_bits:
  assumes "unat msize \<le> 8 * length dst"
  shows "length (minimize_bits msize dst src) = length dst"
    "j < 8 * length dst \<Longrightarrow> bit (minimize_bits msize dst src ! (j div 8)) (j mod 8) \<longleftrightarrow>
       bit (dst ! (j div 8)) (j mod 8) \<or> j < unat msize \<and> src ! j \<noteq> 0"
  using minimize_bits_loop [OF assms] unfolding minimize_bits_def by blast+

text \<open>\<^verbatim>\<open>minimize_bits\<close> sets bit j of the compact map exactly when
  byte j of the trace is nonzero, and keeps every bit that was already set.\<close>

theorem minimize_bits_exact:
  assumes "unat msize \<le> 8 * length dst"
  shows "length (minimize_bits msize dst src) = length dst \<and>
    (\<forall>j < 8 * length dst.
       bit (minimize_bits msize dst src ! (j div 8)) (j mod 8) \<longleftrightarrow>
       bit (dst ! (j div 8)) (j mod 8) \<or> j < unat msize \<and> src ! j \<noteq> 0)"
  using minimize_bits_bits [OF assms] by blast

theorem minimize_bits_exact_witness:
  "minimize_bits 10 [0, 0] [0, 3, 0, 0, 0, 0, 0, 1, 0, 7] = [130, 2] \<and>
   length (minimize_bits 10 [0, 0] [0, 3, 0, 0, 0, 0, 0, 1, 0, 7]) = length [0, 0 :: u8]"
proof
  have "unat (10 :: u32) \<le> 8 * length [0, 0 :: u8]" by simp
  from minimize_bits_exact [OF this, of "[0, 3, 0, 0, 0, 0, 0, 1, 0, 7]"]
  show "length (minimize_bits 10 [0, 0] [0, 3, 0, 0, 0, 0, 0, 1, 0, 7]) = length [0, 0 :: u8]" ..
qed code_simp

section \<open>Counters\<close>


lemma all_less_4: "(\<forall>j<4. P j) \<longleftrightarrow> P 0 \<and> P 1 \<and> P 2 \<and> P (3::nat)"
  by (auto simp: less_Suc_eq eval_nat_numeral)

lemma u32_zero_bytes: "(w :: u32) = 0 \<longleftrightarrow> (\<forall>j<4. le_bytes 4 w ! j = 0)"
  using word_eq_0_iff_bytes [where 'w = 32 and w = w] by simp

lemma u32_eq_bytes: "(v :: u32) = w \<longleftrightarrow> (\<forall>j<4. le_bytes 4 v ! j = le_bytes 4 w ! j)"
proof
  assume "\<forall>j<4. le_bytes 4 v ! j = le_bytes 4 w ! j"
  then have "le_bytes 4 v = le_bytes 4 w" by (intro nth_equalityI) (simp_all del: nth_le_bytes)
  then show "v = w" using le_bytes_inject [where 'w = 32 and v = v and w = w] by simp
qed simp

lemma mask_bytes:
  "le_bytes 4 (0x000000ff :: u32) = [255, 0, 0, 0]" "le_bytes 4 (0x0000ff00 :: u32) = [0, 255, 0, 0]"
  "le_bytes 4 (0x00ff0000 :: u32) = [0, 0, 255, 0]" "le_bytes 4 (0xff000000 :: u32) = [0, 0, 0, 255]"
  "le_bytes 4 (0xffffffff :: u32) = [255, 255, 255, 255]"
  by code_simp+

lemma byte_tests:
  fixes v :: u32
  shows "v AND 0x000000ff \<noteq> 0 \<longleftrightarrow> le_bytes 4 v ! 0 \<noteq> 0" "v AND 0x0000ff00 \<noteq> 0 \<longleftrightarrow> le_bytes 4 v ! 1 \<noteq> 0"
    "v AND 0x00ff0000 \<noteq> 0 \<longleftrightarrow> le_bytes 4 v ! 2 \<noteq> 0" "v AND 0xff000000 \<noteq> 0 \<longleftrightarrow> le_bytes 4 v ! 3 \<noteq> 0"
    "v AND 0x000000ff \<noteq> 0x000000ff \<longleftrightarrow> le_bytes 4 v ! 0 \<noteq> 255"
    "v AND 0x0000ff00 \<noteq> 0x0000ff00 \<longleftrightarrow> le_bytes 4 v ! 1 \<noteq> 255"
    "v AND 0x00ff0000 \<noteq> 0x00ff0000 \<longleftrightarrow> le_bytes 4 v ! 2 \<noteq> 255"
    "v AND 0xff000000 \<noteq> 0xff000000 \<longleftrightarrow> le_bytes 4 v ! 3 \<noteq> 255"
  unfolding u32_zero_bytes u32_eq_bytes all_less_4
  by (simp_all add: mask_bytes del: nth_le_bytes)

lemma list4:
  assumes "length xs = 4"
  obtains b0 b1 b2 b3 where "xs = [b0, b1, b2, b3]"
  using assms by (auto simp: length_Suc_conv eval_nat_numeral)

lemma count_bytes_word:
  fixes v :: u32
  shows "(if v = 0 then ret
         else (let ret = (if v AND 0x000000ff \<noteq> 0 then ret + 1 else ret);
                   ret = (if v AND 0x0000ff00 \<noteq> 0 then ret + 1 else ret);
                   ret = (if v AND 0x00ff0000 \<noteq> 0 then ret + 1 else ret)
               in (if v AND 0xff000000 \<noteq> 0 then ret + 1 else ret))) =
    (ret :: u32) + of_nat (length (filter (\<lambda>b. b \<noteq> 0) (le_bytes 4 v)))"
proof -
  obtain b0 b1 b2 b3 where b: "le_bytes 4 v = [b0, b1, b2, b3]" by (rule list4 [OF length_le_bytes])
  have "v = 0 \<longleftrightarrow> b0 = 0 \<and> b1 = 0 \<and> b2 = 0 \<and> b3 = 0"
    unfolding u32_zero_bytes all_less_4 b by simp
  then show ?thesis unfolding byte_tests b Let_def by simp
qed

lemma count_non_255_word:
  fixes v :: u32
  shows "(if v = 0xffffffff then ret
         else (let ret = (if v AND 0x000000ff \<noteq> 0x000000ff then ret + 1 else ret);
                   ret = (if v AND 0x0000ff00 \<noteq> 0x0000ff00 then ret + 1 else ret);
                   ret = (if v AND 0x00ff0000 \<noteq> 0x00ff0000 then ret + 1 else ret)
               in (if v AND 0xff000000 \<noteq> 0xff000000 then ret + 1 else ret))) =
    (ret :: u32) + of_nat (length (filter (\<lambda>b. b \<noteq> 255) (le_bytes 4 v)))"
proof -
  obtain b0 b1 b2 b3 where b: "le_bytes 4 v = [b0, b1, b2, b3]" by (rule list4 [OF length_le_bytes])
  have "v = 0xffffffff \<longleftrightarrow> b0 = 255 \<and> b1 = 255 \<and> b2 = 255 \<and> b3 = 255"
    unfolding u32_eq_bytes all_less_4 mask_bytes b by simp
  then show ?thesis unfolding byte_tests b Let_def by simp
qed

lemma popcount_bytes: "builtin_popcount (v :: u32) = sum_list (map builtin_popcount (le_bytes 4 v))"
proof -
  have seg: "length (filter (bit v) [k..<k + 8]) = builtin_popcount (ucast (drop_bit k v) :: u8)"
    for k
  proof -
    have "[k..<k + 8] = map (\<lambda>j. k + j) [0..<8]" by (simp add: map_add_upt add.commute)
    then have "length (filter (bit v) [k..<k + 8]) = length (filter (\<lambda>j. bit v (k + j)) [0..<8])"
      by (simp add: filter_map o_def)
    also have "\<dots> = length (filter (bit (ucast (drop_bit k v) :: u8)) [0..<8])"
      by (rule arg_cong [where f = length], rule filter_cong)
        (simp_all add: bit_ucast_iff bit_drop_bit_eq)
    finally show ?thesis by (simp add: builtin_popcount_def)
  qed
  have u: "[0..<LENGTH(32)] = [0..<0 + 8] @ [8..<8 + 8] @ [16..<16 + 8] @ [24..<24 + (8::nat)]"
    by code_simp
  have "builtin_popcount v =
      builtin_popcount (ucast (drop_bit 0 v) :: u8) + builtin_popcount (ucast (drop_bit 8 v) :: u8) +
      builtin_popcount (ucast (drop_bit 16 v) :: u8) + builtin_popcount (ucast (drop_bit 24 v) :: u8)"
    by (simp only: builtin_popcount_def [of v] u filter_append length_append seg add.assoc)
  moreover have "[0..<4] = [0, 1, 2, 3 :: nat]" by code_simp
  ultimately show ?thesis by (simp add: le_bytes_def)
qed

lemma word_fold_sum:
  fixes f :: "u32 \<Rightarrow> nat" and body :: "nat \<Rightarrow> u32 \<Rightarrow> u32"
  assumes body: "\<And>k ret. body k ret = ret + of_nat (f (ld_word mem k))"
    and f: "\<And>v. f v = sum_list (map g (le_bytes 4 v))"
    and len: "4 * c \<le> length mem"
  shows "fold body [0..<c] 0 = of_nat (sum_list (map g (take (4 * c) mem)))"
  using len
proof (induction c)
  case (Suc c)
  have "le_bytes 4 (ld_word mem c :: u32) = take 4 (drop (4 * c) mem)"
    using le_bytes_ld_word [where 'w = 32 and k = c and m = mem] Suc.prems by simp
  moreover have "take (4 * Suc c) mem = take (4 * c) mem @ take 4 (drop (4 * c) mem)"
    by (simp add: take_add [symmetric] add.commute)
  ultimately show ?case using Suc by (simp add: body f)
qed simp

lemma filter_sum: "length (filter P xs) = sum_list (map (\<lambda>x. if P x then 1 else 0) xs)"
  by (induction xs) simp_all

text \<open>The word-at-a-time counters \<^verbatim>\<open>count_bits\<close>,
  \<^verbatim>\<open>count_bytes\<close> and \<^verbatim>\<open>count_non_255_bytes\<close> return
  the number of set bits, of nonzero bytes and of bytes other than 255 of the words that cover the
  real map.\<close>

theorem counters_exact:
  assumes "count_span s \<le> length mem"
  shows "count_bits s mem = of_nat (sum_list (map builtin_popcount (take (count_span s) mem))) \<and>
    count_bytes s mem = of_nat (length (filter (\<lambda>b. b \<noteq> 0) (take (count_span s) mem))) \<and>
    count_non_255_bytes s mem = of_nat (length (filter (\<lambda>b. b \<noteq> 255) (take (count_span s) mem)))"
proof (intro conjI)
  let ?n = "unat (drop_bit 2 (real_map_size s + 3))"
  have len: "4 * ?n \<le> length mem" using assms by (simp add: count_span_def)
  have ones: "builtin_popcount (0xffffffff :: u32) = 32" by code_simp
  show "count_bits s mem = of_nat (sum_list (map builtin_popcount (take (count_span s) mem)))"
    unfolding count_bits_def count_span_def
    by (rule word_fold_sum [OF _ popcount_bytes len]) (simp add: Let_def ones)
  show "count_bytes s mem = of_nat (length (filter (\<lambda>b. b \<noteq> 0) (take (count_span s) mem)))"
    unfolding count_bytes_def count_span_def filter_sum [of _ "take _ _"]
    by (rule word_fold_sum [OF _ filter_sum len]) (simp only: Let_def count_bytes_word [unfolded Let_def])
  show "count_non_255_bytes s mem = of_nat (length (filter (\<lambda>b. b \<noteq> 255) (take (count_span s) mem)))"
    unfolding count_non_255_bytes_def count_span_def filter_sum [of _ "take _ _"]
    by (rule word_fold_sum [OF _ filter_sum len]) (simp only: Let_def count_non_255_word [unfolded Let_def])
qed

theorem counters_exact_witness:
  "count_span ex_state \<le> length [1, 0, 255, 3, 0, 0, 0, 128 :: u8] \<and>
   count_bytes ex_state [1, 0, 255, 3, 0, 0, 0, 128] = 4 \<and>
   count_bits ex_state [1, 0, 255, 3, 0, 0, 0, 128] = 12"
proof (intro conjI)
  let ?m = "[1, 0, 255, 3, 0, 0, 0, 128 :: u8]"
  show l: "count_span ex_state \<le> length ?m" by code_simp
  have "of_nat (length (filter (\<lambda>b. b \<noteq> 0) (take (count_span ex_state) ?m))) = (4 :: u32)"
    "of_nat (sum_list (map builtin_popcount (take (count_span ex_state) ?m))) = (12 :: u32)"
    by code_simp+
  with counters_exact [OF l] show "count_bytes ex_state ?m = 4" "count_bits ex_state ?m = 12"
    by (simp_all only:)
qed

section \<open>Trace passes\<close>

lemma simplify_class: "simplify_lookup (count_class_lookup8 b) = simplify_lookup b"
  by (simp add: simplify_lookup_def count_class_lookup8_def)

text \<open>On the whole-word part of a trace, \<^verbatim>\<open>classify_counts\<close> replaces every byte by
  its hit-count bucket and \<^verbatim>\<open>simplify_trace\<close> by 1 or 128; both leave the tail of the buffer
  alone, and classifying first makes no difference to the simplified trace.\<close>

theorem trace_passes_exact:
  assumes "8 * unat (drop_bit 3 (map_size s)) \<le> length (trace_bits s)"
  shows "let n = 8 * unat (drop_bit 3 (map_size s)); t = trace_bits s in
     trace_bits (classify_counts count_class_lookup16 s) =
       map count_class_lookup8 (take n t) @ drop n t \<and>
     trace_bits (simplify_trace s) = map simplify_lookup (take n t) @ drop n t \<and>
     trace_bits (simplify_trace (classify_counts count_class_lookup16 s)) =
       trace_bits (simplify_trace s)"
proof -
  let ?n = "8 * unat (drop_bit 3 (map_size s))"
  note c = classify_counts_mem_bytes [OF assms] and p = simplify_trace_mem_bytes [OF assms]
  have l: "?n \<le> length (classify_counts_mem count_class_lookup16 (map_size s) (trace_bits s))"
    using length_classify_counts_mem [OF assms] assms by simp
  have "simplify_trace_mem (map_size s)
      (classify_counts_mem count_class_lookup16 (map_size s) (trace_bits s)) =
    simplify_trace_mem (map_size s) (trace_bits s)"
    unfolding simplify_trace_mem_bytes [OF l] p unfolding c
    using assms by (simp add: simplify_class o_def min_def)
  then show ?thesis using c p by (simp add: Let_def classify_counts_def simplify_trace_def)
qed

theorem trace_passes_exact_witness:
  "trace_bits (classify_counts count_class_lookup16 (ex_state\<lparr>trace_bits := [0,1,2,3,5,9,40,200]\<rparr>)) =
     [0,1,2,4,8,16,64,128] \<and>
   trace_bits (simplify_trace (ex_state\<lparr>trace_bits := [0,1,2,3,5,9,40,200]\<rparr>)) =
     [1,128,128,128,128,128,128,128]"
proof -
  have "8 * unat (drop_bit 3 (map_size (ex_state\<lparr>trace_bits := [0,1,2,3,5,9,40,200]\<rparr>))) \<le>
      length (trace_bits (ex_state\<lparr>trace_bits := [0,1,2,3,5,9,40,200]\<rparr>))" by code_simp
  from trace_passes_exact [OF this] show ?thesis
    by (simp add: Let_def ex_state_def count_class_lookup8_def simplify_lookup_def)
qed

end
