(* ===== verification/Hashmap.thy ===== *)
theory Hashmap
  imports Afl_Prelude "HOL-Library.Multiset"
begin

text \<open>
  The chained hash set of \<^verbatim>\<open>AFLplusplus/src/hashmap.c\<close>, in which the redqueen stage remembers
  the comparison operands it has already tried. The chains are never shared, so a chain is the
  list of its keys, head first; the table is the list of the chains. The global pointer
  \<^verbatim>\<open>_hashmap\<close> is null before the first reset, live afterwards, and dangling after
  \<^verbatim>\<open>freeHashMap\<close>. Accesses through a pointer that is not live are errors of the model.
\<close>

section \<open>State and errors\<close>

datatype hashmap_ptr = Hm_Null | Hm_Live "u64 list list" | Hm_Freed

datatype hm_error = Null_Deref | Use_After_Free | Wild_Write nat

abbreviation TABLE_SIZE :: nat where "TABLE_SIZE \<equiv> 10007"

fun deref :: "hashmap_ptr \<Rightarrow> (u64 list list \<Rightarrow> hm_error + 'a) \<Rightarrow> hm_error + 'a" where
  "deref Hm_Null f = Inl Null_Deref"
| "deref (Hm_Live t) f = f t"
| "deref Hm_Freed f = Inl Use_After_Free"

section \<open>Operations\<close>

definition hashmap_reset :: "hashmap_ptr \<Rightarrow> hm_error + hashmap_ptr" where
  "hashmap_reset h =
     (if h = Hm_Null then Inr (Hm_Live (replicate TABLE_SIZE []))
      else deref h (\<lambda>t. Inr (Hm_Live (replicate TABLE_SIZE []))))"

definition hash :: "u64 \<Rightarrow> nat" where
  "hash key = unat (key mod 10007)"

text \<open>The search loop \<^verbatim>\<open>while (node) { if (node->key == key) ...; node = node->next; }\<close>.\<close>

fun chain_search :: "u64 \<Rightarrow> u64 list \<Rightarrow> bool" where
  "chain_search key [] = False"
| "chain_search key (node # rest) = (if node = key then True else chain_search key rest)"

text \<open>The value that is stored for a type tag and a key: the tag replaces bits 56 to 58.\<close>

definition key_mask :: u64 where
  "key_mask = 0xf8ffffffffffffff"

definition pack :: "u8 \<Rightarrow> u64 \<Rightarrow> u64" where
  "pack type key = (key AND key_mask) + push_bit 56 (ucast type)"

definition hashmap_search_and_add :: "u8 \<Rightarrow> u64 \<Rightarrow> hashmap_ptr \<Rightarrow> hm_error + bool \<times> hashmap_ptr" where
  "hashmap_search_and_add type key h =
     (if 8 \<le> type then Inr (False, h)
      else let val = pack type key; index = hash val in
        deref h (\<lambda>t. if chain_search val (t ! index) then Inr (True, h)
                     else Inr (False, Hm_Live (t[index := val # t ! index]))))"

text \<open>
  \<^verbatim>\<open>memcpy(((char *)key_t) + (7 - type), ...)\<close> casts the value 0 of \<^verbatim>\<open>key_t\<close> to a pointer instead of
  taking its address, so the copy goes to address \<^verbatim>\<open>7 - type\<close>.
\<close>

definition hashmap_search_and_add_ptr :: "u8 \<Rightarrow> bytes \<Rightarrow> hashmap_ptr \<Rightarrow> hm_error + bool \<times> hashmap_ptr" where
  "hashmap_search_and_add_ptr type key h =
     (if 8 \<le> type then Inr (False, h) else Inl (Wild_Write (7 - unat type)))"

definition hashmap_insert :: "u64 \<Rightarrow> hashmap_ptr \<Rightarrow> hm_error + hashmap_ptr" where
  "hashmap_insert key h =
     deref h (\<lambda>t. Inr (Hm_Live (t[hash key := key # t ! hash key])))"

definition hashmap_search :: "u64 \<Rightarrow> hashmap_ptr \<Rightarrow> hm_error + bool" where
  "hashmap_search key h = deref h (\<lambda>t. Inr (chain_search key (t ! hash key)))"

text \<open>The \<^verbatim>\<open>prev\<close>/\<^verbatim>\<open>node\<close> loop unlinks the first node that holds the key.\<close>

fun chain_delete :: "u64 \<Rightarrow> u64 list \<Rightarrow> u64 list" where
  "chain_delete key [] = []"
| "chain_delete key (node # rest) = (if node = key then rest else node # chain_delete key rest)"

definition hashmap_delete :: "u64 \<Rightarrow> hashmap_ptr \<Rightarrow> hm_error + hashmap_ptr" where
  "hashmap_delete key h =
     deref h (\<lambda>t. Inr (Hm_Live (t[hash key := chain_delete key (t ! hash key)])))"

text \<open>Called with \<^verbatim>\<open>_hashmap\<close> itself; the global keeps pointing at the freed memory.\<close>

definition freeHashMap :: "hashmap_ptr \<Rightarrow> hm_error + hashmap_ptr" where
  "freeHashMap h = deref h (\<lambda>t. Inr Hm_Freed)"

section \<open>Specification\<close>

text \<open>Every key sits in the chain of its hash, and the table represents a multiset of keys.\<close>

definition wf_table :: "u64 list list \<Rightarrow> bool" where
  "wf_table t \<longleftrightarrow> length t = TABLE_SIZE \<and> (\<forall>i < TABLE_SIZE. \<forall>k \<in> set (t ! i). hash k = i)"

definition keys_of :: "u64 list list \<Rightarrow> u64 multiset" where
  "keys_of t = sum_list (map mset t)"

text \<open>The answers to a sequence of look-up-and-add requests.\<close>

fun answers :: "('k \<Rightarrow> 's \<Rightarrow> bool \<times> 's) \<Rightarrow> 'k list \<Rightarrow> 's \<Rightarrow> bool list" where
  "answers test_add [] s = []"
| "answers test_add (k # ks) s = (let (b, s') = test_add k s in b # answers test_add ks s')"

definition table_test_add :: "u8 \<times> u64 \<Rightarrow> u64 list list \<Rightarrow> bool \<times> u64 list list" where
  "table_test_add = (\<lambda>(type, key) t.
     case hashmap_search_and_add type key (Hm_Live t) of
       Inr (b, Hm_Live t') \<Rightarrow> (b, t') | _ \<Rightarrow> (False, t))"

section \<open>Representation lemmas\<close>

lemma hash_less [simp]: "hash k < TABLE_SIZE"
  unfolding hash_def by (simp add: unat_mod)

lemma chain_search_iff [simp]: "chain_search k c \<longleftrightarrow> k \<in> set c"
  by (induction c) auto

lemma chain_delete_remove1 [simp]: "chain_delete k c = remove1 k c"
  by (induction c) auto

lemma wf_table_empty [simp]: "wf_table (replicate TABLE_SIZE [])"
  by (simp add: wf_table_def)

lemma keys_of_empty [simp]: "keys_of (replicate n []) = {#}"
  by (induction n) (simp_all add: keys_of_def)

lemma keys_of_update:
  "i < length t \<Longrightarrow> keys_of (t[i := c]) + mset (t ! i) = keys_of t + mset c"
proof (induction t arbitrary: i)
  case (Cons a t)
  then show ?case by (cases i) (auto simp: keys_of_def algebra_simps)
qed simp

lemma set_keys_of: "set_mset (keys_of t) = \<Union> (set (map set t))"
  by (induction t) (simp_all add: keys_of_def)

lemma chain_member:
  assumes "wf_table t"
  shows "k \<in> set (t ! hash k) \<longleftrightarrow> k \<in># keys_of t"
proof
  assume "k \<in> set (t ! hash k)"
  moreover have "t ! hash k \<in> set t" using assms hash_less [of k] by (simp add: wf_table_def)
  ultimately show "k \<in># keys_of t" unfolding set_keys_of by auto
next
  assume "k \<in># keys_of t"
  then obtain c where c: "c \<in> set t" "k \<in> set c" unfolding set_keys_of by auto
  then obtain i where i: "i < length t" "t ! i = c" by (auto simp: in_set_conv_nth)
  with c assms have "hash k = i" by (auto simp: wf_table_def)
  with c i show "k \<in> set (t ! hash k)" by simp
qed

lemma wf_table_update:
  "wf_table t \<Longrightarrow> \<forall>k' \<in> set c. hash k' = hash k \<Longrightarrow> wf_table (t[hash k := c])"
  by (auto simp: wf_table_def nth_list_update)

lemma keys_of_add:
  assumes "wf_table t"
  shows "keys_of (t[hash k := k # t ! hash k]) = add_mset k (keys_of t)"
  using keys_of_update [of "hash k" t "k # t ! hash k"] assms hash_less [of k]
  by (simp add: wf_table_def)

lemma keys_of_delete:
  assumes "wf_table t"
  shows "keys_of (t[hash k := remove1 k (t ! hash k)]) = keys_of t - {#k#}"
proof (cases "k \<in> set (t ! hash k)")
  case True
  let ?c = "t ! hash k" and ?t = "t[hash k := remove1 k (t ! hash k)]"
  have "keys_of ?t + mset ?c = keys_of t + mset (remove1 k ?c)"
    using keys_of_update [of "hash k" t "remove1 k ?c"] assms hash_less [of k]
    by (simp add: wf_table_def)
  moreover have "mset ?c = add_mset k (mset (remove1 k ?c))" using True by simp
  ultimately have "keys_of ?t + add_mset k (mset (remove1 k ?c)) = keys_of t + mset (remove1 k ?c)"
    by (simp only:)
  then have "add_mset k (keys_of ?t) + mset (remove1 k ?c) = keys_of t + mset (remove1 k ?c)"
    by (simp del: mset_remove1)
  then have "add_mset k (keys_of ?t) = keys_of t" by (rule add_right_imp_eq)
  then show ?thesis by (metis add_mset_remove_trivial)
next
  case False
  then show ?thesis using chain_member [OF assms] by (simp add: remove1_idem diff_single_trivial)
qed

lemma chain_hash: "wf_table t \<Longrightarrow> k' \<in> set (t ! hash k) \<Longrightarrow> hash k' = hash k"
  using hash_less [of k] by (auto simp: wf_table_def)

section \<open>The key packing\<close>

lemma key_mask_bits: "bit key_mask n \<longleftrightarrow> n < 64 \<and> \<not> (56 \<le> n \<and> n < 59)"
proof -
  have e: "key_mask = NOT (push_bit 56 (mask 3))" by code_simp
  show ?thesis by (subst e) (auto simp: bit_not_iff bit_push_bit_iff bit_mask_iff possible_bit_def)
qed

lemma small_type_bits:
  assumes "type < 8" "bit (type :: u8) n"
  shows "n < 3"
proof (rule ccontr)
  assume "\<not> n < 3"
  then have "(2 :: nat) ^ 3 \<le> 2 ^ n" by (intro power_increasing) auto
  moreover have "unat type < 8" using assms(1) by (simp add: word_less_nat_alt)
  ultimately have "unat type div 2 ^ n = 0" by simp
  then have "\<not> bit (unat type) n" by (simp add: bit_iff_odd)
  with assms(2) show False by (simp add: bit_unsigned_iff)
qed

lemma bit_pack:
  assumes "type < 8"
  shows "bit (pack type key) n \<longleftrightarrow>
    (if 56 \<le> n \<and> n < 59 then bit type (n - 56) else n < 64 \<and> bit key n)"
proof -
  have "pack type key = (key AND key_mask) OR push_bit 56 (ucast type)"
    unfolding pack_def
    by (rule disjunctive_add)
      (auto simp: bit_and_iff bit_push_bit_iff key_mask_bits bit_ucast_iff dest: small_type_bits [OF assms])
  then show ?thesis
    using small_type_bits [OF assms, of "n - 56"] bit_imp_le_length [of key n]
    by (auto simp: bit_or_iff bit_and_iff bit_push_bit_iff bit_ucast_iff key_mask_bits)
qed

lemma pack_eq_iff:
  assumes "type < 8" "type' < 8"
  shows "pack type key = pack type' key' \<longleftrightarrow>
    type = type' \<and> key AND key_mask = key' AND key_mask"
proof
  assume e: "pack type key = pack type' key'"
  have "bit type n = bit type' n" for n
    using arg_cong [OF e, of "\<lambda>w. bit w (56 + n)"] assms
      small_type_bits [of type n] small_type_bits [of type' n]
    by (cases "n < 3") (auto simp: bit_pack)
  then have "type = type'" by (rule bit_eqI)
  moreover have "key AND key_mask = key' AND key_mask"
  proof (rule bit_word_eqI)
    fix n
    assume "n < LENGTH(64)"
    then show "bit (key AND key_mask) n = bit (key' AND key_mask) n"
      using arg_cong [OF e, of "\<lambda>w. bit w n"] assms by (auto simp: bit_pack bit_and_iff key_mask_bits)
  qed
  ultimately show "type = type' \<and> key AND key_mask = key' AND key_mask" ..
qed (simp add: pack_def)

section \<open>The interface of a set of seen items\<close>

text \<open>
  What the redqueen stage relies on: a look-up-and-add request answers whether the item was
  there and leaves it there. \<open>rep\<close> is what two items must share to count as the same.
\<close>

locale seen_set =
  fixes test_add :: "'k \<Rightarrow> 's \<Rightarrow> bool \<times> 's"
    and rep :: "'k \<Rightarrow> 'v"
    and elems :: "'s \<Rightarrow> 'v set"
    and ok :: "'s \<Rightarrow> bool"
    and adm :: "'k \<Rightarrow> bool"
  assumes test_iff: "ok s \<Longrightarrow> adm k \<Longrightarrow> fst (test_add k s) \<longleftrightarrow> rep k \<in> elems s"
    and elems_add: "ok s \<Longrightarrow> adm k \<Longrightarrow> elems (snd (test_add k s)) = insert (rep k) (elems s)"
    and ok_add: "ok s \<Longrightarrow> adm k \<Longrightarrow> ok (snd (test_add k s))"
begin

lemma length_answers [simp]: "length (answers test_add ks s) = length ks"
  by (induction ks arbitrary: s) (simp_all add: Let_def split: prod.splits)

lemma answers_nth:
  "ok s \<Longrightarrow> \<forall>k \<in> set ks. adm k \<Longrightarrow> i < length ks \<Longrightarrow>
     answers test_add ks s ! i \<longleftrightarrow> rep (ks ! i) \<in> elems s \<union> rep ` set (take i ks)"
proof (induction ks arbitrary: s i)
  case (Cons k ks)
  obtain b s' where p: "test_add k s = (b, s')" by fastforce
  then have s': "b \<longleftrightarrow> rep k \<in> elems s" "elems s' = insert (rep k) (elems s)" "ok s'"
    using Cons.prems test_iff [of s k] elems_add [of s k] ok_add [of s k] by auto
  show ?case
  proof (cases i)
    case 0
    then show ?thesis using p s' by simp
  next
    case (Suc j)
    then have "answers test_add ks s' ! j \<longleftrightarrow> rep (ks ! j) \<in> elems s' \<union> rep ` set (take j ks)"
      using Cons.prems s' by (intro Cons.IH) auto
    then show ?thesis using Suc p s' by auto
  qed
qed simp

end

lemma hashmap_search_and_add_live:
  assumes "wf_table t" "type < 8"
  shows "hashmap_search_and_add type key (Hm_Live t) =
    (if pack type key \<in># keys_of t then Inr (True, Hm_Live t)
     else Inr (False, Hm_Live (t[hash (pack type key) := pack type key # t ! hash (pack type key)])))"
proof -
  have "\<not> 8 \<le> type" using assms(2) by (simp add: not_le)
  then show ?thesis using chain_member [OF assms(1), of "pack type key"]
    by (simp add: hashmap_search_and_add_def Let_def)
qed

lemma table_test_add_eq:
  assumes "wf_table t" "type < 8"
  shows "fst (table_test_add (type, key) t) \<longleftrightarrow> pack type key \<in># keys_of t"
    and "set_mset (keys_of (snd (table_test_add (type, key) t))) =
      insert (pack type key) (set_mset (keys_of t))"
    and "wf_table (snd (table_test_add (type, key) t))"
proof -
  let ?v = "pack type key"
  have "wf_table (t[hash ?v := ?v # t ! hash ?v])"
    using chain_hash [OF assms(1)] by (intro wf_table_update [OF assms(1)]) auto
  then show "fst (table_test_add (type, key) t) \<longleftrightarrow> ?v \<in># keys_of t"
    "set_mset (keys_of (snd (table_test_add (type, key) t))) = insert ?v (set_mset (keys_of t))"
    "wf_table (snd (table_test_add (type, key) t))"
    using keys_of_add [OF assms(1), of ?v] assms
    by (auto simp: table_test_add_def hashmap_search_and_add_live)
qed

interpretation tried: seen_set table_test_add "\<lambda>(type, key). pack type key"
  "\<lambda>t. set_mset (keys_of t)" wf_table "\<lambda>(type, key). type < 8"
  by unfold_locales (auto simp: table_test_add_eq)

section \<open>Properties\<close>



text \<open>After a reset, the answer to the i-th look-up-and-add request is yes exactly when an
  earlier request had the same type tag and the same key outside bits 56 to 58. The three
  lost bits are the price of the tag: 64-bit operands that differ only there are confused.\<close>

theorem hashmap_answers_exact:
  assumes "\<forall>(type, key) \<in> set reqs. type < 8" "i < length reqs"
  shows "hashmap_reset Hm_Null = Inr (Hm_Live (replicate TABLE_SIZE [])) \<and>
    (answers table_test_add reqs (replicate TABLE_SIZE []) ! i \<longleftrightarrow>
       (\<exists>j < i. fst (reqs ! j) = fst (reqs ! i) \<and>
          snd (reqs ! j) AND key_mask = snd (reqs ! i) AND key_mask))"
proof -
  have adm: "j < length reqs \<Longrightarrow> fst (reqs ! j) < 8" for j
    using assms(1) nth_mem [of j reqs] by (auto simp: case_prod_beta)
  have "answers table_test_add reqs (replicate TABLE_SIZE []) ! i \<longleftrightarrow>
      case_prod pack (reqs ! i) \<in> case_prod pack ` set (take i reqs)"
    using tried.answers_nth [of "replicate TABLE_SIZE []" reqs i] assms
    by (simp add: case_prod_beta)
  also have "\<dots> \<longleftrightarrow> (\<exists>j < i. case_prod pack (reqs ! i) = case_prod pack (reqs ! j))"
    unfolding nth_image [OF less_imp_le [OF assms(2)], symmetric] image_image
    by (auto simp: image_iff)
  also have "\<dots> \<longleftrightarrow> (\<exists>j < i. fst (reqs ! j) = fst (reqs ! i) \<and>
      snd (reqs ! j) AND key_mask = snd (reqs ! i) AND key_mask)"
  proof -
    have "case_prod pack (reqs ! i) = case_prod pack (reqs ! j) \<longleftrightarrow>
        fst (reqs ! j) = fst (reqs ! i) \<and>
        snd (reqs ! j) AND key_mask = snd (reqs ! i) AND key_mask" if "j < i" for j
      using pack_eq_iff [of "fst (reqs ! i)" "fst (reqs ! j)"] adm [of i] adm [of j] that assms(2)
      by (auto simp: case_prod_beta)
    then show ?thesis by blast
  qed
  finally show ?thesis by (simp add: hashmap_reset_def)
qed

theorem hashmap_answers_exact_witness:
  "answers table_test_add [(7, 1), (3, 1), (7, 1)] (replicate TABLE_SIZE []) ! 2"
proof -
  have "\<forall>(type, key) \<in> set [(7 :: u8, 1 :: u64), (3, 1), (7, 1)]. type < 8" by simp
  from hashmap_answers_exact [OF this, of 2] show ?thesis
    by (simp add: Ex_less_Suc numeral_2_eq_2)
qed

lemma hashmap_search_and_add_ptr_faults:
  assumes "type < 8"
  shows "hashmap_search_and_add_ptr type key h = Inl (Wild_Write (7 - unat type))"
proof -
  have "\<not> 8 \<le> type" using assms by (simp add: not_le)
  then show ?thesis by (simp add: hashmap_search_and_add_ptr_def)
qed

end
