(* ===== verification/Sha1.thy ===== *)
theory Sha1
  imports Afl_Prelude
begin

text \<open>
  The SHA-1 and HMAC-SHA1 code of \<^verbatim>\<open>AFLplusplus/src/afl-performance.c\<close>, which names queue
  entries, crashes and hangs when \<^verbatim>\<open>AFL_SHA1_FILENAMES\<close> is set. The code works on one block
  buffer of sixteen words that it fills byte by byte, in which it also expands the message
  schedule in place. The little-endian build is modelled (\<^verbatim>\<open>SHA_BIG_ENDIAN\<close> undefined).

  The reference below is FIPS 180: an eighty-word schedule, whole padded messages, big-endian
  words. The theorems say that the streaming code computes it.
\<close>

section \<open>The program\<close>

text \<open>\<^verbatim>\<open>buffer\<close> is an array of sixteen \<^verbatim>\<open>uint32_t\<close> that is also written through a byte pointer.\<close>

record sha1nfo =
  buffer :: bytes
  state :: "u32 list"
  byteCount :: u32
  bufferOffset :: u8
  keyBuffer :: bytes
  innerHash :: bytes

definition sha1_init :: "sha1nfo \<Rightarrow> sha1nfo" where
  "sha1_init s = s\<lparr>state := [0x67452301, 0xefcdab89, 0x98badcfe, 0x10325476, 0xc3d2e1f0],
     byteCount := 0, bufferOffset := 0\<rparr>"

definition sha1_rol32 :: "u32 \<Rightarrow> nat \<Rightarrow> u32" where
  "sha1_rol32 number bits = push_bit bits number OR drop_bit (32 - bits) number"

text \<open>One pass of the loop of \<^verbatim>\<open>sha1_hashBlock\<close> over the locals and the buffer.\<close>

definition sha1_round ::
  "nat \<Rightarrow> u32 \<times> u32 \<times> u32 \<times> u32 \<times> u32 \<times> bytes \<Rightarrow> u32 \<times> u32 \<times> u32 \<times> u32 \<times> u32 \<times> bytes" where
  "sha1_round i = (\<lambda>(a, b, c, d, e, buf).
     let buf = (if 16 \<le> i then
           (let t = ld_word buf ((i + 13) mod 16) XOR ld_word buf ((i + 8) mod 16) XOR
                    ld_word buf ((i + 2) mod 16) XOR ld_word buf (i mod 16)
            in st_word buf (i mod 16) (sha1_rol32 t 1))
         else buf);
         t = (if i < 20 then (d XOR (b AND (c XOR d))) + 0x5a827999
              else if i < 40 then (b XOR c XOR d) + 0x6ed9eba1
              else if i < 60 then ((b AND c) OR (d AND (b OR c))) + 0x8f1bbcdc
              else (b XOR c XOR d) + 0xca62c1d6);
         t = t + (sha1_rol32 a 5 + e + ld_word buf (i mod 16))
     in (t, a, sha1_rol32 b 30, c, d, buf))"

definition sha1_hashBlock :: "sha1nfo \<Rightarrow> sha1nfo" where
  "sha1_hashBlock s =
     (let (a, b, c, d, e, buf) = fold sha1_round [0..<80]
            (state s ! 0, state s ! 1, state s ! 2, state s ! 3, state s ! 4, buffer s)
      in s\<lparr>buffer := buf,
           state := [state s ! 0 + a, state s ! 1 + b, state s ! 2 + c, state s ! 3 + d,
                     state s ! 4 + e]\<rparr>)"

definition sha1_addUncounted :: "u8 \<Rightarrow> sha1nfo \<Rightarrow> sha1nfo" where
  "sha1_addUncounted data s =
     (let s = s\<lparr>buffer := (buffer s)[unat (bufferOffset s XOR 3) := data],
                bufferOffset := bufferOffset s + 1\<rparr>
      in if bufferOffset s = 64 then (sha1_hashBlock s)\<lparr>bufferOffset := 0\<rparr> else s)"

definition sha1_writebyte :: "u8 \<Rightarrow> sha1nfo \<Rightarrow> sha1nfo" where
  "sha1_writebyte data s = sha1_addUncounted data (s\<lparr>byteCount := byteCount s + 1\<rparr>)"

definition sha1_write :: "bytes \<Rightarrow> sha1nfo \<Rightarrow> sha1nfo" where
  "sha1_write data s = fold sha1_writebyte data s"

text \<open>
  \<^verbatim>\<open>while (s->bufferOffset != 56) sha1_addUncounted(s, 0x00);\<close> The fuel bounds the number of
  tests; 64 are always enough (lemma \<open>pad_loop_enough\<close>).
\<close>

fun pad_loop :: "nat \<Rightarrow> sha1nfo \<Rightarrow> sha1nfo option" where
  "pad_loop 0 s = None"
| "pad_loop (Suc fuel) s =
     (if bufferOffset s \<noteq> 56 then pad_loop fuel (sha1_addUncounted 0 s) else Some s)"

definition sha1_pad :: "sha1nfo \<Rightarrow> sha1nfo option" where
  "sha1_pad s = (case pad_loop 64 (sha1_addUncounted 0x80 s) of
       None \<Rightarrow> None
     | Some s \<Rightarrow> Some (let s = sha1_addUncounted 0 s;
           s = sha1_addUncounted 0 s;
           s = sha1_addUncounted 0 s;
           s = sha1_addUncounted (ucast (drop_bit 29 (byteCount s))) s;
           s = sha1_addUncounted (ucast (drop_bit 21 (byteCount s))) s;
           s = sha1_addUncounted (ucast (drop_bit 13 (byteCount s))) s;
           s = sha1_addUncounted (ucast (drop_bit 5 (byteCount s))) s
         in sha1_addUncounted (ucast (push_bit 3 (byteCount s))) s))"

definition swap32 :: "u32 \<Rightarrow> u32" where
  "swap32 w = (push_bit 24 w AND 0xff000000) OR (push_bit 8 w AND 0x00ff0000) OR
     (drop_bit 8 w AND 0x0000ff00) OR (drop_bit 24 w AND 0x000000ff)"

text \<open>The result is the \<^verbatim>\<open>state\<close> array, byte-swapped in place and read as bytes.\<close>

definition sha1_result :: "sha1nfo \<Rightarrow> (bytes \<times> sha1nfo) option" where
  "sha1_result s = (case sha1_pad s of
       None \<Rightarrow> None
     | Some s \<Rightarrow> (let s = s\<lparr>state := map swap32 (state s)\<rparr>
                  in Some (concat (map (le_bytes 4) (state s)), s)))"

text \<open>\<^verbatim>\<open>key\<close> points to \<^verbatim>\<open>keyLength\<close> bytes; a key of at most 64 bytes is zero-padded.\<close>

definition sha1_initHmac :: "bytes \<Rightarrow> sha1nfo \<Rightarrow> sha1nfo option" where
  "sha1_initHmac key s =
     (let s = s\<lparr>keyBuffer := replicate 64 0\<rparr>;
          r = (if 64 < length key then
                 map_option (\<lambda>(h, s). s\<lparr>keyBuffer := take 20 h @ drop 20 (keyBuffer s)\<rparr>)
                   (sha1_result (fold sha1_writebyte key (sha1_init s)))
               else Some (s\<lparr>keyBuffer := key @ drop (length key) (keyBuffer s)\<rparr>))
      in map_option (\<lambda>s. let s = sha1_init s in
           fold (\<lambda>i s. sha1_writebyte (keyBuffer s ! i XOR 0x36) s) [0..<64] s) r)"

definition sha1_resultHmac :: "sha1nfo \<Rightarrow> (bytes \<times> sha1nfo) option" where
  "sha1_resultHmac s = (case sha1_result s of
       None \<Rightarrow> None
     | Some (h, s) \<Rightarrow>
         (let s = s\<lparr>innerHash := take 20 h\<rparr>;
              s = sha1_init s;
              s = fold (\<lambda>i s. sha1_writebyte (keyBuffer s ! i XOR 0x5c) s) [0..<64] s;
              s = fold (\<lambda>i s. sha1_writebyte (innerHash s ! i) s) [0..<20] s
          in sha1_result s))"

text \<open>The stack variable \<^verbatim>\<open>sha1nfo s\<close> is uninitialised: its fields are arguments.\<close>

definition sha1 :: "sha1nfo \<Rightarrow> bytes \<Rightarrow> bytes option" where
  "sha1 uninit data = map_option (\<lambda>(h, s). take 20 h)
     (sha1_result (sha1_write data (sha1_init uninit)))"

definition hex_digit :: "nat \<Rightarrow> char" where
  "hex_digit n = ''0123456789abcdef'' ! n"

definition sha1_hex :: "sha1nfo \<Rightarrow> bytes \<Rightarrow> string option" where
  "sha1_hex uninit data = map_option
     (\<lambda>digest. concat (map (\<lambda>b. [hex_digit (unat b div 16), hex_digit (unat b mod 16)]) digest))
     (sha1 uninit data)"

section \<open>The reference\<close>

definition be_word :: "bytes \<Rightarrow> u32" where
  "be_word bs = le_word (rev bs)"

definition be_bytes :: "u32 \<Rightarrow> bytes" where
  "be_bytes w = rev (le_bytes 4 w)"

definition ref_ch :: "u32 \<Rightarrow> u32 \<Rightarrow> u32 \<Rightarrow> u32" where
  "ref_ch x y z = (x AND y) XOR (NOT x AND z)"

definition ref_maj :: "u32 \<Rightarrow> u32 \<Rightarrow> u32 \<Rightarrow> u32" where
  "ref_maj x y z = (x AND y) XOR (x AND z) XOR (y AND z)"

fun ref_schedule :: "bytes \<Rightarrow> nat \<Rightarrow> u32" where
  "ref_schedule block t =
     (if t < 16 then be_word (take 4 (drop (4 * t) block))
      else sha1_rol32 (ref_schedule block (t - 3) XOR ref_schedule block (t - 8) XOR
             ref_schedule block (t - 14) XOR ref_schedule block (t - 16)) 1)"

declare ref_schedule.simps [simp del]

definition ref_step ::
  "bytes \<Rightarrow> nat \<Rightarrow> u32 \<times> u32 \<times> u32 \<times> u32 \<times> u32 \<Rightarrow> u32 \<times> u32 \<times> u32 \<times> u32 \<times> u32" where
  "ref_step block t = (\<lambda>(a, b, c, d, e).
     let (f, K) = (if t < 20 then (ref_ch b c d, 0x5a827999)
                   else if t < 40 then (b XOR c XOR d, 0x6ed9eba1)
                   else if t < 60 then (ref_maj b c d, 0x8f1bbcdc)
                   else (b XOR c XOR d, 0xca62c1d6))
     in (sha1_rol32 a 5 + f + e + K + ref_schedule block t, a, sha1_rol32 b 30, c, d))"

definition ref_compress :: "bytes \<Rightarrow> u32 list \<Rightarrow> u32 list" where
  "ref_compress block H =
     (let (a, b, c, d, e) = fold (ref_step block) [0..<80] (H ! 0, H ! 1, H ! 2, H ! 3, H ! 4)
      in [H ! 0 + a, H ! 1 + b, H ! 2 + c, H ! 3 + d, H ! 4 + e])"

definition ref_init :: "u32 list" where
  "ref_init = [0x67452301, 0xefcdab89, 0x98badcfe, 0x10325476, 0xc3d2e1f0]"

text \<open>Absorbing a message of whole blocks, and the padding of FIPS 180 (length below \<open>2 ^ 61\<close>).\<close>

function ref_absorb :: "bytes \<Rightarrow> u32 list \<Rightarrow> u32 list" where
  "ref_absorb msg H =
     (if length msg < 64 then H else ref_absorb (drop 64 msg) (ref_compress (take 64 msg) H))"
  by pat_completeness auto
termination
  by (relation "measure (\<lambda>(msg, H). length msg)") auto

declare ref_absorb.simps [simp del]

definition ref_padding :: "nat \<Rightarrow> bytes" where
  "ref_padding n = [0x80] @ replicate ((119 - n mod 64) mod 64) 0 @ rev (le_bytes 8 (of_nat (8 * n) :: u64))"

definition ref_sha1 :: "bytes \<Rightarrow> bytes" where
  "ref_sha1 msg = concat (map be_bytes (ref_absorb (msg @ ref_padding (length msg)) ref_init))"

definition ref_hmac_key :: "bytes \<Rightarrow> bytes" where
  "ref_hmac_key key = (let k = (if 64 < length key then ref_sha1 key else key)
     in k @ replicate (64 - length k) 0)"

definition ref_hmac :: "bytes \<Rightarrow> bytes \<Rightarrow> bytes" where
  "ref_hmac key msg =
     ref_sha1 (map (\<lambda>b. b XOR 0x5c) (ref_hmac_key key) @
       ref_sha1 (map (\<lambda>b. b XOR 0x36) (ref_hmac_key key) @ msg))"

section \<open>Invariants\<close>

text \<open>The sixteen words of the buffer hold the latest sixteen words of the schedule.\<close>

definition window :: "bytes \<Rightarrow> nat \<Rightarrow> bytes \<Rightarrow> bool" where
  "window block n buf \<longleftrightarrow> length buf = 64 \<and>
     (\<forall>t. t < max n 16 \<and> max n 16 \<le> t + 16 \<longrightarrow> ld_word buf (t mod 16) = ref_schedule block t)"

text \<open>
  \<^verbatim>\<open>bufferOffset ^ 3\<close> is where a byte of the block lands in the little-endian buffer. A
  stream state has absorbed the whole blocks of the message and holds the rest in the buffer.
\<close>

definition swz :: "nat \<Rightarrow> nat" where
  "swz i = 4 * (i div 4) + (3 - i mod 4)"

definition stream :: "u32 list \<Rightarrow> bytes \<Rightarrow> sha1nfo \<Rightarrow> bool" where
  "stream H msg s \<longleftrightarrow> length (buffer s) = 64 \<and>
     unat (bufferOffset s) = length msg mod 64 \<and>
     state s = ref_absorb (take (64 * (length msg div 64)) msg) H \<and>
     (\<forall>i < length msg mod 64. buffer s ! swz i = msg ! (64 * (length msg div 64) + i))"

definition same_aux :: "sha1nfo \<Rightarrow> sha1nfo \<Rightarrow> bool" where
  "same_aux s s' \<longleftrightarrow> byteCount s' = byteCount s \<and> keyBuffer s' = keyBuffer s \<and> innerHash s' = innerHash s"

text \<open>Reading a hexadecimal digit back, and an uninitialised stack frame.\<close>

definition hex_value :: "char \<Rightarrow> nat" where
  "hex_value c = length (takeWhile (\<lambda>d. d \<noteq> c) ''0123456789abcdef'')"

definition junk_nfo :: sha1nfo where
  "junk_nfo = \<lparr>buffer = replicate 64 0xa5, state = [], byteCount = 7, bufferOffset = 9,
     keyBuffer = replicate 64 0x5a, innerHash = replicate 20 1\<rparr>"

section \<open>One block\<close>

lemma ld_st32:
  "4 * Suc k \<le> length m \<Longrightarrow> 4 * Suc j \<le> length m \<Longrightarrow>
     (ld_word (st_word m k (w :: u32)) j :: u32) = (if j = k then w else ld_word m j)"
  using ld_st_word [where 'w = 32 and k = k and j = j and m = m and w = w] by simp

lemma length_st32: "4 * Suc k \<le> length m \<Longrightarrow> length (st_word m k (w :: u32)) = length m"
  using length_st_word [where 'w = 32 and k = k and m = m] by simp

text \<open>The boolean functions of the code are the ones of the standard.\<close>

lemma ch_eq: "d XOR (b AND (c XOR d)) = ref_ch b c d"
  unfolding ref_ch_def by (rule bit_word_eqI) (auto simp: bit_and_iff bit_xor_iff bit_not_iff)

lemma maj_eq: "(b AND c) OR (d AND (b OR c)) = ref_maj b c d"
  unfolding ref_maj_def by (rule bit_word_eqI) (auto simp: bit_and_iff bit_xor_iff bit_or_iff)

lemma window_get: "window block n buf \<Longrightarrow> t < max n 16 \<Longrightarrow> max n 16 \<le> t + 16 \<Longrightarrow>
    ld_word buf (t mod 16) = ref_schedule block t"
  by (simp add: window_def)

lemma window_step:
  assumes "window block n buf" "16 \<le> n"
  shows "window block (Suc n) (st_word buf (n mod 16) (sha1_rol32
     (ld_word buf ((n + 13) mod 16) XOR ld_word buf ((n + 8) mod 16) XOR
      ld_word buf ((n + 2) mod 16) XOR ld_word buf (n mod 16)) 1))" (is "window _ _ ?buf")
proof -
  have m: "(n + 13) mod 16 = (n - 3) mod 16" "(n + 8) mod 16 = (n - 8) mod 16"
    "(n + 2) mod 16 = (n - 14) mod 16" "n mod 16 = (n - 16) mod 16"
    using assms(2) by (simp_all add: mod_eq_dvd_iff_nat mod_if [of n])
  have w: "sha1_rol32
     (ld_word buf ((n + 13) mod 16) XOR ld_word buf ((n + 8) mod 16) XOR
      ld_word buf ((n + 2) mod 16) XOR ld_word buf (n mod 16)) 1 = ref_schedule block n"
    unfolding m using assms window_get [OF assms(1), of "n - 3"] window_get [OF assms(1), of "n - 8"]
      window_get [OF assms(1), of "n - 14"] window_get [OF assms(1), of "n - 16"]
    by (simp add: ref_schedule.simps [of block n])
  have l: "length buf = 64" using assms(1) by (simp add: window_def)
  have b: "4 * Suc (t mod 16) \<le> length buf" for t
  proof -
    have "t mod 16 < 16" by simp
    then show ?thesis using l by simp
  qed
  show ?thesis
    unfolding w window_def
  proof (intro conjI allI impI)
    show "length (st_word buf (n mod 16) (ref_schedule block n)) = 64"
      using l length_st32 [OF b] by simp
    fix t
    assume t: "t < max (Suc n) 16 \<and> max (Suc n) 16 \<le> t + 16"
    have "t mod 16 = n mod 16 \<longleftrightarrow> t = n"
    proof
      assume e: "t mod 16 = n mod 16"
      have "16 * (t div 16) \<le> 16 * (n div 16)" "16 * (n div 16) < 16 * (t div 16) + 16"
        using t assms(2) e mult_div_mod_eq [of 16 t] mult_div_mod_eq [of 16 n] by linarith+
      then have "t div 16 = n div 16" by simp
      with e show "t = n" by (metis mult_div_mod_eq)
    qed simp
    then show "ld_word (st_word buf (n mod 16) (ref_schedule block n)) (t mod 16) = ref_schedule block t"
      using window_get [OF assms(1), of t] t assms(2) by (auto simp: ld_st32 [OF b b])
  qed
qed

lemma rounds_eq:
  assumes "window block 0 buf" "n \<le> 80"
  shows "\<exists>buf'. window block n buf' \<and>
    fold sha1_round [0..<n] (a, b, c, d, e, buf) =
      (case fold (ref_step block) [0..<n] (a, b, c, d, e) of (a, b, c, d, e) \<Rightarrow> (a, b, c, d, e, buf'))"
  using assms(2)
proof (induction n)
  case 0
  then show ?case using assms(1) by auto
next
  case (Suc n)
  then obtain buf1 where b1: "window block n buf1"
    "fold sha1_round [0..<n] (a, b, c, d, e, buf) =
      (case fold (ref_step block) [0..<n] (a, b, c, d, e) of (a, b, c, d, e) \<Rightarrow> (a, b, c, d, e, buf1))"
    by auto
  obtain a1 b1' c1 d1 e1 where r: "fold (ref_step block) [0..<n] (a, b, c, d, e) = (a1, b1', c1, d1, e1)"
    by (metis prod.exhaust)
  define buf2 where "buf2 = (if 16 \<le> n then st_word buf1 (n mod 16) (sha1_rol32
     (ld_word buf1 ((n + 13) mod 16) XOR ld_word buf1 ((n + 8) mod 16) XOR
      ld_word buf1 ((n + 2) mod 16) XOR ld_word buf1 (n mod 16)) 1) else buf1)"
  have e2: "(if 16 \<le> n then
           (let t = ld_word buf1 ((n + 13) mod 16) XOR ld_word buf1 ((n + 8) mod 16) XOR
                    ld_word buf1 ((n + 2) mod 16) XOR ld_word buf1 (n mod 16)
            in st_word buf1 (n mod 16) (sha1_rol32 t 1)) else buf1) = buf2"
    by (simp add: buf2_def Let_def)
  have w2: "window block (Suc n) buf2"
    using b1(1) window_step [OF b1(1)] by (auto simp: buf2_def window_def max_def)
  then have ld: "ld_word buf2 (n mod 16) = ref_schedule block n"
    using window_get [OF w2, of n] by simp
  have "sha1_round n (a1, b1', c1, d1, e1, buf1) =
      (case ref_step block n (a1, b1', c1, d1, e1) of (a, b, c, d, e) \<Rightarrow> (a, b, c, d, e, buf2))"
    unfolding sha1_round_def ref_step_def prod.case e2
    using ld by (auto simp: Let_def ch_eq maj_eq algebra_simps)
  then show ?case using w2 b1(2) r by (auto simp: case_prod_beta)
qed

lemma hashBlock_eq:
  assumes "length (buffer s) = 64" "\<And>j. j < 16 \<Longrightarrow> ld_word (buffer s) j = be_word (take 4 (drop (4 * j) block))"
  shows "state (sha1_hashBlock s) = ref_compress block (state s) \<and> length (buffer (sha1_hashBlock s)) = 64 \<and>
    byteCount (sha1_hashBlock s) = byteCount s \<and> keyBuffer (sha1_hashBlock s) = keyBuffer s \<and>
    innerHash (sha1_hashBlock s) = innerHash s"
proof -
  have "window block 0 (buffer s)"
    using assms by (auto simp: window_def ref_schedule.simps)
  from rounds_eq [OF this, of 80] obtain buf' where
    b: "window block 80 buf'" and
    "fold sha1_round [0..<80] (state s ! 0, state s ! 1, state s ! 2, state s ! 3, state s ! 4, buffer s) =
      (case fold (ref_step block) [0..<80] (state s ! 0, state s ! 1, state s ! 2, state s ! 3, state s ! 4)
       of (a, b, c, d, e) \<Rightarrow> (a, b, c, d, e, buf'))"
    by blast
  then show ?thesis
    unfolding sha1_hashBlock_def ref_compress_def by (auto simp: Let_def window_def case_prod_beta)
qed

lemma ref_absorb_append:
  "64 dvd length xs \<Longrightarrow> ref_absorb (xs @ ys) H = ref_absorb ys (ref_absorb xs H)"
proof (induction xs H rule: ref_absorb.induct)
  case (1 msg H)
  show ?case
  proof (cases "length msg < 64")
    case True
    then have "msg = []" using 1(2) by (auto elim!: dvdE)
    then show ?thesis by (simp add: ref_absorb.simps [of "[]" H])
  next
    case False
    then have "64 dvd length (drop 64 msg)" using 1(2) by simp
    with 1(1) False have "ref_absorb (drop 64 msg @ ys) (ref_compress (take 64 msg) H) =
        ref_absorb ys (ref_absorb (drop 64 msg) (ref_compress (take 64 msg) H))" by simp
    with False show ?thesis
      by (simp add: ref_absorb.simps [of "msg @ ys" H] ref_absorb.simps [of msg H])
  qed
qed

lemma ref_absorb_block: "length blk = 64 \<Longrightarrow> ref_absorb blk H = ref_compress blk H"
  by (simp add: ref_absorb.simps)

lemma ref_absorb_short: "length xs < 64 \<Longrightarrow> ref_absorb xs H = H"
  by (simp add: ref_absorb.simps)

section \<open>The stream invariant\<close>

lemma unat_xor3: "unat (off :: u8) < 64 \<Longrightarrow> unat (off XOR 3) = swz (unat off)"
proof -
  assume a: "unat off < 64"
  have "\<forall>i \<in> set [0..<64]. unat (word_of_nat i XOR 3 :: u8) = swz i" by code_simp
  from bspec [OF this, of "unat off"] a show ?thesis by simp
qed

lemma swz_div_mod: "swz i div 4 = i div 4" "swz i mod 4 = 3 - i mod 4"
proof -
  define x where "x = 3 - i mod 4"
  have "swz i = 4 * (i div 4) + x" "x < 4" by (simp_all add: x_def swz_def)
  then show "swz i div 4 = i div 4" "swz i mod 4 = 3 - i mod 4" unfolding x_def [symmetric] by simp_all
qed

lemma swz_inj: "swz i = swz j \<longleftrightarrow> i = j"
proof
  assume "swz i = swz j"
  then have d: "i div 4 = j div 4" and m: "3 - i mod 4 = 3 - j mod 4"
    using swz_div_mod [of i] swz_div_mod [of j] by simp_all
  have "i mod 4 < 4" "j mod 4 < 4" by simp_all
  with m have "i mod 4 = j mod 4" by linarith
  with d show "i = j" by (metis mult_div_mod_eq)
qed simp

lemma swz_less:
  assumes "i < 64"
  shows "swz i < 64"
proof -
  have "i div 4 < 16" using assms by (simp add: div_less_iff_less_mult)
  then show ?thesis by (simp add: swz_def)
qed

lemma swz_word: "k < 4 \<Longrightarrow> swz (4 * j + k) = 4 * j + (3 - k)"
  by (simp add: swz_def)

lemma swizzled_word:
  assumes "length buf = 64" "length block = 64" "\<And>i. i < 64 \<Longrightarrow> buf ! swz i = block ! i" "j < 16"
  shows "ld_word buf j = be_word (take 4 (drop (4 * j) block))"
proof -
  have "buf ! (4 * j + k) = block ! (4 * j + (3 - k))" if "k < 4" for k
    using assms(3) [of "4 * j + (3 - k)"] swz_word [of "3 - k" j] that assms(4) by simp
  then have "take 4 (drop (4 * j) buf) = rev (take 4 (drop (4 * j) block))"
    using assms(1,2,4) by (intro nth_equalityI) (simp_all add: rev_nth)
  then show ?thesis by (simp add: ld_word_def be_word_def)
qed

lemma stream_add:
  assumes "stream H msg s"
  shows "stream H (msg @ [b]) (sha1_addUncounted b s) \<and> same_aux s (sha1_addUncounted b s)"
proof -
  define r where "r = length msg mod 64"
  define q where "q = length msg div 64"
  have len: "length msg = 64 * q + r" "r < 64" by (simp_all add: q_def r_def)
  let ?buf = "(buffer s)[swz r := b]"
  let ?s = "s\<lparr>buffer := ?buf, bufferOffset := bufferOffset s + 1\<rparr>"
  have str: "length (buffer s) = 64" "unat (bufferOffset s) = r" "state s = ref_absorb (take (64 * q) msg) H"
    "\<And>i. i < r \<Longrightarrow> buffer s ! swz i = msg ! (64 * q + i)"
    using assms by (simp_all add: stream_def q_def r_def)
  have off: "unat (bufferOffset s + 1) = r + 1" "bufferOffset s + 1 = 64 \<longleftrightarrow> r = 63"
  proof -
    show u: "unat (bufferOffset s + 1) = r + 1"
      using str(2) len(2) by (simp add: unat_word_ariths)
    have "bufferOffset s + 1 = 64 \<longleftrightarrow> unat (bufferOffset s + 1) = unat (64 :: u8)"
      by (metis unsigned_word_eqI)
    then show "bufferOffset s + 1 = 64 \<longleftrightarrow> r = 63" unfolding u by simp
  qed
  have buf: "?buf ! swz i = (msg @ [b]) ! (64 * q + i)" if "i \<le> r" for i
    using that str(1,4) len swz_inj [of r i] swz_less [of i]
    by (cases "i = r") (simp_all add: nth_append)
  have add: "sha1_addUncounted b s = (if r = 63 then (sha1_hashBlock ?s)\<lparr>bufferOffset := 0\<rparr> else ?s)"
    using unat_xor3 [of "bufferOffset s"] str(2) len(2) off(2)
    by (simp add: sha1_addUncounted_def Let_def)
  show ?thesis
  proof (cases "r = 63")
    case False
    then have "length (msg @ [b]) mod 64 = r + 1" "length (msg @ [b]) div 64 = q"
      using len by simp_all
    then show ?thesis
      using False add str(1,3) len off(1) buf
      by (auto simp: stream_def same_aux_def)
  next
    case True
    let ?blk = "drop (64 * q) (msg @ [b])"
    have L: "length (msg @ [b]) = 64 * Suc q" "length ?blk = 64" using len True by simp_all
    have M: "length (msg @ [b]) mod 64 = 0" "length (msg @ [b]) div 64 = Suc q"
      unfolding L(1) by simp_all
    have "?buf ! swz i = ?blk ! i" if "i < 64" for i
      using buf [of i] that True len by (simp add: nth_append)
    then have w: "ld_word (buffer ?s) j = be_word (take 4 (drop (4 * j) ?blk))" if "j < 16" for j
      using swizzled_word [of "buffer ?s" ?blk j] str(1) L(2) that by simp
    have hb: "state (sha1_hashBlock ?s) = ref_compress ?blk (ref_absorb (take (64 * q) msg) H)"
      "length (buffer (sha1_hashBlock ?s)) = 64" "same_aux s (sha1_hashBlock ?s)"
      using hashBlock_eq [of ?s ?blk, OF _ w] str(1,3) by (simp_all add: same_aux_def)
    have "ref_absorb (msg @ [b]) H = ref_absorb (take (64 * q) msg @ ?blk) H"
      using len by (simp flip: append_assoc)
    also have "\<dots> = ref_compress ?blk (ref_absorb (take (64 * q) msg) H)"
      using len L(2) by (subst ref_absorb_append) (simp_all add: ref_absorb_block min_def)
    finally show ?thesis
      using True add hb M L(1) by (simp add: stream_def same_aux_def)
  qed
qed

lemma stream_fold:
  "stream H msg s \<Longrightarrow> stream H (msg @ bs) (fold sha1_addUncounted bs s) \<and>
     same_aux s (fold sha1_addUncounted bs s)"
proof (induction bs arbitrary: msg s)
  case (Cons b bs)
  then show ?case
    using stream_add [OF Cons.prems, of b] Cons.IH [of "msg @ [b]" "sha1_addUncounted b s"]
    by (simp add: same_aux_def)
qed (simp add: same_aux_def)

section \<open>Padding and the digest\<close>

lemma bufferOffset_56: "stream H m s \<Longrightarrow> bufferOffset s = 56 \<longleftrightarrow> length m mod 64 = 56"
proof -
  assume "stream H m s"
  then have "unat (bufferOffset s) = length m mod 64" by (simp add: stream_def)
  moreover have "bufferOffset s = 56 \<longleftrightarrow> unat (bufferOffset s) = unat (56 :: u8)"
    by (metis unsigned_word_eqI)
  ultimately show ?thesis by simp
qed

lemma pad_loop_enough:
  assumes "stream H m s" "(120 - length m mod 64) mod 64 < fuel"
  shows "\<exists>s'. pad_loop fuel s = Some s' \<and>
    stream H (m @ replicate ((120 - length m mod 64) mod 64) 0) s' \<and> same_aux s s'"
  using assms
proof (induction fuel arbitrary: m s)
  case (Suc fuel)
  show ?case
  proof (cases "length m mod 64 = 56")
    case True
    then show ?thesis using Suc.prems bufferOffset_56 [OF Suc.prems(1)] by (simp add: same_aux_def)
  next
    case False
    define r where "r = length m mod 64"
    have r: "r < 64" "r \<noteq> 56" using False by (simp_all add: r_def)
    have r': "length (m @ [0 :: u8]) mod 64 = (if r = 63 then 0 else r + 1)"
      unfolding r_def by (simp add: mod_Suc)
    have gap: "(120 - r) mod 64 = Suc ((120 - length (m @ [0 :: u8]) mod 64) mod 64)"
    proof -
      have "\<forall>r \<in> set [0..<64]. r \<noteq> 56 \<longrightarrow>
          (120 - r) mod 64 = Suc ((120 - (if r = 63 then 0 else r + 1)) mod 64)" by code_simp
      then show ?thesis unfolding r' using r by auto
    qed
    have s1: "stream H (m @ [0]) (sha1_addUncounted 0 s)" "same_aux s (sha1_addUncounted 0 s)"
      using stream_add [OF Suc.prems(1)] by simp_all
    from Suc.IH [OF s1(1)] Suc.prems(2) gap show ?thesis
      using False bufferOffset_56 [OF Suc.prems(1)] s1(2)
      by (auto simp: same_aux_def simp flip: r_def)
  qed
qed simp

lemma length_field:
  assumes "n < 2 ^ 32"
  shows "rev (le_bytes 8 (of_nat (8 * n) :: u64)) =
    [0, 0, 0, ucast (drop_bit 29 (of_nat n :: u32)), ucast (drop_bit 21 (of_nat n :: u32)),
     ucast (drop_bit 13 (of_nat n :: u32)), ucast (drop_bit 5 (of_nat n :: u32)),
     ucast (push_bit 3 (of_nat n :: u32))]"
proof -
  have hi: "bit n k \<Longrightarrow> k < 32" for k
    using assms by (metis bit_take_bit_iff take_bit_nat_eq_self)
  have b8: "bit (8 * n) k \<longleftrightarrow> 3 \<le> k \<and> bit n (k - 3)" for k
    using bit_push_bit_iff_nat [of 3 n k] by (simp add: push_bit_eq_mult mult.commute)
  have "le_bytes 8 (of_nat (8 * n) :: u64) =
    [ucast (push_bit 3 (of_nat n :: u32)), ucast (drop_bit 5 (of_nat n :: u32)),
     ucast (drop_bit 13 (of_nat n :: u32)), ucast (drop_bit 21 (of_nat n :: u32)),
     ucast (drop_bit 29 (of_nat n :: u32)), 0, 0, 0]" (is "?l = ?r")
  proof (rule nth_equalityI)
    fix i assume "i < length ?l"
    then have i: "i \<in> {0, 1, 2, 3, 4, 5, 6, 7}" by auto
    have "bit (?l ! i) k \<longleftrightarrow> bit (?r ! i) k" if "k < 8" for k
      using i that hi [of "8 * i + k - 3"]
      by (auto simp: bit_ucast_iff bit_drop_bit_eq bit_push_bit_iff bit_of_nat_iff b8
          simp del: of_nat_mult)
    then show "?l ! i = ?r ! i" by (intro bit_word_eqI) simp
  qed simp
  then show ?thesis by simp
qed

lemma ref_padding_gap: "(120 - (n + 1) mod 64) mod 64 = (119 - n mod 64) mod (64 :: nat)"
proof -
  have "\<forall>r \<in> set [0..<64]. (120 - (if r = 63 then 0 else r + 1)) mod 64 = (119 - r) mod (64 :: nat)"
    by code_simp
  then have "(120 - (if n mod 64 = 63 then 0 else n mod 64 + 1)) mod 64 = (119 - n mod 64) mod (64 :: nat)"
    by simp
  moreover have "(n + 1) mod 64 = (if n mod 64 = 63 then 0 else n mod 64 + 1)" by (simp add: mod_Suc)
  ultimately show ?thesis by simp
qed

lemma sha1_pad_stream:
  assumes "stream H m s" "byteCount s = of_nat (length m)" "length m < 2 ^ 32"
  shows "\<exists>s'. sha1_pad s = Some s' \<and> stream H (m @ ref_padding (length m)) s' \<and> same_aux s s'"
proof -
  let ?s1 = "sha1_addUncounted 0x80 s" and ?z = "(119 - length m mod 64) mod 64"
  have s1: "stream H (m @ [0x80]) ?s1" "same_aux s ?s1" using stream_add [OF assms(1)] by simp_all
  have gap: "(120 - length (m @ [0x80 :: u8]) mod 64) mod 64 = ?z"
    using ref_padding_gap [of "length m"] by simp
  then have "(120 - length (m @ [0x80 :: u8]) mod 64) mod 64 < 64" by simp
  from pad_loop_enough [OF s1(1) this] obtain s2 where
    s2: "pad_loop 64 ?s1 = Some s2" "stream H ((m @ [0x80]) @ replicate ?z 0) s2" "same_aux ?s1 s2"
    unfolding gap by auto
  let ?c = "of_nat (length m) :: u32"
  let ?f = "[0, 0, 0, ucast (drop_bit 29 ?c), ucast (drop_bit 21 ?c), ucast (drop_bit 13 ?c),
     ucast (drop_bit 5 ?c), ucast (push_bit 3 ?c)] :: bytes"
  have count: "byteCount s2 = ?c" using s1(2) s2(3) assms(2) by (simp add: same_aux_def)
  have bc: "byteCount (sha1_addUncounted b x) = byteCount x" for b x
    by (simp add: sha1_addUncounted_def sha1_hashBlock_def Let_def case_prod_beta)
  have "sha1_pad s = Some (fold sha1_addUncounted ?f s2)"
    by (simp add: sha1_pad_def s2(1) Let_def bc count)
  moreover have "m @ ref_padding (length m) = ((m @ [0x80]) @ replicate ?z 0) @ ?f"
    using length_field [OF assms(3)] by (simp add: ref_padding_def)
  ultimately show ?thesis
    using stream_fold [OF s2(2), of ?f] s1(2) s2(3) by (auto simp: same_aux_def)
qed

lemma writebyte_stream:
  "stream H m s \<Longrightarrow> byteCount s = of_nat (length m) \<Longrightarrow>
     stream H (m @ bs) (fold sha1_writebyte bs s) \<and>
     byteCount (fold sha1_writebyte bs s) = of_nat (length (m @ bs)) \<and>
     keyBuffer (fold sha1_writebyte bs s) = keyBuffer s \<and>
     innerHash (fold sha1_writebyte bs s) = innerHash s"
proof (induction bs arbitrary: m s)
  case (Cons b bs)
  let ?s = "s\<lparr>byteCount := byteCount s + 1\<rparr>"
  have "stream H m ?s" using Cons.prems(1) by (simp add: stream_def)
  from stream_add [OF this, of b] Cons.IH [of "m @ [b]" "sha1_writebyte b s"] Cons.prems(2)
  show ?case by (simp add: sha1_writebyte_def same_aux_def add.commute)
qed simp

lemma be_bytes_swap32: "le_bytes 4 (swap32 w) = be_bytes w"
proof (rule nth_equalityI)
  fix i assume "i < length (le_bytes 4 (swap32 w))"
  then have i: "i \<in> {0, 1, 2, 3}" by auto
  have sh: "(ucast (drop_bit 24 (push_bit 24 w)) :: u8) = ucast w"
    "(ucast (drop_bit 16 (push_bit 8 w)) :: u8) = ucast (drop_bit 8 w)"
    by (rule bit_word_eqI; auto simp: bit_ucast_iff bit_drop_bit_eq bit_push_bit_iff)+
  have z: "(4278190080 :: u8) = 0" "(16711680 :: u8) = 0" "(65280 :: u8) = 0" by simp_all
  show "le_bytes 4 (swap32 w) ! i = be_bytes w ! i"
    using i by (auto simp: swap32_def be_bytes_def rev_nth sh and_ff simp del: nth_le_bytes)
      (auto simp: sh z)
qed (simp add: be_bytes_def)

lemma stream_init:
  "length (buffer s) = 64 \<Longrightarrow> stream ref_init [] (sha1_init s) \<and> byteCount (sha1_init s) = of_nat (length ([] :: bytes))"
  by (simp add: stream_def sha1_init_def ref_init_def ref_absorb_short)

lemma length_ref_compress [simp]: "length (ref_compress blk H) = 5"
  by (simp add: ref_compress_def Let_def case_prod_beta)

lemma length_ref_absorb: "length H = 5 \<Longrightarrow> length (ref_absorb msg H) = 5"
  by (induction msg H rule: ref_absorb.induct) (subst ref_absorb.simps, simp)

lemma length_be_words: "length (concat (map be_bytes ws)) = 4 * length ws"
  by (induction ws) (simp_all add: be_bytes_def)

lemma length_ref_sha1: "length (ref_sha1 msg) = 20"
  by (simp add: ref_sha1_def length_be_words length_ref_absorb ref_init_def)

lemma ref_padding_whole: "64 dvd length (msg @ ref_padding (length msg))"
proof -
  define r q where "r = length msg mod 64" and "q = length msg div 64"
  have len: "length msg = 64 * q + r" "r < 64" by (simp_all add: q_def r_def)
  have "\<forall>r \<in> set [0..<64]. (r + 1 + (119 - r) mod 64 + 8) mod (64 :: nat) = 0" by code_simp
  then have "(r + 1 + (119 - r) mod 64 + 8) mod 64 = 0" using len(2) by simp
  then have "64 dvd r + 1 + (119 - r) mod 64 + 8" by (simp add: dvd_eq_mod_eq_0)
  then have "64 dvd 64 * q + (r + 1 + (119 - r) mod 64 + 8)" by (rule dvd_add [OF dvd_triv_left])
  then show ?thesis
    using len by (simp add: ref_padding_def r_def [symmetric] ac_simps)
qed

lemma sha1_result_ref:
  assumes "stream ref_init m s" "byteCount s = of_nat (length m)" "length m < 2 ^ 32"
  shows "\<exists>s'. sha1_result s = Some (ref_sha1 m, s') \<and> length (buffer s') = 64 \<and>
    keyBuffer s' = keyBuffer s \<and> innerHash s' = innerHash s"
proof -
  obtain s' where s': "sha1_pad s = Some s'" "stream ref_init (m @ ref_padding (length m)) s'" "same_aux s s'"
    using sha1_pad_stream [OF assms] by blast
  have "64 * (length (m @ ref_padding (length m)) div 64) = length (m @ ref_padding (length m))"
    using ref_padding_whole [of m] by (simp only: dvd_mult_div_cancel)
  then have "state s' = ref_absorb (m @ ref_padding (length m)) ref_init"
    using s'(2) unfolding stream_def by (simp only: take_all order.refl)
  then show ?thesis
    using s' by (simp add: sha1_result_def Let_def ref_sha1_def be_bytes_swap32 comp_def same_aux_def stream_def)
qed

lemma sha1_message_ref:
  assumes "length (buffer s) = 64" "length m < 2 ^ 32"
  shows "\<exists>s'. sha1_result (fold sha1_writebyte m (sha1_init s)) = Some (ref_sha1 m, s') \<and>
    length (buffer s') = 64 \<and> keyBuffer s' = keyBuffer s \<and> innerHash s' = innerHash s"
  using writebyte_stream [of ref_init "[]" "sha1_init s" m] stream_init [OF assms(1)] assms(2)
    sha1_result_ref [of m "fold sha1_writebyte m (sha1_init s)"]
  by (auto simp: sha1_init_def)

lemma sha1_is_ref:
  assumes "length (buffer uninit) = 64" "length data < 2 ^ 32"
  shows "sha1 uninit data = Some (ref_sha1 data)"
  using sha1_message_ref [OF assms] by (auto simp: sha1_def sha1_write_def length_ref_sha1)

section \<open>HMAC\<close>

lemma fold_key_bytes:
  fixes sel :: "sha1nfo \<Rightarrow> bytes"
  assumes "\<And>b s. sel (sha1_writebyte b s) = sel s"
  shows "fold (\<lambda>i s. sha1_writebyte (sel s ! i XOR c) s) is s =
    fold sha1_writebyte (map (\<lambda>i. sel s ! i XOR c) is) s"
  by (induction "is" arbitrary: s) (simp_all add: assms)

lemma writebyte_keeps [simp]:
  "keyBuffer (sha1_writebyte b s) = keyBuffer s" "innerHash (sha1_writebyte b s) = innerHash s"
  by (simp_all add: sha1_writebyte_def sha1_addUncounted_def sha1_hashBlock_def Let_def case_prod_beta)

lemma length_hmac_key: "length (ref_hmac_key key) = 64"
  by (simp add: ref_hmac_key_def Let_def length_ref_sha1)

lemma map_nth_len: "length xs = n \<Longrightarrow> map (\<lambda>i. f (xs ! i)) [0..<n] = map f xs"
  by (metis map_map map_nth comp_def map_cong)

lemma initHmac_ref:
  assumes "length (buffer s) = 64" "length key < 2 ^ 32"
  shows "\<exists>s'. sha1_initHmac key s = Some s' \<and> keyBuffer s' = ref_hmac_key key \<and>
    stream ref_init (map (\<lambda>b. b XOR 0x36) (ref_hmac_key key)) s' \<and> byteCount s' = of_nat 64"
proof -
  let ?s = "s\<lparr>keyBuffer := replicate 64 0\<rparr>"
  let ?r = "if 64 < length key then
      map_option (\<lambda>(h, s). s\<lparr>keyBuffer := take 20 h @ drop 20 (keyBuffer s)\<rparr>)
        (sha1_result (fold sha1_writebyte key (sha1_init ?s)))
      else Some (?s\<lparr>keyBuffer := key @ drop (length key) (keyBuffer ?s)\<rparr>)"
  have "length (buffer ?s) = 64" using assms(1) by simp
  from sha1_message_ref [OF this assms(2)] have
    "\<exists>t. ?r = Some t \<and> keyBuffer t = ref_hmac_key key \<and> length (buffer t) = 64"
    using assms(1) by (cases "64 < length key") (auto simp: ref_hmac_key_def Let_def length_ref_sha1)
  then obtain t where
    t: "?r = Some t" "keyBuffer t = ref_hmac_key key" "length (buffer t) = 64" by blast
  let ?u = "sha1_init t"
  have u: "stream ref_init [] ?u" "byteCount ?u = of_nat (length ([] :: bytes))" "keyBuffer ?u = ref_hmac_key key"
    using stream_init [OF t(3)] t(2) by (auto simp: sha1_init_def)
  have "sha1_initHmac key s = Some (fold sha1_writebyte (map (\<lambda>b. b XOR 0x36) (ref_hmac_key key)) ?u)"
    using t(1) u(3) map_nth_len [OF length_hmac_key, of "\<lambda>b. b XOR 0x36" key]
    unfolding sha1_initHmac_def Let_def by (simp add: fold_key_bytes [where sel = keyBuffer])
  then show ?thesis
    using writebyte_stream [OF u(1,2), of "map (\<lambda>b. b XOR 0x36) (ref_hmac_key key)"] u(3) length_hmac_key [of key]
    by simp
qed

lemma resultHmac_ref:
  assumes "stream ref_init (map (\<lambda>b. b XOR 0x36) (ref_hmac_key key) @ m) s"
    "byteCount s = of_nat (64 + length m)" "keyBuffer s = ref_hmac_key key" "64 + length m < 2 ^ 32"
  shows "\<exists>s'. sha1_resultHmac s = Some (ref_hmac key m, s')"
proof -
  let ?i = "map (\<lambda>b. b XOR 0x36) (ref_hmac_key key) @ m" and ?o = "map (\<lambda>b. b XOR 0x5c) (ref_hmac_key key)"
  have "length ?i = 64 + length m" by (simp add: length_hmac_key)
  with sha1_result_ref [OF assms(1)] assms(2-4) obtain t where
    t: "sha1_result s = Some (ref_sha1 ?i, t)" "length (buffer t) = 64" "keyBuffer t = ref_hmac_key key"
    by auto
  let ?t = "t\<lparr>innerHash := ref_sha1 ?i\<rparr>"
  have k: "keyBuffer (sha1_init ?t) = ref_hmac_key key" "innerHash (sha1_init ?t) = ref_sha1 ?i"
    using t(3) by (simp_all add: sha1_init_def)
  have keep: "innerHash (fold sha1_writebyte bs x) = innerHash x" for bs x
    by (induction bs arbitrary: x) simp_all
  have ih: "fold (\<lambda>i s. sha1_writebyte (innerHash s ! i) s) [0..<20] x =
      fold sha1_writebyte (innerHash x) x" if "length (innerHash x) = 20" for x
    using fold_key_bytes [of innerHash 0 "[0..<20]" x] map_nth_len [OF that, of id] by simp
  have "sha1_resultHmac s = sha1_result (fold sha1_writebyte (?o @ ref_sha1 ?i) (sha1_init ?t))"
    using k map_nth_len [OF length_hmac_key, of "\<lambda>b. b XOR 0x5c" key]
    by (simp add: sha1_resultHmac_def t(1) Let_def length_ref_sha1 fold_key_bytes [where sel = keyBuffer] ih keep)
  then show ?thesis
    using sha1_message_ref [of ?t "?o @ ref_sha1 ?i"] t(2)
    by (auto simp: length_hmac_key length_ref_sha1 ref_hmac_def)
qed

lemma hex_value_digit: "n < 16 \<Longrightarrow> hex_value (hex_digit n) = n"
proof -
  assume "n < 16"
  moreover have "\<forall>n \<in> set [0..<16]. hex_value (hex_digit n) = n" by code_simp
  ultimately show ?thesis by simp
qed

lemma hex_pairs:
  "i < length bs \<Longrightarrow> concat (map (\<lambda>b. [f b, g b]) bs) ! (2 * i) = f (bs ! i)"
  "i < length bs \<Longrightarrow> concat (map (\<lambda>b. [f b, g b]) bs) ! Suc (2 * i) = g (bs ! i)"
proof (induction bs arbitrary: i)
  case (Cons b bs)
  { case 1 then show ?case using Cons(1) by (cases i) simp_all }
  { case 2 then show ?case using Cons(2) by (cases i) simp_all }
qed simp_all

text \<open>Property C4. For every input shorter than 4 GiB and whatever the uninitialised stack frame
  holds, \<^verbatim>\<open>sha1_hex\<close> returns forty lower-case hex digits, and they spell the FIPS 180 SHA-1
  digest of the input.\<close>

theorem sha1_hex_is_fips:
  assumes "length (buffer uninit) = 64" "length data < 2 ^ 32"
  shows "\<exists>h. sha1_hex uninit data = Some h \<and> length h = 40 \<and>
    (\<forall>i < 20. hex_value (h ! (2 * i)) * 16 + hex_value (h ! (2 * i + 1)) = unat (ref_sha1 data ! i))"
proof -
  let ?d = "ref_sha1 data"
  let ?h = "concat (map (\<lambda>b. [hex_digit (unat b div 16), hex_digit (unat b mod 16)]) ?d)"
  have len: "length (concat (map (\<lambda>b. [x b, y b]) bs)) = 2 * length bs" for x y :: "u8 \<Rightarrow> char" and bs
    by (induction bs) simp_all
  have "hex_value (?h ! (2 * i)) * 16 + hex_value (?h ! (2 * i + 1)) = unat (?d ! i)" if "i < 20" for i
    using that by (simp add: hex_pairs length_ref_sha1 hex_value_digit div_less_iff_less_mult)
  then show ?thesis
    using sha1_is_ref [OF assms] by (simp add: sha1_hex_def len length_ref_sha1)
qed

theorem sha1_hex_is_fips_witness:
  "(\<exists>h. sha1_hex junk_nfo [0x61, 0x62, 0x63] = Some h \<and> length h = 40 \<and>
    (\<forall>i < 20. hex_value (h ! (2 * i)) * 16 + hex_value (h ! (2 * i + 1)) =
      unat (ref_sha1 [0x61, 0x62, 0x63] ! i)))"
  using sha1_hex_is_fips [of junk_nfo "[0x61, 0x62, 0x63]"] by (simp add: junk_nfo_def)

text \<open>Initialising with any key (longer than a block or not), writing a message and
  asking for the result yields HMAC-SHA1 of RFC 2104: the inner and the outer hash with the
  key padded by zeroes, or first hashed when it is longer than 64 bytes.\<close>

theorem sha1_hmac_is_rfc2104:
  assumes "length (buffer s) = 64" "length key < 2 ^ 31" "64 + length msg < 2 ^ 32"
  shows "map_option fst (Option.bind (map_option (sha1_write msg) (sha1_initHmac key s)) sha1_resultHmac) =
    Some (ref_hmac key msg)"
proof -
  obtain s1 where s1: "sha1_initHmac key s = Some s1" "keyBuffer s1 = ref_hmac_key key"
    "stream ref_init (map (\<lambda>b. b XOR 0x36) (ref_hmac_key key)) s1" "byteCount s1 = of_nat 64"
    using initHmac_ref [OF assms(1), of key] assms(2) by auto
  have "\<exists>s'. sha1_resultHmac (sha1_write msg s1) = Some (ref_hmac key msg, s')"
    unfolding sha1_write_def
    using writebyte_stream [OF s1(3), of msg] s1(2,4) assms(3)
    by (intro resultHmac_ref) (simp_all add: length_hmac_key)
  then show ?thesis using s1(1) by auto
qed

theorem sha1_hmac_is_rfc2104_witness:
  "map_option fst (Option.bind (map_option (sha1_write [1, 2]) (sha1_initHmac (replicate 70 5) junk_nfo)) sha1_resultHmac) =
    Some (ref_hmac (replicate 70 5) [1, 2])"
  using sha1_hmac_is_rfc2104 [of junk_nfo "replicate 70 5" "[1, 2]"] by (simp add: junk_nfo_def)

end
