(* ===== verification/Text_Check.thy ===== *)
theory Text_Check
  imports Afl_Prelude
begin

text \<open>
  The text detection of \<^verbatim>\<open>AFLplusplus/src/afl-fuzz-queue.c\<close>: \<^verbatim>\<open>check_if_text_buf\<close>, which
  the dictionary and Redqueen code asks whether a buffer is text, and \<^verbatim>\<open>check_if_text\<close>, which
  classifies a queue entry when it is added. Both walk over the buffer and count ASCII bytes
  and UTF-8 sequences. The theorems compare the walk with the encoding form of Unicode.
\<close>

section \<open>The program\<close>

text \<open>\<^verbatim>\<open>isascii\<close> and \<^verbatim>\<open>isprint\<close> of the C locale.\<close>

definition isascii :: "u8 \<Rightarrow> bool" where
  "isascii c \<longleftrightarrow> c \<le> 0x7f"

definition isprint :: "u8 \<Rightarrow> bool" where
  "isprint c \<longleftrightarrow> 0x20 \<le> c \<and> c \<le> 0x7e"

definition plain_char :: "u8 \<Rightarrow> bool" where
  "plain_char c \<longleftrightarrow> c = 0x09 \<or> c = 0x0A \<or> c = 0x0D \<or> (0x20 \<le> c \<and> c \<le> 0x7E)"

text \<open>The three conditions of the loop body on the bytes of a sequence.\<close>

definition cont_byte :: "u8 \<Rightarrow> bool" where
  "cont_byte b \<longleftrightarrow> 0x80 \<le> b \<and> b \<le> 0xBF"

definition seq2 :: "u8 \<Rightarrow> u8 \<Rightarrow> bool" where
  "seq2 b0 b1 \<longleftrightarrow> (0xC2 \<le> b0 \<and> b0 \<le> 0xDF) \<and> cont_byte b1"

definition seq3 :: "u8 \<Rightarrow> u8 \<Rightarrow> u8 \<Rightarrow> bool" where
  "seq3 b0 b1 b2 \<longleftrightarrow>
     (b0 = 0xE0 \<and> (0xA0 \<le> b1 \<and> b1 \<le> 0xBF) \<and> cont_byte b2) \<or>
     (((0xE1 \<le> b0 \<and> b0 \<le> 0xEC) \<or> b0 = 0xEE \<or> b0 = 0xEF) \<and> cont_byte b1 \<and> cont_byte b2) \<or>
     (b0 = 0xED \<and> (0x80 \<le> b1 \<and> b1 \<le> 0x9F) \<and> cont_byte b2)"

definition seq4 :: "u8 \<Rightarrow> u8 \<Rightarrow> u8 \<Rightarrow> u8 \<Rightarrow> bool" where
  "seq4 b0 b1 b2 b3 \<longleftrightarrow>
     (b0 = 0xF0 \<and> (0x90 \<le> b1 \<and> b1 \<le> 0xBF) \<and> cont_byte b2 \<and> cont_byte b3) \<or>
     ((0xF1 \<le> b0 \<and> b0 \<le> 0xF3) \<and> cont_byte b1 \<and> cont_byte b2 \<and> cont_byte b3) \<or>
     (b0 = 0xF4 \<and> (0x80 \<le> b1 \<and> b1 \<le> 0x8F) \<and> cont_byte b2 \<and> cont_byte b3)"

text \<open>The number of bytes the walk consumes as one sequence; 0 when no condition holds.\<close>

definition utf8_seq :: "bytes \<Rightarrow> nat \<Rightarrow> nat \<Rightarrow> nat" where
  "utf8_seq buf len offset =
     (if 1 < len - offset \<and> seq2 (buf ! offset) (buf ! (offset + 1)) then 2
      else if 2 < len - offset \<and>
        seq3 (buf ! offset) (buf ! (offset + 1)) (buf ! (offset + 2)) then 3
      else if 3 < len - offset \<and>
        seq4 (buf ! offset) (buf ! (offset + 1)) (buf ! (offset + 2)) (buf ! (offset + 3)) then 4
      else 0)"

text \<open>
  The loop, with the counters \<^verbatim>\<open>utf8\<close> and \<^verbatim>\<open>ascii\<close> and the number of characters \<^verbatim>\<open>comp\<close>
  (which only \<^verbatim>\<open>check_if_text\<close> keeps). The counters are at most the length of the buffer,
  so they are numbers here.
\<close>

function text_scan :: "bytes \<Rightarrow> nat \<Rightarrow> nat \<Rightarrow> nat \<times> nat \<times> nat \<Rightarrow> nat \<times> nat \<times> nat" where
  "text_scan buf len offset (utf8, ascii, cmp) =
     (if offset < len then
        (if plain_char (buf ! offset)
         then text_scan buf len (offset + 1) (utf8 + 1, ascii + 1, cmp)
         else (let ascii = (if isascii (buf ! offset) \<or> isprint (buf ! offset) then ascii + 1
                            else ascii);
                   n = utf8_seq buf len offset
               in if n \<noteq> 0 then text_scan buf len (offset + n) (utf8 + 1, ascii, cmp - (n - 1))
                  else text_scan buf len (offset + 1) (utf8, ascii, cmp)))
      else (utf8, ascii, cmp))"
  by pat_completeness auto
termination
  by (relation "measure (\<lambda>(buf, len, offset, _). len - offset)") auto

declare text_scan.simps [simp del]

text \<open>The result is a \<^verbatim>\<open>u32\<close> count returned as \<^verbatim>\<open>u8\<close>.\<close>

definition check_if_text_buf :: "bytes \<Rightarrow> u32 \<Rightarrow> u8" where
  "check_if_text_buf buf len =
     (let (utf8, ascii, _) = text_scan buf (unat len) 0 (0, 0, unat len)
      in ucast (if ascii < utf8 then (of_nat utf8 :: u32) else of_nat ascii))"

text \<open>
  \<^verbatim>\<open>AFL_TXT_MIN_LEN\<close>, \<^verbatim>\<open>AFL_TXT_MAX_LEN\<close>, \<^verbatim>\<open>AFL_TXT_MIN_PERCENT\<close> and \<^verbatim>\<open>MAX_FILE\<close> of
  \<^verbatim>\<open>config.h\<close>. The argument \<open>file\<close> is the file system: the contents of the file that
  opens, \<open>None\<close> if it does not.
\<close>

abbreviation (input) AFL_TXT_MIN_LEN :: u32 where "AFL_TXT_MIN_LEN \<equiv> 12"
abbreviation (input) AFL_TXT_MAX_LEN :: u32 where "AFL_TXT_MAX_LEN \<equiv> 65535"
abbreviation (input) AFL_TXT_MIN_PERCENT :: u32 where "AFL_TXT_MIN_PERCENT \<equiv> 99"
abbreviation (input) MAX_FILE :: u32 where "MAX_FILE \<equiv> 1048576"

definition text_verdict :: "u32 \<Rightarrow> nat \<times> nat \<times> nat \<Rightarrow> u8" where
  "text_verdict len = (\<lambda>(utf8, ascii, cmp).
     let percent_utf8 = ucast ((ucast (of_nat utf8 * 100 :: u32) :: u64) div of_nat cmp) :: u32;
         percent_ascii = (of_nat ascii * 100) div len
     in if percent_ascii \<le> percent_utf8 \<and> AFL_TXT_MIN_PERCENT \<le> percent_utf8 then 2
        else if AFL_TXT_MIN_PERCENT \<le> percent_ascii then 1
        else 0)"

definition check_if_text :: "(string \<Rightarrow> bytes option) \<Rightarrow> string \<Rightarrow> u32 \<Rightarrow> u8" where
  "check_if_text file fname qlen =
     (if qlen < AFL_TXT_MIN_LEN \<or> qlen < AFL_TXT_MAX_LEN then 0
      else (let len = (if MAX_FILE \<le> qlen then MAX_FILE - 1 else qlen) in
        case file fname of
          None \<Rightarrow> 0
        | Some content \<Rightarrow>
            (let buf = take (unat len) content in
             if length buf \<noteq> unat len then 0
             else text_verdict len (text_scan (buf @ [0]) (unat len) 0 (0, 0, length buf)))))"

section \<open>The encoding form\<close>

definition utf8_encode :: "nat \<Rightarrow> bytes" where
  "utf8_encode cp =
     (if cp < 0x80 then [of_nat cp]
      else if cp < 0x800 then [of_nat (0xC0 + cp div 64), of_nat (0x80 + cp mod 64)]
      else if cp < 0x10000 then
        [of_nat (0xE0 + cp div 4096), of_nat (0x80 + cp div 64 mod 64), of_nat (0x80 + cp mod 64)]
      else [of_nat (0xF0 + cp div 262144), of_nat (0x80 + cp div 4096 mod 64),
            of_nat (0x80 + cp div 64 mod 64), of_nat (0x80 + cp mod 64)])"

text \<open>Scalar values, less the control characters other than tab, line feed and return.\<close>

definition text_point :: "nat \<Rightarrow> bool" where
  "text_point cp \<longleftrightarrow> cp = 9 \<or> cp = 10 \<or> cp = 13 \<or> (0x20 \<le> cp \<and> cp \<le> 0x7E) \<or>
     (0x80 \<le> cp \<and> cp < 0xD800) \<or> (0xE000 \<le> cp \<and> cp < 0x110000)"

definition utf8_text :: "nat list \<Rightarrow> bytes" where
  "utf8_text cps = concat (map utf8_encode cps)"

text \<open>The recogniser at the head of a list of bytes.\<close>

definition utf8_head :: "bytes \<Rightarrow> nat" where
  "utf8_head bs = utf8_seq bs (length bs) 0"


section \<open>Sequences and code points\<close>

lemmas u8_nat = word_le_nat_alt word_less_nat_alt word_unat_eq_iff

lemma unat_u8_of_nat [simp]: "n < 256 \<Longrightarrow> unat (of_nat n :: u8) = n"
  by (simp add: unat_of_nat)

text \<open>Bytes of a code point by value, so that the conditions are linear arithmetic.\<close>

lemma encode_decode2:
  "0x80 \<le> cp \<Longrightarrow> cp < 0x800 \<Longrightarrow> seq2 (of_nat (0xC0 + cp div 64)) (of_nat (0x80 + cp mod 64))"
  "seq2 b0 b1 \<Longrightarrow> \<exists>cp. 0x80 \<le> cp \<and> cp < 0x800 \<and> [b0, b1] = utf8_encode cp"
proof -
  assume a: "0x80 \<le> cp" "cp < 0x800"
  define h l where "h = cp div 64" "l = cp mod 64"
  have "cp = 64 * h + l" "l < 64" by (simp_all add: h_l_def)
  then show "seq2 (of_nat (0xC0 + cp div 64)) (of_nat (0x80 + cp mod 64))"
    using a unfolding h_l_def [symmetric] seq2_def cont_byte_def u8_nat by (simp del: of_nat_add)
next
  assume s: "seq2 b0 b1"
  define h l where "h = unat b0 - 0xC0" "l = unat b1 - 0x80"
  have hl: "2 \<le> h" "h < 32" "l < 64" "unat b0 = 0xC0 + h" "unat b1 = 0x80 + l"
    using s unfolding seq2_def cont_byte_def u8_nat by (auto simp: h_l_def)
  then have "(64 * h + l) div 64 = h" "(64 * h + l) mod 64 = l" by simp_all
  moreover have "b0 = of_nat (0xC0 + h)" "b1 = of_nat (0x80 + l)"
    unfolding hl(4,5) [symmetric] by simp_all
  ultimately show "\<exists>cp. 0x80 \<le> cp \<and> cp < 0x800 \<and> [b0, b1] = utf8_encode cp"
    using hl by (intro exI [of _ "64 * h + l"]) (simp add: utf8_encode_def del: of_nat_add)
qed

lemma digits64:
  fixes h m l k :: nat
  assumes "m < 64" "l < 64" "k < 64"
  shows "(64 * h + l) div 64 = h" "(64 * h + l) mod 64 = l"
    "(4096 * h + 64 * m + l) div 4096 = h" "(4096 * h + 64 * m + l) div 64 = 64 * h + m"
    "(4096 * h + 64 * m + l) mod 64 = l"
    "(262144 * h + 4096 * m + 64 * l + k) div 262144 = h"
    "(262144 * h + 4096 * m + 64 * l + k) div 4096 = 64 * h + m"
    "(262144 * h + 4096 * m + 64 * l + k) div 64 = 4096 * h + 64 * m + l"
    "(262144 * h + 4096 * m + 64 * l + k) mod 64 = k"
    "(4096 * h + 64 * m + l) mod 64 = l"
  using assms
  by (auto intro!: div_nat_eqI simp: mod_add_eq [symmetric] mod_mult_right_eq)

lemma split64:
  fixes cp :: nat
  obtains h m l where "cp = 4096 * h + 64 * m + l" "m < 64" "l < 64"
proof
  have "cp = 64 * (cp div 64) + cp mod 64"
    "cp div 64 = 64 * (cp div 64 div 64) + cp div 64 mod 64"
    by (simp_all only: mult_div_mod_eq)
  then show "cp = 4096 * (cp div 64 div 64) + 64 * (cp div 64 mod 64) + cp mod 64" by linarith
qed simp_all

lemma split64_4:
  fixes cp :: nat
  obtains h m l k where "cp = 262144 * h + 4096 * m + 64 * l + k" "m < 64" "l < 64" "k < 64"
proof -
  obtain q l k where q: "cp = 4096 * q + 64 * l + k" "l < 64" "k < 64" by (rule split64)
  have "q = 64 * (q div 64) + q mod 64" by (simp only: mult_div_mod_eq)
  with q(1) have "cp = 262144 * (q div 64) + 4096 * (q mod 64) + 64 * l + k" by linarith
  then show thesis using q(2,3) by (intro that [of "q div 64" "q mod 64" l k]) simp_all
qed

lemma encode_decode3:
  "0x800 \<le> cp \<Longrightarrow> cp < 0xD800 \<or> 0xE000 \<le> cp \<Longrightarrow> cp < 0x10000 \<Longrightarrow>
     seq3 (of_nat (0xE0 + cp div 4096)) (of_nat (0x80 + cp div 64 mod 64)) (of_nat (0x80 + cp mod 64))"
  "seq3 b0 b1 b2 \<Longrightarrow> \<exists>cp. 0x800 \<le> cp \<and> (cp < 0xD800 \<or> 0xE000 \<le> cp) \<and> cp < 0x10000 \<and>
     [b0, b1, b2] = utf8_encode cp"
proof -
  assume a: "0x800 \<le> cp" "cp < 0xD800 \<or> 0xE000 \<le> cp" "cp < 0x10000"
  obtain h m l where cp: "cp = 4096 * h + 64 * m + l" "m < 64" "l < 64" by (rule split64)
  then show "seq3 (of_nat (0xE0 + cp div 4096)) (of_nat (0x80 + cp div 64 mod 64)) (of_nat (0x80 + cp mod 64))"
    using a by (auto simp: digits64 seq3_def cont_byte_def u8_nat simp del: of_nat_add)
next
  assume s: "seq3 b0 b1 b2"
  define h m l where "h = unat b0 - 0xE0" "m = unat b1 - 0x80" "l = unat b2 - 0x80"
  have v: "h < 16" "m < 64" "l < 64" "unat b0 = 0xE0 + h" "unat b1 = 0x80 + m" "unat b2 = 0x80 + l"
      "h = 0 \<Longrightarrow> 32 \<le> m" "h = 13 \<Longrightarrow> m < 32"
    using s unfolding seq3_def cont_byte_def u8_nat by (auto simp: h_m_l_def)
  have b: "b0 = of_nat (0xE0 + h)" "b1 = of_nat (0x80 + m)" "b2 = of_nat (0x80 + l)"
    unfolding v(4-6) [symmetric] by simp_all
  let ?cp = "4096 * h + 64 * m + l"
  have "0x800 \<le> ?cp" "?cp < 0x10000" using v(1-3,7) by (cases "h = 0"; simp)+
  moreover have "?cp < 0xD800 \<or> 0xE000 \<le> ?cp" using v(1-3,8) by (cases "h = 13"; auto)
  moreover have "[b0, b1, b2] = utf8_encode ?cp"
    using \<open>0x800 \<le> ?cp\<close> \<open>?cp < 0x10000\<close> v(2,3) b by (simp add: utf8_encode_def digits64 del: of_nat_add)
  ultimately show "\<exists>cp. 0x800 \<le> cp \<and> (cp < 0xD800 \<or> 0xE000 \<le> cp) \<and> cp < 0x10000 \<and>
     [b0, b1, b2] = utf8_encode cp" by blast
qed

lemma encode_decode4:
  "0x10000 \<le> cp \<Longrightarrow> cp < 0x110000 \<Longrightarrow>
     seq4 (of_nat (0xF0 + cp div 262144)) (of_nat (0x80 + cp div 4096 mod 64))
       (of_nat (0x80 + cp div 64 mod 64)) (of_nat (0x80 + cp mod 64))"
  "seq4 b0 b1 b2 b3 \<Longrightarrow> \<exists>cp. 0x10000 \<le> cp \<and> cp < 0x110000 \<and> [b0, b1, b2, b3] = utf8_encode cp"
proof -
  assume a: "0x10000 \<le> cp" "cp < 0x110000"
  obtain h m l k where cp: "cp = 262144 * h + 4096 * m + 64 * l + k" "m < 64" "l < 64" "k < 64"
    by (rule split64_4)
  then have "cp div 262144 = h" "cp div 4096 mod 64 = m" "cp div 64 mod 64 = l" "cp mod 64 = k"
    by (simp_all add: digits64)
  moreover have h: "h < 5" "h = 0 \<Longrightarrow> 16 \<le> m" "h = 4 \<Longrightarrow> m < 16" using a cp by linarith+
  have "seq4 (of_nat (0xF0 + h)) (of_nat (0x80 + m)) (of_nat (0x80 + l)) (of_nat (0x80 + k))"
    using h cp(2-4) by (cases "h = 0"; cases "h = 4")
      (simp_all add: seq4_def cont_byte_def u8_nat del: of_nat_add)
  ultimately show "seq4 (of_nat (0xF0 + cp div 262144)) (of_nat (0x80 + cp div 4096 mod 64))
       (of_nat (0x80 + cp div 64 mod 64)) (of_nat (0x80 + cp mod 64))" by simp
next
  assume s: "seq4 b0 b1 b2 b3"
  define h m l k where "h = unat b0 - 0xF0" "m = unat b1 - 0x80" "l = unat b2 - 0x80" "k = unat b3 - 0x80"
  have v: "h < 5" "m < 64" "l < 64" "k < 64" "unat b0 = 0xF0 + h" "unat b1 = 0x80 + m"
      "unat b2 = 0x80 + l" "unat b3 = 0x80 + k" "h = 0 \<Longrightarrow> 16 \<le> m" "h = 4 \<Longrightarrow> m < 16"
    using s unfolding seq4_def cont_byte_def u8_nat by (auto simp: h_m_l_k_def)
  have b: "b0 = of_nat (0xF0 + h)" "b1 = of_nat (0x80 + m)" "b2 = of_nat (0x80 + l)" "b3 = of_nat (0x80 + k)"
    unfolding v(5-8) [symmetric] by simp_all
  let ?cp = "262144 * h + 4096 * m + 64 * l + k"
  have lo: "0x10000 \<le> ?cp" using v(2-4,9) by (cases "h = 0") simp_all
  have hi: "?cp < 0x110000" using v(1-4,10) by (cases "h = 4") simp_all
  have "?cp div 262144 = h" "?cp div 4096 mod 64 = m" "?cp div 64 mod 64 = l" "?cp mod 64 = k"
    using v(2-4) by (simp_all add: digits64)
  then have "[b0, b1, b2, b3] = utf8_encode ?cp"
    using lo b by (simp add: utf8_encode_def del: of_nat_add)
  then show "\<exists>cp. 0x10000 \<le> cp \<and> cp < 0x110000 \<and> [b0, b1, b2, b3] = utf8_encode cp"
    using lo hi by blast
qed

lemma lead_bytes:
  "seq3 b0 b1 b2 \<Longrightarrow> \<not> seq2 b0 c1" "seq4 b0 b1 b2 b3 \<Longrightarrow> \<not> seq2 b0 c1"
  "seq4 b0 b1 b2 b3 \<Longrightarrow> \<not> seq3 b0 c1 c2"
  "seq2 b0 b1 \<Longrightarrow> \<not> plain_char b0 \<and> \<not> isascii b0 \<and> \<not> isprint b0"
  "seq3 b0 b1 b2 \<Longrightarrow> \<not> plain_char b0 \<and> \<not> isascii b0 \<and> \<not> isprint b0"
  "seq4 b0 b1 b2 b3 \<Longrightarrow> \<not> plain_char b0 \<and> \<not> isascii b0 \<and> \<not> isprint b0"
  unfolding seq2_def seq3_def seq4_def plain_char_def isascii_def isprint_def u8_nat by auto

lemma plain_char_point: "plain_char b \<longleftrightarrow> text_point (unat b) \<and> unat b < 0x80"
  unfolding plain_char_def text_point_def u8_nat by auto

lemma encode_ascii: "unat b < 0x80 \<Longrightarrow> utf8_encode (unat b) = [b]"
  by (simp add: utf8_encode_def)

lemma utf8_head_encode:
  assumes "text_point cp" "0x80 \<le> cp"
  shows "utf8_head (utf8_encode cp @ rest) = length (utf8_encode cp)"
proof -
  consider "cp < 0x800" | "0x800 \<le> cp" "cp < 0x10000" | "0x10000 \<le> cp" by linarith
  then show ?thesis
  proof cases
    case 1
    then show ?thesis
      using encode_decode2(1) [of cp] assms(2)
      by (simp add: utf8_head_def utf8_seq_def utf8_encode_def del: of_nat_add)
  next
    case 2
    then have "seq3 (of_nat (0xE0 + cp div 4096)) (of_nat (0x80 + cp div 64 mod 64)) (of_nat (0x80 + cp mod 64))"
      using assms by (intro encode_decode3(1)) (auto simp: text_point_def)
    with 2 show ?thesis
      using lead_bytes(1) by (simp add: utf8_head_def utf8_seq_def utf8_encode_def numeral_2_eq_2 del: of_nat_add)
  next
    case 3
    then have "seq4 (of_nat (0xF0 + cp div 262144)) (of_nat (0x80 + cp div 4096 mod 64))
       (of_nat (0x80 + cp div 64 mod 64)) (of_nat (0x80 + cp mod 64))"
      using assms by (intro encode_decode4(1)) (auto simp: text_point_def)
    with 3 show ?thesis
      using lead_bytes(2,3)
      by (simp add: utf8_head_def utf8_seq_def utf8_encode_def numeral_2_eq_2 numeral_3_eq_3 del: of_nat_add)
  qed
qed

lemma take_nth:
  "1 < length xs \<Longrightarrow> take 2 xs = [xs ! 0, xs ! 1]"
  "2 < length xs \<Longrightarrow> take 3 xs = [xs ! 0, xs ! 1, xs ! 2]"
  "3 < length xs \<Longrightarrow> take 4 xs = [xs ! 0, xs ! 1, xs ! 2, xs ! 3]"
  by (rule nth_equalityI; auto simp: less_Suc_eq numeral_eq_Suc)+

lemma utf8_head_decode:
  assumes "utf8_head bs \<noteq> 0"
  obtains cp where "text_point cp" "0x80 \<le> cp" "take (utf8_head bs) bs = utf8_encode cp"
    "utf8_head bs = length (utf8_encode cp)"
proof -
  consider "utf8_head bs = 2" "1 < length bs" "seq2 (bs ! 0) (bs ! 1)"
    | "utf8_head bs = 3" "2 < length bs" "seq3 (bs ! 0) (bs ! 1) (bs ! 2)"
    | "utf8_head bs = 4" "3 < length bs" "seq4 (bs ! 0) (bs ! 1) (bs ! 2) (bs ! 3)"
    using assms by (auto simp: utf8_head_def utf8_seq_def numeral_2_eq_2 split: if_splits)
  then show thesis
  proof cases
    case 1
    then obtain cp where "0x80 \<le> cp" "cp < 0x800" "take 2 bs = utf8_encode cp"
      using encode_decode2(2) take_nth(1) by metis
    then show thesis using 1 by (intro that [of cp]) (auto simp: text_point_def utf8_encode_def)
  next
    case 2
    then obtain cp where "0x800 \<le> cp" "cp < 0xD800 \<or> 0xE000 \<le> cp" "cp < 0x10000" "take 3 bs = utf8_encode cp"
      using encode_decode3(2) take_nth(2) by metis
    then show thesis using 2 by (intro that [of cp]) (auto simp: text_point_def utf8_encode_def)
  next
    case 3
    then obtain cp where "0x10000 \<le> cp" "cp < 0x110000" "take 4 bs = utf8_encode cp"
      using encode_decode4(2) take_nth(3) by metis
    then show thesis using 3 by (intro that [of cp]) (auto simp: text_point_def utf8_encode_def)
  qed
qed

section \<open>The walk\<close>

lemma utf8_seq_drop:
  "utf8_seq (buf @ pad) (length buf) offset = utf8_head (drop offset buf)"
proof -
  have "k < length buf - offset \<Longrightarrow> (buf @ pad) ! (offset + k) = drop offset buf ! k" for k
    by (subst nth_append) (simp add: less_diff_conv add.commute)
  from this [of 0] this [of 1] this [of 2] this [of 3] show ?thesis
    unfolding utf8_seq_def utf8_head_def by (intro if_cong conj_cong) simp_all
qed

text \<open>The walk as a function of the bytes that are left.\<close>

function walk :: "bytes \<Rightarrow> nat \<times> nat \<times> nat" where
  "walk bs = (if bs = [] then (0, 0, 0)
     else if plain_char (hd bs) then (let (u, a, c) = walk (tl bs) in (u + 1, a + 1, c + 1))
     else (let k = (if isascii (hd bs) then 1 else 0); n = utf8_head bs in
       if n \<noteq> 0 then (let (u, a, c) = walk (drop n bs) in (u + 1, a + k, c + 1))
       else (let (u, a, c) = walk (tl bs) in (u, a + k, c + 1))))"
  by pat_completeness auto
termination
  by (relation "measure length") simp_all

declare walk.simps [simp del]

lemma isascii_isprint: "isascii b \<or> isprint b \<longleftrightarrow> isascii b"
  unfolding isascii_def isprint_def u8_nat by auto

lemma utf8_head_le: "utf8_head bs \<le> length bs"
  by (auto simp: utf8_head_def utf8_seq_def)

lemma text_scan_walk:
  assumes "length buf - offset \<le> c"
  shows "text_scan (buf @ pad) (length buf) offset (u, a, c) =
    (let (u', a', c') = walk (drop offset buf) in (u + u', a + a', c - (length buf - offset) + c'))"
  using assms
proof (induction "length buf - offset" arbitrary: offset u a c rule: less_induct)
  case less
  show ?case
  proof (cases "offset < length buf")
    case False
    then show ?thesis by (simp add: text_scan.simps walk.simps)
  next
    case True
    let ?bs = "drop offset buf" and ?n = "utf8_head (drop offset buf)"
    have hd: "hd ?bs = (buf @ pad) ! offset" "tl ?bs = drop (offset + 1) buf" "?bs \<noteq> []"
      using True by (simp_all add: hd_drop_conv_nth nth_append drop_Suc tl_drop)
    have n: "?n \<le> length buf - offset" using utf8_head_le [of ?bs] by simp
    have d: "drop ?n ?bs = drop (offset + ?n) buf" by (simp add: add.commute)
    show ?thesis
      using True less.prems n
      by (subst text_scan.simps, subst walk.simps)
        (auto simp: hd d less.hyps utf8_seq_drop isascii_isprint Let_def
          simp del: drop_drop split: prod.splits)
  qed
qed

section \<open>Text is recognised\<close>

lemma utf8_encode_nonempty [simp]: "utf8_encode cp \<noteq> []"
  by (simp add: utf8_encode_def)

lemma walk_encode:
  assumes "text_point cp"
  shows "walk (utf8_encode cp @ rest) =
    (let (u, a, c) = walk rest in (u + 1, a + (if cp < 0x80 then 1 else 0), c + 1))"
proof (cases "cp < 0x80")
  case True
  then have "plain_char (of_nat cp)" "utf8_encode cp = [of_nat cp]"
    using assms by (simp_all add: plain_char_point utf8_encode_def)
  then show ?thesis using True by (subst walk.simps) (simp split: prod.splits)
next
  case False
  let ?e = "utf8_encode cp"
  have n: "utf8_head (?e @ rest) = length ?e" using assms False by (intro utf8_head_encode) simp_all
  then have "utf8_head (?e @ rest) \<noteq> 0" by simp
  then have "\<not> plain_char (hd (?e @ rest)) \<and> \<not> isascii (hd (?e @ rest))"
    using lead_bytes(4-6) by (auto simp: utf8_head_def utf8_seq_def hd_conv_nth split: if_splits)
  then show ?thesis using n False by (subst walk.simps) (simp split: prod.splits)
qed

lemma walk_text:
  "\<forall>cp \<in> set cps. text_point cp \<Longrightarrow>
     walk (utf8_text cps) = (length cps, length (filter (\<lambda>cp. cp < 0x80) cps), length cps)"
  by (induction cps) (simp_all add: utf8_text_def walk_encode, simp add: walk.simps)

lemma walk_counts: "case walk bs of (u, a, c) \<Rightarrow> u \<le> c \<and> a \<le> c \<and> c \<le> length bs"
proof (induction "length bs" arbitrary: bs rule: less_induct)
  case less
  obtain u a c where w: "walk (tl bs) = (u, a, c)" by (cases "walk (tl bs)")
  obtain u' a' c' where w': "walk (drop (utf8_head bs) bs) = (u', a', c')"
    by (cases "walk (drop (utf8_head bs) bs)")
  show ?case
  proof (cases "bs = []")
    case False
    then have "length (tl bs) < length bs" by simp
    from less [OF this] w have r: "u \<le> c" "a \<le> c" "c < length bs" using False by (cases bs; auto)+
    have "u' \<le> c' \<and> a' \<le> c' \<and> c' < length bs" if "utf8_head bs \<noteq> 0"
    proof -
      have l: "length (drop (utf8_head bs) bs) < length bs" using that False by simp
      from less [OF l] w' l show ?thesis by auto
    qed
    with r False show ?thesis by (subst walk.simps) (auto simp: w w' Let_def)
  qed (simp add: walk.simps)
qed

lemma walk_complete:
  assumes "walk bs = (c, a, c)"
  shows "\<exists>cps. (\<forall>cp \<in> set cps. text_point cp) \<and> bs = utf8_text cps \<and> length cps = c"
  using assms
proof (induction "length bs" arbitrary: bs a c rule: less_induct)
  case less
  consider "bs = []" | "bs \<noteq> []" "plain_char (hd bs)" | "bs \<noteq> []" "\<not> plain_char (hd bs)" "utf8_head bs \<noteq> 0"
    | "bs \<noteq> []" "\<not> plain_char (hd bs)" "utf8_head bs = 0" by blast
  then show ?case
  proof cases
    case 1
    then show ?thesis using less.prems by (intro exI [of _ "[]"]) (simp add: utf8_text_def walk.simps)
  next
    case 2
    obtain u a' c' where w: "walk (tl bs) = (u, a', c')" by (cases "walk (tl bs)")
    then have "u = c'" "c = c' + 1" using less.prems 2 by (simp_all add: walk.simps [of bs])
    with less.hyps [of "tl bs" c' a'] w 2 obtain cps where
      cps: "\<forall>cp \<in> set cps. text_point cp" "tl bs = utf8_text cps" "length cps = c'" by auto
    have "bs = utf8_text (unat (hd bs) # cps)"
      using 2 cps(2) plain_char_point [of "hd bs"] list.collapse [of bs] by (simp add: utf8_text_def encode_ascii)
    then show ?thesis
      using cps 2 plain_char_point [of "hd bs"] \<open>c = c' + 1\<close> by (intro exI [of _ "unat (hd bs) # cps"]) simp
  next
    case 3
    let ?n = "utf8_head bs"
    obtain cp where cp: "text_point cp" "take ?n bs = utf8_encode cp" using utf8_head_decode [OF 3(3)] by blast
    obtain u a' c' where w: "walk (drop ?n bs) = (u, a', c')" by (cases "walk (drop ?n bs)")
    then have "u = c'" "c = c' + 1" using less.prems 3 by (simp_all add: walk.simps [of bs] Let_def)
    with less.hyps [of "drop ?n bs" c' a'] w 3 obtain cps where
      cps: "\<forall>cp \<in> set cps. text_point cp" "drop ?n bs = utf8_text cps" "length cps = c'" by auto
    have "bs = utf8_text (cp # cps)"
      using cp(2) cps(2) by (metis append_take_drop_id concat.simps(2) list.simps(9) utf8_text_def)
    then show ?thesis using cps cp(1) \<open>c = c' + 1\<close> by (intro exI [of _ "cp # cps"]) simp
  next
    case 4
    obtain u a' c' where w: "walk (tl bs) = (u, a', c')" by (cases "walk (tl bs)")
    then have "c = u" "c = c' + 1" using less.prems 4 by (simp_all add: walk.simps [of bs] Let_def)
    moreover have "u \<le> c'" using walk_counts [of "tl bs"] w by simp
    ultimately show ?thesis by simp
  qed
qed

lemma ucast_u32_of_nat: "ucast (of_nat n :: u32) = (of_nat n :: u8)"
  by (rule bit_word_eqI) (simp add: bit_ucast_iff bit_of_nat_iff)

lemma text_scan_total:
  "text_scan (buf @ pad) (length buf) 0 (0, 0, length buf) = walk buf"
  by (simp add: text_scan_walk split: prod.splits)

text \<open>Property C35. The walk counts characters the way Unicode defines them: it counts at most as
  many recognised sequences as characters, and all its characters are recognised exactly when
  the buffer is the UTF-8 encoding of scalar values without control characters (overlong
  forms, surrogates and values past 10FFFF excluded); the result is the larger counter modulo
  256.\<close>

theorem check_if_text_buf_exact:
  assumes "length buf < 2 ^ 32"
  shows "case text_scan buf (length buf) 0 (0, 0, length buf) of (utf8, ascii, chars) \<Rightarrow>
    utf8 \<le> chars \<and> ascii \<le> chars \<and> chars \<le> length buf \<and>
    (utf8 = chars \<longleftrightarrow>
       (\<exists>cps. (\<forall>cp \<in> set cps. text_point cp) \<and> buf = utf8_text cps \<and> length cps = chars)) \<and>
    check_if_text_buf buf (of_nat (length buf)) = of_nat (max utf8 ascii)"
proof -
  obtain u a c where w: "walk buf = (u, a, c)" by (cases "walk buf")
  have scan: "text_scan buf (length buf) 0 (0, 0, length buf) = (u, a, c)"
    using text_scan_total [of buf "[]"] w by simp
  have "u = c" if "\<forall>cp \<in> set cps. text_point cp" "buf = utf8_text cps" for cps
    using walk_text [OF that(1)] w that(2) by simp
  moreover have "u = c \<Longrightarrow> \<exists>cps. (\<forall>cp \<in> set cps. text_point cp) \<and> buf = utf8_text cps \<and> length cps = c"
    using walk_complete [of buf c a] w by simp
  moreover have "check_if_text_buf buf (of_nat (length buf)) = of_nat (max u a)"
    using assms scan by (simp add: check_if_text_buf_def unat_of_nat max_def ucast_u32_of_nat)
  ultimately show ?thesis unfolding scan using walk_counts [of buf] w by auto
qed

theorem check_if_text_buf_exact_witness:
  "case text_scan (replicate 3 0xC3) 3 0 (0, 0, 3) of (utf8, ascii, chars) \<Rightarrow>
    utf8 \<le> chars \<and> ascii \<le> chars \<and> chars \<le> 3 \<and>
    (utf8 = chars \<longleftrightarrow> (\<exists>cps. (\<forall>cp \<in> set cps. text_point cp) \<and>
       replicate 3 0xC3 = utf8_text cps \<and> length cps = chars)) \<and>
    check_if_text_buf (replicate 3 0xC3) 3 = of_nat (max utf8 ascii)"
  using check_if_text_buf_exact [of "replicate 3 0xC3"] by (simp only: length_replicate) simp

lemma text_verdict_full:
  assumes "0 < chars" "chars < 2 ^ 20" "ascii \<le> unat len" "0 < len" "unat len < 2 ^ 20"
  shows "text_verdict len (chars, ascii, chars) = 2"
proof -
  have "unat (of_nat chars * 100 :: u32) = chars * 100"
    using assms(2) by (simp add: unat_word_ariths unat_of_nat)
  then have "unat ((ucast (of_nat chars * 100 :: u32) :: u64) div of_nat chars) = 100"
    using assms(1,2) by (simp add: unat_div unat_of_nat unsigned_ucast_eq take_bit_nat_eq_self)
  then have u: "ucast ((ucast (of_nat chars * 100 :: u32) :: u64) div of_nat chars) = (100 :: u32)"
    by (simp add: word_unat_eq_iff unsigned_ucast_eq take_bit_nat_eq_self)
  have "unat (of_nat ascii * 100 :: u32) = ascii * 100"
    using assms(3,5) by (simp add: unat_word_ariths unat_of_nat)
  then have "unat ((of_nat ascii * 100) div len :: u32) = ascii * 100 div unat len"
    by (simp add: unat_div)
  also have "\<dots> \<le> unat len * 100 div unat len" using assms(3) by (intro div_le_mono) simp
  also have "\<dots> = 100" using assms(4) by (simp add: word_less_nat_alt)
  finally have "(of_nat ascii * 100) div len \<le> 100" by (simp add: word_le_nat_alt)
  then show ?thesis unfolding text_verdict_def by (simp add: u Let_def)
qed

text \<open>The verdict on a queue entry: an entry shorter than 65535 bytes is never text,
  whatever it holds (the guard meant the interval from 12 to 65535 bytes), and neither is one whose
  file does not open; a longer one below the file limit that is UTF-8 text is reported as such.\<close>

theorem check_if_text_verdict:
  shows "(qlen < 65535 \<or> file fname = None \<longrightarrow> check_if_text file fname qlen = 0) \<and>
    (65535 \<le> qlen \<and> qlen < MAX_FILE \<and> file fname = Some (utf8_text cps) \<and>
       unat qlen = length (utf8_text cps) \<and> (\<forall>cp \<in> set cps. text_point cp) \<longrightarrow>
     check_if_text file fname qlen = 2)"
proof (intro conjI impI)
  assume "qlen < 65535 \<or> file fname = None"
  then show "check_if_text file fname qlen = 0" by (auto simp: check_if_text_def)
next
  assume a: "65535 \<le> qlen \<and> qlen < MAX_FILE \<and> file fname = Some (utf8_text cps) \<and>
       unat qlen = length (utf8_text cps) \<and> (\<forall>cp \<in> set cps. text_point cp)"
  let ?t = "utf8_text cps"
  have lim: "65535 \<le> unat qlen" "unat qlen < 2 ^ 20" using a by (simp_all add: u8_nat)
  have w: "walk ?t = (length cps, length (filter (\<lambda>cp. cp < 0x80) cps), length cps)"
    using a by (intro walk_text) simp
  have c: "length cps \<le> unat qlen" using walk_counts [of ?t] w a by simp
  moreover have "length (filter (\<lambda>cp. cp < 0x80) cps) \<le> unat qlen"
    using length_filter_le c by (rule order_trans)
  moreover have "0 < length cps" using lim a by (cases cps) (simp_all add: utf8_text_def)
  ultimately have "text_verdict qlen (walk ?t) = 2"
    unfolding w using lim by (intro text_verdict_full) (simp_all add: word_less_nat_alt)
  moreover have "check_if_text file fname qlen = text_verdict qlen (walk ?t)"
    using a text_scan_total [of ?t "[0]"] by (simp add: check_if_text_def not_le not_less word_le_nat_alt [of 12] u8_nat)
  ultimately show "check_if_text file fname qlen = 2" by simp
qed

lemma utf8_text_replicate: "cp < 0x80 \<Longrightarrow> utf8_text (replicate n cp) = replicate n (of_nat cp)"
  by (induction n) (simp_all add: utf8_text_def utf8_encode_def)

theorem check_if_text_verdict_witness:
  "check_if_text (\<lambda>_. Some (replicate 65534 0x41)) ''f'' 65534 = 0 \<and>
   check_if_text (\<lambda>_. Some (replicate 65535 0x41)) ''f'' 65535 = 2"
  using check_if_text_verdict [of 65534 "\<lambda>_. Some (replicate 65534 0x41)" "''f''" "[]"]
    check_if_text_verdict [of 65535 "\<lambda>_. Some (replicate 65535 0x41)" "''f''" "replicate 65535 0x41"]
  by (simp add: utf8_text_replicate text_point_def)

end
