(* ===== verification/Doubles.thy ===== *)
theory Doubles
  imports Complex_Main "HOL-Library.Word" Afl_Prelude
begin

text \<open>
  The \<^verbatim>\<open>double\<close> arithmetic the scheduler uses. IEEE arithmetic is not part of the model: the
  operations are a record of functions that every definition with a \<^verbatim>\<open>double\<close> in it takes as
  its first argument. Theorems that hold for every such record hold whatever the rounding is;
  theorems about probabilities are stated for the exact operations on rationals. \<open>d_addl\<close> and
  \<open>d_divl\<close> are the \<^verbatim>\<open>long double\<close> operations.
\<close>

record 'd dops =
  d_lit :: "rat \<Rightarrow> 'd"
  d_add :: "'d \<Rightarrow> 'd \<Rightarrow> 'd"
  d_sub :: "'d \<Rightarrow> 'd \<Rightarrow> 'd"
  d_mul :: "'d \<Rightarrow> 'd \<Rightarrow> 'd"
  d_div :: "'d \<Rightarrow> 'd \<Rightarrow> 'd"
  d_less :: "'d \<Rightarrow> 'd \<Rightarrow> bool"
  d_leq :: "'d \<Rightarrow> 'd \<Rightarrow> bool"
  d_log :: "'d \<Rightarrow> 'd"
  d_log2 :: "'d \<Rightarrow> 'd"
  d_log10 :: "'d \<Rightarrow> 'd"
  d_u32 :: "'d \<Rightarrow> u32"
  d_addl :: "'d \<Rightarrow> 'd \<Rightarrow> 'd"
  d_divl :: "'d \<Rightarrow> 'd \<Rightarrow> 'd"

text \<open>The conversions of an unsigned integer to \<^verbatim>\<open>double\<close>.\<close>

definition d_word :: "'d dops \<Rightarrow> 'w::len word \<Rightarrow> 'd" where
  "d_word D w = d_lit D (of_nat (unat w))"

text \<open>Exact rational arithmetic; the logarithms stay parameters.\<close>

definition exact_dops :: "(rat \<Rightarrow> rat) \<Rightarrow> (rat \<Rightarrow> rat) \<Rightarrow> (rat \<Rightarrow> rat) \<Rightarrow> rat dops" where
  "exact_dops ln2 lb lg = \<lparr>d_lit = (\<lambda>x. x), d_add = (+), d_sub = (-), d_mul = (*), d_div = (/),
     d_less = (<), d_leq = (\<le>), d_log = ln2, d_log2 = lb, d_log10 = lg,
     d_u32 = (\<lambda>x. of_int \<lfloor>x\<rfloor>), d_addl = (+), d_divl = (/)\<rparr>"

end
