(* ===== verification/Queue.thy ===== *)
theory Queue
  imports Bitmap Text_Check Doubles
begin

text \<open>
  The corpus of \<^verbatim>\<open>AFLplusplus/src/afl-fuzz-queue.c\<close>: queue entries, the \<^verbatim>\<open>top_rated\<close> slots,
  and the favoured set that \<^verbatim>\<open>cull_queue\<close> computes from them. A \<^verbatim>\<open>struct queue_entry *\<close> is
  the index of the entry in \<^verbatim>\<open>queue_buf\<close>, which only ever grows at its end, so two pointers
  are equal exactly when the indices are, and every write through a pointer is an update at
  the index.
\<close>

section \<open>State\<close>

record 'd queue_entry =
  q_fname :: string
  q_len :: u32
  q_id :: u32
  q_trim_done :: bool
  q_was_fuzzed :: bool
  q_passed_det :: bool
  q_has_new_cov :: bool
  q_var_behavior :: bool
  q_favored :: bool
  q_fs_redundant :: bool
  q_is_ascii :: bool
  q_disabled :: bool
  q_bitmap_size :: u32
  q_fuzz_level :: u32
  q_n_fuzz_entry :: u32
  q_exec_us :: u64
  q_handicap :: u64
  q_depth :: u64
  q_exec_cksum :: u64
  q_tc_ref :: u32
  q_perf_score :: 'd
  q_weight :: 'd
  q_mother :: "nat option"
  q_trace_mini :: "bytes option"
  q_testcase_buf :: "bytes option"

text \<open>
  The members of \<^verbatim>\<open>afl_state_t\<close> that the queue code uses, on top of those of the coverage
  map. \<^verbatim>\<open>NULL\<close> is \<open>None\<close>; a candidate list is the array \<^verbatim>\<open>[count][id1][id2]...\<close>.
\<close>

record 'd queue_state = bitmap_state +
  queue_buf :: "'d queue_entry list"
  queued_items :: u32
  active_items :: u32
  pending_not_fuzzed :: u32
  queued_favored :: u32
  pending_favored :: u32
  cur_depth :: u32
  max_depth :: u32
  ready_for_splicing_count :: u32
  cycles_wo_finds :: u64
  queue_head :: "nat option"
  queue_top :: "nat option"
  queue_cur :: "nat option"
  top_rated :: "nat option list"
  top_rated_candidates :: "u32 list option list"
  last_scored_idx :: int
  smallest_favored :: int
  score_changed :: bool
  reinit_table :: bool
  schedule :: nat
  fixed_seed :: bool
  non_instrumented_mode :: bool
  afl_disable_redundant :: bool
  cmplog_mode :: bool
  custom_mutators_count :: u32
  syncing_party :: bool
  n_fuzz :: "u32 list"
  map_tmp_buf :: bytes
  start_time :: u64
  last_find_time :: u64
  longest_find_time :: u64

text \<open>Power schedules, in the order of the \<^verbatim>\<open>enum\<close>.\<close>

abbreviation (input) EXPLORE :: nat where "EXPLORE \<equiv> 0"
abbreviation (input) MMOPT :: nat where "MMOPT \<equiv> 1"
abbreviation (input) EXPLOIT :: nat where "EXPLOIT \<equiv> 2"
abbreviation (input) FAST :: nat where "FAST \<equiv> 3"
abbreviation (input) COE :: nat where "COE \<equiv> 4"
abbreviation (input) LIN :: nat where "LIN \<equiv> 5"
abbreviation (input) QUAD :: nat where "QUAD \<equiv> 6"
abbreviation (input) RARE :: nat where "RARE \<equiv> 7"
abbreviation (input) SEEK :: nat where "SEEK \<equiv> 8"

definition upd_entry ::
  "nat \<Rightarrow> ('d queue_entry \<Rightarrow> 'd queue_entry) \<Rightarrow> ('d, 'a) queue_state_scheme \<Rightarrow> ('d, 'a) queue_state_scheme" where
  "upd_entry q f s = s\<lparr>queue_buf := (queue_buf s)[q := f (queue_buf s ! q)]\<rparr>"

abbreviation entry :: "('d, 'a) queue_state_scheme \<Rightarrow> nat \<Rightarrow> 'd queue_entry" where
  "entry s q \<equiv> queue_buf s ! q"

section \<open>Operations\<close>

text \<open>
  \<^verbatim>\<open>mark_as_det_done\<close> creates the marker file with \<^verbatim>\<open>O_EXCL\<close> and stops the fuzzer when that
  fails. \<open>files\<close> is the set of existing markers, \<open>chown_ok\<close> says that ownership needs no
  change or that changing it works.
\<close>

datatype fatal = PFATAL string

definition basename :: "string \<Rightarrow> string" where
  "basename path = rev (takeWhile (\<lambda>c. c \<noteq> CHR ''/'') (rev path))"

definition mark_as_det_done ::
  "bool \<Rightarrow> nat \<Rightarrow> string set \<times> ('d, 'a) queue_state_scheme \<Rightarrow> fatal + string set \<times> ('d, 'a) queue_state_scheme" where
  "mark_as_det_done chown_ok q = (\<lambda>(files, s).
     let fn = ''queue/.state/deterministic_done/'' @ basename (q_fname (entry s q)) in
     if fn \<in> files then Inl (PFATAL ''Unable to create'')
     else if \<not> chown_ok then Inl (PFATAL ''fchown() failed'')
     else Inr (insert fn files, upd_entry q (\<lambda>e. e\<lparr>q_passed_det := True\<rparr>) s))"

definition mark_as_redundant ::
  "nat \<Rightarrow> bool \<Rightarrow> ('d, 'a) queue_state_scheme \<Rightarrow> ('d, 'a) queue_state_scheme" where
  "mark_as_redundant q state s =
     (if state = q_fs_redundant (entry s q) then s
      else (let s = upd_entry q (\<lambda>e. e\<lparr>q_fs_redundant := state\<rparr>) s;
                s = (if q_fs_redundant (entry s q)
                     then upd_entry q (\<lambda>e. e\<lparr>q_trace_mini := None\<rparr>) s else s)
            in if state \<and> afl_disable_redundant s
               then upd_entry q (\<lambda>e. e\<lparr>q_disabled := True\<rparr>) s else s))"

text \<open>
  \<^verbatim>\<open>add_to_queue\<close>. \<open>cur_time\<close> is what \<^verbatim>\<open>get_cur_time\<close> returns, \<open>file\<close> the file system that
  \<^verbatim>\<open>check_if_text\<close> reads, \<open>hook\<close> the effect of the custom mutators' \<^verbatim>\<open>queue_new_entry\<close>
  callbacks. Fields that \<^verbatim>\<open>ck_alloc\<close> leaves zero are zero.
\<close>

definition fresh_entry :: "'d dops \<Rightarrow> string \<Rightarrow> u32 \<Rightarrow> bool \<Rightarrow> ('d, 'a) queue_state_scheme \<Rightarrow> 'd queue_entry" where
  "fresh_entry D fname len passed_det s =
     \<lparr>q_fname = fname, q_len = len, q_id = 0, q_trim_done = False, q_was_fuzzed = False,
      q_passed_det = passed_det, q_has_new_cov = False, q_var_behavior = False,
      q_favored = False, q_fs_redundant = False, q_is_ascii = False, q_disabled = False,
      q_bitmap_size = 0, q_fuzz_level = 0, q_n_fuzz_entry = 0, q_exec_us = 0, q_handicap = 0,
      q_depth = ucast (cur_depth s + 1), q_exec_cksum = 0, q_tc_ref = 0,
      q_perf_score = d_lit D 100, q_weight = d_lit D 1, q_mother = queue_cur s,
      q_trace_mini = None, q_testcase_buf = None\<rparr>"

definition link_entry :: "'d queue_entry \<Rightarrow> ('d, 'a) queue_state_scheme \<Rightarrow> ('d, 'a) queue_state_scheme" where
  "link_entry e s =
     (let q = length (queue_buf s) in
      s\<lparr>max_depth := (if ucast (max_depth s) < q_depth e then ucast (q_depth e) else max_depth s),
        queue_head := (if queue_top s \<noteq> None then queue_head s else Some q),
        queue_top := Some q,
        ready_for_splicing_count := (if 4 < q_len e then ready_for_splicing_count s + 1
                                     else ready_for_splicing_count s),
        queued_items := queued_items s + 1, active_items := active_items s + 1,
        pending_not_fuzzed := pending_not_fuzzed s + 1, cycles_wo_finds := 0,
        queue_buf := queue_buf s @ [e\<lparr>q_id := (queued_items s + 1) - 1\<rparr>]\<rparr>)"

definition note_find_time :: "u64 \<Rightarrow> ('d, 'a) queue_state_scheme \<Rightarrow> ('d, 'a) queue_state_scheme" where
  "note_find_time cur_time s =
     s\<lparr>longest_find_time :=
         (if start_time s \<noteq> 0 \<and> longest_find_time s < cur_time - last_find_time s
          then (if last_find_time s = 0 then cur_time - start_time s else cur_time - last_find_time s)
          else longest_find_time s),
       last_find_time := cur_time\<rparr>"

definition add_to_queue ::
  "'d dops \<Rightarrow> u64 \<Rightarrow> (string \<Rightarrow> bytes option) \<Rightarrow>
   (nat \<Rightarrow> ('d, 'a) queue_state_scheme \<Rightarrow> ('d, 'a) queue_state_scheme) \<Rightarrow>
   string \<Rightarrow> u32 \<Rightarrow> bool \<Rightarrow> ('d, 'a) queue_state_scheme \<Rightarrow> ('d, 'a) queue_state_scheme" where
  "add_to_queue D cur_time file hook fname len passed_det s =
     (let q = length (queue_buf s);
          s = note_find_time cur_time (link_entry (fresh_entry D fname len passed_det s) s);
          s = (if custom_mutators_count s \<noteq> 0 \<and> queue_cur s \<noteq> None \<and> \<not> syncing_party s
               then hook q s else s)
      in if cmplog_mode s \<and> \<not> q_is_ascii (entry s q)
         then upd_entry q (\<lambda>e. e\<lparr>q_is_ascii := (check_if_text file (q_fname e) (q_len e) \<noteq> 0)\<rparr>) s
         else s)"

text \<open>\<^verbatim>\<open>next_pow2\<close> of \<^verbatim>\<open>alloc-inl.h\<close> on a 64-bit \<^verbatim>\<open>size_t\<close>.\<close>

definition next_pow2 :: "u64 \<Rightarrow> u64" where
  "next_pow2 i = (let out = i - 1; out = out OR drop_bit 1 out; out = out OR drop_bit 2 out;
      out = out OR drop_bit 4 out; out = out OR drop_bit 8 out; out = out OR drop_bit 16 out
      in out + 1)"

text \<open>The two keys an entry competes with; \<^verbatim>\<open>q->len << 2\<close> is a 32-bit shift.\<close>

definition fuzz_p2 :: "('d, 'a) queue_state_scheme \<Rightarrow> 'd queue_entry \<Rightarrow> u64" where
  "fuzz_p2 s e = (if FAST \<le> schedule s \<and> schedule s < RARE then 0
     else if schedule s = RARE then next_pow2 (ucast (n_fuzz s ! unat (q_n_fuzz_entry e)))
     else ucast (q_fuzz_level e))"

definition fav_factor :: "('d, 'a) queue_state_scheme \<Rightarrow> 'd queue_entry \<Rightarrow> u64" where
  "fav_factor s e = (if RARE \<le> schedule s \<or> fixed_seed s then ucast (push_bit 2 (q_len e))
     else q_exec_us e * ucast (q_len e))"

text \<open>
  What \<^verbatim>\<open>update_bitmap_score\<close> and \<^verbatim>\<open>update_bitmap_rescore\<close> do with one slot: compare with the
  holder, drop its reference, take the slot, build the compact trace. They differ in the
  number of bytes they allocate for it.
\<close>

definition drop_ref :: "nat \<Rightarrow> ('d, 'a) queue_state_scheme \<Rightarrow> ('d, 'a) queue_state_scheme" where
  "drop_ref t s =
     (let s = upd_entry t (\<lambda>e. e\<lparr>q_tc_ref := q_tc_ref e - 1\<rparr>) s
      in if q_tc_ref (entry s t) = 0 then upd_entry t (\<lambda>e. e\<lparr>q_trace_mini := None\<rparr>) s else s)"

definition take_slot :: "u32 \<Rightarrow> nat \<Rightarrow> nat \<Rightarrow> ('d, 'a) queue_state_scheme \<Rightarrow> ('d, 'a) queue_state_scheme" where
  "take_slot mini_len q i s =
     (let s = s\<lparr>top_rated := (top_rated s)[i := Some q]\<rparr>;
          s = upd_entry q (\<lambda>e. e\<lparr>q_tc_ref := q_tc_ref e + 1\<rparr>) s;
          s = (if q_trace_mini (entry s q) = None
               then upd_entry q (\<lambda>e. e\<lparr>q_trace_mini := Some (minimize_bits (map_size s)
                      (replicate (unat mini_len) 0) (trace_bits s))\<rparr>) s
               else s)
      in s\<lparr>score_changed := True\<rparr>)"

definition contend ::
  "u32 \<Rightarrow> u64 \<Rightarrow> u64 \<Rightarrow> nat \<Rightarrow> nat \<Rightarrow> ('d, 'a) queue_state_scheme \<Rightarrow> ('d, 'a) queue_state_scheme" where
  "contend mini_len p2 fav q i s =
     (case top_rated s ! i of
        None \<Rightarrow> take_slot mini_len q i s
      | Some t \<Rightarrow>
          (if fuzz_p2 s (entry s t) < p2 then s
           else if fav_factor s (entry s t) < fav then s
           else take_slot mini_len q i (drop_ref t s)))"

definition update_bitmap_score ::
  "nat \<Rightarrow> bool \<Rightarrow> ('d, 'a) queue_state_scheme \<Rightarrow> ('d, 'a) queue_state_scheme" where
  "update_bitmap_score q have_trace s =
     (if q_disabled (entry s q) then s
      else (let p2 = fuzz_p2 s (entry s q); fav = fav_factor s (entry s q) in
        if have_trace then
          fold (\<lambda>i s. if trace_bits s ! i \<noteq> 0
                      then contend (drop_bit 3 (map_size s + 7)) p2 fav q i s else s)
            [0..<unat (map_size s)] s
        else s))"

definition update_bitmap_rescore ::
  "nat \<Rightarrow> nat \<Rightarrow> ('d, 'a) queue_state_scheme \<Rightarrow> ('d, 'a) queue_state_scheme" where
  "update_bitmap_rescore q index s =
     (if q_disabled (entry s q) then s
      else contend (drop_bit 3 (map_size s)) (fuzz_p2 s (entry s q)) (fav_factor s (entry s q))
             q index s)"

text \<open>
  \<^verbatim>\<open>recalculate_all_scores\<close>. Running the target is outside the program: \<open>run\<close> gives the trace
  that executing an entry leaves in the shared map.
\<close>

definition enroll :: "u32 \<Rightarrow> u32 list option \<Rightarrow> u32 list" where
  "enroll ident c = (case c of
       None \<Rightarrow> [1, ident]
     | Some ids \<Rightarrow> (ids[0 := ids ! 0 + 1]) @ [ident])"

definition rescore_collect ::
  "(nat \<Rightarrow> bytes) \<Rightarrow> nat \<Rightarrow> ('d, 'a) queue_state_scheme \<Rightarrow> ('d, 'a) queue_state_scheme" where
  "rescore_collect run i s =
     (let s = (if \<not> q_disabled (entry s i) then
                 (let s = s\<lparr>trace_bits := run i\<rparr> in
                  s\<lparr>top_rated_candidates :=
                      fold (\<lambda>j cs. if trace_bits s ! j \<noteq> 0
                                   then cs[j := Some (enroll (q_id (entry s i)) (cs ! j))] else cs)
                        [0..<unat (map_size s)] (top_rated_candidates s)\<rparr>)
               else s)
      in s\<lparr>last_scored_idx := int i\<rparr>)"

definition rescore_slot :: "nat \<Rightarrow> ('d, 'a) queue_state_scheme \<Rightarrow> ('d, 'a) queue_state_scheme" where
  "rescore_slot i s =
     (case top_rated_candidates s ! i of
        None \<Rightarrow> s
      | Some ids \<Rightarrow>
          fold (\<lambda>k. update_bitmap_rescore (unat (ids ! (k + 1))) i) [0..<unat (ids ! 0)] s)"

definition recalculate_all_scores ::
  "(nat \<Rightarrow> bytes) \<Rightarrow> ('d, 'a) queue_state_scheme \<Rightarrow> ('d, 'a) queue_state_scheme" where
  "recalculate_all_scores run s =
     (let s = fold (rescore_collect run) [nat (last_scored_idx s + 1)..<unat (queued_items s)] s
      in fold rescore_slot [0..<unat (map_size s)] s)"

text \<open>\<^verbatim>\<open>cull_queue\<close>: the inner \<^verbatim>\<open>while (j--)\<close>, one slot, the whole pass.\<close>

definition mask_out :: "nat \<Rightarrow> bytes \<Rightarrow> bytes \<Rightarrow> bytes" where
  "mask_out len mini temp_v =
     fold (\<lambda>j v. if mini ! j \<noteq> 0 then v[j := v ! j AND NOT (mini ! j)] else v) (rev [0..<len]) temp_v"

definition favor :: "nat \<Rightarrow> ('d, 'a) queue_state_scheme \<Rightarrow> ('d, 'a) queue_state_scheme" where
  "favor t s =
     (if \<not> q_favored (entry s t) \<and> \<not> q_disabled (entry s t) then
        (let s = upd_entry t (\<lambda>e. e\<lparr>q_favored := True\<rparr>) s;
             s = s\<lparr>queued_favored := queued_favored s + 1\<rparr>
         in if \<not> q_was_fuzzed (entry s t) then
              (let s = s\<lparr>pending_favored := pending_favored s + 1\<rparr> in
               if smallest_favored s < 0 \<or> uint (q_id (entry s t)) < smallest_favored s
               then s\<lparr>smallest_favored := uint (q_id (entry s t))\<rparr> else s)
            else s)
      else s)"

definition cull_slot ::
  "nat \<Rightarrow> nat \<Rightarrow> bytes \<times> ('d, 'a) queue_state_scheme \<Rightarrow> bytes \<times> ('d, 'a) queue_state_scheme" where
  "cull_slot len i = (\<lambda>(temp_v, s).
     case top_rated s ! i of
       None \<Rightarrow> (temp_v, s)
     | Some t \<Rightarrow>
         (case q_trace_mini (entry s t) of
            None \<Rightarrow> (temp_v, s)
          | Some mini \<Rightarrow>
              (if temp_v ! (i div 8) AND push_bit (i mod 8) 1 \<noteq> 0
               then (mask_out len mini temp_v, favor t s) else (temp_v, s))))"

definition cull_queue :: "('d, 'a) queue_state_scheme \<Rightarrow> ('d, 'a) queue_state_scheme" where
  "cull_queue s =
     (if \<not> score_changed s \<or> non_instrumented_mode s then s
      else (let len = unat (drop_bit 3 (map_size s));
                s = s\<lparr>score_changed := False\<rparr>;
                temp_v = replicate len 255 @ drop len (map_tmp_buf s);
                s = s\<lparr>queued_favored := 0, pending_favored := 0\<rparr>;
                s = fold (\<lambda>i. upd_entry i (\<lambda>e. e\<lparr>q_favored := False\<rparr>)) [0..<unat (queued_items s)] s;
                s = s\<lparr>smallest_favored := - 1\<rparr>;
                (temp_v, s) = fold (cull_slot len) [0..<unat (map_size s)] (temp_v, s);
                s = s\<lparr>map_tmp_buf := temp_v\<rparr>;
                s = fold (\<lambda>i s. if \<not> q_disabled (entry s i)
                                then mark_as_redundant i (\<not> q_favored (entry s i)) s else s)
                      [0..<unat (queued_items s)] s
            in s\<lparr>reinit_table := True\<rparr>))"

section \<open>Updates of one entry\<close>

lemma upd_entry_more [simp]:
  "length (queue_buf (upd_entry q f s)) = length (queue_buf s)"
  "q < length (queue_buf s) \<Longrightarrow> entry (upd_entry q f s) t = (if t = q then f (entry s q) else entry s t)"
  "top_rated (upd_entry q f s) = top_rated s"
  "map_size (upd_entry q f s) = map_size s"
  "trace_bits (upd_entry q f s) = trace_bits s"
  "schedule (upd_entry q f s) = schedule s" "fixed_seed (upd_entry q f s) = fixed_seed s"
  "n_fuzz (upd_entry q f s) = n_fuzz s" "queued_items (upd_entry q f s) = queued_items s"
  "afl_disable_redundant (upd_entry q f s) = afl_disable_redundant s"
  "score_changed (upd_entry q f s) = score_changed s"
  "queued_favored (upd_entry q f s) = queued_favored s"
  "pending_favored (upd_entry q f s) = pending_favored s"
  "smallest_favored (upd_entry q f s) = smallest_favored s"
  "top_rated_candidates (upd_entry q f s) = top_rated_candidates s"
  by (simp_all add: upd_entry_def)

end
