(* ===== verification/Queue_Slots.thy ===== *)
theory Queue_Slots
  imports Queue Bitmap_Props
begin

text \<open>
  Contending for the \<^verbatim>\<open>top_rated\<close> slots: \<^verbatim>\<open>update_bitmap_score\<close>, \<^verbatim>\<open>update_bitmap_rescore\<close>
  and \<^verbatim>\<open>recalculate_all_scores\<close>. The invariant counts references exactly and ties the compact
  traces to the slots; a slot moves only down in the order on the two keys.
\<close>

section \<open>Invariants\<close>

text \<open>The part of an entry that contending for slots does not touch.\<close>

definition core :: "'d queue_entry \<Rightarrow> 'd queue_entry" where
  "core e = e\<lparr>q_tc_ref := 0, q_trace_mini := None\<rparr>"

text \<open>The part of the state that contending for slots does not touch.\<close>

definition frame :: "('d, 'a) queue_state_scheme \<Rightarrow> ('d, 'a) queue_state_scheme" where
  "frame s = s\<lparr>queue_buf := map core (queue_buf s), top_rated := [], score_changed := False\<rparr>"

definition beats :: "('d, 'a) queue_state_scheme \<Rightarrow> u64 \<Rightarrow> u64 \<Rightarrow> nat \<Rightarrow> bool" where
  "beats s p2 fav i \<longleftrightarrow> (case top_rated s ! i of None \<Rightarrow> True
     | Some t \<Rightarrow> p2 \<le> fuzz_p2 s (entry s t) \<and> fav \<le> fav_factor s (entry s t))"

definition unhold :: "nat \<Rightarrow> ('d, 'a) queue_state_scheme \<Rightarrow> ('d, 'a) queue_state_scheme" where
  "unhold i s = (case top_rated s ! i of None \<Rightarrow> s | Some t \<Rightarrow> drop_ref t s)"

definition refs_ok :: "('d, 'a) queue_state_scheme \<Rightarrow> bool" where
  "refs_ok s \<longleftrightarrow> length (top_rated s) < 2 ^ 32 \<and>
     (\<forall>i < length (top_rated s). \<forall>t. top_rated s ! i = Some t \<longrightarrow> t < length (queue_buf s)) \<and>
     (\<forall>t < length (queue_buf s). unat (q_tc_ref (entry s t)) = count_list (top_rated s) (Some t))"

definition score_body ::
  "nat \<Rightarrow> u64 \<Rightarrow> u64 \<Rightarrow> nat \<Rightarrow> ('d, 'a) queue_state_scheme \<Rightarrow> ('d, 'a) queue_state_scheme" where
  "score_body q p2 fav i s = (if trace_bits s ! i \<noteq> 0
     then contend (drop_bit 3 (map_size s + 7)) p2 fav q i s else s)"

definition covers :: "u32 \<Rightarrow> bytes \<Rightarrow> nat \<Rightarrow> bool" where
  "covers msize m i \<longleftrightarrow> unat msize \<le> 8 * length m \<and> bit (m ! (i div 8)) (i mod 8)"

definition minis_ok :: "('d, 'a) queue_state_scheme \<Rightarrow> bool" where
  "minis_ok s \<longleftrightarrow> (\<forall>i < length (top_rated s). \<forall>t m. top_rated s ! i = Some t \<longrightarrow>
     q_trace_mini (entry s t) = Some m \<longrightarrow> covers (map_size s) m i)"

text \<open>Entry q and the current trace belong together: what q holds lies in the trace.\<close>

definition traced :: "nat \<Rightarrow> ('d, 'a) queue_state_scheme \<Rightarrow> bool" where
  "traced q s \<longleftrightarrow>
     (\<forall>i < length (top_rated s). top_rated s ! i = Some q \<longrightarrow> trace_bits s ! i \<noteq> 0) \<and>
     (\<forall>m. q_trace_mini (entry s q) = Some m \<longrightarrow>
        (\<forall>i < unat (map_size s). trace_bits s ! i \<noteq> 0 \<longrightarrow> covers (map_size s) m i))"

text \<open>The well-formed corpus.\<close>

definition corpus_ok :: "('d, 'a) queue_state_scheme \<Rightarrow> bool" where
  "corpus_ok s \<longleftrightarrow> refs_ok s \<and> minis_ok s \<and> length (top_rated s) = unat (map_size s) \<and>
     unat (map_size s) + 7 < 2 ^ 32 \<and> unat (queued_items s) = length (queue_buf s)"

text \<open>No worse than on both keys; a slot only moves down in this order.\<close>

definition no_worse :: "('d, 'a) queue_state_scheme \<Rightarrow> nat \<Rightarrow> nat \<Rightarrow> bool" where
  "no_worse s a b \<longleftrightarrow> fuzz_p2 s (entry s a) \<le> fuzz_p2 s (entry s b) \<and>
     fav_factor s (entry s a) \<le> fav_factor s (entry s b)"

definition cand_ok :: "nat \<Rightarrow> nat \<Rightarrow> u32 list option \<Rightarrow> bool" where
  "cand_ok n most c \<longleftrightarrow> (case c of None \<Rightarrow> True
     | Some ids \<Rightarrow> ids \<noteq> [] \<and> unat (ids ! 0) = length (tl ids) \<and> length (tl ids) \<le> most \<and>
         (\<forall>x \<in> set (tl ids). unat x < n))"

definition cand_set :: "u32 list option \<Rightarrow> u32 set" where
  "cand_set c = (case c of None \<Rightarrow> {} | Some ids \<Rightarrow> set (tl ids))"

definition cands_ok :: "('d, 'a) queue_state_scheme \<Rightarrow> bool" where
  "cands_ok s \<longleftrightarrow> - 1 \<le> last_scored_idx s \<and> nat (last_scored_idx s + 1) \<le> length (queue_buf s) \<and>
     length (queue_buf s) < 2 ^ 32 - 1 \<and> length (top_rated_candidates s) = unat (map_size s) \<and>
     (\<forall>j < unat (map_size s). cand_ok (length (queue_buf s)) (nat (last_scored_idx s + 1)) (top_rated_candidates s ! j)) \<and>
     (\<forall>t < length (queue_buf s). unat (q_id (entry s t)) = t)"

definition minimal_at :: "('d, 'a) queue_state_scheme \<Rightarrow> nat option \<Rightarrow> nat set \<Rightarrow> bool" where
  "minimal_at s holder E \<longleftrightarrow> (\<forall>e \<in> E. \<not> q_disabled (entry s e) \<longrightarrow>
     (\<exists>w. holder = Some w \<and> (no_worse s e w \<longrightarrow> no_worse s w e)))"

section \<open>Lemmas\<close>

lemma core_upd [simp]:
  "core (e\<lparr>q_tc_ref := x\<rparr>) = core e" "core (e\<lparr>q_trace_mini := y\<rparr>) = core e"
  by (simp_all add: core_def)

lemma core_fields:
  assumes "core e = core e'"
  shows "q_len e = q_len e'" "q_exec_us e = q_exec_us e'" "q_fuzz_level e = q_fuzz_level e'"
    "q_n_fuzz_entry e = q_n_fuzz_entry e'" "q_disabled e = q_disabled e'" "q_id e = q_id e'"
    "q_favored e = q_favored e'" "q_was_fuzzed e = q_was_fuzzed e'" "q_fs_redundant e = q_fs_redundant e'"
proof -
  have "f (core e) = f (core e')" for f :: "'a queue_entry \<Rightarrow> 'b" using assms by simp
  from this [of q_len] this [of q_exec_us] this [of q_fuzz_level] this [of q_n_fuzz_entry]
    this [of q_disabled] this [of q_id] this [of q_favored] this [of q_was_fuzzed] this [of q_fs_redundant]
  show "q_len e = q_len e'" "q_exec_us e = q_exec_us e'" "q_fuzz_level e = q_fuzz_level e'"
    "q_n_fuzz_entry e = q_n_fuzz_entry e'" "q_disabled e = q_disabled e'" "q_id e = q_id e'"
    "q_favored e = q_favored e'" "q_was_fuzzed e = q_was_fuzzed e'" "q_fs_redundant e = q_fs_redundant e'"
    by (simp_all add: core_def)
qed

lemma frame_fields:
  assumes "frame s = frame s'"
  shows "map_size s = map_size s'" "trace_bits s = trace_bits s'" "schedule s = schedule s'"
    "fixed_seed s = fixed_seed s'" "n_fuzz s = n_fuzz s'" "queued_items s = queued_items s'"
    "top_rated_candidates s = top_rated_candidates s'"
    "map core (queue_buf s) = map core (queue_buf s')"
proof -
  have "map_size (frame s) = map_size (frame s')" "trace_bits (frame s) = trace_bits (frame s')"
    "schedule (frame s) = schedule (frame s')" "fixed_seed (frame s) = fixed_seed (frame s')"
    "n_fuzz (frame s) = n_fuzz (frame s')" "queued_items (frame s) = queued_items (frame s')"
    "top_rated_candidates (frame s) = top_rated_candidates (frame s')"
    "queue_buf (frame s) = queue_buf (frame s')" using assms by simp_all
  then show "map_size s = map_size s'" "trace_bits s = trace_bits s'" "schedule s = schedule s'"
    "fixed_seed s = fixed_seed s'" "n_fuzz s = n_fuzz s'" "queued_items s = queued_items s'"
    "top_rated_candidates s = top_rated_candidates s'"
    "map core (queue_buf s) = map core (queue_buf s')"
    by (simp_all add: frame_def)
qed

lemma frame_length: "frame s = frame s' \<Longrightarrow> length (queue_buf s) = length (queue_buf s')"
  using frame_fields(8) by (metis length_map)

lemma frame_core:
  "frame s = frame s' \<Longrightarrow> t < length (queue_buf s) \<Longrightarrow> core (entry s t) = core (entry s' t)"
  using frame_fields(8) [of s s'] frame_length [of s s'] by (metis nth_map)

lemma frame_keys:
  assumes "frame s = frame s'" "t < length (queue_buf s)"
  shows "fuzz_p2 s (entry s t) = fuzz_p2 s' (entry s' t)"
    "fav_factor s (entry s t) = fav_factor s' (entry s' t)"
    "q_disabled (entry s t) = q_disabled (entry s' t)"
  using frame_fields [OF assms(1)] core_fields [OF frame_core [OF assms]]
  by (simp_all add: fuzz_p2_def fav_factor_def)

lemma frame_upd_core:
  assumes "\<And>e. core (f e) = core e"
  shows "frame (upd_entry q f s) = frame s"
proof -
  have "map core ((queue_buf s)[q := f (entry s q)]) = map core (queue_buf s)"
    using assms by (metis list_update_id map_update)
  then show ?thesis by (simp add: frame_def upd_entry_def)
qed

lemma frame_other [simp]:
  "frame (s\<lparr>top_rated := x\<rparr>) = frame s" "frame (s\<lparr>score_changed := y\<rparr>) = frame s"
  by (simp_all add: frame_def)

lemma contend_lose: "\<not> beats s p2 fav i \<Longrightarrow> contend L p2 fav q i s = s"
  by (auto simp: beats_def contend_def split: option.splits)

lemma contend_win: "beats s p2 fav i \<Longrightarrow> contend L p2 fav q i s = take_slot L q i (unhold i s)"
  by (auto simp: beats_def contend_def unhold_def split: option.splits)

lemma frame_drop_ref: "frame (drop_ref t s) = frame s"
  by (simp add: drop_ref_def Let_def frame_upd_core)

lemma frame_take_slot: "frame (take_slot L q i s) = frame s"
  by (simp add: take_slot_def Let_def frame_upd_core)

lemma frame_contend: "frame (contend L p2 fav q i s) = frame s"
  by (simp add: contend_def frame_drop_ref frame_take_slot split: option.splits)

lemma unhold_effect:
  assumes "\<forall>t. top_rated s ! i = Some t \<longrightarrow> t < length (queue_buf s)"
  shows "top_rated (unhold i s) = top_rated s" "frame (unhold i s) = frame s"
    "length (queue_buf (unhold i s)) = length (queue_buf s)"
    "q_tc_ref (entry (unhold i s) u) = q_tc_ref (entry s u) - (if top_rated s ! i = Some u then 1 else 0)"
    "q_trace_mini (entry (unhold i s) u) = q_trace_mini (entry s u) \<or> q_trace_mini (entry (unhold i s) u) = None"
    "top_rated s ! i \<noteq> Some u \<Longrightarrow> q_trace_mini (entry (unhold i s) u) = q_trace_mini (entry s u)"
  using assms
  by (auto simp: unhold_def drop_ref_def Let_def frame_upd_core split: option.splits)

lemma take_slot_effect:
  assumes "q < length (queue_buf s)"
  shows "top_rated (take_slot L q i s) = (top_rated s)[i := Some q]"
    "length (queue_buf (take_slot L q i s)) = length (queue_buf s)"
    "q_tc_ref (entry (take_slot L q i s) u) = q_tc_ref (entry s u) + (if u = q then 1 else 0)"
    "u \<noteq> q \<Longrightarrow> q_trace_mini (entry (take_slot L q i s) u) = q_trace_mini (entry s u)"
    "q_trace_mini (entry (take_slot L q i s) q) = (case q_trace_mini (entry s q) of
        None \<Rightarrow> Some (minimize_bits (map_size s) (replicate (unat L) 0) (trace_bits s))
      | Some m \<Rightarrow> Some m)"
    "score_changed (take_slot L q i s)"
  using assms by (auto simp: take_slot_def Let_def split: option.splits)

lemma count_list_update:
  "i < length xs \<Longrightarrow> count_list (xs[i := y]) a + (if xs ! i = a then 1 else 0) =
     count_list xs a + (if y = a then 1 else 0)"
proof (induction xs arbitrary: i)
  case (Cons x xs)
  show ?case
  proof (cases i)
    case (Suc j)
    then show ?thesis using Cons.IH [of j] Cons.prems by (auto split: if_splits)
  qed auto
qed simp

lemma refs_holder:
  "refs_ok s \<Longrightarrow> i < length (top_rated s) \<Longrightarrow> \<forall>t. top_rated s ! i = Some t \<longrightarrow> t < length (queue_buf s)"
  by (simp add: refs_ok_def)

lemma contend_refs:
  assumes "refs_ok s" "q < length (queue_buf s)" "i < length (top_rated s)"
  shows "refs_ok (contend L p2 fav q i s)"
proof (cases "beats s p2 fav i")
  case False
  then show ?thesis using assms(1) by (simp add: contend_lose)
next
  case True
  let ?u = "unhold i s" and ?s = "contend L p2 fav q i s"
  have holder: "\<forall>t. top_rated s ! i = Some t \<longrightarrow> t < length (queue_buf s)"
    using assms by (auto simp: refs_ok_def)
  note un = unhold_effect [OF holder]
  have q: "q < length (queue_buf ?u)" using assms(2) un(3) by simp
  note tk = take_slot_effect [OF q, where L = L and i = i]
  have s: "?s = take_slot L q i ?u" using True by (rule contend_win)
  have top: "top_rated ?s = (top_rated s)[i := Some q]" and len: "length (queue_buf ?s) = length (queue_buf s)"
    by (simp_all add: s tk(1,2) un(1,3))
  have "unat (q_tc_ref (entry ?s t)) = count_list (top_rated ?s) (Some t)" if t: "t < length (queue_buf s)" for t
  proof -
    let ?c = "count_list (top_rated s) (Some t)"
    have c: "unat (q_tc_ref (entry s t)) = ?c" using assms(1) t by (simp add: refs_ok_def)
    have cnt: "count_list (top_rated ?s) (Some t) + (if top_rated s ! i = Some t then 1 else 0) =
        ?c + (if q = t then 1 else 0)"
      using count_list_update [OF assms(3), of "Some q" "Some t"] unfolding top by simp
    have tc: "q_tc_ref (entry ?s t) = q_tc_ref (entry s t) - (if top_rated s ! i = Some t then 1 else 0)
        + (if t = q then 1 else 0)"
      by (simp add: s tk(3) un(4))
    have bound: "count_list (top_rated ?s) (Some t) < 2 ^ 32"
      using count_le_length [of "top_rated ?s" "Some t"] assms(1) unfolding top by (auto simp: refs_ok_def)
    have w: "q_tc_ref (entry s t) = of_nat ?c" by (simp flip: c)
    have "q_tc_ref (entry ?s t) = of_nat (count_list (top_rated ?s) (Some t))"
      using arg_cong [OF cnt, of "of_nat :: nat \<Rightarrow> u32"] unfolding tc w
      by (cases "top_rated s ! i = Some t"; cases "t = q") (simp_all add: algebra_simps)
    then show ?thesis using bound by (simp add: unat_of_nat)
  qed
  moreover have "u < length (queue_buf s)" if "j < length (top_rated s)" "top_rated ?s ! j = Some u" for j u
    using that assms unfolding top by (cases "j = i") (auto simp: refs_ok_def)
  ultimately show ?thesis using assms(1) unfolding refs_ok_def len by (simp add: top)
qed

section \<open>The slots after a score update\<close>

lemma frame_map_size: "frame s = frame s' \<Longrightarrow> map_size s = map_size s'"
  by (rule frame_fields(1))

lemma contend_top:
  assumes "\<forall>t. top_rated s ! i = Some t \<longrightarrow> t < length (queue_buf s)" "q < length (queue_buf s)"
  shows "top_rated (contend L p2 fav q i s) =
    (if beats s p2 fav i then (top_rated s)[i := Some q] else top_rated s)"
proof (cases "beats s p2 fav i")
  case True
  have "q < length (queue_buf (unhold i s))" using assms(2) unhold_effect(3) [OF assms(1)] by simp
  then show ?thesis
    using True unhold_effect(1) [OF assms(1)] by (simp add: contend_win take_slot_effect(1))
qed (simp add: contend_lose)

lemma frame_score_body: "frame (score_body q p2 fav i s) = frame s"
  by (simp add: score_body_def frame_contend)

lemma frame_score_fold: "frame (fold (score_body q p2 fav) is s) = frame s"
  by (induction "is" arbitrary: s) (simp_all add: frame_score_body)

lemma refs_score_fold:
  "refs_ok s \<Longrightarrow> q < length (queue_buf s) \<Longrightarrow> set is \<subseteq> {..<length (top_rated s)} \<Longrightarrow>
     refs_ok (fold (score_body q p2 fav) is s) \<and>
     length (top_rated (fold (score_body q p2 fav) is s)) = length (top_rated s)"
proof (induction "is" arbitrary: s)
  case (Cons i "is")
  let ?s = "score_body q p2 fav i s"
  have ok: "refs_ok ?s" using Cons.prems by (simp add: score_body_def contend_refs)
  have "\<forall>t. top_rated s ! i = Some t \<longrightarrow> t < length (queue_buf s)"
    using Cons.prems by (auto simp: refs_ok_def)
  then have len: "length (top_rated ?s) = length (top_rated s)"
    using Cons.prems by (simp add: score_body_def contend_top)
  have "q < length (queue_buf ?s)" using frame_length [OF frame_score_body] Cons.prems(2) by metis
  with Cons.IH [OF ok] Cons.prems(3) len show ?case by simp
qed simp

lemma score_slots:
  assumes "refs_ok s" "q < length (queue_buf s)" "n \<le> length (top_rated s)" "i < length (top_rated s)"
  shows "top_rated (fold (score_body q p2 fav) [0..<n] s) ! i =
    (if i < n \<and> trace_bits s ! i \<noteq> 0 \<and> beats s p2 fav i then Some q else top_rated s ! i)"
  using assms(3)
proof (induction n)
  case (Suc n)
  let ?s = "fold (score_body q p2 fav) [0..<n] s"
  have fr: "frame ?s = frame s" by (rule frame_score_fold)
  have sub: "set [0..<n] \<subseteq> {..<length (top_rated s)}" using Suc.prems by auto
  have ok: "refs_ok ?s" "length (top_rated ?s) = length (top_rated s)"
    using refs_score_fold [OF assms(1,2) sub] by simp_all
  have q: "q < length (queue_buf ?s)" using frame_length [OF fr] assms(2) by simp
  have h: "\<forall>t. top_rated ?s ! n = Some t \<longrightarrow> t < length (queue_buf ?s)"
    using ok(2) Suc.prems by (intro refs_holder [OF ok(1)]) simp
  have tr: "trace_bits ?s = trace_bits s" using fr by (rule frame_fields(2))
  have same: "top_rated ?s ! n = top_rated s ! n" if "i = n" using Suc that by simp
  have b: "beats ?s p2 fav n \<longleftrightarrow> beats s p2 fav n" if "i = n"
    using same [OF that] h frame_keys(1,2) [OF fr] by (auto simp: beats_def split: option.splits)
  have "top_rated (score_body q p2 fav n ?s) = (if trace_bits s ! n \<noteq> 0 \<and> beats ?s p2 fav n
      then (top_rated ?s)[n := Some q] else top_rated ?s)"
    using contend_top [OF h q] tr by (simp add: score_body_def)
  then show ?case
    using Suc b ok(2) assms(4) by (cases "i = n") auto
qed simp

section \<open>The compact traces\<close>

lemma fresh_mini_covers:
  assumes "unat msize + 7 < 2 ^ 32" "i < unat msize" "tr ! i \<noteq> 0"
  shows "covers msize (minimize_bits msize (replicate (unat (drop_bit 3 (msize + 7))) 0) tr) i"
proof -
  have "unat (msize + 7) = unat msize + 7" using assms(1) by (simp add: unat_word_ariths)
  then have "unat (drop_bit 3 (msize + 7)) = (unat msize + 7) div 8" by (simp add: unat_drop_bit3)
  then have w: "unat msize \<le> 8 * length (replicate (unat (drop_bit 3 (msize + 7))) (0 :: u8))" by simp
  show ?thesis
    using assms(2,3) w minimize_bits_bits [OF w, where src = tr] unfolding covers_def by auto
qed

lemma minis_score_body:
  assumes "refs_ok s" "minis_ok s" "traced q s" "q < length (queue_buf s)"
    "length (top_rated s) = unat (map_size s)" "unat (map_size s) + 7 < 2 ^ 32" "i < unat (map_size s)"
  shows "minis_ok (score_body q p2 fav i s) \<and> traced q (score_body q p2 fav i s)"
proof (cases "trace_bits s ! i \<noteq> 0 \<and> beats s p2 fav i")
  case False
  then show ?thesis using assms by (auto simp: score_body_def contend_lose)
next
  case True
  let ?L = "drop_bit 3 (map_size s + 7)" and ?u = "unhold i s" and ?s = "score_body q p2 fav i s"
  have h: "\<forall>t. top_rated s ! i = Some t \<longrightarrow> t < length (queue_buf s)"
    using assms(1,5,7) by (auto simp: refs_ok_def)
  note un = unhold_effect [OF h]
  have q: "q < length (queue_buf ?u)" using assms(4) un(3) by simp
  note tk = take_slot_effect [OF q, where L = ?L and i = i]
  have s: "?s = take_slot ?L q i ?u" using True by (simp add: score_body_def contend_win)
  have fr: "frame ?s = frame s" by (rule frame_score_body)
  have ms: "map_size ?s = map_size s" "trace_bits ?s = trace_bits s" "map_size ?u = map_size s"
    "trace_bits ?u = trace_bits s"
    using frame_fields(1,2) [OF fr] frame_fields(1,2) [OF un(2)] by simp_all
  have top: "top_rated ?s = (top_rated s)[i := Some q]" by (simp add: s tk(1) un(1))
  have mine: "covers (map_size s) m j"
    if "q_trace_mini (entry ?s q) = Some m" "j < unat (map_size s)" "trace_bits s ! j \<noteq> 0" for m j
  proof (cases "q_trace_mini (entry ?u q)")
    case None
    then show ?thesis using that tk(5) fresh_mini_covers [OF assms(6) that(2,3)] by (simp add: s ms)
  next
    case (Some m')
    then have "q_trace_mini (entry s q) = Some m" using that tk(5) un(5) [of q] by (auto simp: s)
    then show ?thesis using assms(3) that by (simp add: traced_def)
  qed
  have own: "trace_bits s ! j \<noteq> 0" if "j < length (top_rated s)" "top_rated ?s ! j = Some q" for j
    using that True assms(3) unfolding top by (cases "j = i") (auto simp: traced_def)
  have "covers (map_size s) m j"
    if "j < length (top_rated s)" "top_rated ?s ! j = Some t" "q_trace_mini (entry ?s t) = Some m" for j t m
  proof (cases "t = q")
    case True
    then have "trace_bits s ! j \<noteq> 0" using that(1,2) own by simp
    then show ?thesis using mine that assms(5) True by simp
  next
    case False
    then have "top_rated s ! j = Some t" using that(1,2) unfolding top by (cases "j = i") auto
    moreover have "q_trace_mini (entry s t) = Some m"
      using that(3) False tk(4) [of t] un(5) [of t] by (auto simp: s)
    ultimately show ?thesis using assms(2) that(1) by (auto simp: minis_ok_def)
  qed
  then have "minis_ok ?s" unfolding minis_ok_def ms by (simp add: top)
  moreover have "traced q ?s"
    using mine own unfolding traced_def ms by (simp add: top)
  ultimately show ?thesis ..
qed

lemma minis_score_fold:
  assumes "refs_ok s" "minis_ok s" "traced q s" "q < length (queue_buf s)"
    "length (top_rated s) = unat (map_size s)" "unat (map_size s) + 7 < 2 ^ 32" "n \<le> unat (map_size s)"
  shows "minis_ok (fold (score_body q p2 fav) [0..<n] s) \<and> traced q (fold (score_body q p2 fav) [0..<n] s)"
  using assms(7)
proof (induction n)
  case (Suc n)
  let ?s = "fold (score_body q p2 fav) [0..<n] s"
  have fr: "frame ?s = frame s" by (rule frame_score_fold)
  have sub: "set [0..<n] \<subseteq> {..<length (top_rated s)}" using Suc.prems assms(5) by auto
  show ?case
    using minis_score_body [of ?s q n p2 fav] Suc assms(4-6) refs_score_fold [OF assms(1,4) sub]
      frame_fields(1) [OF fr] frame_length [OF fr] by simp
qed (simp add: assms(2,3))

lemma update_bitmap_score_fold:
  "update_bitmap_score q True s = (if q_disabled (entry s q) then s
     else fold (score_body q (fuzz_p2 s (entry s q)) (fav_factor s (entry s q))) [0..<unat (map_size s)] s)"
  unfolding update_bitmap_score_def score_body_def [abs_def] by (simp add: Let_def)

lemma score_effect:
  assumes "corpus_ok s" "traced q s" "q < length (queue_buf s)" "\<not> q_disabled (entry s q)"
  shows "corpus_ok (update_bitmap_score q True s) \<and>
    (\<forall>i < unat (map_size s). top_rated (update_bitmap_score q True s) ! i =
       (case top_rated s ! i of
          None \<Rightarrow> if trace_bits s ! i \<noteq> 0 then Some q else None
        | Some t \<Rightarrow> if trace_bits s ! i \<noteq> 0 \<and> fuzz_p2 s (entry s q) \<le> fuzz_p2 s (entry s t) \<and>
                       fav_factor s (entry s q) \<le> fav_factor s (entry s t)
                    then Some q else Some t))"
proof -
  let ?f = "fold (score_body q (fuzz_p2 s (entry s q)) (fav_factor s (entry s q))) [0..<unat (map_size s)] s"
  have c: "refs_ok s" "minis_ok s" "length (top_rated s) = unat (map_size s)" "unat (map_size s) + 7 < 2 ^ 32"
    "unat (queued_items s) = length (queue_buf s)" using assms(1) by (simp_all add: corpus_ok_def)
  have u: "update_bitmap_score q True s = ?f" using assms(4) by (simp add: update_bitmap_score_fold)
  have fr: "frame ?f = frame s" by (rule frame_score_fold)
  have "set [0..<unat (map_size s)] \<subseteq> {..<length (top_rated s)}" using c(3) by auto
  from refs_score_fold [OF c(1) assms(3) this] minis_score_fold [OF c(1,2) assms(2,3) c(3,4) order.refl]
  have "corpus_ok ?f"
    using c frame_fields(1,6) [OF fr] frame_length [OF fr] by (simp add: corpus_ok_def)
  moreover have "top_rated ?f ! i = (if trace_bits s ! i \<noteq> 0 \<and> beats s (fuzz_p2 s (entry s q)) (fav_factor s (entry s q)) i
      then Some q else top_rated s ! i)" if "i < unat (map_size s)" for i
    using score_slots [OF c(1) assms(3), of "unat (map_size s)" i] c(3) that by simp
  ultimately show ?thesis unfolding u by (auto simp: beats_def split: option.splits)
qed

section \<open>Re-scoring\<close>

lemma frame_rescore: "frame (update_bitmap_rescore q i s) = frame s"
  by (simp add: update_bitmap_rescore_def frame_contend)

lemma frame_no_worse:
  "frame s = frame s' \<Longrightarrow> a < length (queue_buf s) \<Longrightarrow> b < length (queue_buf s) \<Longrightarrow>
     no_worse s a b \<longleftrightarrow> no_worse s' a b"
  using frame_keys(1,2) [of s s' a] frame_keys(1,2) [of s s' b] by (simp add: no_worse_def)

lemma rescore_refs:
  assumes "refs_ok s" "q < length (queue_buf s)" "i < length (top_rated s)"
  shows "refs_ok (update_bitmap_rescore q i s)"
    "length (top_rated (update_bitmap_rescore q i s)) = length (top_rated s)"
    "j \<noteq> i \<Longrightarrow> top_rated (update_bitmap_rescore q i s) ! j = top_rated s ! j"
    "top_rated (update_bitmap_rescore q i s) ! i = (if q_disabled (entry s q) then top_rated s ! i
       else case top_rated s ! i of None \<Rightarrow> Some q
         | Some t \<Rightarrow> if no_worse s q t then Some q else Some t)"
  using assms contend_refs [OF assms] contend_top [OF refs_holder [OF assms(1,3)] assms(2)]
  by (auto simp: update_bitmap_rescore_def beats_def no_worse_def split: option.splits)

lemma rescore_fold:
  assumes "refs_ok s" "i < length (top_rated s)" "\<forall>q \<in> set qs. q < length (queue_buf s)"
  shows "let s' = fold (\<lambda>q. update_bitmap_rescore q i) qs s in
     frame s' = frame s \<and> refs_ok s' \<and> length (top_rated s') = length (top_rated s) \<and>
     (\<forall>j. j \<noteq> i \<longrightarrow> top_rated s' ! j = top_rated s ! j) \<and>
     (\<forall>t. top_rated s ! i = Some t \<longrightarrow> (\<exists>w. top_rated s' ! i = Some w \<and> no_worse s w t)) \<and>
     (\<forall>q \<in> set qs. \<not> q_disabled (entry s q) \<longrightarrow>
        (\<exists>w. top_rated s' ! i = Some w \<and> (no_worse s q w \<longrightarrow> no_worse s w q)))"
  using assms
proof (induction qs arbitrary: s)
  case Nil
  then show ?case by (auto simp: no_worse_def)
next
  case (Cons q qs)
  have q: "q < length (queue_buf s)" using Cons.prems by simp
  let ?s = "update_bitmap_rescore q i s" let ?e = "fold (\<lambda>q. update_bitmap_rescore q i) qs ?s"
  note r = rescore_refs [OF Cons.prems(1) q Cons.prems(2)]
  have fr: "frame ?s = frame s" by (rule frame_rescore)
  have nw: "a < length (queue_buf s) \<Longrightarrow> b < length (queue_buf s) \<Longrightarrow> no_worse ?s a b \<longleftrightarrow> no_worse s a b" for a b
    using frame_no_worse [OF fr] frame_length [OF fr] by simp
  have dis: "p < length (queue_buf s) \<Longrightarrow> q_disabled (entry ?s p) = q_disabled (entry s p)" for p
    using frame_keys(3) [OF fr] frame_length [OF fr] by simp
  from Cons.IH [OF r(1)] r(2) Cons.prems(2,3) frame_length [OF fr] have
    ih: "frame ?e = frame ?s" "refs_ok ?e" "length (top_rated ?e) = length (top_rated ?s)"
      "\<And>j. j \<noteq> i \<Longrightarrow> top_rated ?e ! j = top_rated ?s ! j"
      "\<And>t. top_rated ?s ! i = Some t \<Longrightarrow> \<exists>w. top_rated ?e ! i = Some w \<and> no_worse ?s w t"
      "\<And>p. p \<in> set qs \<Longrightarrow> \<not> q_disabled (entry ?s p) \<Longrightarrow>
         \<exists>w. top_rated ?e ! i = Some w \<and> (no_worse ?s p w \<longrightarrow> no_worse ?s w p)"
    by (simp_all add: Let_def)
  have hold: "w < length (queue_buf s)" if "top_rated ?e ! i = Some w" for w
    using refs_holder [OF ih(2), of i] ih(3) r(2) Cons.prems(2) that frame_length [OF ih(1)] frame_length [OF fr] by simp
  have hold0: "t < length (queue_buf s)" if "top_rated s ! i = Some t" for t
    using refs_holder [OF Cons.prems(1,2)] that by simp
  have old: "\<exists>w. top_rated ?e ! i = Some w \<and> no_worse s w t" if t: "top_rated s ! i = Some t" for t
  proof -
    obtain t' where t': "top_rated ?s ! i = Some t'" "no_worse s t' t" "t' < length (queue_buf s)"
      using r(4) t q hold0 [OF t] by (auto simp: no_worse_def split: if_splits)
    obtain w where "top_rated ?e ! i = Some w" "no_worse ?s w t'" using ih(5) [OF t'(1)] by blast
    then show ?thesis using nw [of w t'] hold t'(2,3) by (auto simp: no_worse_def)
  qed
  have new: "\<exists>w. top_rated ?e ! i = Some w \<and> (no_worse s q w \<longrightarrow> no_worse s w q)" if en: "\<not> q_disabled (entry s q)"
  proof -
    obtain t' where t': "top_rated ?s ! i = Some t'" "t' < length (queue_buf s)"
        "t' = q \<or> \<not> no_worse s q t'"
      using r(4) en q hold0 by (auto split: option.splits if_splits)
    obtain w where "top_rated ?e ! i = Some w" "no_worse ?s w t'" using ih(5) [OF t'(1)] by blast
    then show ?thesis using nw [of w t'] hold t'(2,3) by (auto simp: no_worse_def)
  qed
  have rest: "\<exists>w. top_rated ?e ! i = Some w \<and> (no_worse s p w \<longrightarrow> no_worse s w p)"
    if "p \<in> set qs" "\<not> q_disabled (entry s p)" for p
    using ih(6) [OF that(1)] that dis [of p] nw hold Cons.prems(3) by auto
  show ?case
    using ih(1-4) r(2,3) fr old new rest by (simp add: Let_def)
qed

lemma enroll_ok:
  assumes "cand_ok n most c" "unat x < n" "most + 1 < 2 ^ 32"
  shows "cand_ok n (most + 1) (Some (enroll x c))" "cand_set (Some (enroll x c)) = insert x (cand_set c)"
proof -
  have "cand_ok n (most + 1) (Some (enroll x c)) \<and> cand_set (Some (enroll x c)) = insert x (cand_set c)"
  proof (cases c)
    case None
    then show ?thesis using assms by (simp add: cand_ok_def cand_set_def enroll_def)
  next
    case (Some ids)
    then obtain k r where r: "ids = k # r" "unat k = length r" "length r \<le> most" "\<forall>x \<in> set r. unat x < n"
      using assms(1) by (cases ids) (auto simp: cand_ok_def)
    have "unat (k + 1) = length r + 1" using r(2,3) assms(3) by (simp add: unat_word_ariths)
    then show ?thesis using Some r assms(2) by (auto simp: cand_ok_def cand_set_def enroll_def)
  qed
  then show "cand_ok n (most + 1) (Some (enroll x c))" "cand_set (Some (enroll x c)) = insert x (cand_set c)"
    by blast+
qed

lemma cand_ok_mono: "cand_ok n most c \<Longrightarrow> most \<le> most' \<Longrightarrow> cand_ok n most' c"
  by (auto simp: cand_ok_def split: option.splits)

lemma collect_fold:
  assumes "n \<le> length cs"
  shows "length (fold (\<lambda>j cs. if P j then cs[j := f (cs ! j)] else cs) [0..<n] cs) = length cs \<and>
    (\<forall>j < length cs. fold (\<lambda>j cs. if P j then cs[j := f (cs ! j)] else cs) [0..<n] cs ! j =
       (if j < n \<and> P j then f (cs ! j) else cs ! j))"
  using assms by (induction n) (auto simp: nth_list_update less_Suc_eq)

lemma rescore_collect_effect:
  assumes "cands_ok s" "nat (last_scored_idx s + 1) = i" "i < length (queue_buf s)"
  shows "cands_ok (rescore_collect run i s)"
    "queue_buf (rescore_collect run i s) = queue_buf s"
    "top_rated (rescore_collect run i s) = top_rated s"
    "map_size (rescore_collect run i s) = map_size s"
    "nat (last_scored_idx (rescore_collect run i s) + 1) = Suc i"
    "j < unat (map_size s) \<Longrightarrow> cand_set (top_rated_candidates s ! j) \<union>
       (if \<not> q_disabled (entry s i) \<and> run i ! j \<noteq> 0 then {q_id (entry s i)} else {}) =
       cand_set (top_rated_candidates (rescore_collect run i s) ! j)"
proof -
  let ?c = "top_rated_candidates s" and ?id = "q_id (entry s i)"
  let ?c' = "fold (\<lambda>j cs. if run i ! j \<noteq> 0 then cs[j := Some (enroll ?id (cs ! j))] else cs)
      [0..<unat (map_size s)] ?c"
  have len: "length ?c = unat (map_size s)" and b: "i + 1 < 2 ^ 32" and id: "unat ?id = i"
    and ok: "\<And>j. j < unat (map_size s) \<Longrightarrow> cand_ok (length (queue_buf s)) i (?c ! j)"
    using assms by (auto simp: cands_ok_def)
  note cf = collect_fold [of "unat (map_size s)" ?c "\<lambda>j. run i ! j \<noteq> 0" "\<lambda>c. Some (enroll ?id c)"]
  have c': "length ?c' = length ?c" "\<And>j. j < unat (map_size s) \<Longrightarrow> ?c' ! j =
      (if run i ! j \<noteq> 0 then Some (enroll ?id (?c ! j)) else ?c ! j)"
    using cf len by simp_all
  have en: "cand_ok (length (queue_buf s)) (i + 1) (Some (enroll ?id (?c ! j)))"
    "cand_set (Some (enroll ?id (?c ! j))) = insert ?id (cand_set (?c ! j))" if "j < unat (map_size s)" for j
    using enroll_ok [OF ok [OF that] _ b, of ?id] id assms(3) by simp_all
  have r: "rescore_collect run i s = (if q_disabled (entry s i) then s\<lparr>last_scored_idx := int i\<rparr>
      else s\<lparr>trace_bits := run i, top_rated_candidates := ?c', last_scored_idx := int i\<rparr>)"
    by (simp add: rescore_collect_def Let_def cong: if_cong)
  show "queue_buf (rescore_collect run i s) = queue_buf s" "top_rated (rescore_collect run i s) = top_rated s"
    "map_size (rescore_collect run i s) = map_size s" "nat (last_scored_idx (rescore_collect run i s) + 1) = Suc i"
    by (auto simp: r)
  show "cands_ok (rescore_collect run i s)"
    using assms en(1) c' cand_ok_mono [OF ok, of _ "i + 1"] by (auto simp: cands_ok_def r nat_add_distrib)
  show "j < unat (map_size s) \<Longrightarrow> cand_set (top_rated_candidates s ! j) \<union>
       (if \<not> q_disabled (entry s i) \<and> run i ! j \<noteq> 0 then {?id} else {}) =
       cand_set (top_rated_candidates (rescore_collect run i s) ! j)"
    using en(2) [of j] c'(2) [of j] by (simp add: r)
qed

lemma collect_phase:
  assumes "cands_ok s" "nat (last_scored_idx s + 1) = a" "a + k \<le> length (queue_buf s)"
  shows "let s' = fold (rescore_collect run) [a..<a + k] s in
     cands_ok s' \<and> queue_buf s' = queue_buf s \<and> top_rated s' = top_rated s \<and> map_size s' = map_size s \<and>
     nat (last_scored_idx s' + 1) = a + k \<and>
     (\<forall>e j. a \<le> e \<longrightarrow> e < a + k \<longrightarrow> j < unat (map_size s) \<longrightarrow> \<not> q_disabled (entry s e) \<longrightarrow> run e ! j \<noteq> 0 \<longrightarrow>
        q_id (entry s e) \<in> cand_set (top_rated_candidates s' ! j)) \<and>
     (\<forall>e. fuzz_p2 s' e = fuzz_p2 s e \<and> fav_factor s' e = fav_factor s e)"
  using assms(3)
proof (induction k)
  case 0
  then show ?case using assms(1,2) by simp
next
  case (Suc k)
  let ?s = "fold (rescore_collect run) [a..<a + k] s"
  have ih: "cands_ok ?s" "queue_buf ?s = queue_buf s" "top_rated ?s = top_rated s" "map_size ?s = map_size s"
      "nat (last_scored_idx ?s + 1) = a + k"
      "\<And>e j. a \<le> e \<Longrightarrow> e < a + k \<Longrightarrow> j < unat (map_size s) \<Longrightarrow> \<not> q_disabled (entry s e) \<Longrightarrow> run e ! j \<noteq> 0 \<Longrightarrow>
        q_id (entry s e) \<in> cand_set (top_rated_candidates ?s ! j)"
      "\<And>e. fuzz_p2 ?s e = fuzz_p2 s e" "\<And>e. fav_factor ?s e = fav_factor s e"
    using Suc by (simp_all add: Let_def)
  have k: "a + k < length (queue_buf ?s)" using Suc.prems ih(2) by simp
  note r = rescore_collect_effect [OF ih(1,5) k, where run = run]
  have keys: "fuzz_p2 (rescore_collect run (a + k) ?s) e = fuzz_p2 ?s e"
    "fav_factor (rescore_collect run (a + k) ?s) e = fav_factor ?s e" for e
    by (auto simp: rescore_collect_def Let_def fuzz_p2_def fav_factor_def)
  have "q_id (entry s e) \<in> cand_set (top_rated_candidates (rescore_collect run (a + k) ?s) ! j)"
    if "a \<le> e" "e < a + Suc k" "j < unat (map_size s)" "\<not> q_disabled (entry s e)" "run e ! j \<noteq> 0" for e j
    using r(6) [of j] ih(2,4,6) that by (cases "e = a + k") auto
  then show ?case using r(1-5) ih keys by (simp add: Let_def)
qed

lemma rescore_slot_ids:
  assumes "cand_ok n most (top_rated_candidates s ! i)" "top_rated_candidates s ! i = Some ids"
  shows "rescore_slot i s = fold (\<lambda>q. update_bitmap_rescore q i) (map unat (tl ids)) s"
proof -
  have ids: "ids \<noteq> []" "unat (ids ! 0) = length (tl ids)" using assms by (auto simp: cand_ok_def)
  have "map unat (tl ids) = map (\<lambda>k. unat (ids ! (k + 1))) [0..<length (tl ids)]"
    using ids(1) by (intro nth_equalityI) (simp_all add: nth_tl)
  then show ?thesis
    unfolding rescore_slot_def assms(2) using ids(2) by (simp add: fold_map comp_def)
qed

lemma rescore_slot_effect:
  assumes "refs_ok s" "i < length (top_rated s)" "cand_ok (length (queue_buf s)) most (top_rated_candidates s ! i)"
  shows "frame (rescore_slot i s) = frame s \<and> refs_ok (rescore_slot i s) \<and>
    length (top_rated (rescore_slot i s)) = length (top_rated s) \<and>
    (\<forall>j. j \<noteq> i \<longrightarrow> top_rated (rescore_slot i s) ! j = top_rated s ! j) \<and>
    minimal_at s (top_rated (rescore_slot i s) ! i) (unat ` cand_set (top_rated_candidates s ! i))"
proof (cases "top_rated_candidates s ! i")
  case None
  then show ?thesis using assms(1) by (simp add: rescore_slot_def cand_set_def minimal_at_def)
next
  case (Some ids)
  then have "\<forall>q \<in> set (map unat (tl ids)). q < length (queue_buf s)"
    using assms(3) by (auto simp: cand_ok_def)
  from rescore_fold [OF assms(1,2) this] show ?thesis
    using rescore_slot_ids [OF assms(3) Some] by (simp add: Let_def Some cand_set_def minimal_at_def)
qed

lemma minimal_at_frame:
  assumes "frame s = frame s'" "E \<subseteq> {..<length (queue_buf s)}" "\<forall>w. h = Some w \<longrightarrow> w < length (queue_buf s)"
  shows "minimal_at s h E \<longleftrightarrow> minimal_at s' h E"
  using frame_no_worse [OF assms(1)] frame_keys(3) [OF assms(1)] assms(2,3)
  by (auto simp: minimal_at_def subset_eq)

lemma rescore_phase:
  assumes "refs_ok s" "n \<le> length (top_rated s)"
    "\<forall>i < length (top_rated s). cand_ok (length (queue_buf s)) most (top_rated_candidates s ! i)"
  shows "let s' = fold rescore_slot [0..<n] s in frame s' = frame s \<and> refs_ok s' \<and>
     length (top_rated s') = length (top_rated s) \<and>
     (\<forall>i < length (top_rated s). if i < n
        then minimal_at s (top_rated s' ! i) (unat ` cand_set (top_rated_candidates s ! i))
        else top_rated s' ! i = top_rated s ! i)"
  using assms(2)
proof (induction n)
  case 0
  then show ?case using assms(1) by simp
next
  case (Suc n)
  let ?s = "fold rescore_slot [0..<n] s"
  have ih: "frame ?s = frame s" "refs_ok ?s" "length (top_rated ?s) = length (top_rated s)"
    "\<And>i. i < n \<Longrightarrow> minimal_at s (top_rated ?s ! i) (unat ` cand_set (top_rated_candidates s ! i))"
    "\<And>i. i < length (top_rated s) \<Longrightarrow> n \<le> i \<Longrightarrow> top_rated ?s ! i = top_rated s ! i"
    using Suc by (auto simp: Let_def)
  have n: "n < length (top_rated ?s)" using Suc.prems ih(3) by simp
  have c: "top_rated_candidates ?s = top_rated_candidates s" "length (queue_buf ?s) = length (queue_buf s)"
    using frame_fields(7) [OF ih(1)] frame_length [OF ih(1)] by simp_all
  have "cand_ok (length (queue_buf ?s)) most (top_rated_candidates ?s ! n)" using assms(3) c ih(3) n by simp
  note r = rescore_slot_effect [OF ih(2) n this]
  have sub: "unat ` cand_set (top_rated_candidates s ! n) \<subseteq> {..<length (queue_buf ?s)}"
    using assms(3) n ih(3) c(2) by (auto simp: cand_ok_def cand_set_def split: option.splits)
  have "\<forall>w. top_rated (rescore_slot n ?s) ! n = Some w \<longrightarrow> w < length (queue_buf ?s)"
    using refs_holder [of "rescore_slot n ?s" n] r n frame_length [of "rescore_slot n ?s" ?s] by simp
  then have "minimal_at s (top_rated (rescore_slot n ?s) ! n) (unat ` cand_set (top_rated_candidates s ! n))"
    using minimal_at_frame [OF ih(1) sub] r c(1) by simp
  then show ?case using r ih by (auto simp: Let_def less_Suc_eq)
qed

lemma recalculate_effect:
  assumes "refs_ok s" "cands_ok s" "length (top_rated s) = unat (map_size s)"
    "unat (queued_items s) = length (queue_buf s)"
  shows "let s' = recalculate_all_scores run s in refs_ok s' \<and>
     (\<forall>i < unat (map_size s). \<forall>e < length (queue_buf s).
        last_scored_idx s < int e \<and> \<not> q_disabled (entry s e) \<and> run e ! i \<noteq> 0 \<longrightarrow>
        (\<exists>w. top_rated s' ! i = Some w \<and> w < length (queue_buf s) \<and>
           (no_worse s e w \<longrightarrow> no_worse s w e)))"
proof -
  let ?a = "nat (last_scored_idx s + 1)" and ?n = "length (queue_buf s)"
  let ?c = "fold (rescore_collect run) [?a..<?n] s" let ?s = "fold rescore_slot [0..<unat (map_size s)] ?c"
  have a: "?a + (?n - ?a) = ?n" "- 1 \<le> last_scored_idx s" using assms(2) by (auto simp: cands_ok_def)
  have cp: "cands_ok ?c" "queue_buf ?c = queue_buf s" "top_rated ?c = top_rated s" "map_size ?c = map_size s"
     "\<And>e j. ?a \<le> e \<Longrightarrow> e < ?n \<Longrightarrow> j < unat (map_size s) \<Longrightarrow> \<not> q_disabled (entry s e) \<Longrightarrow> run e ! j \<noteq> 0 \<Longrightarrow>
        q_id (entry s e) \<in> cand_set (top_rated_candidates ?c ! j)"
     "\<And>e. fuzz_p2 ?c e = fuzz_p2 s e" "\<And>e. fav_factor ?c e = fav_factor s e"
    using collect_phase [OF assms(2) refl, of "?n - ?a" run] a by (simp_all add: Let_def)
  have ref: "refs_ok ?c" using assms(1) cp(2,3) by (simp add: refs_ok_def)
  have nw: "no_worse ?c x y \<longleftrightarrow> no_worse s x y" for x y by (simp add: no_worse_def cp(2,6,7))
  have ok: "\<forall>i < length (top_rated ?c). cand_ok (length (queue_buf ?c)) (nat (last_scored_idx ?c + 1)) (top_rated_candidates ?c ! i)"
    using cp(1,3,4) assms(3) by (simp add: cands_ok_def)
  have rp: "frame ?s = frame ?c" "refs_ok ?s" "length (top_rated ?s) = unat (map_size s)"
    "\<And>i. i < unat (map_size s) \<Longrightarrow> minimal_at ?c (top_rated ?s ! i) (unat ` cand_set (top_rated_candidates ?c ! i))"
    using rescore_phase [OF ref _ ok, of "unat (map_size s)"] cp(3) assms(3) by (simp_all add: Let_def)
  have r: "recalculate_all_scores run s = ?s"
    using cp(4) assms(4) by (simp add: recalculate_all_scores_def Let_def)
  have "\<exists>w. top_rated ?s ! i = Some w \<and> w < ?n \<and> (no_worse s e w \<longrightarrow> no_worse s w e)"
    if "i < unat (map_size s)" "e < ?n" "last_scored_idx s < int e" "\<not> q_disabled (entry s e)" "run e ! i \<noteq> 0" for i e
  proof -
    have "unat (q_id (entry s e)) = e" using assms(2) that(2) by (simp add: cands_ok_def)
    then have "e \<in> unat ` cand_set (top_rated_candidates ?c ! i)"
      using cp(5) [of e i] that a by force
    with rp(4) [OF that(1)] that(4) cp(2)
    obtain w where "top_rated ?s ! i = Some w" "no_worse ?c e w \<longrightarrow> no_worse ?c w e"
      by (auto simp: minimal_at_def)
    then show ?thesis
      using refs_holder [OF rp(2), of i] rp(3) that(1) frame_length [OF rp(1)] cp(2) nw by auto
  qed
  then show ?thesis using rp(2) by (simp add: r Let_def)
qed

end
