(* ===== verification/Queue_Cull.thy ===== *)
theory Queue_Cull
  imports Queue_Slots
begin

text \<open>
  Culling the queue, adding to it, and the corpus as a transition system: what \<^verbatim>\<open>cull_queue\<close>
  favours covers every slot that a kept compact trace covers, and all operations together keep
  the corpus well-formed.
\<close>

section \<open>Invariants\<close>

definition favs :: "('d, 'a) queue_state_scheme \<Rightarrow> nat set" where
  "favs s = {t. t < length (queue_buf s) \<and> q_favored (entry s t)}"

definition pend :: "('d, 'a) queue_state_scheme \<Rightarrow> nat set" where
  "pend s = {t. t < length (queue_buf s) \<and> q_favored (entry s t) \<and> \<not> q_was_fuzzed (entry s t)}"

definition tally :: "('d, 'a) queue_state_scheme \<Rightarrow> bool" where
  "tally s \<longleftrightarrow> unat (queued_favored s) = card (favs s) \<and> unat (pending_favored s) = card (pend s) \<and>
     smallest_favored s = (if pend s = {} then - 1 else int (Min (pend s)))"

definition ids_ok :: "('d, 'a) queue_state_scheme \<Rightarrow> bool" where
  "ids_ok s \<longleftrightarrow> length (queue_buf s) < 2 ^ 32 \<and> (\<forall>t < length (queue_buf s). unat (q_id (entry s t)) = t)"

text \<open>The part of the state that the culling loop does not touch.\<close>

definition cframe :: "('d, 'a) queue_state_scheme \<Rightarrow> ('d, 'a) queue_state_scheme" where
  "cframe s = s\<lparr>queue_buf := map (q_favored_update (\<lambda>_. False)) (queue_buf s), queued_favored := 0,
     pending_favored := 0, smallest_favored := 0\<rparr>"

text \<open>What the loop over the slots maintains; \<open>s0\<close> is the state it starts in.\<close>

definition unseen :: "bytes \<Rightarrow> nat \<Rightarrow> bool" where
  "unseen v j \<longleftrightarrow> bit (v ! (j div 8)) (j mod 8)"

definition holds :: "('d, 'a) queue_state_scheme \<Rightarrow> nat \<Rightarrow> bool" where
  "holds s t \<longleftrightarrow> (\<exists>k < length (top_rated s). top_rated s ! k = Some t)"

definition picked :: "('d, 'a) queue_state_scheme \<Rightarrow> ('d, 'a) queue_state_scheme \<Rightarrow> nat \<Rightarrow> nat \<Rightarrow> bool" where
  "picked s0 s j t \<longleftrightarrow> t < length (queue_buf s0) \<and> holds s0 t \<and>
     (\<exists>m. q_trace_mini (entry s0 t) = Some m \<and> unseen m j) \<and>
     (q_favored (entry s t) \<or> q_disabled (entry s0 t))"

definition cull_inv ::
  "('d, 'a) queue_state_scheme \<Rightarrow> nat \<Rightarrow> bytes \<times> ('d, 'a) queue_state_scheme \<Rightarrow> bool" where
  "cull_inv s0 i = (\<lambda>(v, s). cframe s = cframe s0 \<and> tally s \<and>
     unat (map_size s0) \<le> 8 * length v \<and>
     (\<forall>j < unat (map_size s0). \<not> unseen v j \<longrightarrow> (\<exists>t. picked s0 s j t)) \<and>
     (\<forall>k < i. \<forall>t m. top_rated s0 ! k = Some t \<longrightarrow> q_trace_mini (entry s0 t) = Some m \<longrightarrow> \<not> unseen v k) \<and>
     (\<forall>t \<in> favs s. holds s0 t \<and> \<not> q_disabled (entry s0 t)))"

text \<open>The last loop, entry by entry.\<close>

definition marked :: "bool \<Rightarrow> 'd queue_entry \<Rightarrow> 'd queue_entry" where
  "marked dis e = (if q_disabled e \<or> q_fs_redundant e = (\<not> q_favored e) then e
     else if q_favored e then e\<lparr>q_fs_redundant := False\<rparr>
     else if dis then e\<lparr>q_fs_redundant := True, q_trace_mini := None, q_disabled := True\<rparr>
     else e\<lparr>q_fs_redundant := True, q_trace_mini := None\<rparr>)"

text \<open>The state the slot loop starts in.\<close>

definition cull_start :: "('d, 'a) queue_state_scheme \<Rightarrow> ('d, 'a) queue_state_scheme" where
  "cull_start s = s\<lparr>score_changed := False, queued_favored := 0, pending_favored := 0,
     queue_buf := map (q_favored_update (\<lambda>_. False)) (queue_buf s), smallest_favored := - 1\<rparr>"

text \<open>
  The operations in the order a campaign may perform them: the target runs and leaves some
  trace, an entry is added, a calibrated entry contends for slots, the queue is culled.
\<close>

inductive corpus_step :: "('d, 'a) queue_state_scheme \<Rightarrow> ('d, 'a) queue_state_scheme \<Rightarrow> bool" where
  run_target: "corpus_step s (s\<lparr>trace_bits := tr\<rparr>)"
| add_entry: "custom_mutators_count s = 0 \<Longrightarrow> length (queue_buf s) + 1 < 2 ^ 32 \<Longrightarrow>
    corpus_step s (add_to_queue D now fs hook fn l pd s)"
| score_entry: "q < length (queue_buf s) \<Longrightarrow> traced q s \<Longrightarrow>
    corpus_step s (update_bitmap_score q have_trace s)"
| cull: "corpus_step s (cull_queue s)"

definition corpus_inv :: "('d, 'a) queue_state_scheme \<Rightarrow> bool" where
  "corpus_inv s \<longleftrightarrow> corpus_ok s \<and> ids_ok s \<and> 8 dvd unat (map_size s)"

definition ex_entry :: "u32 \<Rightarrow> u64 \<Rightarrow> u32 \<Rightarrow> bytes option \<Rightarrow> rat queue_entry" where
  "ex_entry ident us refs mini = \<lparr>q_fname = ''/q/id'', q_len = 10, q_id = ident, q_trim_done = False,
     q_was_fuzzed = False, q_passed_det = False, q_has_new_cov = True, q_var_behavior = False,
     q_favored = False, q_fs_redundant = False, q_is_ascii = False, q_disabled = False,
     q_bitmap_size = 2, q_fuzz_level = 0, q_n_fuzz_entry = 0, q_exec_us = us, q_handicap = 0,
     q_depth = 1, q_exec_cksum = 0, q_tc_ref = refs, q_perf_score = 100, q_weight = 1,
     q_mother = None, q_trace_mini = mini, q_testcase_buf = None\<rparr>"

definition ex_corpus :: "rat queue_state" where
  "ex_corpus = \<lparr>trace_bits = [0, 1, 1, 0, 0, 0, 0, 0], map_size = 8, real_map_size = 8,
     virgin_bits = replicate 8 255, virgin_tmout = replicate 8 255, virgin_crash = replicate 8 255,
     bitmap_changed = 0,
     queue_buf = [ex_entry 0 900 2 (Some [3]), ex_entry 1 500 0 None],
     queued_items = 2, active_items = 2, pending_not_fuzzed = 2, queued_favored = 0,
     pending_favored = 0, cur_depth = 1, max_depth = 2, ready_for_splicing_count = 2,
     cycles_wo_finds = 0, queue_head = Some 0, queue_top = Some 1, queue_cur = None,
     top_rated = [Some 0, Some 0, None, None, None, None, None, None],
     top_rated_candidates = replicate 8 None, last_scored_idx = - 1,
     smallest_favored = - 1, score_changed = True, reinit_table = False, schedule = FAST,
     fixed_seed = False, non_instrumented_mode = False, afl_disable_redundant = False,
     cmplog_mode = False, custom_mutators_count = 0, syncing_party = False, n_fuzz = [],
     map_tmp_buf = replicate 8 0, start_time = 0, last_find_time = 0, longest_find_time = 0\<rparr>"

section \<open>Lemmas\<close>

section \<open>Culling\<close>

lemma mask_out_bytes:
  assumes "len \<le> length v"
  shows "length (mask_out len mini v) = length v \<and>
    (\<forall>j < length v. mask_out len mini v ! j = (if j < len then v ! j AND NOT (mini ! j) else v ! j))"
  using assms unfolding mask_out_def
proof (induction len arbitrary: v)
  case (Suc len)
  let ?v = "if mini ! len \<noteq> 0 then v[len := v ! len AND NOT (mini ! len)] else v"
  have v: "length ?v = length v" "\<And>j. j < length v \<Longrightarrow> ?v ! j = (if j = len then v ! j AND NOT (mini ! j) else v ! j)"
    using Suc.prems by (auto simp: nth_list_update)
  from Suc.IH [of ?v] v Suc.prems show ?case by (auto simp: less_Suc_eq)
qed simp

lemma bit_mask_out:
  assumes "8 * len = n" "len \<le> length v" "j < n"
  shows "bit (mask_out len mini v ! (j div 8)) (j mod 8) \<longleftrightarrow>
    bit (v ! (j div 8)) (j mod 8) \<and> \<not> bit (mini ! (j div 8)) (j mod 8)"
proof -
  have "j div 8 < len" using assms(1,3) by (simp add: div_less_iff_less_mult mult.commute)
  then show ?thesis
    using mask_out_bytes [OF assms(2), of mini] assms(2) by (simp add: bit_and_iff bit_not_iff)
qed

lemma finite_favs [simp]: "finite (favs s)" "finite (pend s)"
  by (simp_all add: favs_def pend_def)

lemma favs_card: "t < length (queue_buf s) \<Longrightarrow> t \<notin> favs s \<Longrightarrow> Suc (card (favs s)) \<le> length (queue_buf s)"
  "t < length (queue_buf s) \<Longrightarrow> t \<notin> pend s \<Longrightarrow> Suc (card (pend s)) \<le> length (queue_buf s)"
  using card_mono [of "{..<length (queue_buf s)}" "insert t (favs s)"]
    card_mono [of "{..<length (queue_buf s)}" "insert t (pend s)"]
  by (auto simp: favs_def pend_def)

lemma unat_inc: "unat (x :: u32) + 1 < 2 ^ 32 \<Longrightarrow> unat (x + 1) = unat x + 1"
  by (simp add: unat_word_ariths)

lemma favor_sets:
  assumes "t < length (queue_buf s)" "\<not> q_favored (entry s t)" "\<not> q_disabled (entry s t)"
  shows "favs (favor t s) = insert t (favs s)"
    "pend (favor t s) = (if q_was_fuzzed (entry s t) then pend s else insert t (pend s))"
  using assms by (auto simp: favs_def pend_def favor_def Let_def)

lemma favor_tally:
  assumes "tally s" "ids_ok s" "t < length (queue_buf s)"
  shows "tally (favor t s)"
proof (cases "\<not> q_favored (entry s t) \<and> \<not> q_disabled (entry s t)")
  case False
  then show ?thesis using assms(1) by (auto simp: favor_def)
next
  case True
  have sets: "favs (favor t s) = insert t (favs s)" "t \<notin> favs s" "t \<notin> pend s"
    "pend (favor t s) = (if q_was_fuzzed (entry s t) then pend s else insert t (pend s))"
    using favor_sets [OF assms(3)] True by (auto simp: favs_def pend_def)
  have b: "Suc (card (favs s)) < 2 ^ 32" "Suc (card (pend s)) < 2 ^ 32"
    using favs_card [OF assms(3)] sets(2,3) assms(2) by (auto simp: ids_ok_def)
  have id: "uint (q_id (entry s t)) = int t" using assms(2,3) by (simp add: ids_ok_def uint_nat)
  have tl: "unat (queued_favored s) = card (favs s)" "unat (pending_favored s) = card (pend s)"
    "smallest_favored s = (if pend s = {} then - 1 else int (Min (pend s)))"
    using assms(1) by (simp_all add: tally_def)
  have q: "unat (queued_favored s + 1) = Suc (card (favs s))" "unat (pending_favored s + 1) = Suc (card (pend s))"
    using unat_inc b tl(1,2) by simp_all
  show ?thesis
  proof (cases "q_was_fuzzed (entry s t)")
    case True
    then show ?thesis
      using \<open>\<not> q_favored (entry s t) \<and> \<not> q_disabled (entry s t)\<close> sets q tl assms(3)
      unfolding tally_def sets by (simp add: favor_def Let_def)
  next
    case False
    have "smallest_favored (favor t s) =
        (if smallest_favored s < 0 \<or> int t < smallest_favored s then int t else smallest_favored s)"
      using True False id assms(3) by (simp add: favor_def Let_def)
    also have "\<dots> = int (Min (insert t (pend s)))"
    proof (cases "pend s = {}")
      case False
      define m where "m = Min (pend s)"
      have "Min (insert t (pend s)) = min t m" using False by (simp add: m_def)
      then show ?thesis using tl(3) False by (simp add: min_def flip: m_def)
    qed (use tl(3) in simp)
    finally show ?thesis
      using True False sets q tl assms(3) unfolding tally_def sets by (simp add: favor_def Let_def)
  qed
qed

lemma cframe_favor: "cframe (favor t s) = cframe s"
proof -
  have "map (q_favored_update (\<lambda>_. False)) ((queue_buf s)[t := (entry s t)\<lparr>q_favored := True\<rparr>]) =
      map (q_favored_update (\<lambda>_. False)) (queue_buf s)"
    by (simp add: map_update) (metis list_update_id map_update)
  then show ?thesis by (simp add: cframe_def favor_def Let_def upd_entry_def)
qed

lemma cframe_fields:
  assumes "cframe s = cframe s'"
  shows "map_size s = map_size s'" "top_rated s = top_rated s'" "queued_items s = queued_items s'"
    "length (queue_buf s) = length (queue_buf s')"
    "t < length (queue_buf s) \<Longrightarrow> q_favored_update (\<lambda>_. False) (entry s t) = q_favored_update (\<lambda>_. False) (entry s' t)"
proof -
  have "map_size (cframe s) = map_size (cframe s')" "top_rated (cframe s) = top_rated (cframe s')"
    "queued_items (cframe s) = queued_items (cframe s')"
    and q: "queue_buf (cframe s) = queue_buf (cframe s')" using assms by simp_all
  then show "map_size s = map_size s'" "top_rated s = top_rated s'" "queued_items s = queued_items s'"
    by (simp_all add: cframe_def)
  show l: "length (queue_buf s) = length (queue_buf s')"
    using arg_cong [OF q, of length] by (simp add: cframe_def)
  show "t < length (queue_buf s) \<Longrightarrow> q_favored_update (\<lambda>_. False) (entry s t) = q_favored_update (\<lambda>_. False) (entry s' t)"
    using arg_cong [OF q, of "\<lambda>b. b ! t"] l by (simp add: cframe_def)
qed

lemma cframe_entry:
  assumes "cframe s = cframe s'" "t < length (queue_buf s)"
  shows "q_trace_mini (entry s t) = q_trace_mini (entry s' t)" "q_disabled (entry s t) = q_disabled (entry s' t)"
    "q_id (entry s t) = q_id (entry s' t)" "q_was_fuzzed (entry s t) = q_was_fuzzed (entry s' t)"
    "q_fs_redundant (entry s t) = q_fs_redundant (entry s' t)" "q_tc_ref (entry s t) = q_tc_ref (entry s' t)"
proof -
  note e = cframe_fields(5) [OF assms]
  show "q_trace_mini (entry s t) = q_trace_mini (entry s' t)" "q_disabled (entry s t) = q_disabled (entry s' t)"
    "q_id (entry s t) = q_id (entry s' t)" "q_was_fuzzed (entry s t) = q_was_fuzzed (entry s' t)"
    "q_fs_redundant (entry s t) = q_fs_redundant (entry s' t)" "q_tc_ref (entry s t) = q_tc_ref (entry s' t)"
    using arg_cong [OF e, of q_trace_mini] arg_cong [OF e, of q_disabled] arg_cong [OF e, of q_id]
      arg_cong [OF e, of q_was_fuzzed] arg_cong [OF e, of q_fs_redundant] arg_cong [OF e, of q_tc_ref]
    by simp_all
qed

lemma favor_favored:
  assumes "t < length (queue_buf s)"
  shows "q_favored (entry (favor t s) u) \<longleftrightarrow>
    q_favored (entry s u) \<or> u = t \<and> \<not> q_disabled (entry s t)"
  using assms by (auto simp: favor_def Let_def)

lemma cull_slot_eq:
  "cull_slot len i (v, s) = (case top_rated s ! i of None \<Rightarrow> (v, s) | Some t \<Rightarrow>
     (case q_trace_mini (entry s t) of None \<Rightarrow> (v, s)
      | Some mini \<Rightarrow> if unseen v i then (mask_out len mini v, favor t s) else (v, s)))"
  by (simp add: cull_slot_def unseen_def bit_iff_and_push_bit_not_eq_0 split: option.splits)

lemma cull_slot_inv:
  assumes "cull_inv s0 i (v, s)" "refs_ok s0" "minis_ok s0" "ids_ok s0" "8 * len = unat (map_size s0)"
    "length (top_rated s0) = unat (map_size s0)" "i < unat (map_size s0)"
  shows "cull_inv s0 (Suc i) (cull_slot len i (v, s))"
proof -
  have inv: "cframe s = cframe s0" "tally s" "unat (map_size s0) \<le> 8 * length v"
    "\<And>j. j < unat (map_size s0) \<Longrightarrow> \<not> unseen v j \<Longrightarrow> \<exists>t. picked s0 s j t"
    "\<And>k t m. k < i \<Longrightarrow> top_rated s0 ! k = Some t \<Longrightarrow> q_trace_mini (entry s0 t) = Some m \<Longrightarrow> \<not> unseen v k"
    "\<And>t. t \<in> favs s \<Longrightarrow> holds s0 t \<and> \<not> q_disabled (entry s0 t)"
    using assms(1) by (auto simp: cull_inv_def)
  have top: "top_rated s = top_rated s0" and len: "length (queue_buf s) = length (queue_buf s0)"
    using cframe_fields(2,4) [OF inv(1)] by simp_all
  show ?thesis
  proof (cases "\<exists>t m. top_rated s0 ! i = Some t \<and> q_trace_mini (entry s0 t) = Some m \<and> unseen v i")
    case False
    have nomini: "q_trace_mini (entry s t) = q_trace_mini (entry s0 t)" if "top_rated s0 ! i = Some t" for t
      using cframe_entry(1) [OF inv(1), of t] refs_holder [OF assms(2), of i] that assms(6,7) len by simp
    have eq: "cull_slot len i (v, s) = (v, s)"
      using False nomini by (auto simp: cull_slot_eq top split: option.splits)
    show ?thesis unfolding eq cull_inv_def using inv False by (auto simp: less_Suc_eq)
  next
    case True
    then obtain t m where t: "top_rated s0 ! i = Some t" "q_trace_mini (entry s0 t) = Some m" "unseen v i" by blast
    have tl: "t < length (queue_buf s0)" using refs_holder [OF assms(2), of i] t(1) assms(6,7) by simp
    have own: "unseen m i" using assms(3,6,7) t(1,2) by (auto simp: minis_ok_def covers_def unseen_def)
    have ht: "holds s0 t" using t(1) assms(6,7) by (auto simp: holds_def)
    let ?v = "mask_out len m v" and ?s = "favor t s"
    have eq: "cull_slot len i (v, s) = (?v, ?s)"
      using t cframe_entry(1) [OF inv(1), of t] tl len by (simp add: cull_slot_eq top)
    have lv: "len \<le> length v" using assms(5) inv(3) by simp
    have bits: "unseen ?v j \<longleftrightarrow> unseen v j \<and> \<not> unseen m j" if "j < unat (map_size s0)" for j
      using bit_mask_out [OF assms(5) lv that] by (simp add: unseen_def)
    have ids: "ids_ok s" using assms(4) cframe_entry(3) [OF inv(1)] len by (simp add: ids_ok_def)
    have fav: "q_favored (entry ?s u) \<longleftrightarrow> q_favored (entry s u) \<or> u = t \<and> \<not> q_disabled (entry s0 t)" for u
      using favor_favored [of t s u] cframe_entry(2) [OF inv(1), of t] tl len by simp
    have pk: "picked s0 s j u \<Longrightarrow> picked s0 ?s j u" "unseen m j \<Longrightarrow> picked s0 ?s j t" for j u
      using fav tl ht t(2) by (auto simp: picked_def)
    have "\<exists>u. picked s0 ?s j u" if "j < unat (map_size s0)" "\<not> unseen ?v j" for j
      using bits [OF that(1)] that inv(4) pk by blast
    moreover have "\<not> unseen ?v k" if "k < Suc i" "top_rated s0 ! k = Some u" "q_trace_mini (entry s0 u) = Some n" for k u n
      using that inv(5) bits [of k] own assms(7) by (cases "k = i") auto
    moreover have "holds s0 u \<and> \<not> q_disabled (entry s0 u)" if "u \<in> favs ?s" for u
      using that fav inv(6) ht len cframe_fields(4) [OF cframe_favor, of t s] by (auto simp: favs_def)
    ultimately show ?thesis
      unfolding eq cull_inv_def
      using inv(1,3) cframe_favor [of t s] favor_tally [OF inv(2) ids, of t] tl len mask_out_bytes [OF lv, of m]
      by auto
  qed
qed

lemma cull_loop:
  assumes "cull_inv s0 0 (v, s)" "refs_ok s0" "minis_ok s0" "ids_ok s0" "8 * len = unat (map_size s0)"
    "length (top_rated s0) = unat (map_size s0)" "n \<le> unat (map_size s0)"
  shows "cull_inv s0 n (fold (cull_slot len) [0..<n] (v, s))"
  using assms(7)
proof (induction n)
  case (Suc n)
  obtain v' s' where e: "fold (cull_slot len) [0..<n] (v, s) = (v', s')" by fastforce
  then show ?case using Suc cull_slot_inv [OF _ assms(2-6), of n v' s'] by simp
qed (simp add: assms(1))

lemma mark_entry:
  assumes "i < length (queue_buf s)"
  shows "(if \<not> q_disabled (entry s i) then mark_as_redundant i (\<not> q_favored (entry s i)) s else s) =
    s\<lparr>queue_buf := (queue_buf s)[i := marked (afl_disable_redundant s) (entry s i)]\<rparr>"
proof -
  have "(queue_buf s)[i := entry s i] = queue_buf s" by (rule list_update_id)
  then show ?thesis
    using assms by (auto simp: mark_as_redundant_def marked_def Let_def upd_entry_def)
qed

lemma mark_loop:
  assumes "n \<le> length (queue_buf s)"
  shows "fold (\<lambda>i s. if \<not> q_disabled (entry s i) then mark_as_redundant i (\<not> q_favored (entry s i)) s else s)
      [0..<n] s = s\<lparr>queue_buf := map (marked (afl_disable_redundant s)) (take n (queue_buf s)) @ drop n (queue_buf s)\<rparr>"
  using assms
proof (induction n)
  case (Suc n)
  let ?m = "marked (afl_disable_redundant s)"
  let ?b = "map ?m (take n (queue_buf s)) @ drop n (queue_buf s)"
  have n: "n < length (queue_buf s)" "length (map ?m (take n (queue_buf s))) = n" using Suc.prems by simp_all
  have "?b ! n = entry s n" using n by (simp add: nth_append)
  moreover have "?b[n := ?m (entry s n)] = map ?m (take (Suc n) (queue_buf s)) @ drop (Suc n) (queue_buf s)"
    using n by (simp add: list_update_append take_Suc_conv_app_nth Cons_nth_drop_Suc [symmetric])
  ultimately show ?case
    using Suc n mark_entry [of n "s\<lparr>queue_buf := ?b\<rparr>"] by (simp cong: if_cong)
qed simp

lemma clear_loop:
  "n \<le> length (queue_buf s) \<Longrightarrow> fold (\<lambda>i. upd_entry i (q_favored_update (\<lambda>_. False))) [0..<n] s =
     s\<lparr>queue_buf := map (q_favored_update (\<lambda>_. False)) (take n (queue_buf s)) @ drop n (queue_buf s)\<rparr>"
proof (induction n)
  case (Suc n)
  let ?c = "q_favored_update (\<lambda>_. False) :: 'a queue_entry \<Rightarrow> 'a queue_entry"
  let ?b = "map ?c (take n (queue_buf s)) @ drop n (queue_buf s)"
  have n: "n < length (queue_buf s)" "length (map ?c (take n (queue_buf s))) = n" using Suc.prems by simp_all
  have "?b ! n = entry s n" using n by (simp add: nth_append)
  moreover have "?b[n := ?c (entry s n)] = map ?c (take (Suc n) (queue_buf s)) @ drop (Suc n) (queue_buf s)"
    using n by (simp add: list_update_append take_Suc_conv_app_nth Cons_nth_drop_Suc [symmetric])
  ultimately show ?case using Suc n by (simp add: upd_entry_def)
qed simp

lemma marked_fields:
  "q_favored (marked d e) = q_favored e" "q_was_fuzzed (marked d e) = q_was_fuzzed e"
  "q_tc_ref (marked d e) = q_tc_ref e" "q_id (marked d e) = q_id e"
  "q_trace_mini (marked d e) = q_trace_mini e \<or> q_trace_mini (marked d e) = None"
  "q_favored e \<Longrightarrow> q_trace_mini (marked d e) = q_trace_mini e"
  "q_favored e \<Longrightarrow> q_disabled (marked d e) = q_disabled e"
  "\<not> q_disabled e \<Longrightarrow> q_fs_redundant (marked d e) = (\<not> q_favored e)"
  by (auto simp: marked_def)

lemma cull_queue_phases:
  assumes "score_changed s" "\<not> non_instrumented_mode s" "unat (queued_items s) = length (queue_buf s)"
    "len = unat (drop_bit 3 (map_size s))"
    "fold (cull_slot len) [0..<unat (map_size s)]
       (replicate len 255 @ drop len (map_tmp_buf s), cull_start s) = (v, s1)"
    "cframe s1 = cframe (cull_start s)"
  shows "cull_queue s = s1\<lparr>map_tmp_buf := v,
     queue_buf := map (marked (afl_disable_redundant s1)) (queue_buf s1), reinit_table := True\<rparr>"
proof -
  let ?s = "s\<lparr>score_changed := False, queued_favored := 0, pending_favored := 0\<rparr>"
  have start: "(fold (\<lambda>i. upd_entry i (q_favored_update (\<lambda>_. False))) [0..<unat (queued_items ?s)] ?s)
      \<lparr>smallest_favored := - 1\<rparr> = cull_start s"
    using clear_loop [of "unat (queued_items ?s)" ?s] assms(3) by (simp add: cull_start_def)
  have "queued_items s1 = queued_items s" "length (queue_buf s1) = length (queue_buf s)"
    using cframe_fields(3,4) [OF assms(6)] by (simp_all add: cull_start_def)
  then have mark: "fold (\<lambda>i s. if \<not> q_disabled (entry s i)
      then mark_as_redundant i (\<not> q_favored (entry s i)) s else s) [0..<unat (queued_items s1)] (s1\<lparr>map_tmp_buf := v\<rparr>) =
      s1\<lparr>map_tmp_buf := v, queue_buf := map (marked (afl_disable_redundant s1)) (queue_buf s1)\<rparr>"
    using mark_loop [of "unat (queued_items s1)" "s1\<lparr>map_tmp_buf := v\<rparr>"] assms(3) by simp
  have ms: "map_size (cull_start s) = map_size s" by (simp add: cull_start_def)
  show ?thesis
    using assms(1,2) unfolding cull_queue_def Let_def
    by (simp add: start [simplified] assms(4) [symmetric] assms(5) ms mark [simplified])
qed

lemma bit_255: "k < 8 \<Longrightarrow> bit (255 :: u8) k"
proof -
  assume "k < 8"
  moreover have "(255 :: u8) = - 1" by simp
  ultimately show ?thesis by (simp only: bit_minus_1_iff) simp
qed

lemma cull_start_inv:
  assumes "8 * len = unat (map_size s)"
  shows "cull_inv (cull_start s) 0 (replicate len 255 @ drop len w, cull_start s)"
proof -
  have "unseen (replicate len 255 @ drop len w) j" if "j < unat (map_size s)" for j
  proof -
    have "j div 8 < len" using that assms by (simp add: div_less_iff_less_mult mult.commute)
    then show ?thesis using bit_255 [of "j mod 8"] by (simp add: unseen_def nth_append)
  qed
  moreover have "favs (cull_start s) = {}" "pend (cull_start s) = {}"
    by (auto simp: favs_def pend_def cull_start_def)
  ultimately show ?thesis
    using assms by (simp add: cull_inv_def tally_def) (simp add: cull_start_def)
qed

lemma cull_queue_effect:
  assumes "corpus_ok s" "ids_ok s" "score_changed s" "\<not> non_instrumented_mode s" "8 dvd unat (map_size s)"
  shows "let s' = cull_queue s in
    (\<forall>k < unat (map_size s). \<forall>t m. top_rated s ! k = Some t \<and> q_trace_mini (entry s t) = Some m \<longrightarrow>
       (\<exists>u m'. u < length (queue_buf s) \<and> q_trace_mini (entry s u) = Some m' \<and> covers (map_size s) m' k \<and>
          (q_favored (entry s' u) \<and> q_trace_mini (entry s' u) = Some m' \<or> q_disabled (entry s u)))) \<and>
    (\<forall>t < length (queue_buf s). q_favored (entry s' t) \<longrightarrow>
       \<not> q_disabled (entry s' t) \<and> (\<exists>k < unat (map_size s). top_rated s ! k = Some t)) \<and>
    (\<forall>t < length (queue_buf s). \<not> q_disabled (entry s t) \<longrightarrow>
       q_fs_redundant (entry s' t) = (\<not> q_favored (entry s' t))) \<and>
    tally s' \<and> corpus_ok s' \<and> ids_ok s' \<and> map_size s' = map_size s \<and> top_rated s' = top_rated s \<and>
    \<not> score_changed s' \<and> reinit_table s'"
proof -
  let ?s0 = "cull_start s" and ?len = "unat (drop_bit 3 (map_size s))" and ?n = "length (queue_buf s)"
  have c: "refs_ok s" "minis_ok s" "length (top_rated s) = unat (map_size s)" "unat (map_size s) + 7 < 2 ^ 32"
    "unat (queued_items s) = ?n" using assms(1) by (simp_all add: corpus_ok_def)
  have len: "8 * ?len = unat (map_size s)" using assms(5) by (simp add: unat_drop_bit3)
  have e0: "t < ?n \<Longrightarrow> entry ?s0 t = (entry s t)\<lparr>q_favored := False\<rparr>" for t by (simp add: cull_start_def)
  have f0: "map_size ?s0 = map_size s" "top_rated ?s0 = top_rated s" "length (queue_buf ?s0) = ?n"
    "queued_items ?s0 = queued_items s" "score_changed ?s0 = False"
    by (simp_all add: cull_start_def)
  have ok0: "refs_ok ?s0" "minis_ok ?s0" "ids_ok ?s0"
    using c(1,2) assms(2) e0 refs_holder [OF c(1)] by (auto simp: refs_ok_def minis_ok_def ids_ok_def f0)
  obtain v s1 where loop: "fold (cull_slot ?len) [0..<unat (map_size s)]
      (replicate ?len 255 @ drop ?len (map_tmp_buf s), ?s0) = (v, s1)" by fastforce
  have inv: "cull_inv ?s0 (unat (map_size s)) (v, s1)"
    using cull_loop [OF cull_start_inv [OF len, of "map_tmp_buf s"] ok0, of ?len "unat (map_size s)"]
      len c(3) loop by (simp add: f0)
  have cf: "cframe s1 = cframe ?s0" and tl: "tally s1"
    and cov: "\<And>k t m. k < unat (map_size s) \<Longrightarrow> top_rated s ! k = Some t \<Longrightarrow> q_trace_mini (entry ?s0 t) = Some m \<Longrightarrow>
        \<exists>u. picked ?s0 s1 k u"
    and fav: "\<And>t. t \<in> favs s1 \<Longrightarrow> holds s t \<and> \<not> q_disabled (entry ?s0 t)"
    using inv unfolding cull_inv_def by (auto simp: f0 holds_def)
  let ?d = "afl_disable_redundant s1"
  have res: "cull_queue s = s1\<lparr>map_tmp_buf := v, queue_buf := map (marked ?d) (queue_buf s1), reinit_table := True\<rparr>"
    using cull_queue_phases [OF assms(3,4) c(5) refl loop cf] .
  let ?s' = "cull_queue s"
  have l1: "length (queue_buf s1) = ?n" "top_rated s1 = top_rated s" "map_size s1 = map_size s"
    "queued_items s1 = queued_items s" using cframe_fields(1-4) [OF cf] by (simp_all add: f0)
  have e': "entry ?s' t = marked ?d (entry s1 t)" if "t < ?n" for t using that l1 by (simp add: res)
  have e1: "q_trace_mini (entry s1 t) = q_trace_mini (entry s t)" "q_disabled (entry s1 t) = q_disabled (entry s t)"
    "q_tc_ref (entry s1 t) = q_tc_ref (entry s t)" if "t < ?n" for t
    using cframe_entry [OF cf, of t] e0 [OF that] that l1 by simp_all
  have f': "top_rated ?s' = top_rated s" "map_size ?s' = map_size s" "queued_items ?s' = queued_items s"
    "length (queue_buf ?s') = ?n" "reinit_table ?s'"
    by (simp_all add: res l1)
  have sc: "\<not> score_changed ?s'" using arg_cong [OF cf, of score_changed] f0(5) by (simp add: res cframe_def)
  have sets: "favs ?s' = favs s1" "pend ?s' = pend s1"
    using l1(1) by (auto simp: favs_def pend_def res marked_fields(1,2))
  have "tally ?s'" using tl sets by (simp add: tally_def res)
  moreover have "corpus_ok ?s'"
  proof -
    have "refs_ok ?s'" using c(1) e' e1(3) by (simp add: refs_ok_def f' marked_fields(3))
    moreover have "q_trace_mini (entry s t) = Some m" if "t < ?n" "q_trace_mini (entry ?s' t) = Some m" for t m
      using that e' e1(1) marked_fields(5) [of ?d "entry s1 t"] by auto
    then have "minis_ok ?s'"
      using c(2) refs_holder [OF c(1)] by (auto simp: minis_ok_def f')
    ultimately show ?thesis using c by (simp add: corpus_ok_def f')
  qed
  moreover have "\<exists>u m'. u < ?n \<and> q_trace_mini (entry s u) = Some m' \<and> covers (map_size s) m' k \<and>
      (q_favored (entry ?s' u) \<and> q_trace_mini (entry ?s' u) = Some m' \<or> q_disabled (entry s u))"
    if "k < unat (map_size s)" "top_rated s ! k = Some t" "q_trace_mini (entry s t) = Some m" for k t m
  proof -
    have "t < ?n" using refs_holder [OF c(1)] c(3) that(1,2) by simp
    with cov [OF that(1,2), of m] that(3) e0 obtain u where u: "picked ?s0 s1 k u" by auto
    then obtain m' where m': "u < ?n" "q_trace_mini (entry s u) = Some m'" "unseen m' k" "holds s u"
      "q_favored (entry s1 u) \<or> q_disabled (entry s u)"
      using e0 by (auto simp: picked_def f0 holds_def)
    have "covers (map_size s) m' k"
      using c(2) m'(2-4) by (auto simp: minis_ok_def holds_def covers_def unseen_def)
    then show ?thesis
      using m' e' [OF m'(1)] e1(1) [OF m'(1)] marked_fields(1,6) by (metis)
  qed
  moreover have "\<not> q_disabled (entry ?s' t) \<and> (\<exists>k < unat (map_size s). top_rated s ! k = Some t)"
    if "t < ?n" "q_favored (entry ?s' t)" for t
  proof -
    have t: "t \<in> favs s1" using that e' [OF that(1)] l1(1) by (simp add: favs_def marked_fields(1))
    then show ?thesis
      using fav [OF t] that e' [OF that(1)] e0 [OF that(1)] e1(2) [OF that(1)] marked_fields(1,7) c(3)
      by (auto simp: holds_def)
  qed
  moreover have "q_fs_redundant (entry ?s' t) = (\<not> q_favored (entry ?s' t))"
    if "t < ?n" "\<not> q_disabled (entry s t)" for t
    using that e' [OF that(1)] e1(2) [OF that(1)] marked_fields(1,8) by metis
  moreover have "ids_ok ?s'"
    using assms(2) e' cframe_entry(3) [OF cf] e0 l1(1) by (simp add: ids_ok_def f' marked_fields(4))
  ultimately show ?thesis using f' sc by (simp add: Let_def) blast
qed

section \<open>Growing the queue\<close>

lemma count_none: "\<forall>x \<in> set xs. x \<noteq> a \<Longrightarrow> count_list xs a = 0"
  by (induction xs) auto

lemma add_to_queue_buf:
  assumes "custom_mutators_count s = 0"
  shows "\<exists>a. queue_buf (add_to_queue D now fs hook fn l pd s) = queue_buf s @
      [(fresh_entry D fn l pd s)\<lparr>q_id := queued_items s, q_is_ascii := a\<rparr>]"
    "top_rated (add_to_queue D now fs hook fn l pd s) = top_rated s"
    "map_size (add_to_queue D now fs hook fn l pd s) = map_size s"
    "queued_items (add_to_queue D now fs hook fn l pd s) = queued_items s + 1"
    "last_find_time (add_to_queue D now fs hook fn l pd s) = now"
proof -
  let ?e = "(fresh_entry D fn l pd s)\<lparr>q_id := queued_items s\<rparr>"
  let ?s = "note_find_time now (link_entry (fresh_entry D fn l pd s) s)"
  have s: "queue_buf ?s = queue_buf s @ [?e]" "top_rated ?s = top_rated s" "map_size ?s = map_size s"
    "queued_items ?s = queued_items s + 1" "last_find_time ?s = now"
    by (simp_all add: note_find_time_def link_entry_def Let_def)
  have add: "add_to_queue D now fs hook fn l pd s = ?s \<or> (\<exists>a. add_to_queue D now fs hook fn l pd s =
      upd_entry (length (queue_buf s)) (\<lambda>e. e\<lparr>q_is_ascii := a e\<rparr>) ?s)"
    using assms by (auto simp: add_to_queue_def Let_def note_find_time_def link_entry_def)
  have "?e = ?e\<lparr>q_is_ascii := False\<rparr>" by (simp add: fresh_entry_def)
  then show "\<exists>a. queue_buf (add_to_queue D now fs hook fn l pd s) = queue_buf s @
      [(fresh_entry D fn l pd s)\<lparr>q_id := queued_items s, q_is_ascii := a\<rparr>]"
    using add s(1) by (auto simp: upd_entry_def)
  show "top_rated (add_to_queue D now fs hook fn l pd s) = top_rated s"
    "map_size (add_to_queue D now fs hook fn l pd s) = map_size s"
    "queued_items (add_to_queue D now fs hook fn l pd s) = queued_items s + 1"
    "last_find_time (add_to_queue D now fs hook fn l pd s) = now"
    using add s by (auto simp: upd_entry_def)
qed

lemma add_to_queue_inv:
  assumes "corpus_ok s" "ids_ok s" "custom_mutators_count s = 0" "length (queue_buf s) + 1 < 2 ^ 32"
  shows "let s' = add_to_queue D now fs hook fn l pd s; q = length (queue_buf s) in
    corpus_ok s' \<and> ids_ok s' \<and> length (queue_buf s') = q + 1 \<and>
    (\<forall>t < q. entry s' t = entry s t) \<and>
    q_fname (entry s' q) = fn \<and> q_len (entry s' q) = l \<and> q_passed_det (entry s' q) = pd \<and>
    q_mother (entry s' q) = queue_cur s \<and> \<not> q_disabled (entry s' q) \<and> \<not> q_favored (entry s' q)"
proof -
  let ?s = "add_to_queue D now fs hook fn l pd s" and ?q = "length (queue_buf s)"
  note add = add_to_queue_buf [OF assms(3), where D = D and now = now and fs = fs and hook = hook
    and fn = fn and l = l and pd = pd]
  from add(1) obtain a where buf: "queue_buf ?s = queue_buf s @
      [(fresh_entry D fn l pd s)\<lparr>q_id := queued_items s, q_is_ascii := a\<rparr>]" by blast
  have c: "refs_ok s" "minis_ok s" "unat (queued_items s) = ?q" using assms(1) by (simp_all add: corpus_ok_def)
  have old: "entry ?s t = entry s t" if "t < ?q" for t using that by (simp add: buf nth_append)
  have new: "entry ?s ?q = (fresh_entry D fn l pd s)\<lparr>q_id := queued_items s, q_is_ascii := a\<rparr>"
    by (simp add: buf nth_append)
  have len: "length (queue_buf ?s) = ?q + 1" by (simp add: buf)
  have "count_list (top_rated s) (Some ?q) = 0"
    using refs_holder [OF c(1)] by (intro count_none) (metis in_set_conv_nth less_irrefl)
  then have "refs_ok ?s"
    using c(1) old by (auto simp: refs_ok_def add(2) len new fresh_entry_def less_Suc_eq)
  moreover have "minis_ok ?s"
    using c(2) refs_holder [OF c(1)] old by (auto simp: minis_ok_def add(2,3))
  moreover have "unat (queued_items ?s) = length (queue_buf ?s)"
    using c(3) assms(4) unat_inc [of "queued_items s"] by (simp add: add(4) len)
  ultimately have "corpus_ok ?s" using assms(1) by (simp add: corpus_ok_def add(2,3))
  moreover have "ids_ok ?s"
    using assms(2,4) c(3) old by (auto simp: ids_ok_def len new less_Suc_eq)
  ultimately show ?thesis using old by (simp add: Let_def len new fresh_entry_def)
qed

section \<open>The life of a corpus\<close>

lemma frame_ids: "frame s = frame s' \<Longrightarrow> ids_ok s \<longleftrightarrow> ids_ok s'"
  using core_fields(6) [OF frame_core, of s s'] frame_length [of s s'] by (auto simp: ids_ok_def)

lemma score_inv:
  assumes "corpus_inv s" "q < length (queue_buf s)" "traced q s"
  shows "corpus_inv (update_bitmap_score q have_trace s)"
proof (cases "have_trace \<and> \<not> q_disabled (entry s q)")
  case False
  then show ?thesis using assms(1) by (simp add: update_bitmap_score_def Let_def)
next
  case True
  have fr: "frame (update_bitmap_score q True s) = frame s"
    using True by (simp add: update_bitmap_score_fold frame_score_fold)
  have "corpus_ok (update_bitmap_score q True s)"
    using score_effect [of s q] True assms by (simp add: corpus_inv_def)
  then show ?thesis
    using True assms(1) frame_ids [OF fr] frame_fields(1) [OF fr] by (simp add: corpus_inv_def)
qed

lemma cull_inv_kept:
  assumes "corpus_inv s"
  shows "corpus_inv (cull_queue s)"
proof (cases "score_changed s \<and> \<not> non_instrumented_mode s")
  case False
  then show ?thesis using assms by (auto simp: cull_queue_def)
next
  case True
  then have "corpus_ok (cull_queue s)" "map_size (cull_queue s) = map_size s" "ids_ok (cull_queue s)"
    using cull_queue_effect [of s] assms by (auto simp: corpus_inv_def Let_def)
  then show ?thesis using assms by (simp add: corpus_inv_def)
qed

lemma corpus_step_inv: "corpus_step s s' \<Longrightarrow> corpus_inv s \<Longrightarrow> corpus_inv s'"
proof (induction rule: corpus_step.induct)
  case (run_target s tr)
  then show ?case
    by (simp add: corpus_inv_def corpus_ok_def refs_ok_def minis_ok_def ids_ok_def)
next
  case (add_entry s D now fs hook fn l pd)
  then show ?case
    using add_to_queue_inv [of s] add_to_queue_buf(3) [of s] by (simp add: corpus_inv_def Let_def)
qed (simp_all add: score_inv cull_inv_kept)

section \<open>Examples\<close>

lemma ex_corpus_ok: "corpus_ok ex_corpus" "ids_ok ex_corpus" "traced 1 ex_corpus" "cands_ok ex_corpus"
proof -
  have n: "i < 8 \<longleftrightarrow> i = 0 \<or> i = 1 \<or> i = 2 \<or> i = 3 \<or> i = 4 \<or> i = 5 \<or> i = 6 \<or> i = 7" for i :: nat
    by auto
  have b: "bit (3 :: u8) 0" "bit (3 :: u8) 1" by simp_all
  show "corpus_ok ex_corpus"
    using b by (auto simp: corpus_ok_def refs_ok_def minis_ok_def ex_corpus_def ex_entry_def covers_def n less_Suc_eq)
  show "ids_ok ex_corpus" by (auto simp: ids_ok_def ex_corpus_def ex_entry_def less_Suc_eq)
  show "traced 1 ex_corpus" by (auto simp: traced_def ex_corpus_def ex_entry_def less_Suc_eq)
  show "cands_ok ex_corpus" by (auto simp: cands_ok_def cand_ok_def ex_corpus_def ex_entry_def less_Suc_eq)
qed

section \<open>Properties\<close>

text \<open>Property C7. Scoring an entry against the current trace: a slot changes hands exactly when its
  byte is set in the trace and the entry is at least as good as the holder on both keys, every
  other slot keeps its holder, and the corpus stays well-formed (reference counts equal the
  number of slots held, every kept compact trace covers the slots of its entry).\<close>

theorem update_bitmap_score_exact:
  assumes "corpus_ok s" "traced q s" "q < length (queue_buf s)" "\<not> q_disabled (entry s q)"
  shows "corpus_ok (update_bitmap_score q True s) \<and>
    (\<forall>i < unat (map_size s). top_rated (update_bitmap_score q True s) ! i =
       (case top_rated s ! i of
          None \<Rightarrow> if trace_bits s ! i \<noteq> 0 then Some q else None
        | Some t \<Rightarrow> if trace_bits s ! i \<noteq> 0 \<and> fuzz_p2 s (entry s q) \<le> fuzz_p2 s (entry s t) \<and>
                       fav_factor s (entry s q) \<le> fav_factor s (entry s t)
                    then Some q else Some t))"
  using assms by (rule score_effect)

theorem update_bitmap_score_exact_witness:
  "corpus_ok (update_bitmap_score 1 True ex_corpus) \<and>
   top_rated (update_bitmap_score 1 True ex_corpus) ! 0 = Some 0 \<and>
   top_rated (update_bitmap_score 1 True ex_corpus) ! 1 = Some 1 \<and>
   top_rated (update_bitmap_score 1 True ex_corpus) ! 3 = None"
proof -
  have "1 < length (queue_buf ex_corpus)" "\<not> q_disabled (entry ex_corpus 1)"
    by (simp_all add: ex_corpus_def ex_entry_def)
  note u = update_bitmap_score_exact [OF ex_corpus_ok(1,3) this]
  have keys: "fuzz_p2 ex_corpus (entry ex_corpus 1) \<le> fuzz_p2 ex_corpus (entry ex_corpus 0)"
    "fav_factor ex_corpus (entry ex_corpus 1) \<le> fav_factor ex_corpus (entry ex_corpus 0)"
    by (simp_all add: fuzz_p2_def fav_factor_def ex_corpus_def ex_entry_def)
  have m: "map_size ex_corpus = 8" "top_rated ex_corpus ! 0 = Some 0" "top_rated ex_corpus ! 1 = Some 0"
    "top_rated ex_corpus ! 3 = None" "trace_bits ex_corpus ! 0 = 0" "trace_bits ex_corpus ! 1 = 1"
    "trace_bits ex_corpus ! 3 = 0"
    by (simp_all add: ex_corpus_def)
  have "top_rated (update_bitmap_score 1 True ex_corpus) ! 0 = Some 0"
    "top_rated (update_bitmap_score 1 True ex_corpus) ! 1 = Some 1"
    "top_rated (update_bitmap_score 1 True ex_corpus) ! 3 = None"
    using keys spec [OF conjunct2 [OF u], of 0] spec [OF conjunct2 [OF u], of 1]
      spec [OF conjunct2 [OF u], of 3] by (simp_all add: m del: One_nat_def)
  then show ?thesis using u by blast
qed





text \<open>Property C8. Re-scoring leaves in every slot an entry that no newly enrolled candidate of the
  slot beats: a candidate that is at least as good on both keys is equally good on both. The
  reference counts stay exact.\<close>

theorem recalculate_all_scores_minimal:
  assumes "refs_ok s" "cands_ok s" "length (top_rated s) = unat (map_size s)"
    "unat (queued_items s) = length (queue_buf s)"
  shows "let s' = recalculate_all_scores run s in refs_ok s' \<and>
     (\<forall>i < unat (map_size s). \<forall>e < length (queue_buf s).
        last_scored_idx s < int e \<and> \<not> q_disabled (entry s e) \<and> run e ! i \<noteq> 0 \<longrightarrow>
        (\<exists>w. top_rated s' ! i = Some w \<and> w < length (queue_buf s) \<and>
           (no_worse s e w \<longrightarrow> no_worse s w e)))"
  using assms by (rule recalculate_effect)

theorem recalculate_all_scores_minimal_witness:
  "refs_ok (recalculate_all_scores (\<lambda>e. if e = 0 then [1, 1, 0, 0, 0, 0, 0, 0] else [0, 1, 1, 0, 0, 0, 0, 0]) ex_corpus) \<and>
   (\<exists>w. top_rated (recalculate_all_scores (\<lambda>e. if e = 0 then [1, 1, 0, 0, 0, 0, 0, 0] else [0, 1, 1, 0, 0, 0, 0, 0])
       ex_corpus) ! 1 = Some w \<and> (no_worse ex_corpus 1 w \<longrightarrow> no_worse ex_corpus w 1))"
proof -
  let ?run = "\<lambda>e. if e = 0 then [1, 1, 0, 0, 0, 0, 0, 0] else [0, 1, 1, 0, 0, 0, 0, 0] :: bytes"
  have e: "length (top_rated ex_corpus) = unat (map_size ex_corpus)"
    "unat (queued_items ex_corpus) = length (queue_buf ex_corpus)" "unat (map_size ex_corpus) = 8"
    "length (queue_buf ex_corpus) = 2" "last_scored_idx ex_corpus = - 1" "\<not> q_disabled (entry ex_corpus 1)"
    by (simp_all add: ex_corpus_def ex_entry_def)
  have "refs_ok ex_corpus" using ex_corpus_ok(1) by (simp only: corpus_ok_def)
  note r = recalculate_all_scores_minimal [OF this ex_corpus_ok(4) e(1,2), of ?run, unfolded Let_def]
  have "\<exists>w. top_rated (recalculate_all_scores ?run ex_corpus) ! 1 = Some w \<and>
      w < length (queue_buf ex_corpus) \<and> (no_worse ex_corpus 1 w \<longrightarrow> no_worse ex_corpus w 1)"
    using mp [OF spec [OF mp [OF spec [OF conjunct2 [OF r], of 1]]], of 1] e(3-6) by (simp del: One_nat_def)
  then show ?thesis using r by blast
qed

text \<open>
  Re-scoring does not keep the compact traces right: a slot can go to an entry whose compact
  trace is then built from the trace of another entry, the one that ran last.
\<close>

lemma rescore_stale_trace:
  "\<exists>s :: rat queue_state. corpus_ok s \<and> \<not> minis_ok (update_bitmap_rescore 1 0 s)"
proof -
  let ?s = "update_bitmap_rescore 1 0 ex_corpus"
  have b: "fuzz_p2 ex_corpus (entry ex_corpus 1) \<le> fuzz_p2 ex_corpus (entry ex_corpus 0)"
    "fav_factor ex_corpus (entry ex_corpus 1) \<le> fav_factor ex_corpus (entry ex_corpus 0)"
    by (simp_all add: fuzz_p2_def fav_factor_def ex_corpus_def ex_entry_def)
  have q: "\<not> q_disabled (entry ex_corpus 1)" "top_rated ex_corpus ! 0 = Some 0" "map_size ex_corpus = 8"
     "length (queue_buf ex_corpus) = 2" "q_trace_mini (entry ex_corpus 1) = None" "trace_bits ex_corpus ! 0 = 0"
    "length (top_rated ex_corpus) = 8"
    by (simp_all add: ex_corpus_def ex_entry_def)
  let ?u = "unhold 0 ex_corpus" and ?L = "drop_bit 3 (map_size ex_corpus)"
  have un: "q_trace_mini (entry ?u 1) = None" "length (queue_buf ?u) = 2" "frame ?u = frame ex_corpus"
    "top_rated ?u = top_rated ex_corpus"
    using unhold_effect [of ex_corpus 0] q by auto
  have q1: "1 < length (queue_buf ?u)" using un(2) by simp
  note tk = take_slot_effect [OF q1, where L = ?L and i = 0]
  have "beats ex_corpus (fuzz_p2 ex_corpus (entry ex_corpus 1)) (fav_factor ex_corpus (entry ex_corpus 1)) 0"
    using b q(2) by (simp add: beats_def)
  then have s: "?s = take_slot ?L 1 0 ?u" using q(1) by (simp add: update_bitmap_rescore_def contend_win)
  have fr: "map_size ?u = 8" "trace_bits ?u = trace_bits ex_corpus" using frame_fields(1,2) [OF un(3)] q(3) by simp_all
  have L: "unat ?L = 1" unfolding q(3) by simp
  have mini: "q_trace_mini (entry ?s 1) = Some (minimize_bits 8 (replicate 1 0) (trace_bits ex_corpus))"
    using tk(5) un(1) fr unfolding s L by (simp del: One_nat_def)
  have "\<not> bit (minimize_bits 8 (replicate 1 0) (trace_bits ex_corpus) ! (0 div 8)) (0 mod 8)"
    using minimize_bits_bits(2) [of 8 "replicate 1 0" 0 "trace_bits ex_corpus"] q(6) by simp
  moreover have "top_rated ?s ! 0 = Some 1" "0 < length (top_rated ?s)" using tk(1) un(4) q(7) by (simp_all add: s del: One_nat_def)
  ultimately have "\<not> minis_ok ?s" using mini unfolding minis_ok_def covers_def by blast
  then show ?thesis using ex_corpus_ok(1) by blast
qed

end
