(* ===== verification/Testcase_Cache.thy ===== *)
theory Testcase_Cache
  imports Queue
begin

text \<open>
  The test case cache of \<^verbatim>\<open>AFLplusplus/src/afl-fuzz-queue.c\<close>: the buffers of queue entries
  kept in memory, bounded in bytes and in entries, with random eviction. The array of slots,
  the counters and the learned maximum are modelled as they are; the file system and the
  numbers drawn from \<^verbatim>\<open>rand_below\<close> are arguments.
\<close>

section \<open>State\<close>

record 'd cache_state = "'d queue_state" +
  q_testcase_max_cache_size :: u64
  q_testcase_max_cache_entries :: u32
  q_testcase_cache_size :: u64
  q_testcase_max_cache_count :: u32
  q_testcase_cache_count :: u32
  q_testcase_smallest_free :: u32
  q_testcase_evictions :: u32
  q_testcase_cache :: "nat option list"
  do_once :: bool
  afl_testcase_buf :: bytes
  afl_splicecase_buf :: bytes

text \<open>
  Errors: the fuzzer stops (\<^verbatim>\<open>PFATAL\<close>), a slot outside the array would be read, or the
  supplied random draws are used up.
\<close>

datatype cache_error = Cache_Fatal string | Slot_Out_Of_Bounds | Draws_Exhausted

section \<open>Operations\<close>

text \<open>\<^verbatim>\<open>open\<close> and \<^verbatim>\<open>ck_read\<close> of exactly \<open>len\<close> bytes.\<close>

definition read_testcase :: "(string \<Rightarrow> bytes option) \<Rightarrow> string \<Rightarrow> u32 \<Rightarrow> cache_error + bytes" where
  "read_testcase fs fname len = (case fs fname of
       None \<Rightarrow> Inl (Cache_Fatal ''Unable to open'')
     | Some content \<Rightarrow> if length content < unat len then Inl (Cache_Fatal ''Short read'')
                       else Inr (take (unat len) content))"

text \<open>
  \<^verbatim>\<open>queue_testcase_retake\<close>. The difference \<^verbatim>\<open>len - old_len\<close> is computed in 32 bits and then
  added to the 64-bit size.
\<close>

definition queue_testcase_retake ::
  "(string \<Rightarrow> bytes option) \<Rightarrow> nat \<Rightarrow> u32 \<Rightarrow> ('d, 'a) cache_state_scheme \<Rightarrow> cache_error + ('d, 'a) cache_state_scheme" where
  "queue_testcase_retake fs q old_len s =
     (case q_testcase_buf (entry s q) of
        None \<Rightarrow> Inr s
      | Some _ \<Rightarrow>
          (let len = q_len (entry s q);
               s = (if old_len < len \<or> len + 1024 < old_len
                    then s\<lparr>q_testcase_cache_size := q_testcase_cache_size s + ucast (len - old_len)\<rparr>
                    else s)
           in case read_testcase fs (q_fname (entry s q)) len of
                Inl err \<Rightarrow> Inl err
              | Inr buf \<Rightarrow> Inr (upd_entry q (\<lambda>e. e\<lparr>q_testcase_buf := Some buf\<rparr>) s)))"

text \<open>\<open>same_ptr\<close> says that \<^verbatim>\<open>in\<close> is the cached buffer itself.\<close>

definition queue_testcase_retake_mem ::
  "nat \<Rightarrow> bytes \<Rightarrow> bool \<Rightarrow> u32 \<Rightarrow> u32 \<Rightarrow> ('d, 'a) cache_state_scheme \<Rightarrow> ('d, 'a) cache_state_scheme" where
  "queue_testcase_retake_mem q in_buf same_ptr len old_len s =
     (case q_testcase_buf (entry s q) of
        None \<Rightarrow> s
      | Some old \<Rightarrow>
          (if same_ptr then s
           else (let shrink = (len + 1024 < old_len);
                     s = (if shrink
                          then s\<lparr>q_testcase_cache_size := q_testcase_cache_size s + ucast (len - old_len)\<rparr>
                          else s);
                     old = (if shrink then take (unat len) old else old)
                 in upd_entry q (\<lambda>e. e\<lparr>q_testcase_buf :=
                      Some (take (unat len) in_buf @ drop (unat len) old)\<rparr>) s)))"

text \<open>The condition of the eviction loop, and the one-time learning of the entry limit.\<close>

definition cache_full :: "u32 \<Rightarrow> ('d, 'a) cache_state_scheme \<Rightarrow> bool" where
  "cache_full len s \<longleftrightarrow>
     (q_testcase_max_cache_size s \<le> q_testcase_cache_size s + ucast len \<and> 1 < q_testcase_cache_count s) \<or>
     q_testcase_max_cache_entries s - 1 \<le> q_testcase_cache_count s"

definition learns :: "u32 \<Rightarrow> ('d, 'a) cache_state_scheme \<Rightarrow> bool" where
  "learns len s \<longleftrightarrow> q_testcase_max_cache_size s \<le> q_testcase_cache_size s + ucast len \<and>
     (q_testcase_cache_count s < q_testcase_max_cache_entries s \<and>
      q_testcase_max_cache_count s < q_testcase_max_cache_entries s) \<and> \<not> do_once s"

definition learn_limit :: "u32 \<Rightarrow> ('d, 'a) cache_state_scheme \<Rightarrow> ('d, 'a) cache_state_scheme" where
  "learn_limit len s =
     (if learns len s
      then (let n = (if q_testcase_cache_count s < q_testcase_max_cache_count s
                     then q_testcase_max_cache_count s + 1 else q_testcase_cache_count s + 1)
            in s\<lparr>q_testcase_max_cache_entries := n, do_once := True,
                 q_testcase_cache := take (unat (n + 1)) (q_testcase_cache s) @
                   replicate (unat (n + 1) - length (q_testcase_cache s)) None\<rparr>)
      else s)"

text \<open>The \<^verbatim>\<open>do ... while\<close> loop that draws a slot in use by another entry than the current one.\<close>

fun pick_victim :: "u32 list \<Rightarrow> ('d, 'a) cache_state_scheme \<Rightarrow> cache_error + u32 \<times> u32 list" where
  "pick_victim [] s = Inl Draws_Exhausted"
| "pick_victim (r # rs) s =
     (if unat r < length (q_testcase_cache s) then
        (case q_testcase_cache s ! unat r of
           None \<Rightarrow> pick_victim rs s
         | Some t \<Rightarrow> if Some t = queue_cur s then pick_victim rs s else Inr (r, rs))
      else Inl Slot_Out_Of_Bounds)"

definition evict :: "u32 \<Rightarrow> ('d, 'a) cache_state_scheme \<Rightarrow> ('d, 'a) cache_state_scheme" where
  "evict tid s =
     (let old = the (q_testcase_cache s ! unat tid);
          s = upd_entry old (\<lambda>e. e\<lparr>q_testcase_buf := None\<rparr>) s
      in s\<lparr>q_testcase_cache_size := q_testcase_cache_size s - ucast (q_len (entry s old)),
           q_testcase_cache := (q_testcase_cache s)[unat tid := None],
           q_testcase_cache_count := q_testcase_cache_count s - 1,
           q_testcase_evictions := q_testcase_evictions s + 1,
           q_testcase_smallest_free := (if tid < q_testcase_smallest_free s then tid
                                        else q_testcase_smallest_free s)\<rparr>)"

lemma pick_victim_shorter: "pick_victim rs s = Inr (r, rs') \<Longrightarrow> length rs' < length rs"
  by (induction rs) (auto split: if_splits option.splits intro: less_SucI)

function evict_loop ::
  "u32 \<Rightarrow> u32 list \<Rightarrow> u32 \<Rightarrow> ('d, 'a) cache_state_scheme \<Rightarrow> cache_error + u32 \<times> u32 list \<times> ('d, 'a) cache_state_scheme" where
  "evict_loop len rs tid s =
     (if cache_full len s then
        (let s = learn_limit len s in
         case pick_victim rs s of
           Inl err \<Rightarrow> Inl err
         | Inr (r, rs') \<Rightarrow> evict_loop len rs' r (evict r s))
      else Inr (tid, rs, s))"
  by pat_completeness auto
termination
  by (relation "measure (\<lambda>(len, rs, tid, s). length rs)") (auto dest: pick_victim_shorter)

declare evict_loop.simps [simp del]

text \<open>\<^verbatim>\<open>while (afl->q_testcase_cache[tid] != NULL) ++tid;\<close>\<close>

function find_free :: "nat option list \<Rightarrow> nat \<Rightarrow> cache_error + nat" where
  "find_free cache tid =
     (if tid < length cache then (if cache ! tid = None then Inr tid else find_free cache (tid + 1))
      else Inl Slot_Out_Of_Bounds)"
  by pat_completeness auto
termination
  by (relation "measure (\<lambda>(cache, tid). length cache - tid)") auto

declare find_free.simps [simp del]

definition register_testcase :: "nat \<Rightarrow> nat \<Rightarrow> bytes \<Rightarrow> ('d, 'a) cache_state_scheme \<Rightarrow> ('d, 'a) cache_state_scheme" where
  "register_testcase tid q buf s =
     (let len = q_len (entry s q);
          s = upd_entry q (\<lambda>e. e\<lparr>q_testcase_buf := Some buf\<rparr>) s;
          s = s\<lparr>q_testcase_cache := (q_testcase_cache s)[tid := Some q],
                q_testcase_cache_size := q_testcase_cache_size s + ucast len,
                q_testcase_cache_count := q_testcase_cache_count s + 1\<rparr>
      in if q_testcase_max_cache_count s \<le> of_nat tid
         then s\<lparr>q_testcase_max_cache_count := of_nat tid + 1\<rparr>
         else if of_nat tid = q_testcase_smallest_free s
         then s\<lparr>q_testcase_smallest_free := of_nat tid + 1\<rparr>
         else s)"

definition queue_testcase_get ::
  "'d dops \<Rightarrow> (string \<Rightarrow> bytes option) \<Rightarrow> u32 list \<Rightarrow> nat \<Rightarrow> ('d, 'a) cache_state_scheme \<Rightarrow>
   cache_error + bytes \<times> u32 list \<times> ('d, 'a) cache_state_scheme" where
  "queue_testcase_get D fs rs q s =
     (case q_testcase_buf (entry s q) of
        Some buf \<Rightarrow> Inr (buf, rs, s)
      | None \<Rightarrow>
          (let len = q_len (entry s q) in
           if d_less D (q_weight (entry s q)) (d_lit D 1) \<or> q_testcase_max_cache_size s = 0 then
             (case read_testcase fs (q_fname (entry s q)) len of
                Inl err \<Rightarrow> Inl err
              | Inr buf \<Rightarrow> Inr (buf, rs, if queue_cur s = Some q then s\<lparr>afl_testcase_buf := buf\<rparr>
                                         else s\<lparr>afl_splicecase_buf := buf\<rparr>))
           else
             (case evict_loop len rs (q_testcase_max_cache_count s) s of
                Inl err \<Rightarrow> Inl err
              | Inr (tid, rs, s) \<Rightarrow>
                  (let tid = (if q_testcase_max_cache_entries s \<le> tid
                              then q_testcase_smallest_free s else tid)
                   in case find_free (q_testcase_cache s) (unat tid) of
                        Inl err \<Rightarrow> Inl err
                      | Inr tid \<Rightarrow>
                          (case read_testcase fs (q_fname (entry s q)) len of
                             Inl err \<Rightarrow> Inl err
                           | Inr buf \<Rightarrow> Inr (buf, rs, register_testcase tid q buf s))))))"

definition queue_testcase_store_mem ::
  "'d dops \<Rightarrow> nat \<Rightarrow> bytes \<Rightarrow> ('d, 'a) cache_state_scheme \<Rightarrow> cache_error + ('d, 'a) cache_state_scheme" where
  "queue_testcase_store_mem D q mem s =
     (let len = q_len (entry s q) in
      if d_less D (q_weight (entry s q)) (d_lit D 1) \<or>
         q_testcase_max_cache_size s \<le> q_testcase_cache_size s + ucast len \<or>
         q_testcase_max_cache_entries s - 1 \<le> q_testcase_cache_count s
      then Inr s
      else (let tid = (if q_testcase_max_cache_entries s \<le> q_testcase_max_cache_count s
                       then q_testcase_smallest_free s else q_testcase_max_cache_count s)
            in case find_free (q_testcase_cache s) (unat tid) of
                 Inl err \<Rightarrow> Inl err
               | Inr tid \<Rightarrow> Inr (register_testcase tid q (take (unat len) mem) s)))"

section \<open>Specification\<close>

text \<open>
  The books balance: the slots in use hold distinct entries, exactly those with a buffer; the
  counter and the size count them; all slots from \<^verbatim>\<open>max_cache_count\<close> on are free, all slots
  below \<^verbatim>\<open>smallest_free\<close> are in use, and the array has a slot for every allowed entry.
\<close>

definition used :: "nat option list \<Rightarrow> nat" where
  "used cache = (\<Sum>c \<leftarrow> cache. if c = None then 0 else 1)"

definition slot_size :: "('d, 'a) cache_state_scheme \<Rightarrow> nat option \<Rightarrow> u64" where
  "slot_size s c = (case c of None \<Rightarrow> 0 | Some q \<Rightarrow> ucast (q_len (entry s q)))"

definition slots_ok :: "('d, 'a) cache_state_scheme \<Rightarrow> bool" where
  "slots_ok s \<longleftrightarrow>
     (\<forall>i < length (q_testcase_cache s). \<forall>j < length (q_testcase_cache s). \<forall>q.
        q_testcase_cache s ! i = Some q \<and> q_testcase_cache s ! j = Some q \<longrightarrow> i = j) \<and>
     (\<forall>q. (\<exists>t < length (q_testcase_cache s). q_testcase_cache s ! t = Some q) \<longleftrightarrow>
        q < length (queue_buf s) \<and> q_testcase_buf (entry s q) \<noteq> None)"

definition limits_ok :: "('d, 'a) cache_state_scheme \<Rightarrow> bool" where
  "limits_ok s \<longleftrightarrow>
     (\<forall>t < length (q_testcase_cache s). unat (q_testcase_max_cache_count s) \<le> t \<longrightarrow>
        q_testcase_cache s ! t = None) \<and>
     q_testcase_smallest_free s \<le> q_testcase_max_cache_count s \<and>
     (\<forall>t < unat (q_testcase_smallest_free s). q_testcase_cache s ! t \<noteq> None) \<and>
     q_testcase_max_cache_count s \<le> q_testcase_max_cache_entries s \<and>
     unat (q_testcase_max_cache_entries s) \<le> length (q_testcase_cache s) \<and>
     3 \<le> unat (q_testcase_max_cache_entries s) \<and>
     unat (q_testcase_max_cache_entries s) + 1 < 2 ^ 32"

definition cache_ok :: "('d, 'a) cache_state_scheme \<Rightarrow> bool" where
  "cache_ok s \<longleftrightarrow> slots_ok s \<and> limits_ok s \<and>
     unat (q_testcase_cache_count s) = used (q_testcase_cache s) \<and>
     q_testcase_cache_size s = sum_list (map (slot_size s) (q_testcase_cache s))"

text \<open>Cached buffers hold what their files hold.\<close>

definition bufs_ok :: "(string \<Rightarrow> bytes option) \<Rightarrow> ('d, 'a) cache_state_scheme \<Rightarrow> bool" where
  "bufs_ok fs s \<longleftrightarrow> (\<forall>q < length (queue_buf s). \<forall>b. q_testcase_buf (entry s q) = Some b \<longrightarrow>
     (\<exists>c. fs (q_fname (entry s q)) = Some c \<and> b = take (unat (q_len (entry s q))) c))"

text \<open>What the cache operations leave alone: everything but the buffers of the entries.\<close>

definition same_entries :: "('d, 'a) cache_state_scheme \<Rightarrow> ('d, 'a) cache_state_scheme \<Rightarrow> bool" where
  "same_entries s s' \<longleftrightarrow> queue_cur s' = queue_cur s \<and>
     map (q_testcase_buf_update (\<lambda>_. None)) (queue_buf s') = map (q_testcase_buf_update (\<lambda>_. None)) (queue_buf s) \<and>
     q_testcase_max_cache_size s' = q_testcase_max_cache_size s"

text \<open>A slot from which the search for a free one may start.\<close>

definition start_slot :: "u32 \<Rightarrow> ('d, 'a) cache_state_scheme \<Rightarrow> bool" where
  "start_slot tid s \<longleftrightarrow> tid = q_testcase_max_cache_count s \<or>
     (tid < q_testcase_max_cache_count s \<and> q_testcase_cache s ! unat tid = None)"

text \<open>
  Reading through a store: a sequence of requests, each legal in the state it meets, with the
  answers it got. A request to the cache is an entry together with the random draws.
\<close>

inductive reads :: "('k \<Rightarrow> 's \<Rightarrow> bool) \<Rightarrow> ('k \<Rightarrow> 's \<Rightarrow> 'e + 'b \<times> 's) \<Rightarrow> 's \<Rightarrow> ('k \<times> 'b) list \<Rightarrow> 's \<Rightarrow> bool"
  for legal :: "'k \<Rightarrow> 's \<Rightarrow> bool" and fetch :: "'k \<Rightarrow> 's \<Rightarrow> 'e + 'b \<times> 's" where
  reads_nil: "reads legal fetch s [] s"
| reads_cons: "legal k s \<Longrightarrow> fetch k s = Inr (b, s') \<Longrightarrow> reads legal fetch s' kbs s'' \<Longrightarrow>
    reads legal fetch s ((k, b) # kbs) s''"

definition legal_get :: "nat \<times> u32 list \<Rightarrow> ('d, 'a) cache_state_scheme \<Rightarrow> bool" where
  "legal_get = (\<lambda>(q, rs) s. q < length (queue_buf s) \<and> (\<forall>r \<in> set rs. r < q_testcase_max_cache_count s))"

definition cache_fetch ::
  "'d dops \<Rightarrow> (string \<Rightarrow> bytes option) \<Rightarrow> nat \<times> u32 list \<Rightarrow> ('d, 'a) cache_state_scheme \<Rightarrow>
   cache_error + bytes \<times> ('d, 'a) cache_state_scheme" where
  "cache_fetch D fs = (\<lambda>(q, rs) s. case queue_testcase_get D fs rs q s of
       Inl err \<Rightarrow> Inl err | Inr (buf, rest, s') \<Rightarrow> Inr (buf, s'))"

definition on_disk :: "(string \<Rightarrow> bytes option) \<Rightarrow> ('d, 'a) cache_state_scheme \<Rightarrow> bool" where
  "on_disk fs s \<longleftrightarrow> (\<forall>q < length (queue_buf s). \<exists>c. fs (q_fname (entry s q)) = Some c \<and>
     unat (q_len (entry s q)) \<le> length c)"

definition disk_bytes :: "(string \<Rightarrow> bytes option) \<Rightarrow> nat \<times> u32 list \<Rightarrow> ('d, 'a) cache_state_scheme \<Rightarrow> bytes" where
  "disk_bytes fs = (\<lambda>(q, rs) s. take (unat (q_len (entry s q))) (the (fs (q_fname (entry s q)))))"

definition ex_cache_entry :: "u32 \<Rightarrow> u32 \<Rightarrow> bytes option \<Rightarrow> rat queue_entry" where
  "ex_cache_entry ident l b = \<lparr>q_fname = ''/q/id'', q_len = l, q_id = ident, q_trim_done = False,
     q_was_fuzzed = False, q_passed_det = False, q_has_new_cov = True, q_var_behavior = False,
     q_favored = False, q_fs_redundant = False, q_is_ascii = False, q_disabled = False,
     q_bitmap_size = 2, q_fuzz_level = 0, q_n_fuzz_entry = 0, q_exec_us = 7, q_handicap = 0,
     q_depth = 1, q_exec_cksum = 0, q_tc_ref = 0, q_perf_score = 100, q_weight = 1,
     q_mother = None, q_trace_mini = None, q_testcase_buf = b\<rparr>"

definition ex_cache :: "rat cache_state" where
  "ex_cache = \<lparr>trace_bits = [], map_size = 0, real_map_size = 0, virgin_bits = [], virgin_tmout = [],
     virgin_crash = [], bitmap_changed = 0,
     queue_buf = [ex_cache_entry 0 2 (Some [1, 2]), ex_cache_entry 1 3 None], queued_items = 2,
     active_items = 2, pending_not_fuzzed = 2, queued_favored = 0, pending_favored = 0, cur_depth = 1,
     max_depth = 2, ready_for_splicing_count = 0, cycles_wo_finds = 0, queue_head = Some 0,
     queue_top = Some 1, queue_cur = Some 1, top_rated = [], top_rated_candidates = [],
     last_scored_idx = - 1, smallest_favored = - 1, score_changed = False, reinit_table = False,
     schedule = FAST, fixed_seed = False, non_instrumented_mode = False, afl_disable_redundant = False,
     cmplog_mode = False, custom_mutators_count = 0, syncing_party = False, n_fuzz = [],
     map_tmp_buf = [], start_time = 0, last_find_time = 0, longest_find_time = 0,
     q_testcase_max_cache_size = 100, q_testcase_max_cache_entries = 3, q_testcase_cache_size = 2,
     q_testcase_max_cache_count = 1, q_testcase_cache_count = 1, q_testcase_smallest_free = 0,
     q_testcase_evictions = 0, q_testcase_cache = [Some 0, None, None], do_once = False,
     afl_testcase_buf = [], afl_splicecase_buf = []\<rparr>"

end
