(* ===== verification/Cache_Props.thy ===== *)
theory Cache_Props
  imports Testcase_Cache
begin

text \<open>
  The test case cache keeps its books: eviction, learning the limit and registration preserve
  the invariant, every request can return, and what it returns is what the file holds.
\<close>

section \<open>Slots\<close>

lemma upd_entry_cache [simp]:
  fixes s :: "('d, 'a) cache_state_scheme"
  shows "q_testcase_cache (upd_entry q f s) = q_testcase_cache s"
    "q_testcase_cache_size (upd_entry q f s) = q_testcase_cache_size s"
    "q_testcase_cache_count (upd_entry q f s) = q_testcase_cache_count s"
    "q_testcase_max_cache_count (upd_entry q f s) = q_testcase_max_cache_count s"
    "q_testcase_max_cache_entries (upd_entry q f s) = q_testcase_max_cache_entries s"
    "q_testcase_smallest_free (upd_entry q f s) = q_testcase_smallest_free s"
    "q_testcase_evictions (upd_entry q f s) = q_testcase_evictions s"
    "queue_cur (upd_entry q f s) = queue_cur s"
    "q_testcase_max_cache_size (upd_entry q f s) = q_testcase_max_cache_size s"
  by (simp_all add: upd_entry_def)

lemma used_update:
  "i < length xs \<Longrightarrow> used (xs[i := y]) + (if xs ! i = None then 0 else 1) = used xs + (if y = None then 0 else 1)"
proof (induction xs arbitrary: i)
  case (Cons x xs)
  show ?case
  proof (cases i)
    case (Suc j)
    then show ?thesis using Cons.IH [of j] Cons.prems by (auto simp: used_def split: if_splits)
  qed (simp add: used_def)
qed simp

lemma used_le: "(\<And>t. t < length xs \<Longrightarrow> n \<le> t \<Longrightarrow> xs ! t = None) \<Longrightarrow> used xs \<le> n"
proof (induction xs arbitrary: n)
  case (Cons x xs)
  show ?case
  proof (cases n)
    case 0
    then have "\<forall>t < length (x # xs). (x # xs) ! t = None" using Cons.prems by simp
    then have "\<forall>c \<in> set (x # xs). c = None" by (metis in_set_conv_nth)
    then have "used (x # xs) = 0" by (auto simp: used_def sum_list_eq_0_iff)
    then show ?thesis by simp
  next
    case (Suc k)
    have "used xs \<le> k" using Cons.IH [of k] Cons.prems [of "Suc _"] Suc by auto
    then show ?thesis using Suc by (simp add: used_def)
  qed
qed (simp add: used_def)

lemma used_ge: "n \<le> length xs \<Longrightarrow> (\<And>t. t < n \<Longrightarrow> xs ! t \<noteq> None) \<Longrightarrow> n \<le> used xs"
proof (induction xs arbitrary: n)
  case (Cons x xs)
  show ?case
  proof (cases n)
    case (Suc k)
    have "k \<le> used xs" using Cons.IH [of k] Cons.prems(1) Cons.prems(2) [of "Suc _"] Suc by auto
    then show ?thesis using Suc Cons.prems(2) [of 0] by (auto simp: used_def)
  qed simp
qed simp

lemma find_free_first:
  assumes "tid \<le> k" "k < length cache" "cache ! k = None"
  obtains t where "find_free cache tid = Inr t" "tid \<le> t" "t \<le> k" "cache ! t = None"
    "\<And>i. tid \<le> i \<Longrightarrow> i < t \<Longrightarrow> cache ! i \<noteq> None"
  using assms
proof (induction cache tid arbitrary: thesis rule: find_free.induct)
  case (1 cache tid)
  show ?case
  proof (cases "cache ! tid = None")
    case True
    then show ?thesis using 1(3-5) by (intro 1(2) [of tid]) (simp_all add: find_free.simps)
  next
    case False
    then have k: "tid + 1 \<le> k" using 1(3,5) by (cases "tid = k") auto
    have lt: "tid < length cache" using 1(3,4) by simp
    from 1(1) [OF lt False _ k 1(4,5)] obtain t where t: "find_free cache (tid + 1) = Inr t"
      "tid + 1 \<le> t" "t \<le> k" "cache ! t = None" "\<And>i. tid + 1 \<le> i \<Longrightarrow> i < t \<Longrightarrow> cache ! i \<noteq> None"
      by blast
    have "find_free cache tid = Inr t" using t(1) lt False by (subst find_free.simps) auto
    moreover have "cache ! i \<noteq> None" if "tid \<le> i" "i < t" for i
      using t(5) [of i] that False by (cases "i = tid") auto
    ultimately show ?thesis using t by (intro 1(2) [of t]) simp_all
  qed
qed

section \<open>Resizing and eviction\<close>


lemma used_append: "used (xs @ ys) = used xs + used ys"
  by (simp add: used_def)

lemma used_nones [simp]: "used (replicate k None) = 0"
  by (simp add: used_def sum_list_replicate)

lemma drop_nones:
  assumes "\<forall>t < length xs. n \<le> t \<longrightarrow> xs ! t = None"
  shows "drop n xs = replicate (length xs - n) None"
  using assms by (intro nth_equalityI) simp_all

lemma resize_slots:
  assumes "\<forall>t < length xs. n \<le> t \<longrightarrow> xs ! t = None"
  shows "used (take n xs @ replicate k None) = used xs"
    "sum_list (map (slot_size s) (take n xs @ replicate k None)) = sum_list (map (slot_size s) xs)"
    "t < length (take n xs @ replicate k None) \<Longrightarrow>
       (take n xs @ replicate k None) ! t = (if t < length xs then xs ! t else None)"
proof -
  let ?r = "replicate (length xs - n) None"
  have xs: "xs = take n xs @ ?r" using drop_nones [OF assms] append_take_drop_id by metis
  show "used (take n xs @ replicate k None) = used xs"
    by (subst (2) xs) (simp add: used_append)
  show "sum_list (map (slot_size s) (take n xs @ replicate k None)) = sum_list (map (slot_size s) xs)"
    by (subst (2) xs) (simp add: sum_list_replicate slot_size_def)
  show "t < length (take n xs @ replicate k None) \<Longrightarrow>
       (take n xs @ replicate k None) ! t = (if t < length xs then xs ! t else None)"
    using assms by (auto simp: nth_append)
qed

lemma same_entries_refl [simp]: "same_entries s s"
  by (simp add: same_entries_def)

lemma same_entries_trans: "same_entries s s' \<Longrightarrow> same_entries s' s'' \<Longrightarrow> same_entries s s''"
  by (simp add: same_entries_def)

lemma same_entries_fields:
  assumes "same_entries s s'"
  shows "length (queue_buf s') = length (queue_buf s)"
    "t < length (queue_buf s) \<Longrightarrow> q_len (entry s' t) = q_len (entry s t)"
    "t < length (queue_buf s) \<Longrightarrow> q_fname (entry s' t) = q_fname (entry s t)"
    "t < length (queue_buf s) \<Longrightarrow> q_weight (entry s' t) = q_weight (entry s t)"
proof -
  have m: "map (q_testcase_buf_update (\<lambda>_. None)) (queue_buf s') = map (q_testcase_buf_update (\<lambda>_. None)) (queue_buf s)"
    using assms by (simp add: same_entries_def)
  show l: "length (queue_buf s') = length (queue_buf s)" using arg_cong [OF m, of length] by simp
  assume "t < length (queue_buf s)"
  then have e: "(entry s' t)\<lparr>q_testcase_buf := None\<rparr> = (entry s t)\<lparr>q_testcase_buf := None\<rparr>"
    using arg_cong [OF m, of "\<lambda>b. b ! t"] l by simp
  show "q_len (entry s' t) = q_len (entry s t)" "q_fname (entry s' t) = q_fname (entry s t)"
    "q_weight (entry s' t) = q_weight (entry s t)"
    using arg_cong [OF e, of q_len] arg_cong [OF e, of q_fname] arg_cong [OF e, of q_weight] by simp_all
qed

lemma same_entries_upd:
  "same_entries s (upd_entry q (\<lambda>e. e\<lparr>q_testcase_buf := b\<rparr>) s)"
proof -
  have "map (q_testcase_buf_update (\<lambda>_. None)) ((queue_buf s)[q := (entry s q)\<lparr>q_testcase_buf := b\<rparr>]) =
      map (q_testcase_buf_update (\<lambda>_. None)) (queue_buf s)"
    by (simp add: map_update) (metis list_update_id map_update)
  then show ?thesis by (simp add: same_entries_def upd_entry_def)
qed

lemma count_le_max:
  assumes "cache_ok s"
  shows "unat (q_testcase_cache_count s) \<le> unat (q_testcase_max_cache_count s)"
  using assms used_le [of "q_testcase_cache s" "unat (q_testcase_max_cache_count s)"]
  by (simp add: cache_ok_def limits_ok_def)

lemma cache_full_two:
  assumes "cache_ok s" "cache_full len s"
  shows "2 \<le> unat (q_testcase_cache_count s)"
proof -
  have "3 \<le> unat (q_testcase_max_cache_entries s)" using assms(1) by (simp add: cache_ok_def limits_ok_def)
  moreover from this have "unat (q_testcase_max_cache_entries s - 1) = unat (q_testcase_max_cache_entries s) - 1"
    by (intro unat_minus_one) auto
  ultimately show ?thesis using assms(2) by (auto simp: cache_full_def word_le_nat_alt word_less_nat_alt)
qed

lemma learn_limit_ok:
  assumes "cache_ok s" "cache_full len s"
  shows "cache_ok (learn_limit len s) \<and> same_entries s (learn_limit len s) \<and>
    queue_buf (learn_limit len s) = queue_buf s \<and>
    q_testcase_cache_count (learn_limit len s) = q_testcase_cache_count s \<and>
    q_testcase_max_cache_count (learn_limit len s) = q_testcase_max_cache_count s"
proof (cases "learns len s")
  case True
  let ?m = "q_testcase_max_cache_count s" and ?c = "q_testcase_cache s"
  define k where "k = unat (?m + 1 + 1)"
  define d where "d = take k ?c @ replicate (k - length ?c) None"
  have lt: "?m < q_testcase_max_cache_entries s" using True by (simp add: learns_def)
  have cm: "q_testcase_cache_count s \<le> ?m" using count_le_max [OF assms(1)] by (simp add: word_le_nat_alt)
  then have "(if q_testcase_cache_count s < ?m then ?m + 1 else q_testcase_cache_count s + 1) = ?m + 1" by auto
  then have l: "learn_limit len s = s\<lparr>q_testcase_max_cache_entries := ?m + 1, do_once := True, q_testcase_cache := d\<rparr>"
    using True by (simp add: learn_limit_def Let_def d_def k_def)
  have ok: "slots_ok s" "limits_ok s" using assms(1) by (simp_all add: cache_ok_def)
  have b: "unat (q_testcase_max_cache_entries s) + 1 < 2 ^ 32" "unat (q_testcase_max_cache_entries s) \<le> length ?c"
    and none: "\<And>t. t < length ?c \<Longrightarrow> unat ?m \<le> t \<Longrightarrow> ?c ! t = None"
    and sm: "q_testcase_smallest_free s \<le> ?m" "\<And>t. t < unat (q_testcase_smallest_free s) \<Longrightarrow> ?c ! t \<noteq> None"
    using ok(2) by (auto simp: limits_ok_def)
  have n: "unat (?m + 1) = unat ?m + 1" using lt b(1) by (simp add: unat_word_ariths word_less_nat_alt)
  have k: "k = unat ?m + 2" using n lt b(1) by (simp add: k_def word_less_nat_alt unat_word_ariths)
  have rs: "\<forall>t < length ?c. k \<le> t \<longrightarrow> ?c ! t = None" using none k by simp
  note r = resize_slots [OF rs, where k = "k - length ?c", folded d_def]
  have len: "length d = k" by (simp add: d_def)
  have slot: "t < k \<Longrightarrow> d ! t = (if t < length ?c then ?c ! t else None)" for t using r(3) len by simp
  have keep: "t < length ?c \<Longrightarrow> ?c ! t \<noteq> None \<Longrightarrow> t < k" for t using rs by (cases "k \<le> t") auto
  have "slots_ok (learn_limit len s)"
  proof -
    have "(\<exists>t < k. d ! t = Some q) \<longleftrightarrow> (\<exists>t < length ?c. ?c ! t = Some q)" for q
      using slot keep by (metis option.distinct(1))
    moreover have "i = j" if "i < k" "j < k" "d ! i = Some q" "d ! j = Some q" for i j q
      using that slot ok(1) by (simp add: slots_ok_def split: if_splits)
    ultimately show ?thesis using ok(1) unfolding slots_ok_def by (simp add: l len)
  qed
  moreover have "limits_ok (learn_limit len s)"
  proof -
    have "d ! t = None" if "t < k" "unat ?m \<le> t" for t using slot [OF that(1)] none that(2) by simp
    moreover have "d ! t \<noteq> None" if "t < unat (q_testcase_smallest_free s)" for t
    proof -
      have "t < unat ?m" using that sm(1) by (simp add: word_le_nat_alt)
      then show ?thesis using slot [of t] sm(2) [OF that] k lt b(2) by (simp add: word_less_nat_alt)
    qed
    moreover have "2 \<le> unat ?m" using cache_full_two [OF assms] cm by (simp add: word_le_nat_alt)
    ultimately show ?thesis
      using sm(1) n k lt b(1) unfolding limits_ok_def l
      by (simp add: len word_le_nat_alt word_less_nat_alt)
  qed
  moreover have "slot_size (learn_limit len s) = slot_size s"
    by (simp add: l slot_size_def fun_eq_iff split: option.split)
  ultimately show ?thesis
    using assms(1) r(1) r(2) [of s] by (simp add: cache_ok_def l same_entries_def)
qed (simp add: assms(1) learn_limit_def)

lemma sum_list_update_slot:
  fixes f :: "'a \<Rightarrow> u64"
  shows "i < length xs \<Longrightarrow> sum_list (map f (xs[i := y])) = sum_list (map f xs) + f y - f (xs ! i)"
proof (induction xs arbitrary: i)
  case (Cons x xs)
  then show ?case by (cases i) (simp_all add: algebra_simps)
qed simp

lemma clear_slot:
  assumes "\<forall>i < length xs. \<forall>j < length xs. \<forall>q. xs ! i = Some q \<and> xs ! j = Some q \<longrightarrow> i = j"
    "k < length xs" "xs ! k = Some old"
  shows "(\<exists>t < length xs. xs[k := None] ! t = Some q) \<longleftrightarrow> q \<noteq> old \<and> (\<exists>t < length xs. xs ! t = Some q)" (is "?L \<longleftrightarrow> ?R")
proof
  assume ?L
  then obtain t where t: "t < length xs" "xs[k := None] ! t = Some q" by blast
  then have "t \<noteq> k" "xs ! t = Some q" using assms(2) by (auto simp: nth_list_update split: if_splits)
  then show ?R using t(1) assms by blast
next
  assume ?R
  then obtain t where t: "t < length xs" "xs ! t = Some q" "q \<noteq> old" by blast
  then have "t \<noteq> k" using assms(3) by auto
  then show ?L using t by (intro exI [of _ t]) simp
qed

lemma set_slot:
  assumes "k < length xs" "xs ! k = None"
  shows "(\<exists>t < length xs. xs[k := Some p] ! t = Some q) \<longleftrightarrow> q = p \<or> (\<exists>t < length xs. xs ! t = Some q)"
  using assms by (auto simp: nth_list_update) (metis option.distinct(1))

lemma evict_ok:
  assumes "cache_ok s" "unat tid < length (q_testcase_cache s)" "q_testcase_cache s ! unat tid = Some old"
  shows "cache_ok (evict tid s) \<and> same_entries s (evict tid s) \<and>
    unat (q_testcase_cache_count (evict tid s)) + 1 = unat (q_testcase_cache_count s) \<and>
    q_testcase_max_cache_count (evict tid s) = q_testcase_max_cache_count s \<and>
    q_testcase_cache (evict tid s) ! unat tid = None \<and> tid < q_testcase_max_cache_count s \<and>
    (\<forall>q < length (queue_buf s). q_testcase_buf (entry (evict tid s) q) =
       (if q = old then None else q_testcase_buf (entry s q)))"
proof -
  let ?c = "q_testcase_cache s" and ?e = "evict tid s"
  have ok: "slots_ok s" "limits_ok s" "unat (q_testcase_cache_count s) = used ?c"
    "q_testcase_cache_size s = sum_list (map (slot_size s) ?c)" using assms(1) by (simp_all add: cache_ok_def)
  have old: "old < length (queue_buf s)" using ok(1) assms(2,3) by (auto simp: slots_ok_def)
  have e: "?e = (upd_entry old (\<lambda>e. e\<lparr>q_testcase_buf := None\<rparr>) s)
      \<lparr>q_testcase_cache_size := q_testcase_cache_size s - ucast (q_len (entry s old)),
       q_testcase_cache := ?c[unat tid := None], q_testcase_cache_count := q_testcase_cache_count s - 1,
       q_testcase_evictions := q_testcase_evictions s + 1,
       q_testcase_smallest_free := (if tid < q_testcase_smallest_free s then tid else q_testcase_smallest_free s)\<rparr>"
    using assms(3) old by (simp add: evict_def Let_def)
  have buf: "q_testcase_buf (entry ?e q) = (if q = old then None else q_testcase_buf (entry s q))"
    "slot_size ?e = slot_size s" for q
    using old by (auto simp: e slot_size_def fun_eq_iff split: option.splits)
  have "slots_ok ?e"
  proof -
    have A: "(\<exists>t < length ?c. ?c[unat tid := None] ! t = Some q) \<longleftrightarrow> q \<noteq> old \<and> (\<exists>t < length ?c. ?c ! t = Some q)" for q
      using conjunct1 [OF ok(1) [unfolded slots_ok_def]] assms(2,3) by (rule clear_slot)
    have "(\<exists>t < length ?c. ?c[unat tid := None] ! t = Some q) \<longleftrightarrow> q < length (queue_buf s) \<and>
        (if q = old then None else q_testcase_buf (entry s q)) \<noteq> None" for q
      using A [of q] spec [OF conjunct2 [OF ok(1) [unfolded slots_ok_def]], of q] by (cases "q = old") simp_all
    moreover have "i = j" if "i < length ?c" "j < length ?c" "?c[unat tid := None] ! i = Some q" "?c[unat tid := None] ! j = Some q" for i j q
      using that ok(1) assms(2) by (auto simp: slots_ok_def nth_list_update split: if_splits)
    moreover have f: "q_testcase_cache ?e = ?c[unat tid := None]" "length (queue_buf ?e) = length (queue_buf s)"
      by (simp_all add: e)
    ultimately show ?thesis
      unfolding slots_ok_def f length_list_update buf(1) by blast
  qed
  moreover have tm: "unat tid < unat (q_testcase_max_cache_count s)"
    using ok(2) assms(2,3) by (auto simp: limits_ok_def not_less [symmetric])
  moreover have "limits_ok ?e"
    using ok(2) tm assms(2) unfolding limits_ok_def
    by (auto simp: e nth_list_update word_le_nat_alt word_less_nat_alt)
  moreover have u: "used (?c[unat tid := None]) + 1 = used ?c"
    using used_update [OF assms(2), of None] assms(3) by simp
  moreover have cnt: "unat (q_testcase_cache_count s - 1) + 1 = unat (q_testcase_cache_count s)"
    using u ok(3) by (subst unat_minus_one) auto
  moreover have "q_testcase_cache_size ?e = sum_list (map (slot_size ?e) (q_testcase_cache ?e))"
    using sum_list_update_slot [OF assms(2), of "slot_size s" None] ok(4) assms(3) buf(2)
    by (simp add: e slot_size_def)
  moreover have "same_entries s ?e" using same_entries_upd [of s old None] by (simp add: e same_entries_def)
  ultimately show ?thesis
    using ok(3) buf(1) assms(2) by (simp add: cache_ok_def e word_less_nat_alt)
qed

lemma pick_victim_spec:
  "pick_victim rs s = Inr (r, rs') \<Longrightarrow> unat r < length (q_testcase_cache s) \<and>
     (\<exists>t. q_testcase_cache s ! unat r = Some t \<and> queue_cur s \<noteq> Some t) \<and> set rs' \<subseteq> set rs"
  by (induction rs) (auto split: if_splits option.splits)

lemma pick_victim_bounds:
  "\<forall>r \<in> set rs. unat r < length (q_testcase_cache s) \<Longrightarrow> pick_victim rs s \<noteq> Inl Slot_Out_Of_Bounds \<and>
     pick_victim rs s \<noteq> Inl (Cache_Fatal m)"
  by (induction rs) (auto split: option.splits)

lemma evict_loop_ok:
  assumes "cache_ok s" "start_slot tid s" "\<forall>r \<in> set rs. r < q_testcase_max_cache_count s"
  shows "case evict_loop len rs tid s of
      Inl err \<Rightarrow> err = Draws_Exhausted
    | Inr (tid', rs', s') \<Rightarrow> cache_ok s' \<and> start_slot tid' s' \<and> same_entries s s' \<and> \<not> cache_full len s' \<and>
        (\<forall>q < length (queue_buf s). q_testcase_buf (entry s' q) = q_testcase_buf (entry s q) \<or>
           q_testcase_buf (entry s' q) = None)"
  using assms
proof (induction len rs tid s rule: evict_loop.induct)
  case (1 len rs tid s)
  show ?case
  proof (cases "cache_full len s")
    case False
    then show ?thesis using 1(2,3) by (simp add: evict_loop.simps)
  next
    case True
    let ?s = "learn_limit len s"
    have l: "cache_ok ?s" "same_entries s ?s" "queue_buf ?s = queue_buf s"
      "q_testcase_max_cache_count ?s = q_testcase_max_cache_count s" using learn_limit_ok [OF 1(2) True] by simp_all
    have "\<forall>r \<in> set rs. unat r < length (q_testcase_cache ?s)"
    proof
      fix r assume "r \<in> set rs"
      then have "unat r < unat (q_testcase_max_cache_count ?s)" using 1(4) l(4) by (simp add: word_less_nat_alt)
      also have "\<dots> \<le> length (q_testcase_cache ?s)"
        using l(1) by (auto simp: cache_ok_def limits_ok_def word_le_nat_alt)
      finally show "unat r < length (q_testcase_cache ?s)" .
    qed
    note nofault = pick_victim_bounds [OF this]
    show ?thesis
    proof (cases "pick_victim rs ?s")
      case (Inl err)
      then have "err = Draws_Exhausted" using nofault by (cases err) auto
      then show ?thesis using True Inl by (simp add: evict_loop.simps Let_def)
    next
      case (Inr p)
      obtain r rs' where p: "p = (r, rs')" by fastforce
      then have pick: "pick_victim rs ?s = Inr (r, rs')" using Inr by simp
      from pick_victim_spec [OF pick] obtain t where t: "unat r < length (q_testcase_cache ?s)"
        "q_testcase_cache ?s ! unat r = Some t" "set rs' \<subseteq> set rs" by blast
      note e = evict_ok [OF l(1) t(1,2)]
      have st: "start_slot r (evict r ?s)" using e by (simp add: start_slot_def)
      have dr: "\<forall>r' \<in> set rs'. r' < q_testcase_max_cache_count (evict r ?s)" using 1(4) t(3) e l(4) by auto
      have same: "same_entries s (evict r ?s)" using l(2) e same_entries_trans by blast
      have step: "evict_loop len rs tid s = evict_loop len rs' r (evict r ?s)"
        using True pick by (subst evict_loop.simps) (simp add: Let_def)
      have len: "length (queue_buf (evict r ?s)) = length (queue_buf s)" using same_entries_fields(1) [OF same] .
      from 1(1) [OF True refl pick refl _ st dr] e have
        "case evict_loop len rs' r (evict r ?s) of Inl err \<Rightarrow> err = Draws_Exhausted
         | Inr (tid', rs', s') \<Rightarrow> cache_ok s' \<and> start_slot tid' s' \<and> same_entries (evict r ?s) s' \<and> \<not> cache_full len s' \<and>
        (\<forall>q < length (queue_buf (evict r ?s)). q_testcase_buf (entry s' q) = q_testcase_buf (entry (evict r ?s) q) \<or>
           q_testcase_buf (entry s' q) = None)" by blast
      moreover have "q_testcase_buf (entry (evict r ?s) q) = q_testcase_buf (entry s q) \<or>
          q_testcase_buf (entry (evict r ?s) q) = None" if "q < length (queue_buf s)" for q
        using e l(3) that by auto
      ultimately show ?thesis
        unfolding step len
        by (auto split: sum.splits intro: same_entries_trans [OF same]) (metis option.distinct(1))
    qed
  qed
qed

lemma register_ok:
  assumes "cache_ok s" "tid < unat (q_testcase_max_cache_entries s)" "q_testcase_cache s ! tid = None"
    "q < length (queue_buf s)" "q_testcase_buf (entry s q) = None"
    "unat (q_testcase_cache_count s) + 1 < unat (q_testcase_max_cache_entries s)"
  shows "cache_ok (register_testcase tid q buf s) \<and> same_entries s (register_testcase tid q buf s) \<and>
    (\<forall>p < length (queue_buf s). q_testcase_buf (entry (register_testcase tid q buf s) p) =
       (if p = q then Some buf else q_testcase_buf (entry s p)))"
proof -
  let ?c = "q_testcase_cache s" and ?m = "q_testcase_max_cache_count s" and ?f = "q_testcase_smallest_free s"
  let ?r = "register_testcase tid q buf s"
  have ok: "slots_ok s" "limits_ok s" "unat (q_testcase_cache_count s) = used ?c"
    "q_testcase_cache_size s = sum_list (map (slot_size s) ?c)" using assms(1) by (simp_all add: cache_ok_def)
  have b: "tid < length ?c" "tid + 1 < 2 ^ 32" using ok(2) assms(2) by (auto simp: limits_ok_def)
  have w: "unat (of_nat tid :: u32) = tid" "unat (of_nat tid + 1 :: u32) = tid + 1"
    using b(2) by (simp_all add: unat_of_nat unat_word_ariths)
  define m f where "m = (if ?m \<le> of_nat tid then of_nat tid + 1 else ?m)"
    and "f = (if \<not> ?m \<le> of_nat tid \<and> of_nat tid = ?f then of_nat tid + 1 else ?f)"
  have r: "?r = (upd_entry q (\<lambda>e. e\<lparr>q_testcase_buf := Some buf\<rparr>) s)
      \<lparr>q_testcase_cache := ?c[tid := Some q],
       q_testcase_cache_size := q_testcase_cache_size s + ucast (q_len (entry s q)),
       q_testcase_cache_count := q_testcase_cache_count s + 1,
       q_testcase_max_cache_count := m, q_testcase_smallest_free := f\<rparr>"
    by (simp add: register_testcase_def Let_def m_def f_def)
  have bufs: "q_testcase_buf (entry ?r p) = (if p = q then Some buf else q_testcase_buf (entry s p))"
    "slot_size ?r = slot_size s" for p
    using assms(4) by (auto simp: r slot_size_def fun_eq_iff split: option.splits)
  have fl: "q_testcase_cache ?r = ?c[tid := Some q]" "length (queue_buf ?r) = length (queue_buf s)"
    by (simp_all add: r)
  have notin: "\<not> (\<exists>t < length ?c. ?c ! t = Some q)"
    using spec [OF conjunct2 [OF ok(1) [unfolded slots_ok_def]], of q] assms(5) by simp
  have "slots_ok ?r"
  proof -
    have "(\<exists>t < length ?c. ?c[tid := Some q] ! t = Some p) \<longleftrightarrow> p < length (queue_buf s) \<and>
        (if p = q then Some buf else q_testcase_buf (entry s p)) \<noteq> None" for p
      using set_slot [OF b(1) assms(3), of q p] assms(4) spec [OF conjunct2 [OF ok(1) [unfolded slots_ok_def]], of p]
      by (cases "p = q") simp_all
    moreover have "i = j" if "i < length ?c" "j < length ?c" "?c[tid := Some q] ! i = Some p" "?c[tid := Some q] ! j = Some p" for i j p
      using that conjunct1 [OF ok(1) [unfolded slots_ok_def]] notin b(1)
      by (cases "i = tid"; cases "j = tid") auto
    ultimately show ?thesis unfolding slots_ok_def fl length_list_update bufs(1) by blast
  qed
  moreover have "limits_ok ?r"
  proof -
    have lim: "\<And>t. t < length ?c \<Longrightarrow> unat ?m \<le> t \<Longrightarrow> ?c ! t = None" "unat ?f \<le> unat ?m"
      "\<And>t. t < unat ?f \<Longrightarrow> ?c ! t \<noteq> None" "unat ?m \<le> unat (q_testcase_max_cache_entries s)"
      "unat (q_testcase_max_cache_entries s) \<le> length ?c"
      using ok(2) by (auto simp: limits_ok_def word_le_nat_alt)
    have um: "unat m = (if unat ?m \<le> tid then tid + 1 else unat ?m)"
      and uf: "unat f = (if \<not> unat ?m \<le> tid \<and> tid = unat ?f then tid + 1 else unat ?f)"
      using w by (auto simp: m_def f_def word_le_nat_alt word_unat_eq_iff)
    have "?c[tid := Some q] ! t = None" if "t < length ?c" "unat m \<le> t" for t
      using lim(1) [of t] that um by (cases "t = tid") (auto split: if_splits)
    moreover have "?c[tid := Some q] ! t \<noteq> None" if "t < unat f" for t
      using lim(3) [of t] that uf b(1) by (cases "t = tid") (auto split: if_splits)
    moreover have "unat f \<le> unat m" "unat m \<le> unat (q_testcase_max_cache_entries s)"
      using um uf lim(2,4) assms(2) by (auto split: if_splits)
    ultimately show ?thesis
      using ok(2) unfolding limits_ok_def word_le_nat_alt by (simp add: r)
  qed
  moreover have "used (?c[tid := Some q]) = used ?c + 1" using used_update [OF b(1), of "Some q"] assms(3) by simp
  moreover have "unat (q_testcase_cache_count s + 1) = unat (q_testcase_cache_count s) + 1"
    using assms(6) ok(2) by (simp add: limits_ok_def unat_word_ariths)
  moreover have "q_testcase_cache_size ?r = sum_list (map (slot_size ?r) (q_testcase_cache ?r))"
    using sum_list_update_slot [OF b(1), of "slot_size s" "Some q"] ok(4) assms(3) bufs(2)
    by (simp add: r slot_size_def)
  moreover have "same_entries s ?r" using same_entries_upd [of s q "Some buf"] by (simp add: r same_entries_def)
  ultimately show ?thesis using ok(3) bufs(1) by (simp add: cache_ok_def r)
qed

lemma room:
  assumes "cache_ok s" "\<not> q_testcase_max_cache_entries s - 1 \<le> q_testcase_cache_count s"
  shows "unat (q_testcase_cache_count s) + 1 < unat (q_testcase_max_cache_entries s)"
proof -
  have "3 \<le> unat (q_testcase_max_cache_entries s)" using assms(1) by (simp add: cache_ok_def limits_ok_def)
  moreover from this have "unat (q_testcase_max_cache_entries s - 1) = unat (q_testcase_max_cache_entries s) - 1"
    by (intro unat_minus_one) auto
  ultimately show ?thesis using assms(2) by (simp add: word_le_nat_alt)
qed

lemma free_slot:
  assumes "cache_ok s" "start_slot tid s" "unat (q_testcase_cache_count s) + 1 < unat (q_testcase_max_cache_entries s)"
  obtains t where "find_free (q_testcase_cache s) (unat (if q_testcase_max_cache_entries s \<le> tid
      then q_testcase_smallest_free s else tid)) = Inr t"
    "t < unat (q_testcase_max_cache_entries s)" "q_testcase_cache s ! t = None"
proof -
  let ?c = "q_testcase_cache s" and ?n = "unat (q_testcase_max_cache_entries s)"
  have lim: "\<And>t. t < length ?c \<Longrightarrow> unat (q_testcase_max_cache_count s) \<le> t \<Longrightarrow> ?c ! t = None"
    "\<And>t. t < unat (q_testcase_smallest_free s) \<Longrightarrow> ?c ! t \<noteq> None" "?n \<le> length ?c"
    "used ?c = unat (q_testcase_cache_count s)"
    using assms(1) by (auto simp: cache_ok_def limits_ok_def)
  have "\<exists>k < ?n. ?c ! k = None" using used_ge [OF lim(3)] lim(4) assms(3) by fastforce
  then obtain k where k: "k < ?n" "?c ! k = None" "unat (q_testcase_smallest_free s) \<le> k"
    using lim(2) by (meson not_le)
  show thesis
  proof (cases "q_testcase_max_cache_entries s \<le> tid")
    case True
    obtain t where "find_free ?c (unat (q_testcase_smallest_free s)) = Inr t" "t \<le> k" "?c ! t = None"
      by (rule find_free_first [of "unat (q_testcase_smallest_free s)" k ?c]) (use k lim(3) in auto)
    then show thesis using True k(1) by (intro that [of t]) simp_all
  next
    case False
    then have tn: "unat tid < ?n" by (simp add: word_le_nat_alt)
    then have "?c ! unat tid = None" using assms(2) lim(1,3) by (auto simp: start_slot_def)
    then show thesis using False tn lim(3) by (intro that [of "unat tid"]) (auto simp: find_free.simps)
  qed
qed

lemma bufs_ok_mono:
  assumes "bufs_ok fs s" "same_entries s s'"
    "\<And>q. q < length (queue_buf s) \<Longrightarrow> q_testcase_buf (entry s' q) = q_testcase_buf (entry s q) \<or>
       q_testcase_buf (entry s' q) = None \<or>
       (\<exists>c. fs (q_fname (entry s q)) = Some c \<and> q_testcase_buf (entry s' q) = Some (take (unat (q_len (entry s q))) c))"
  shows "bufs_ok fs s'"
  unfolding bufs_ok_def
proof (intro allI impI)
  fix q b assume q: "q < length (queue_buf s')" "q_testcase_buf (entry s' q) = Some b"
  note f = same_entries_fields [OF assms(2)]
  have ql: "q < length (queue_buf s)" using q(1) f(1) by simp
  from assms(3) [OF ql] show "\<exists>c. fs (q_fname (entry s' q)) = Some c \<and> b = take (unat (q_len (entry s' q))) c"
    using assms(1) ql q(2) f(2,3) [OF ql] by (auto simp: bufs_ok_def)
qed

lemma get_ok:
  assumes "cache_ok s" "bufs_ok fs s" "q < length (queue_buf s)"
    "\<forall>r \<in> set rs. r < q_testcase_max_cache_count s"
    "fs (q_fname (entry s q)) = Some content" "unat (q_len (entry s q)) \<le> length content"
  shows "case queue_testcase_get D fs rs q s of
      Inl err \<Rightarrow> err = Draws_Exhausted
    | Inr (buf, rs', s') \<Rightarrow> buf = take (unat (q_len (entry s q))) content \<and>
        cache_ok s' \<and> bufs_ok fs s' \<and> same_entries s s'"
proof -
  let ?len = "q_len (entry s q)" and ?b = "take (unat (q_len (entry s q))) content"
  have rd: "read_testcase fs (q_fname (entry s q)) ?len = Inr ?b"
    using assms(5,6) by (simp add: read_testcase_def)
  show ?thesis
  proof (cases "q_testcase_buf (entry s q)")
    case (Some b)
    then have "b = ?b" using assms(2,3,5) by (auto simp: bufs_ok_def)
    then show ?thesis using Some assms(1,2) by (simp add: queue_testcase_get_def)
  next
    case None
    show ?thesis
    proof (cases "d_less D (q_weight (entry s q)) (d_lit D 1) \<or> q_testcase_max_cache_size s = 0")
      case True
      have "cache_ok (s\<lparr>afl_testcase_buf := ?b\<rparr>)" "cache_ok (s\<lparr>afl_splicecase_buf := ?b\<rparr>)"
        "bufs_ok fs (s\<lparr>afl_testcase_buf := ?b\<rparr>)" "bufs_ok fs (s\<lparr>afl_splicecase_buf := ?b\<rparr>)"
        using assms(1,2) by (simp_all add: cache_ok_def slots_ok_def limits_ok_def slot_size_def [abs_def] bufs_ok_def)
      then show ?thesis
        using None True rd by (simp add: queue_testcase_get_def Let_def same_entries_def)
    next
      case False
      have st: "start_slot (q_testcase_max_cache_count s) s" by (simp add: start_slot_def)
      note loop = evict_loop_ok [OF assms(1) st assms(4), of ?len]
      show ?thesis
      proof (cases "evict_loop ?len rs (q_testcase_max_cache_count s) s")
        case (Inl err)
        then show ?thesis using loop None False by (simp add: queue_testcase_get_def Let_def)
      next
        case (Inr p)
        obtain tid rs' s1 where p: "p = (tid, rs', s1)" by (cases p)
        have l: "cache_ok s1" "start_slot tid s1" "same_entries s s1" "\<not> cache_full ?len s1"
          "\<And>q. q < length (queue_buf s) \<Longrightarrow> q_testcase_buf (entry s1 q) = q_testcase_buf (entry s q) \<or>
             q_testcase_buf (entry s1 q) = None"
          using loop Inr p by auto
        have rm: "unat (q_testcase_cache_count s1) + 1 < unat (q_testcase_max_cache_entries s1)"
          using l(4) by (intro room [OF l(1)]) (simp add: cache_full_def)
        from free_slot [OF l(1,2) rm] obtain t where t: "find_free (q_testcase_cache s1)
            (unat (if q_testcase_max_cache_entries s1 \<le> tid then q_testcase_smallest_free s1 else tid)) = Inr t"
          "t < unat (q_testcase_max_cache_entries s1)" "q_testcase_cache s1 ! t = None" by blast
        note f = same_entries_fields [OF l(3)]
        have q1: "q < length (queue_buf s1)" "q_testcase_buf (entry s1 q) = None"
          using f(1) assms(3) l(5) [OF assms(3)] None by simp_all
        note reg = register_ok [OF l(1) t(2,3) q1 rm, of ?b]
        have get: "queue_testcase_get D fs rs q s = Inr (?b, rs', register_testcase t q ?b s1)"
          using None False Inr p t(1) rd f(3) [OF assms(3)] by (simp add: queue_testcase_get_def Let_def)
        have same: "same_entries s (register_testcase t q ?b s1)" using l(3) reg same_entries_trans by blast
        have "bufs_ok fs (register_testcase t q ?b s1)"
          using reg l(5) f(1) assms(5) by (intro bufs_ok_mono [OF assms(2) same]) auto
        then show ?thesis using get reg same by simp
      qed
    qed
  qed
qed

lemma store_ok:
  assumes "cache_ok s" "bufs_ok fs s" "q < length (queue_buf s)" "q_testcase_buf (entry s q) = None"
    "fs (q_fname (entry s q)) = Some mem"
  shows "\<exists>s'. queue_testcase_store_mem D q mem s = Inr s' \<and> cache_ok s' \<and> bufs_ok fs s' \<and> same_entries s s'"
proof (cases "d_less D (q_weight (entry s q)) (d_lit D 1) \<or>
    q_testcase_max_cache_size s \<le> q_testcase_cache_size s + ucast (q_len (entry s q)) \<or>
    q_testcase_max_cache_entries s - 1 \<le> q_testcase_cache_count s")
  case True
  then show ?thesis using assms(1,2) by (simp add: queue_testcase_store_mem_def Let_def)
next
  case False
  have st: "start_slot (q_testcase_max_cache_count s) s" by (simp add: start_slot_def)
  have rm: "unat (q_testcase_cache_count s) + 1 < unat (q_testcase_max_cache_entries s)"
    using False by (intro room [OF assms(1)]) simp
  let ?b = "take (unat (q_len (entry s q))) mem"
  from free_slot [OF assms(1) st rm] obtain t where t: "find_free (q_testcase_cache s)
      (unat (if q_testcase_max_cache_entries s \<le> q_testcase_max_cache_count s
         then q_testcase_smallest_free s else q_testcase_max_cache_count s)) = Inr t"
    "t < unat (q_testcase_max_cache_entries s)" "q_testcase_cache s ! t = None" by blast
  note reg = register_ok [OF assms(1) t(2,3) assms(3,4) rm, of ?b]
  then have same: "same_entries s (register_testcase t q ?b s)" by blast
  have "bufs_ok fs (register_testcase t q ?b s)"
    using reg assms(5) by (intro bufs_ok_mono [OF assms(2) same]) auto
  then show ?thesis
    using reg same False t(1) by (simp add: queue_testcase_store_mem_def Let_def)
qed

lemma used_pos: "0 < used xs \<Longrightarrow> \<exists>i < length xs. xs ! i \<noteq> None"
  using used_le [of xs 0] by fastforce

lemma victim_exists:
  assumes "cache_ok s" "2 \<le> unat (q_testcase_cache_count s)"
  obtains r t where "r < q_testcase_max_cache_count s" "unat r < length (q_testcase_cache s)"
    "q_testcase_cache s ! unat r = Some t" "queue_cur s \<noteq> Some t"
proof -
  let ?c = "q_testcase_cache s"
  have ok: "slots_ok s" "limits_ok s" "2 \<le> used ?c" using assms by (simp_all add: cache_ok_def)
  obtain i where i: "i < length ?c" "?c ! i \<noteq> None" using used_pos [of ?c] ok(3) by auto
  have "0 < used (?c[i := None])" using used_update [OF i(1), of None] i(2) ok(3) by simp
  from used_pos [OF this] obtain j where "j < length ?c" "?c[i := None] ! j \<noteq> None" by auto
  then have j: "j < length ?c" "?c ! j \<noteq> None" "j \<noteq> i" using i(1) by (auto simp: nth_list_update split: if_splits)
  have "?c ! i \<noteq> ?c ! j" using ok(1) i j by (auto simp: slots_ok_def)
  then have "\<exists>k t. k < length ?c \<and> ?c ! k = Some t \<and> queue_cur s \<noteq> Some t"
    using i j by (metis option.exhaust)
  then obtain k t where k: "k < length ?c" "?c ! k = Some t" "queue_cur s \<noteq> Some t" by blast
  have m: "k < unat (q_testcase_max_cache_count s)" using ok(2) k(1,2) by (auto simp: limits_ok_def not_less [symmetric])
  then have w: "unat (of_nat k :: u32) = k"
    using unsigned_less [of "q_testcase_max_cache_count s", where 'a = nat] by (simp add: unat_of_nat)
  show thesis using k m w by (intro that [of "of_nat k" t]) (simp_all add: word_less_nat_alt)
qed

lemma evict_returns:
  assumes "cache_ok s"
  shows "\<exists>rs x. (\<forall>r \<in> set rs. r < q_testcase_max_cache_count s) \<and> evict_loop len rs tid s = Inr x"
  using assms
proof (induction "unat (q_testcase_cache_count s)" arbitrary: s tid rule: less_induct)
  case less
  show ?case
  proof (cases "cache_full len s")
    case False
    then show ?thesis by (intro exI [of _ "[]"]) (simp add: evict_loop.simps)
  next
    case True
    let ?s = "learn_limit len s"
    have l: "cache_ok ?s" "q_testcase_cache_count ?s = q_testcase_cache_count s"
      "q_testcase_max_cache_count ?s = q_testcase_max_cache_count s"
      using learn_limit_ok [OF less.prems True] by simp_all
    obtain r t where r: "r < q_testcase_max_cache_count ?s" "unat r < length (q_testcase_cache ?s)"
      "q_testcase_cache ?s ! unat r = Some t" "queue_cur ?s \<noteq> Some t"
      using victim_exists [OF l(1)] cache_full_two [OF less.prems True] l(2) by metis
    note e = evict_ok [OF l(1) r(2,3)]
    obtain rs x where x: "\<forall>r' \<in> set rs. r' < q_testcase_max_cache_count (evict r ?s)"
      "evict_loop len rs r (evict r ?s) = Inr x"
      using less.hyps [of "evict r ?s" r] e l(2) by auto
    have "evict_loop len (r # rs) tid s = Inr x"
      using True r x(2) by (subst evict_loop.simps) (auto simp: Let_def)
    moreover have "\<forall>r' \<in> set (r # rs). r' < q_testcase_max_cache_count s" using x(1) r(1) e l(3) by simp
    ultimately show ?thesis by blast
  qed
qed

lemma find_free_error: "find_free c t = Inl err \<Longrightarrow> err = Slot_Out_Of_Bounds"
proof (induction c t rule: find_free.induct)
  case (1 c t)
  then show ?case by (subst (asm) (2) find_free.simps) (auto split: if_splits)
qed

lemma get_returns:
  assumes "cache_ok s" "bufs_ok fs s" "q < length (queue_buf s)"
    "fs (q_fname (entry s q)) = Some content" "unat (q_len (entry s q)) \<le> length content"
  shows "\<exists>rs x. (\<forall>r \<in> set rs. r < q_testcase_max_cache_count s) \<and> queue_testcase_get D fs rs q s = Inr x"
proof -
  obtain rs x where rs: "\<forall>r \<in> set rs. r < q_testcase_max_cache_count s"
    "evict_loop (q_len (entry s q)) rs (q_testcase_max_cache_count s) s = Inr x"
    using evict_returns [OF assms(1)] by blast
  have "queue_testcase_get D fs rs q s \<noteq> Inl Draws_Exhausted"
    using rs(2) find_free_error
    by (auto simp: queue_testcase_get_def Let_def read_testcase_def split: option.splits sum.splits prod.splits if_splits)
  moreover have "queue_testcase_get D fs rs q s = Inl err \<Longrightarrow> err = Draws_Exhausted" for err
    using get_ok [OF assms(1-3) rs(1) assms(4,5), of D] by simp
  ultimately have "\<exists>x. queue_testcase_get D fs rs q s = Inr x"
    by (cases "queue_testcase_get D fs rs q s") auto
  then show ?thesis using rs(1) by blast
qed

lemma ucast_neg_diff:
  assumes "len < (old :: u32)"
  shows "(ucast (len - old) :: u64) = 2 ^ 32 - ucast (old - len)"
proof -
  have "unat (len - old) = 2 ^ 32 - unat (old - len)"
    using assms by (simp add: unat_sub_if' word_less_nat_alt word_le_nat_alt)
  then show ?thesis
    using unsigned_less [of "old - len", where 'a = nat]
    by (simp add: word_unat_eq_iff unsigned_ucast_eq take_bit_nat_eq_self unat_sub_if' word_le_nat_alt)
qed

section \<open>The cache as a store\<close>

text \<open>
  The interface of a reader: requests, the answers they should get, and an invariant. Nothing a
  request does changes the right answer to another one.
\<close>

locale transparent_reader =
  fixes inv :: "'s \<Rightarrow> bool" and legal :: "'k \<Rightarrow> 's \<Rightarrow> bool"
    and fetch :: "'k \<Rightarrow> 's \<Rightarrow> 'e + 'b \<times> 's" and truth :: "'k \<Rightarrow> 's \<Rightarrow> 'b"
    and same :: "'s \<Rightarrow> 's \<Rightarrow> bool"
  assumes fetch_sound: "inv s \<Longrightarrow> legal k s \<Longrightarrow> fetch k s = Inr (b, s') \<Longrightarrow> b = truth k s \<and> inv s' \<and> same s s'"
    and same_refl: "same s s"
    and same_trans: "same s s' \<Longrightarrow> same s' s'' \<Longrightarrow> same s s''"
    and truth_same: "same s s' \<Longrightarrow> legal k s' \<Longrightarrow> truth k s' = truth k s"
begin

lemma reads_sound:
  "reads legal fetch s kbs s' \<Longrightarrow> inv s \<Longrightarrow>
     inv s' \<and> same s s' \<and> (\<forall>(k, b) \<in> set kbs. b = truth k s)"
proof (induction rule: reads.induct)
  case (reads_nil s)
  then show ?case using same_refl by simp
next
  case (reads_cons k s b s' kbs s'')
  have f: "b = truth k s" "inv s'" "same s s'" using fetch_sound reads_cons by blast+
  then have ih: "inv s''" "same s' s''" "\<forall>(k, b) \<in> set kbs. b = truth k s'" using reads_cons by blast+
  have "b' = truth k' s" if "(k', b') \<in> set kbs" for k' b'
  proof -
    have "reads legal fetch s' kbs s''" using reads_cons by blast
    then have "\<exists>t. same s' t \<and> legal k' t \<and> b' = truth k' t" using that f(2)
    proof (induction rule: reads.induct)
      case (reads_cons k s b s' kbs s'')
      then show ?case using fetch_sound [OF reads_cons.prems(2) reads_cons.hyps(1,2)] same_refl same_trans by fastforce
    qed simp
    then show ?thesis using truth_same same_trans f(3) by metis
  qed
  then show ?case using f ih same_trans by fastforce
qed

end

lemma disk_bytes_same:
  assumes "same_entries s s'" "legal_get k s'"
  shows "disk_bytes fs k s' = disk_bytes fs k s"
  using same_entries_fields(1) [OF assms(1)] same_entries_fields(2,3) [OF assms(1), of "fst k"] assms(2)
  by (cases k) (simp add: disk_bytes_def legal_get_def)

lemma on_disk_same: "same_entries s s' \<Longrightarrow> on_disk fs s \<Longrightarrow> on_disk fs s'"
  using same_entries_fields [of s s'] by (simp add: on_disk_def)

lemma cache_fetch_sound:
  assumes "cache_ok s \<and> bufs_ok fs s \<and> on_disk fs s" "legal_get k s" "cache_fetch D fs k s = Inr (b, s')"
  shows "b = disk_bytes fs k s \<and> (cache_ok s' \<and> bufs_ok fs s' \<and> on_disk fs s') \<and> same_entries s s'"
proof -
  obtain q rs where k: "k = (q, rs)" by fastforce
  have q: "q < length (queue_buf s)" "\<forall>r \<in> set rs. r < q_testcase_max_cache_count s"
    using assms(2) by (simp_all add: k legal_get_def)
  then obtain c where c: "fs (q_fname (entry s q)) = Some c" "unat (q_len (entry s q)) \<le> length c"
    using assms(1) by (auto simp: on_disk_def)
  obtain rest where get: "queue_testcase_get D fs rs q s = Inr (b, rest, s')"
    using assms(3) by (auto simp: cache_fetch_def k split: sum.splits prod.splits)
  have "cache_ok s" "bufs_ok fs s" using assms(1) by simp_all
  from get_ok [OF this q c, of D] show ?thesis
    using assms(1) get c(1) on_disk_same [of s s' fs] by (simp add: disk_bytes_def k)
qed

interpretation testcases: transparent_reader
  "\<lambda>s. cache_ok s \<and> bufs_ok fs s \<and> on_disk fs s" legal_get "cache_fetch D fs" "disk_bytes fs" same_entries
  for D fs
proof
  fix s k b s' s''
  show "b = disk_bytes fs k s \<and> (cache_ok s' \<and> bufs_ok fs s' \<and> on_disk fs s') \<and> same_entries s s'"
    if "cache_ok s \<and> bufs_ok fs s \<and> on_disk fs s" "legal_get k s" "cache_fetch D fs k s = Inr (b, s')"
    using that by (rule cache_fetch_sound)
  show "same_entries s s" by (rule same_entries_refl)
  show "same_entries s s''" if "same_entries s s'" "same_entries s' s''"
    using that by (rule same_entries_trans)
  show "disk_bytes fs k s' = disk_bytes fs k s" if "same_entries s s'" "legal_get k s'"
    using that by (rule disk_bytes_same)
qed

section \<open>Properties\<close>

text \<open>Property C36. The cache is transparent: whatever the sequence of requests and the random
  evictions, every request is answered with the bytes of the entry's file, and afterwards the
  books balance: the slots in use are exactly the entries with a buffer, the counter and the
  size count them, the free-slot bounds hold.\<close>

theorem testcase_cache_transparent:
  assumes "reads legal_get (cache_fetch D fs) s answers s'" "cache_ok s" "bufs_ok fs s" "on_disk fs s"
  shows "cache_ok s' \<and> bufs_ok fs s' \<and> (\<forall>((q, rs), b) \<in> set answers.
    b = take (unat (q_len (entry s q))) (the (fs (q_fname (entry s q)))))"
  using testcases.reads_sound [OF assms(1)] assms(2-4) by (fastforce simp: disk_bytes_def)

lemma ex_cache_ok: "cache_ok ex_cache" "bufs_ok (\<lambda>_. Some [1, 2, 3]) ex_cache" "on_disk (\<lambda>_. Some [1, 2, 3]) ex_cache"
proof -
  have i: "i < Suc (Suc (Suc 0)) \<longleftrightarrow> i = 0 \<or> i = 1 \<or> i = 2" for i by auto
  show "cache_ok ex_cache"
    unfolding cache_ok_def slots_ok_def limits_ok_def
    by (auto simp: ex_cache_def used_def slot_size_def ex_cache_entry_def less_Suc_eq nth_Cons' word_le_nat_alt split: if_splits)
  show "bufs_ok (\<lambda>_. Some [1, 2, 3]) ex_cache" "on_disk (\<lambda>_. Some [1, 2, 3]) ex_cache"
    by (auto simp: bufs_ok_def on_disk_def ex_cache_def ex_cache_entry_def less_Suc_eq)
qed

theorem testcase_cache_transparent_witness:
  "\<exists>s'. cache_ok s' \<and> cache_fetch (exact_dops id id id) (\<lambda>_. Some [1, 2, 3]) (1, []) ex_cache = Inr ([1, 2, 3], s')"
proof -
  let ?f = "cache_fetch (exact_dops id id id) (\<lambda>_. Some [1, 2, 3]) (1, []) ex_cache"
  obtain b s' where f: "?f = Inr (b, s')"
    by (simp add: cache_fetch_def queue_testcase_get_def ex_cache_def ex_cache_entry_def exact_dops_def
      evict_loop.simps cache_full_def find_free.simps read_testcase_def Let_def word_le_nat_alt)
  have "legal_get (1, []) ex_cache" by (simp add: legal_get_def ex_cache_def)
  then have "reads legal_get (cache_fetch (exact_dops id id id) (\<lambda>_. Some [1, 2, 3])) ex_cache [((1, []), b)] s'"
    using f reads.reads_cons reads.reads_nil by metis
  from testcase_cache_transparent [OF this ex_cache_ok] have "cache_ok s'" "b = [1, 2, 3]"
    by (simp_all add: ex_cache_def ex_cache_entry_def)
  then show ?thesis using f by blast
qed

text \<open>Property C37. A request never reads outside the slot array and never fails when the file is
  there: the only way not to return is to draw unsuitable slots for ever, and for every state
  there is a finite sequence of draws within bounds after which the request returns. Storing a
  fresh entry always returns and keeps the books balanced.\<close>

theorem testcase_cache_returns:
  assumes "cache_ok s" "bufs_ok fs s" "q < length (queue_buf s)"
    "fs (q_fname (entry s q)) = Some content" "unat (q_len (entry s q)) \<le> length content"
  shows "(\<forall>rs err. (\<forall>r \<in> set rs. r < q_testcase_max_cache_count s) \<longrightarrow>
       queue_testcase_get D fs rs q s = Inl err \<longrightarrow> err = Draws_Exhausted) \<and>
    (\<exists>rs x. (\<forall>r \<in> set rs. r < q_testcase_max_cache_count s) \<and> queue_testcase_get D fs rs q s = Inr x) \<and>
    (q_testcase_buf (entry s q) = None \<longrightarrow>
       (\<exists>s'. queue_testcase_store_mem D q content s = Inr s' \<and> cache_ok s' \<and> bufs_ok fs s'))"
  using get_ok [OF assms(1-3) _ assms(4,5), of _ D] get_returns [OF assms, of D] store_ok [OF assms(1-3) _ assms(4), of D]
  by fastforce

theorem testcase_cache_returns_witness:
  "\<exists>rs x. (\<forall>r \<in> set rs. r < q_testcase_max_cache_count ex_cache) \<and>
     queue_testcase_get (exact_dops id id id) (\<lambda>_. Some [1, 2, 3]) rs 1 ex_cache = Inr x"
proof -
  have "1 < length (queue_buf ex_cache)" "unat (q_len (entry ex_cache 1)) \<le> length [1, 2, 3 :: u8]"
    by (simp_all add: ex_cache_def ex_cache_entry_def)
  from testcase_cache_returns [OF ex_cache_ok(1,2) this(1) refl this(2)] show ?thesis by blast
qed

text \<open>After a trim the size of the cache is wrong by 4 GiB: when an entry shrinks by more
  than 1024 bytes, the 32-bit difference wraps and \<open>2 ^ 32\<close> too much is added to the size; when
  it shrinks by less, or when the trimmed buffer is the cached one, the size does not change
  although the entry is smaller.\<close>

theorem retake_mem_cache_size:
  assumes "q_testcase_buf (entry s q) = Some old" "len < old_len" "unat len + 1024 < 2 ^ 32"
  shows "q_testcase_cache_size (queue_testcase_retake_mem q in_buf same_ptr len old_len s) =
    (if \<not> same_ptr \<and> len + 1024 < old_len
     then q_testcase_cache_size s - ucast (old_len - len) + 2 ^ 32
     else q_testcase_cache_size s)"
  using assms(1) ucast_neg_diff [OF assms(2)]
  by (simp add: queue_testcase_retake_mem_def Let_def algebra_simps)

theorem retake_mem_cache_size_witness:
  "q_testcase_cache_size (queue_testcase_retake_mem 0 [] False 1 2000 ex_cache) = 2 - 1999 + 2 ^ 32"
  using retake_mem_cache_size [of ex_cache 0 "[1, 2]" 1 2000 "[]" False]
  by (simp add: ex_cache_def ex_cache_entry_def)

end
