(* ===== verification/Tmin.thy ===== *)
theory Tmin
  imports Queue
begin

text \<open>
  The test case minimizer \<^verbatim>\<open>AFLplusplus/src/afl-tmin.c\<close>: the verdict on a candidate
  (\<^verbatim>\<open>tmin_run_target\<close>), block normalization, block deletion, alphabet and character minimization,
  custom trimming, and the part of \<^verbatim>\<open>main\<close> from the dry run to the output file. The target (behind
  the fork server), the trace hash and the custom mutator plugins are parameters that act on an
  abstract world \<open>'w\<close>; they may be nondeterministic, since every run is given the world of that
  moment. Files are at most \<^verbatim>\<open>TMIN_MAX_FILE\<close> (10 MiB) long, so lengths and positions are natural
  numbers; the statistics counters wrap at 32 bits.
\<close>

section \<open>State and environment\<close>

datatype fsrv_run_result =
  FSRV_RUN_OK | FSRV_RUN_TMOUT | FSRV_RUN_CRASH | FSRV_RUN_ERROR | FSRV_RUN_NOINST | FSRV_RUN_NOBITS

text \<open>
  How the program ends early: \<^verbatim>\<open>FATAL\<close>, an interrupt (which writes the current data to the output
  file), a read past the end of the mask or a write past the end of the static copy buffer, and
  a custom trimmer that uses up the steps it is given.
\<close>

datatype tmin_exit = Tmin_Fatal string | Tmin_Aborted bytes | Mask_Overread | Buffer_Overrun | Trim_Steps_Exhausted

text \<open>
  The environment: a run of the target on the test case now in place, giving the result, the
  raw trace and whether \<^verbatim>\<open>stop_soon\<close> is set; and \<^verbatim>\<open>hash64\<close> of the trace.
\<close>

record 'w tmin_env =
  fsrv_run_target :: "'w \<Rightarrow> bytes \<Rightarrow> fsrv_run_result \<times> bytes \<times> bool \<times> 'w"
  hash64 :: "bytes \<Rightarrow> u64"

text \<open>
  Custom mutator plugins. \<^verbatim>\<open>post_process\<close> gives \<open>None\<close> when it returns no buffer or a size
  that is not positive; it is taken to return a buffer of its own, not its input changed in place.
\<close>

record 'w trimmer =
  custom_init_trim :: "'w \<Rightarrow> bytes \<Rightarrow> int \<times> 'w"
  custom_trim :: "'w \<Rightarrow> bytes \<times> 'w"
  custom_post_trim :: "'w \<Rightarrow> bool \<Rightarrow> int \<times> 'w"

record 'w custom_mutator =
  custom_post_process :: "('w \<Rightarrow> bytes \<Rightarrow> bytes option \<times> 'w) option"
  custom_fuzz_send :: "('w \<Rightarrow> bytes \<Rightarrow> 'w) option"
  custom_trimmer :: "'w trimmer option"

record tmin_config =
  tmin_map_size :: u32
  hang_mode :: bool
  edges_only :: bool
  exact_mode :: bool
  mask_bitmap :: "bytes option"
  del_len_limit :: nat

record 'w tmin_state =
  in_data :: bytes
  orig_cksum :: u64
  crash_mode :: bool
  missed_hangs :: u32
  missed_crashes :: u32
  missed_paths :: u32
  alpha_d_total :: u32
  tmin_trace :: bytes
  last_run_timed_out :: bool
  fsrv_testcase :: bytes
  world :: 'w

abbreviation (input) ZERO_CHAR :: u8 where "ZERO_CHAR \<equiv> 48"
abbreviation (input) TMIN_MAX_FILE :: nat where "TMIN_MAX_FILE \<equiv> 10 * 1024 * 1024"
abbreviation (input) MAX_FILE :: nat where "MAX_FILE \<equiv> 1024 * 1024"
abbreviation (input) TMIN_SET_MIN_SIZE :: nat where "TMIN_SET_MIN_SIZE \<equiv> 4"
abbreviation (input) TMIN_SET_STEPS :: nat where "TMIN_SET_STEPS \<equiv> 128"
abbreviation (input) TRIM_START_STEPS :: nat where "TRIM_START_STEPS \<equiv> 16"

section \<open>Traces\<close>

definition count_class_lookup :: "u8 \<Rightarrow> u8" where
  "count_class_lookup b = (if b = 0 then 0 else if b = 1 then 1 else if b = 2 then 2 else if b = 3 then 4
     else if b \<le> 7 then 8 else if b \<le> 15 then 16 else if b \<le> 31 then 32 else if b \<le> 127 then 64 else 128)"

definition tmin_classify_counts :: "tmin_config \<Rightarrow> bytes \<Rightarrow> bytes" where
  "tmin_classify_counts c mem =
     (let n = unat (tmin_map_size c)
      in map (if edges_only c then (\<lambda>b. if b \<noteq> 0 then 1 else b) else count_class_lookup) (take n mem) @ drop n mem)"

text \<open>The words of the mask are cleared bit by bit, so the 32-bit operations act bytewise.\<close>

definition apply_mask :: "tmin_config \<Rightarrow> bytes \<Rightarrow> tmin_exit + bytes" where
  "apply_mask c mem = (case mask_bitmap c of
       None \<Rightarrow> Inr mem
     | Some mk \<Rightarrow>
         (let n = 4 * unat (drop_bit 2 (tmin_map_size c))
          in if length mk < n then Inl Mask_Overread
             else Inr (map (\<lambda>(m, k). m AND NOT k) (zip (take n mem) (take n mk)) @ drop n mem)))"

definition anything_set :: "tmin_config \<Rightarrow> bytes \<Rightarrow> bool" where
  "anything_set c mem = list_ex (\<lambda>b. b \<noteq> 0) (take (4 * unat (drop_bit 2 (tmin_map_size c))) mem)"

section \<open>The verdict on a candidate\<close>

fun post_process_all :: "'w custom_mutator list \<Rightarrow> bytes \<Rightarrow> 'w \<Rightarrow> bytes option \<times> 'w" where
  "post_process_all [] mem w = (Some mem, w)"
| "post_process_all (m # ms) mem w =
     (case custom_post_process m of
        None \<Rightarrow> post_process_all ms mem w
      | Some f \<Rightarrow> (case f w mem of
            (None, w) \<Rightarrow> (None, w)
          | (Some mem', w) \<Rightarrow> post_process_all ms mem' w))"

fun fuzz_send_all :: "'w custom_mutator list \<Rightarrow> bytes \<Rightarrow> bool \<Rightarrow> 'w \<Rightarrow> bool \<times> 'w" where
  "fuzz_send_all [] mem sent w = (sent, w)"
| "fuzz_send_all (m # ms) mem sent w =
     (case custom_fuzz_send m of
        None \<Rightarrow> fuzz_send_all ms mem sent w
      | Some f \<Rightarrow> fuzz_send_all ms mem True (f w mem))"

definition pre_afl_fsrv_write_to_testcase ::
  "'w custom_mutator list \<Rightarrow> bytes \<Rightarrow> 'w tmin_state \<Rightarrow> tmin_exit + 'w tmin_state" where
  "pre_afl_fsrv_write_to_testcase ms mem s =
     (case post_process_all ms mem (world s) of
        (None, w) \<Rightarrow> Inr (s\<lparr>world := w\<rparr>)
      | (Some mem', w) \<Rightarrow>
          (if list_ex (\<lambda>m. custom_post_process m \<noteq> None) ms \<and> MAX_FILE < length mem'
           then Inl Buffer_Overrun
           else (let (sent, w) = fuzz_send_all ms mem' False w;
                     s = s\<lparr>world := w\<rparr>
                 in Inr (if sent then s else s\<lparr>fsrv_testcase := mem'\<rparr>))))"

definition judge_path :: "'w tmin_env \<Rightarrow> bool \<Rightarrow> 'w tmin_state \<Rightarrow> bool \<times> 'w tmin_state" where
  "judge_path env first_run s =
     (let cksum = hash64 env (tmin_trace s);
          s = (if first_run then s\<lparr>orig_cksum := cksum\<rparr> else s)
      in if orig_cksum s = cksum then (True, s)
         else (False, s\<lparr>missed_paths := missed_paths s + 1\<rparr>))"

definition judge_run ::
  "tmin_config \<Rightarrow> 'w tmin_env \<Rightarrow> bool \<Rightarrow> fsrv_run_result \<Rightarrow> 'w tmin_state \<Rightarrow> tmin_exit + bool \<times> 'w tmin_state" where
  "judge_run c env first_run ret s =
     (if ret = FSRV_RUN_TMOUT then Inr (False, s\<lparr>missed_hangs := missed_hangs s + 1\<rparr>)
      else if ret = FSRV_RUN_CRASH then
        (let s = (if first_run then s\<lparr>crash_mode := True\<rparr> else s)
         in if crash_mode s
            then (if exact_mode c then Inr (judge_path env first_run s) else Inr (True, s))
            else Inr (False, s\<lparr>missed_crashes := missed_crashes s + 1\<rparr>))
      else if crash_mode s then Inr (False, s\<lparr>missed_paths := missed_paths s + 1\<rparr>)
      else if ret = FSRV_RUN_NOINST then Inl (Tmin_Fatal ''Binary not instrumented?'')
      else Inr (judge_path env first_run s))"

definition tmin_run_target ::
  "tmin_config \<Rightarrow> 'w tmin_env \<Rightarrow> 'w custom_mutator list \<Rightarrow> bytes \<Rightarrow> bool \<Rightarrow> 'w tmin_state \<Rightarrow>
   tmin_exit + bool \<times> 'w tmin_state" where
  "tmin_run_target c env ms mem first_run s =
     (case pre_afl_fsrv_write_to_testcase ms mem s of
        Inl err \<Rightarrow> Inl err
      | Inr s \<Rightarrow>
          (case fsrv_run_target env (world s) (fsrv_testcase s) of (ret, trace, stop_soon, w) \<Rightarrow>
             (let s = s\<lparr>world := w, tmin_trace := trace, last_run_timed_out := (ret = FSRV_RUN_TMOUT)\<rparr>
              in if ret = FSRV_RUN_ERROR then Inl (Tmin_Fatal ''Couldn't run child'')
                 else if stop_soon then Inl (Tmin_Aborted (in_data s))
                 else if hang_mode c then
                   (if ret = FSRV_RUN_TMOUT then Inr (True, s)
                    else if ret = FSRV_RUN_CRASH then Inr (False, s\<lparr>missed_crashes := missed_crashes s + 1\<rparr>)
                    else Inr (False, s\<lparr>missed_hangs := missed_hangs s + 1\<rparr>))
                 else
                   (case apply_mask c (tmin_classify_counts c trace) of
                      Inl err \<Rightarrow> Inl err
                    | Inr trace \<Rightarrow> judge_run c env first_run ret (s\<lparr>tmin_trace := trace\<rparr>)))))"

lemma judge_path_in_data: "judge_path env fr s = (r, s') \<Longrightarrow> in_data s' = in_data s"
  by (auto simp: judge_path_def Let_def split: if_splits)

lemma judge_run_in_data: "judge_run c env fr ret s = Inr (r, s') \<Longrightarrow> in_data s' = in_data s"
  by (auto simp: judge_run_def Let_def dest!: judge_path_in_data split: if_splits)

lemma pre_write_in_data: "pre_afl_fsrv_write_to_testcase ms mem s = Inr s' \<Longrightarrow> in_data s' = in_data s"
  by (auto simp: pre_afl_fsrv_write_to_testcase_def Let_def split: prod.splits option.splits if_splits)

lemma tmin_run_target_in_data:
  "tmin_run_target c env ms mem fr s = Inr (r, s') \<Longrightarrow> in_data s' = in_data s"
  by (auto simp: tmin_run_target_def Let_def dest!: pre_write_in_data judge_run_in_data
      split: sum.splits prod.splits if_splits)

section \<open>Minimization stages\<close>

text \<open>Stage 0: overwrite blocks with the character \<^verbatim>\<open>'0'\<close>. The block length is positive.\<close>

function set_loop ::
  "tmin_config \<Rightarrow> 'w tmin_env \<Rightarrow> 'w custom_mutator list \<Rightarrow> nat \<Rightarrow> nat \<Rightarrow> 'w tmin_state \<Rightarrow> tmin_exit + 'w tmin_state" where
  "set_loop c env ms set_len set_pos s =
     (if set_pos < length (in_data s) \<and> 0 < set_len then
        (let d = in_data s;
             use_len = min set_len (length d - set_pos);
             tmp = take set_pos d @ replicate use_len ZERO_CHAR @ drop (set_pos + use_len) d
         in if list_all (\<lambda>b. b = ZERO_CHAR) (take use_len (drop set_pos d))
            then set_loop c env ms set_len (set_pos + set_len) s
            else (case tmin_run_target c env ms tmp False s of
                    Inl err \<Rightarrow> Inl err
                  | Inr (res, s) \<Rightarrow>
                      set_loop c env ms set_len (set_pos + set_len)
                        (if res then s\<lparr>in_data := tmp, alpha_d_total := alpha_d_total s + of_nat use_len\<rparr> else s)))
      else Inr s)"
  by pat_completeness auto
termination
  by (relation "measure (\<lambda>(c, env, ms, set_len, set_pos, s). length (in_data s) - set_pos)")
    (auto dest: tmin_run_target_in_data)

declare set_loop.simps [simp del]

definition set_stage ::
  "tmin_config \<Rightarrow> 'w tmin_env \<Rightarrow> 'w custom_mutator list \<Rightarrow> 'w tmin_state \<Rightarrow> tmin_exit + 'w tmin_state" where
  "set_stage c env ms s =
     (let set_len = unat (next_pow2 (of_nat (length (in_data s) div TMIN_SET_STEPS)))
      in set_loop c env ms (if set_len < TMIN_SET_MIN_SIZE then TMIN_SET_MIN_SIZE else set_len) 0 s)"

text \<open>
  Stage 1: delete blocks. A block equal to the one before it, which was tried and kept, is
  skipped unless it is the last. \<^verbatim>\<open>tail_len\<close> is negative, and then set to 0, exactly when natural
  subtraction truncates.
\<close>

function del_loop ::
  "tmin_config \<Rightarrow> 'w tmin_env \<Rightarrow> 'w custom_mutator list \<Rightarrow> nat \<Rightarrow> nat \<Rightarrow> bool \<Rightarrow> bool \<Rightarrow> 'w tmin_state \<Rightarrow>
   tmin_exit + bool \<times> 'w tmin_state" where
  "del_loop c env ms del_len del_pos prev_del changed_any s =
     (if del_pos < length (in_data s) \<and> 0 < del_len then
        (let d = in_data s;
             tail_len = length d - del_pos - del_len
         in if \<not> prev_del \<and> tail_len \<noteq> 0 \<and>
               take del_len (drop (del_pos - del_len) d) = take del_len (drop del_pos d)
            then del_loop c env ms del_len (del_pos + del_len) prev_del changed_any s
            else (let tmp = take del_pos d @ take tail_len (drop (del_pos + del_len) d)
                  in case tmin_run_target c env ms tmp False s of
                       Inl err \<Rightarrow> Inl err
                     | Inr (True, s) \<Rightarrow> del_loop c env ms del_len del_pos True True (s\<lparr>in_data := tmp\<rparr>)
                     | Inr (False, s) \<Rightarrow> del_loop c env ms del_len (del_pos + del_len) False changed_any s))
      else Inr (changed_any, s))"
  by pat_completeness auto
termination
  by (relation "measure (\<lambda>(c, env, ms, del_len, del_pos, prev, ch, s). length (in_data s) - del_pos)")
    (auto dest: tmin_run_target_in_data)

declare del_loop.simps [simp del]

text \<open>The block length halves down to \<^verbatim>\<open>del_len_limit\<close>, for which option \<^verbatim>\<open>-l\<close> accepts 1 and more.\<close>

function del_sizes ::
  "tmin_config \<Rightarrow> 'w tmin_env \<Rightarrow> 'w custom_mutator list \<Rightarrow> nat \<Rightarrow> bool \<Rightarrow> 'w tmin_state \<Rightarrow>
   tmin_exit + bool \<times> 'w tmin_state" where
  "del_sizes c env ms del_len changed_any s =
     (let del_len = (if del_len = 0 then 1 else del_len)
      in case del_loop c env ms del_len 0 True changed_any s of
           Inl err \<Rightarrow> Inl err
         | Inr (changed_any, s) \<Rightarrow>
             (if max 1 (del_len_limit c) < del_len \<and> 1 \<le> length (in_data s)
              then del_sizes c env ms (del_len div 2) changed_any s
              else Inr (changed_any, s)))"
  by pat_completeness auto
termination
  by (relation "measure (\<lambda>(c, env, ms, del_len, ch, s). del_len)") (auto split: if_splits)

declare del_sizes.simps [simp del]

definition del_stage ::
  "tmin_config \<Rightarrow> 'w tmin_env \<Rightarrow> 'w custom_mutator list \<Rightarrow> 'w tmin_state \<Rightarrow> tmin_exit + bool \<times> 'w tmin_state" where
  "del_stage c env ms s =
     del_sizes c env ms (unat (next_pow2 (of_nat (length (in_data s) div TRIM_START_STEPS)))) False s"

text \<open>Stage 2: replace a symbol everywhere; \<open>alpha_map\<close> counts the symbols before the stage.\<close>

fun alpha_loop ::
  "tmin_config \<Rightarrow> 'w tmin_env \<Rightarrow> 'w custom_mutator list \<Rightarrow> (u8 \<Rightarrow> nat) \<Rightarrow> u8 list \<Rightarrow> bool \<Rightarrow> 'w tmin_state \<Rightarrow>
   tmin_exit + bool \<times> 'w tmin_state" where
  "alpha_loop c env ms alpha_map [] changed_any s = Inr (changed_any, s)"
| "alpha_loop c env ms alpha_map (i # is) changed_any s =
     (if i = ZERO_CHAR \<or> alpha_map i = 0 then alpha_loop c env ms alpha_map is changed_any s
      else (let tmp = map (\<lambda>b. if b = i then ZERO_CHAR else b) (in_data s)
            in case tmin_run_target c env ms tmp False s of
                 Inl err \<Rightarrow> Inl err
               | Inr (True, s) \<Rightarrow> alpha_loop c env ms alpha_map is True
                   (s\<lparr>in_data := tmp, alpha_d_total := alpha_d_total s + of_nat (alpha_map i)\<rparr>)
               | Inr (False, s) \<Rightarrow> alpha_loop c env ms alpha_map is changed_any s))"

definition alpha_stage ::
  "tmin_config \<Rightarrow> 'w tmin_env \<Rightarrow> 'w custom_mutator list \<Rightarrow> bool \<Rightarrow> 'w tmin_state \<Rightarrow> tmin_exit + bool \<times> 'w tmin_state" where
  "alpha_stage c env ms changed_any s =
     alpha_loop c env ms (count_list (in_data s)) (map of_nat [0..<256]) changed_any s"

text \<open>Stage 3: replace single characters; \<open>tmp_buf\<close> is a second copy of the data.\<close>

fun char_loop ::
  "tmin_config \<Rightarrow> 'w tmin_env \<Rightarrow> 'w custom_mutator list \<Rightarrow> nat list \<Rightarrow> bytes \<Rightarrow> bool \<Rightarrow> 'w tmin_state \<Rightarrow>
   tmin_exit + bool \<times> 'w tmin_state" where
  "char_loop c env ms [] tmp_buf changed_any s = Inr (changed_any, s)"
| "char_loop c env ms (i # is) tmp_buf changed_any s =
     (let orig = tmp_buf ! i
      in if orig = ZERO_CHAR then char_loop c env ms is tmp_buf changed_any s
         else (let tmp_buf = tmp_buf[i := ZERO_CHAR]
               in case tmin_run_target c env ms tmp_buf False s of
                    Inl err \<Rightarrow> Inl err
                  | Inr (True, s) \<Rightarrow> char_loop c env ms is tmp_buf True
                      (s\<lparr>in_data := (in_data s)[i := ZERO_CHAR], alpha_d_total := alpha_d_total s + 1\<rparr>)
                  | Inr (False, s) \<Rightarrow> char_loop c env ms is (tmp_buf[i := orig]) changed_any s))"

definition char_stage ::
  "tmin_config \<Rightarrow> 'w tmin_env \<Rightarrow> 'w custom_mutator list \<Rightarrow> bool \<Rightarrow> 'w tmin_state \<Rightarrow> tmin_exit + bool \<times> 'w tmin_state" where
  "char_stage c env ms changed_any s =
     char_loop c env ms [0..<length (in_data s)] (in_data s) changed_any s"

text \<open>One pass; the answer says whether another one follows.\<close>

definition one_pass ::
  "tmin_config \<Rightarrow> 'w tmin_env \<Rightarrow> 'w custom_mutator list \<Rightarrow> nat \<Rightarrow> 'w tmin_state \<Rightarrow> tmin_exit + bool \<times> 'w tmin_state" where
  "one_pass c env ms cur_pass s =
     (case del_stage c env ms s of
        Inl err \<Rightarrow> Inl err
      | Inr (changed_any, s) \<Rightarrow>
          (if 1 < cur_pass \<and> \<not> changed_any then Inr (False, s)
           else (case alpha_stage c env ms changed_any s of
                   Inl err \<Rightarrow> Inl err
                 | Inr (changed_any, s) \<Rightarrow> char_stage c env ms changed_any s)))"

text \<open>
  Passes follow each other while they change something. What decreases is the length plus the
  number of characters other than \<^verbatim>\<open>'0'\<close>.
\<close>

definition weight :: "bytes \<Rightarrow> nat" where
  "weight d = length d + length (filter (\<lambda>b. b \<noteq> ZERO_CHAR) d)"

lemma weight_append: "weight (xs @ ys) = weight xs + weight ys"
  by (simp add: weight_def)

lemma weight_delete:
  assumes "i < length d" "0 < k"
  shows "weight (take i d @ drop (i + k) d) < weight d"
proof -
  have "weight d = weight (take i d) + weight (take k (drop i d)) + weight (drop (i + k) d)"
    by (metis append_take_drop_id weight_append drop_drop add.assoc add.commute)
  moreover have "0 < weight (take k (drop i d))" using assms by (simp add: weight_def)
  ultimately show ?thesis by (simp add: weight_append)
qed

lemma weight_map_zero:
  assumes "i \<in> set d" "i \<noteq> ZERO_CHAR"
  shows "weight (map (\<lambda>b. if b = i then ZERO_CHAR else b) d) < weight d"
proof -
  have le: "weight (map (\<lambda>b. if b = i then ZERO_CHAR else b) xs) \<le> weight xs" for xs
    by (induction xs) (auto simp: weight_def)
  obtain xs ys where "d = xs @ i # ys" using split_list [OF assms(1)] by blast
  then show ?thesis using le [of xs] le [of ys] assms(2) by (auto simp: weight_def)
qed

lemma weight_set_zero:
  assumes "i < length d" "d ! i \<noteq> ZERO_CHAR"
  shows "weight (d[i := ZERO_CHAR]) < weight d"
proof -
  have "d[i := ZERO_CHAR] = take i d @ ZERO_CHAR # drop (Suc i) d" using upd_conv_take_nth_drop [OF assms(1)] .
  moreover have "weight d = weight (take i d @ d ! i # drop (Suc i) d)" using id_take_nth_drop [OF assms(1)] by simp
  ultimately show ?thesis using assms(2) by (simp add: weight_append) (simp add: weight_def)
qed

text \<open>Rules to reason about the loops with an invariant.\<close>

lemma del_loop_cases [consumes 2, case_names stop skip fail accept reject]:
  assumes "del_loop c env ms k p prev ch s = r" "0 < k"
  obtains "length (in_data s) \<le> p" "r = Inr (ch, s)"
  | "\<not> prev" "p + k < length (in_data s)"
      "take k (drop (p - k) (in_data s)) = take k (drop p (in_data s))" "del_loop c env ms k (p + k) prev ch s = r"
  | tmp err where "p < length (in_data s)" "tmp = take p (in_data s) @ drop (p + k) (in_data s)"
      "tmin_run_target c env ms tmp False s = Inl err" "r = Inl err"
  | tmp s1 where "p < length (in_data s)" "tmp = take p (in_data s) @ drop (p + k) (in_data s)"
      "tmin_run_target c env ms tmp False s = Inr (True, s1)"
      "del_loop c env ms k p True True (s1\<lparr>in_data := tmp\<rparr>) = r"
  | tmp s1 where "p < length (in_data s)" "tmp = take p (in_data s) @ drop (p + k) (in_data s)"
      "tmin_run_target c env ms tmp False s = Inr (False, s1)" "del_loop c env ms k (p + k) False ch s1 = r"
proof -
  let ?d = "in_data s"
  let ?tmp = "take p ?d @ drop (p + k) ?d"
  let ?same = "\<not> prev \<and> length ?d - p - k \<noteq> 0 \<and> take k (drop (p - k) ?d) = take k (drop p ?d)"
  have tail: "take (length ?d - p - k) (drop (p + k) ?d) = drop (p + k) ?d" by simp
  note run = trans [OF del_loop.simps [symmetric] assms(1)]
  note ev = Let_def assms(2) tail if_True if_False simp_thms sum.case prod.case bool.case
  consider "length ?d \<le> p" | "p < length ?d" ?same | "p < length ?d" "\<not> ?same" by linarith
  then show thesis
  proof cases
    case 1
    then show thesis using that(1) run by simp
  next
    case 2
    have "del_loop c env ms k (p + k) prev ch s = r" using run by (simp only: ev 2)
    then show thesis using that(2) 2 by simp
  next
    case 3
    show thesis
    proof (cases "tmin_run_target c env ms ?tmp False s")
      case (Inl err)
      have "r = Inl err" using run by (simp only: ev 3 Inl)
      then show thesis using that(3) [OF 3(1) refl Inl] by simp
    next
      case (Inr x)
      obtain res s1 where x: "x = (res, s1)" by fastforce
      have "if res then del_loop c env ms k p True True (s1\<lparr>in_data := ?tmp\<rparr>) = r
          else del_loop c env ms k (p + k) False ch s1 = r"
        using run by (cases res) (simp_all only: ev 3 Inr x)
      then show thesis using that(4) [OF 3(1) refl] that(5) [OF 3(1) refl] Inr x by (cases res) simp_all
    qed
  qed
qed

lemma del_loop_rule:
  assumes "del_loop c env ms del_len del_pos prev ch s = Inr (ch', s')" "0 < del_len" "I del_pos prev ch s"
    "\<And>p ch s. I p False ch s \<Longrightarrow> p + del_len < length (in_data s) \<Longrightarrow>
       take del_len (drop (p - del_len) (in_data s)) = take del_len (drop p (in_data s)) \<Longrightarrow> I (p + del_len) False ch s"
    "\<And>p prev ch s s' tmp. I p prev ch s \<Longrightarrow> p < length (in_data s) \<Longrightarrow>
       tmp = take p (in_data s) @ drop (p + del_len) (in_data s) \<Longrightarrow>
       tmin_run_target c env ms tmp False s = Inr (True, s') \<Longrightarrow> I p True True (s'\<lparr>in_data := tmp\<rparr>)"
    "\<And>p prev ch s s' tmp. I p prev ch s \<Longrightarrow> p < length (in_data s) \<Longrightarrow>
       tmp = take p (in_data s) @ drop (p + del_len) (in_data s) \<Longrightarrow>
       tmin_run_target c env ms tmp False s = Inr (False, s') \<Longrightarrow> I (p + del_len) False ch s'"
  shows "\<exists>p prev. I p prev ch' s' \<and> length (in_data s') \<le> p"
  using assms(1,3)
proof (induction "length (in_data s) - del_pos" arbitrary: del_pos prev ch s rule: less_induct)
  case less
  from less.prems(1) assms(2) show ?case
  proof (cases rule: del_loop_cases)
    case stop
    then show ?thesis using less.prems(2) by auto
  next
    case skip
    then show ?thesis using less.hyps [of s "del_pos + del_len" prev ch] less.prems(2) assms(2,4) by simp
  next
    case (accept tmp s1)
    then have "length tmp - del_pos < length (in_data s) - del_pos" using assms(2) by auto
    then show ?thesis
      using less.hyps [of "s1\<lparr>in_data := tmp\<rparr>" del_pos True True] assms(5) [OF less.prems(2) accept(1-3)] accept(4) by simp
  next
    case (reject tmp s1)
    then have "length (in_data s1) - (del_pos + del_len) < length (in_data s) - del_pos"
      using assms(2) tmin_run_target_in_data [OF reject(3)] by simp
    then show ?thesis
      using less.hyps [of s1 "del_pos + del_len" False ch] assms(6) [OF less.prems(2) reject(1-3)] reject(4) by simp
  qed simp
qed

lemma del_sizes_rule:
  assumes "del_sizes c env ms del_len ch s = Inr (ch', s')" "I ch s"
    "\<And>k ch s ch' s'. I ch s \<Longrightarrow> 0 < k \<Longrightarrow> del_loop c env ms k 0 True ch s = Inr (ch', s') \<Longrightarrow> I ch' s'"
  shows "I ch' s'"
  using assms(1,2)
proof (induction del_len arbitrary: ch s rule: less_induct)
  case (less del_len)
  let ?k = "if del_len = 0 then 1 else del_len"
  note run = trans [OF del_sizes.simps [symmetric] less.prems(1)]
  then obtain ch1 s1 where l: "del_loop c env ms ?k 0 True ch s = Inr (ch1, s1)"
    by (auto simp: Let_def split: sum.splits prod.splits)
  then have I: "I ch1 s1" using assms(3) [OF less.prems(2) _ l] by simp
  show ?case
  proof (cases "max 1 (del_len_limit c) < ?k \<and> 1 \<le> length (in_data s1)")
    case True
    then have "del_sizes c env ms (?k div 2) ch1 s1 = Inr (ch', s')" using run l by (simp add: Let_def)
    then show ?thesis using less.IH [of "?k div 2" ch1 s1] I True by (simp split: if_splits)
  next
    case False
    have "ch' = ch1 \<and> s' = s1" using run False l by (simp only: Let_def l sum.case prod.case if_False) simp
    then show ?thesis using I by simp
  qed
qed

lemma alpha_loop_rule:
  assumes "alpha_loop c env ms am is ch s = Inr (ch', s')" "I is ch s"
    "\<And>i is ch s. I (i # is) ch s \<Longrightarrow> i = ZERO_CHAR \<or> am i = 0 \<Longrightarrow> I is ch s"
    "\<And>i is ch s s' tmp. I (i # is) ch s \<Longrightarrow> i \<noteq> ZERO_CHAR \<Longrightarrow> am i \<noteq> 0 \<Longrightarrow>
       tmp = map (\<lambda>b. if b = i then ZERO_CHAR else b) (in_data s) \<Longrightarrow>
       tmin_run_target c env ms tmp False s = Inr (True, s') \<Longrightarrow>
       I is True (s'\<lparr>in_data := tmp, alpha_d_total := alpha_d_total s' + of_nat (am i)\<rparr>)"
    "\<And>i is ch s s' tmp. I (i # is) ch s \<Longrightarrow> i \<noteq> ZERO_CHAR \<Longrightarrow> am i \<noteq> 0 \<Longrightarrow>
       tmp = map (\<lambda>b. if b = i then ZERO_CHAR else b) (in_data s) \<Longrightarrow>
       tmin_run_target c env ms tmp False s = Inr (False, s') \<Longrightarrow> I is ch s'"
  shows "I [] ch' s'"
  using assms(1,2)
proof (induction "is" arbitrary: ch s)
  case (Cons i "is")
  show ?case
  proof (cases "i = ZERO_CHAR \<or> am i = 0")
    case True
    then show ?thesis using Cons.IH [of ch s] Cons.prems assms(3) by simp
  next
    case False
    then show ?thesis using Cons.prems assms(4) [OF Cons.prems(2) _ _ refl] assms(5) [OF Cons.prems(2) _ _ refl]
      by (auto simp: Let_def split: sum.splits prod.splits bool.splits intro: Cons.IH)
  qed
qed simp

lemma char_loop_rule:
  assumes "char_loop c env ms is tmp ch s = Inr (ch', s')" "I is tmp ch s"
    "\<And>i is tmp ch s. I (i # is) tmp ch s \<Longrightarrow> tmp ! i = ZERO_CHAR \<Longrightarrow> I is tmp ch s"
    "\<And>i is tmp ch s s'. I (i # is) tmp ch s \<Longrightarrow> tmp ! i \<noteq> ZERO_CHAR \<Longrightarrow>
       tmin_run_target c env ms (tmp[i := ZERO_CHAR]) False s = Inr (True, s') \<Longrightarrow>
       I is (tmp[i := ZERO_CHAR]) True (s'\<lparr>in_data := (in_data s')[i := ZERO_CHAR], alpha_d_total := alpha_d_total s' + 1\<rparr>)"
    "\<And>i is tmp ch s s'. I (i # is) tmp ch s \<Longrightarrow> tmp ! i \<noteq> ZERO_CHAR \<Longrightarrow>
       tmin_run_target c env ms (tmp[i := ZERO_CHAR]) False s = Inr (False, s') \<Longrightarrow> I is tmp ch s'"
  shows "\<exists>tmp'. I [] tmp' ch' s'"
  using assms(1,2)
proof (induction "is" arbitrary: tmp ch s)
  case (Cons i "is")
  show ?case
  proof (cases "tmp ! i = ZERO_CHAR")
    case True
    then show ?thesis using Cons.IH [of tmp ch s] Cons.prems assms(3) by simp
  next
    case False
    then show ?thesis using Cons.prems assms(4) [OF Cons.prems(2)] assms(5) [OF Cons.prems(2)]
      by (auto simp: Let_def split: sum.splits prod.splits bool.splits intro: Cons.IH)
  qed
qed auto

text \<open>A stage that reports a change made the data lighter, and no stage makes it heavier.\<close>

definition lighter :: "bytes \<Rightarrow> bool \<Rightarrow> bool \<Rightarrow> bytes \<Rightarrow> bool" where
  "lighter d ch ch' d' \<longleftrightarrow> weight d' \<le> weight d \<and> (ch' \<longrightarrow> ch \<or> weight d' < weight d) \<and> length d' \<le> length d \<and>
     (ch \<longrightarrow> ch') \<and> (\<not> ch' \<longrightarrow> d' = d)"

lemma lighter_refl [simp]: "lighter d ch ch d"
  by (simp add: lighter_def)

lemma lighter_trans: "lighter d ch ch' d' \<Longrightarrow> lighter d' ch' ch'' d'' \<Longrightarrow> lighter d ch ch'' d''"
  by (auto simp: lighter_def)

lemma lighter_step: "lighter d ch ch' d' \<Longrightarrow> weight d'' < weight d' \<Longrightarrow> length d'' \<le> length d' \<Longrightarrow> lighter d ch True d''"
  by (auto simp: lighter_def)

lemma del_loop_lighter:
  assumes "del_loop c env ms k p prev ch s = Inr (ch', s')" "0 < k"
  shows "lighter (in_data s) ch ch' (in_data s')"
proof -
  have "\<exists>p (prev :: bool). lighter (in_data s) ch ch' (in_data s') \<and> length (in_data s') \<le> p"
    using assms
    by (rule del_loop_rule [where I = "\<lambda>p prev ch' s'. lighter (in_data s) ch ch' (in_data s')"])
      (auto intro!: lighter_step weight_delete simp: tmin_run_target_in_data assms(2))
  then show ?thesis by blast
qed

lemma del_stage_lighter:
  assumes "del_stage c env ms s = Inr (ch', s')"
  shows "lighter (in_data s) False ch' (in_data s')"
  using assms unfolding del_stage_def
  by (rule del_sizes_rule [where I = "\<lambda>ch' s'. lighter (in_data s) False ch' (in_data s')"])
    (auto dest: del_loop_lighter intro: lighter_trans)

lemma distinct_symbols: "distinct (map of_nat [0..<256] :: u8 list)"
  by (simp add: distinct_map inj_on_def word_unat_eq_iff unat_of_nat)

lemma other_symbol: "x \<in> set d \<Longrightarrow> x \<noteq> i \<Longrightarrow> x \<in> set (map (\<lambda>b. if b = i then z else b) d)"
  by force

lemma alpha_stage_lighter:
  assumes "alpha_stage c env ms ch s = Inr (ch', s')"
  shows "lighter (in_data s) ch ch' (in_data s')"
proof -
  have "lighter (in_data s) ch ch' (in_data s') \<and> distinct ([] :: u8 list) \<and>
     (\<forall>i \<in> set []. i \<in> set (in_data s) \<longrightarrow> i \<noteq> ZERO_CHAR \<longrightarrow> i \<in> set (in_data s'))"
    using assms unfolding alpha_stage_def
    by (rule alpha_loop_rule [where I = "\<lambda>is ch' s'. lighter (in_data s) ch ch' (in_data s') \<and> distinct is \<and>
       (\<forall>i \<in> set is. i \<in> set (in_data s) \<longrightarrow> i \<noteq> ZERO_CHAR \<longrightarrow> i \<in> set (in_data s'))"])
      (auto intro!: lighter_step weight_map_zero other_symbol simp: tmin_run_target_in_data distinct_symbols count_list_0_iff simp del: set_map)
  then show ?thesis by blast
qed

lemma char_stage_lighter:
  assumes "char_stage c env ms ch s = Inr (ch', s')"
  shows "lighter (in_data s) ch ch' (in_data s')"
proof -
  have "\<exists>tmp. lighter (in_data s) ch ch' (in_data s') \<and> tmp = in_data s' \<and> (\<forall>i \<in> set []. i < length tmp)"
    using assms unfolding char_stage_def
    by (rule char_loop_rule [where I = "\<lambda>is tmp ch' s'. lighter (in_data s) ch ch' (in_data s') \<and> tmp = in_data s' \<and>
       (\<forall>i \<in> set is. i < length tmp)"])
      (auto intro!: lighter_step weight_set_zero simp: tmin_run_target_in_data)
  then show ?thesis by blast
qed

lemma one_pass_lighter:
  assumes "one_pass c env ms n s = Inr (ch', s')"
  shows "lighter (in_data s) False ch' (in_data s')"
  using assms
  by (auto simp: one_pass_def split: sum.splits prod.splits if_splits
    dest!: del_stage_lighter alpha_stage_lighter char_stage_lighter intro: lighter_trans)

function passes ::
  "tmin_config \<Rightarrow> 'w tmin_env \<Rightarrow> 'w custom_mutator list \<Rightarrow> nat \<Rightarrow> 'w tmin_state \<Rightarrow> tmin_exit + 'w tmin_state" where
  "passes c env ms cur_pass s =
     (case one_pass c env ms cur_pass s of
        Inl err \<Rightarrow> Inl err
      | Inr (changed_any, s) \<Rightarrow> if changed_any then passes c env ms (cur_pass + 1) s else Inr s)"
  by pat_completeness auto
termination
  by (relation "measure (\<lambda>(c, env, ms, cur_pass, s). weight (in_data s))")
    (auto dest!: one_pass_lighter simp: lighter_def)

declare passes.simps [simp del]

section \<open>Custom trimming\<close>

text \<open>
  The trimmer decides how long its loop runs, so the number of steps it may take is a bound
  given from outside.
\<close>

fun trim_loop ::
  "nat \<Rightarrow> tmin_config \<Rightarrow> 'w tmin_env \<Rightarrow> 'w custom_mutator list \<Rightarrow> 'w trimmer \<Rightarrow> int \<Rightarrow> int \<Rightarrow> bool \<Rightarrow> 'w tmin_state \<Rightarrow>
   tmin_exit + bool \<times> 'w tmin_state" where
  "trim_loop steps c env ms t cur_step max_steps trimmed s =
     (if cur_step < max_steps then
        (case steps of
           0 \<Rightarrow> Inl Trim_Steps_Exhausted
         | Suc steps \<Rightarrow>
             (let (retbuf, w) = custom_trim t (world s);
                  s = s\<lparr>world := w\<rparr>
              in if retbuf = [] then
                   (let (cur_step, w) = custom_post_trim t (world s) False
                    in trim_loop steps c env ms t cur_step max_steps trimmed (s\<lparr>world := w\<rparr>))
                 else (case tmin_run_target c env ms retbuf False s of
                         Inl err \<Rightarrow> Inl err
                       | Inr (res, s) \<Rightarrow>
                           (let s = (if res then s\<lparr>in_data := retbuf\<rparr> else s);
                                (cur_step, w) = custom_post_trim t (world s) res
                            in trim_loop steps c env ms t cur_step max_steps (trimmed \<or> res) (s\<lparr>world := w\<rparr>)))))
      else Inr (trimmed, s))"

declare trim_loop.simps [simp del]

text \<open>
  The loop over the plugins: the answer says whether a trimmer was successful, which ends the
  minimization at once, and whether any trimmer was there.
\<close>

fun custom_trims ::
  "nat \<Rightarrow> tmin_config \<Rightarrow> 'w tmin_env \<Rightarrow> 'w custom_mutator list \<Rightarrow> 'w custom_mutator list \<Rightarrow> bool \<Rightarrow> 'w tmin_state \<Rightarrow>
   tmin_exit + bool \<times> bool \<times> 'w tmin_state" where
  "custom_trims steps c env ms [] custom_trimmed s = Inr (False, custom_trimmed, s)"
| "custom_trims steps c env ms (m # els) custom_trimmed s =
     (case custom_trimmer m of
        None \<Rightarrow> custom_trims steps c env ms els custom_trimmed s
      | Some t \<Rightarrow>
          (let (max_steps, w) = custom_init_trim t (world s) (in_data s);
               s = s\<lparr>world := w\<rparr>
           in if max_steps < 0 then custom_trims steps c env ms els True s
              else (case trim_loop steps c env ms t 0 max_steps False s of
                      Inl err \<Rightarrow> Inl err
                    | Inr (trimmed, s) \<Rightarrow>
                        if trimmed then Inr (True, True, s) else custom_trims steps c env ms els True s)))"

section \<open>The program\<close>

definition minimize ::
  "nat \<Rightarrow> tmin_config \<Rightarrow> 'w tmin_env \<Rightarrow> 'w custom_mutator list \<Rightarrow> 'w tmin_state \<Rightarrow> tmin_exit + 'w tmin_state" where
  "minimize steps c env ms s =
     (case custom_trims steps c env ms ms False s of
        Inl err \<Rightarrow> Inl err
      | Inr (trimmed, custom_trimmed, s) \<Rightarrow>
          (if trimmed \<or> length (in_data s) \<le> 1 \<or> custom_trimmed then Inr s
           else (case set_stage c env ms s of
                   Inl err \<Rightarrow> Inl err
                 | Inr s \<Rightarrow> passes c env ms 1 s)))"

definition read_initial_file :: "bytes option \<Rightarrow> tmin_exit + bytes" where
  "read_initial_file file = (case file of
       None \<Rightarrow> Inl (Tmin_Fatal ''Unable to open'')
     | Some content \<Rightarrow>
         if content = [] then Inl (Tmin_Fatal ''Zero-sized input file.'')
         else if TMIN_MAX_FILE \<le> length content then Inl (Tmin_Fatal ''Input file is too large'')
         else Inr content)"

text \<open>From the input file over the dry run and its checks to the bytes of the output file.\<close>

definition tmin_main ::
  "nat \<Rightarrow> tmin_config \<Rightarrow> 'w tmin_env \<Rightarrow> 'w custom_mutator list \<Rightarrow> 'w \<Rightarrow> bytes option \<Rightarrow> tmin_exit + bytes" where
  "tmin_main steps c env ms w input =
     (case read_initial_file input of
        Inl err \<Rightarrow> Inl err
      | Inr content \<Rightarrow>
          (let s = \<lparr>in_data = content, orig_cksum = 0, crash_mode = False, missed_hangs = 0, missed_crashes = 0,
                    missed_paths = 0, alpha_d_total = 0, tmin_trace = [], last_run_timed_out = False,
                    fsrv_testcase = [], world = w\<rparr>
           in case tmin_run_target c env ms content True s of
                Inl err \<Rightarrow> Inl err
              | Inr (_, s) \<Rightarrow>
                  (if hang_mode c \<and> \<not> last_run_timed_out s then Inl (Tmin_Fatal ''Target binary did not time out'')
                   else if last_run_timed_out s \<and> \<not> hang_mode c then Inl (Tmin_Fatal ''Target binary times out'')
                   else if \<not> hang_mode c \<and> \<not> crash_mode s \<and> \<not> anything_set c (tmin_trace s)
                   then Inl (Tmin_Fatal ''No instrumentation detected.'')
                   else (case minimize steps c env ms s of
                           Inl err \<Rightarrow> Inl err
                         | Inr s \<Rightarrow> Inr (in_data s)))))"

end
