(* ===== verification/Tmin_Props.thy ===== *)
theory Tmin_Props
  imports Tmin
begin

text \<open>
  What \<^verbatim>\<open>afl-tmin\<close> promises: the output behaves like the input, is not longer, and is minimal in
  the sense that no single byte can be removed. The contract of a verdict is a locale in three
  strengths: what was accepted is good; what was rejected is bad; every question is answered.
\<close>

section \<open>One round of a loop\<close>

lemma set_loop_cases [consumes 2, case_names stop skip fail run]:
  assumes "set_loop c env ms k p s = r" "0 < k"
  obtains "length (in_data s) \<le> p" "r = Inr s"
  | "p < length (in_data s)" "set_loop c env ms k (p + k) s = r"
  | tmp err where "p < length (in_data s)" "length tmp = length (in_data s)" "tmin_run_target c env ms tmp False s = Inl err" "r = Inl err"
  | tmp n res s1 where "p < length (in_data s)" "length tmp = length (in_data s)" "tmin_run_target c env ms tmp False s = Inr (res, s1)"
      "set_loop c env ms k (p + k) (if res then s1\<lparr>in_data := tmp, alpha_d_total := n\<rparr> else s1) = r"
proof -
  let ?d = "in_data s"
  let ?l = "min k (length ?d - p)"
  let ?tmp = "take p ?d @ replicate ?l 48 @ drop (p + ?l) ?d"
  let ?clean = "list_all (\<lambda>b. b = 48) (take ?l (drop p ?d))"
  note run = trans [OF set_loop.simps [symmetric] assms(1)]
  note ev = Let_def assms(2) if_True if_False simp_thms sum.case prod.case
  consider "length ?d \<le> p" | "p < length ?d" ?clean | "p < length ?d" "\<not> ?clean" by linarith
  then show thesis
  proof cases
    case 1
    then show thesis using that(1) run by simp
  next
    case 2
    have "set_loop c env ms k (p + k) s = r" using run by (simp only: ev 2)
    then show thesis using that(2) 2 by simp
  next
    case 3
    then have l: "length ?tmp = length ?d" by (auto simp: min_def)
    show thesis
    proof (cases "tmin_run_target c env ms ?tmp False s")
      case (Inl err)
      have "r = Inl err" using run by (simp only: ev 3 Inl)
      then show thesis using that(3) [OF 3(1) l Inl] by simp
    next
      case (Inr x)
      obtain res s1 where x: "x = (res, s1)" by fastforce
      have "set_loop c env ms k (p + k)
        (if res then s1\<lparr>in_data := ?tmp, alpha_d_total := alpha_d_total s1 + of_nat ?l\<rparr> else s1) = r"
        using run by (simp only: ev 3 Inr x)
      then show thesis using that(4) [OF 3(1) l] Inr x by simp
    qed
  qed
qed

section \<open>The contract of a verdict\<close>

lemma aborted_in_data: "tmin_run_target c env ms mem fr s = Inl (Tmin_Aborted out) \<Longrightarrow> out = in_data s"
  by (auto simp: tmin_run_target_def judge_run_def apply_mask_def pre_afl_fsrv_write_to_testcase_def Let_def
    split: sum.splits prod.splits if_splits option.splits)

locale candidate_test =
  fixes c :: tmin_config and env :: "'w tmin_env" and ms :: "'w custom_mutator list"
    and inv :: "'w tmin_state \<Rightarrow> bool" and good :: "bytes \<Rightarrow> bool"
  assumes accepted: "inv s \<Longrightarrow> tmin_run_target c env ms mem False s = Inr (True, s') \<Longrightarrow> inv s' \<and> good mem"
    and rejected: "inv s \<Longrightarrow> tmin_run_target c env ms mem False s = Inr (False, s') \<Longrightarrow> inv s'"
    and inv_frame: "inv s \<Longrightarrow> inv (s\<lparr>in_data := d\<rparr>)" "inv s \<Longrightarrow> inv (s\<lparr>alpha_d_total := n\<rparr>)"
      "inv s \<Longrightarrow> inv (s\<lparr>world := w\<rparr>)"
begin

definition settled :: "bytes \<Rightarrow> 'w tmin_state \<Rightarrow> bool" where
  "settled d s \<longleftrightarrow> inv s \<and> (in_data s = d \<or> good (in_data s))"

lemma settled_accept:
  assumes "settled d s" "tmin_run_target c env ms tmp False s = Inr (True, s')"
  shows "settled d (s'\<lparr>in_data := tmp\<rparr>)" "settled d (s'\<lparr>in_data := tmp, alpha_d_total := n\<rparr>)"
  using accepted [OF _ assms(2)] assms(1) inv_frame(1,2) by (auto simp: settled_def)

lemma settled_reject:
  assumes "settled d s" "tmin_run_target c env ms tmp False s = Inr (False, s')"
  shows "settled d s'"
  using rejected [OF _ assms(2)] assms(1) tmin_run_target_in_data [OF assms(2)] by (auto simp: settled_def)

lemma settled_world: "settled d s \<Longrightarrow> settled d (s\<lparr>world := w\<rparr>)"
  using inv_frame(3) by (auto simp: settled_def)

lemma settled_round:
  assumes "settled d s" "tmin_run_target c env ms tmp False s = Inr (res, s1)"
  shows "settled d (if res then s1\<lparr>in_data := tmp, alpha_d_total := n\<rparr> else s1)"
  using assms settled_accept(2) settled_reject by (cases res) simp_all

lemma set_loop_settled:
  "set_loop c env ms k p s = Inr s' \<Longrightarrow> 0 < k \<Longrightarrow> settled d s \<Longrightarrow> settled d s' \<and> length (in_data s') = length (in_data s)"
proof (induction "length (in_data s) - p" arbitrary: p s rule: less_induct)
  case less
  from less.prems(1,2) show ?case
  proof (cases rule: set_loop_cases)
    case skip
    then show ?thesis using less.hyps [of s "p + k"] less.prems(2,3) by simp
  next
    case (run tmp n res s1)
    let ?s = "if res then s1\<lparr>in_data := tmp, alpha_d_total := n\<rparr> else s1"
    have "length (in_data ?s) = length (in_data s)" using run(2) tmin_run_target_in_data [OF run(3)] by simp
    then show ?thesis
      using less.hyps [of ?s "p + k"] run(1,4) less.prems(2) settled_round [OF less.prems(3) run(3)] by simp
  qed (use less.prems(3) in simp_all)
qed

lemma set_stage_settled:
  "set_stage c env ms s = Inr s' \<Longrightarrow> settled d s \<Longrightarrow> settled d s' \<and> length (in_data s') = length (in_data s)"
  unfolding set_stage_def Let_def by (erule set_loop_settled) (simp_all add: not_less)

lemma del_loop_settled:
  assumes "del_loop c env ms k p prev ch s = Inr (ch', s')" "0 < k" "settled d s"
  shows "settled d s'"
proof -
  have "\<exists>p (prev :: bool). settled d s' \<and> length (in_data s') \<le> p"
    using assms
    by (rule del_loop_rule [where I = "\<lambda>p prev ch' s'. settled d s'"]) (auto intro: settled_accept settled_reject)
  then show ?thesis by blast
qed

lemma del_stage_settled:
  assumes "del_stage c env ms s = Inr (ch', s')" "settled d s"
  shows "settled d s'"
  using assms unfolding del_stage_def
  by (rule del_sizes_rule [where I = "\<lambda>ch' s'. settled d s'"]) (auto dest: del_loop_settled)

lemma alpha_stage_settled:
  assumes "alpha_stage c env ms ch s = Inr (ch', s')" "settled d s"
  shows "settled d s'"
  using assms unfolding alpha_stage_def
  by (rule alpha_loop_rule [where I = "\<lambda>is ch' s'. settled d s'"]) (auto intro: settled_accept settled_reject)

lemma char_stage_settled:
  assumes "char_stage c env ms ch s = Inr (ch', s')" "settled d s"
  shows "settled d s'"
proof -
  have "settled d s \<and> in_data s = in_data s" using assms(2) by simp
  then have "\<exists>tmp. settled d s' \<and> tmp = in_data s'"
    using assms(1) unfolding char_stage_def
    by - (rule char_loop_rule [where I = "\<lambda>is tmp ch' s'. settled d s' \<and> tmp = in_data s'"],
      auto simp: tmin_run_target_in_data settled_reject dest: settled_accept(2))
  then show ?thesis by blast
qed

lemma one_pass_settled:
  assumes "one_pass c env ms n s = Inr (ch', s')" "settled d s"
  shows "settled d s'"
  using assms by (auto simp: one_pass_def split: sum.splits prod.splits if_splits
    dest!: del_stage_settled alpha_stage_settled char_stage_settled)

lemma passes_settled:
  "passes c env ms n s = Inr s' \<Longrightarrow> settled d s \<Longrightarrow> settled d s' \<and> length (in_data s') \<le> length (in_data s)"
proof (induction "weight (in_data s)" arbitrary: n s rule: less_induct)
  case less
  note run = trans [OF passes.simps [symmetric] less.prems(1)]
  then obtain ch s1 where p: "one_pass c env ms n s = Inr (ch, s1)" by (auto split: sum.splits prod.splits)
  have l: "lighter (in_data s) False ch (in_data s1)" and st: "settled d s1"
    using one_pass_lighter [OF p] one_pass_settled [OF p less.prems(2)] by simp_all
  show ?case
  proof (cases ch)
    case True
    then show ?thesis using less.hyps [of s1 "n + 1"] l st run p by (force simp: lighter_def)
  next
    case False
    then show ?thesis using run p l st by (simp add: lighter_def)
  qed
qed

lemma trim_loop_settled:
  "trim_loop steps c env ms t cur mx tr s = Inr (tr', s') \<Longrightarrow> settled d s \<Longrightarrow> settled d s'"
proof (induction steps arbitrary: cur tr s)
  case 0
  then show ?case by (simp add: trim_loop.simps [of 0] split: if_splits)
next
  case (Suc steps)
  show ?case
    using Suc.prems
    by (auto simp: trim_loop.simps [of "Suc steps"] Let_def split: if_splits prod.splits sum.splits
      intro!: settled_world elim!: Suc.IH dest: settled_accept [OF settled_world] settled_reject [OF settled_world])
qed

lemma custom_trims_settled:
  "custom_trims steps c env ms els ct s = Inr (tr', ct', s') \<Longrightarrow> settled d s \<Longrightarrow> settled d s'"
  by (induction els arbitrary: ct s)
    (auto simp: Let_def settled_world dest!: trim_loop_settled split: option.splits prod.splits if_splits sum.splits)

lemma minimize_settled:
  assumes "minimize steps c env ms s = Inr s'" "inv s"
  shows "inv s' \<and> (in_data s' = in_data s \<or> good (in_data s'))"
proof -
  have "settled (in_data s) s" using assms(2) by (simp add: settled_def)
  then have "settled (in_data s) s'"
    using assms(1) passes_settled set_stage_settled custom_trims_settled
    by (auto simp: minimize_def split: sum.splits prod.splits if_splits)
  then show ?thesis by (simp add: settled_def)
qed

text \<open>A failure is the failure of a run, in a state where the data are settled.\<close>

definition fails :: "bytes \<Rightarrow> tmin_exit \<Rightarrow> bool" where
  "fails d err \<longleftrightarrow> (\<exists>mem t. settled d t \<and> tmin_run_target c env ms mem False t = Inl err)"

lemma failsI: "settled d t \<Longrightarrow> tmin_run_target c env ms mem False t = Inl err \<Longrightarrow> fails d err"
  by (auto simp: fails_def)

lemma set_loop_fails: "set_loop c env ms k p s = Inl err \<Longrightarrow> 0 < k \<Longrightarrow> settled d s \<Longrightarrow> fails d err"
proof (induction "length (in_data s) - p" arbitrary: p s rule: less_induct)
  case less
  from less.prems(1,2) show ?case
  proof (cases rule: set_loop_cases)
    case skip
    then show ?thesis using less.hyps [of s "p + k"] less.prems(2,3) by simp
  next
    case (fail tmp e)
    then show ?thesis using failsI less.prems(3) by simp
  next
    case (run tmp n res s1)
    let ?s = "if res then s1\<lparr>in_data := tmp, alpha_d_total := n\<rparr> else s1"
    have "length (in_data ?s) = length (in_data s)" using run(2) tmin_run_target_in_data [OF run(3)] by simp
    then show ?thesis
      using less.hyps [of ?s "p + k"] run(1,4) less.prems(2) settled_round [OF less.prems(3) run(3)] by simp
  qed simp
qed

lemma set_stage_fails: "set_stage c env ms s = Inl err \<Longrightarrow> settled d s \<Longrightarrow> fails d err"
  unfolding set_stage_def Let_def by (erule set_loop_fails) (simp_all add: not_less)

lemma del_loop_fails: "del_loop c env ms k p prev ch s = Inl err \<Longrightarrow> 0 < k \<Longrightarrow> settled d s \<Longrightarrow> fails d err"
proof (induction "length (in_data s) - p" arbitrary: p prev ch s rule: less_induct)
  case less
  from less.prems(1,2) show ?case
  proof (cases rule: del_loop_cases)
    case skip
    then show ?thesis using less.hyps [of s "p + k"] less.prems(2,3) by simp
  next
    case (fail tmp e)
    then show ?thesis using failsI less.prems(3) by simp
  next
    case (accept tmp s1)
    then have "length tmp - p < length (in_data s) - p" using less.prems(2) by auto
    then show ?thesis
      using less.hyps [of "s1\<lparr>in_data := tmp\<rparr>" p] accept(4) less.prems(2) settled_accept(1) [OF less.prems(3) accept(3)] by simp
  next
    case (reject tmp s1)
    then show ?thesis using less.hyps [of s1 "p + k"] less.prems(2) settled_reject [OF less.prems(3) reject(3)]
      tmin_run_target_in_data [OF reject(3)] by simp
  qed simp
qed

lemma del_sizes_fails: "del_sizes c env ms k ch s = Inl err \<Longrightarrow> settled d s \<Longrightarrow> fails d err"
proof (induction k arbitrary: ch s rule: less_induct)
  case (less k)
  let ?k = "if k = 0 then 1 else k"
  note run = trans [OF del_sizes.simps [symmetric] less.prems(1)]
  show ?case
  proof (cases "del_loop c env ms ?k 0 True ch s")
    case (Inl e)
    have "e = err" using run by (simp only: Let_def Inl sum.case sum.inject)
    then show ?thesis using del_loop_fails [OF Inl _ less.prems(2)] by simp
  next
    case (Inr x)
    obtain ch1 s1 where x: "x = (ch1, s1)" by fastforce
    have st: "settled d s1" using del_loop_settled [OF Inr [unfolded x]] less.prems(2) by simp
    have step: "(if max 1 (del_len_limit c) < ?k \<and> 1 \<le> length (in_data s1) then del_sizes c env ms (?k div 2) ch1 s1
      else Inr (ch1, s1)) = Inl err" using run by (simp only: Let_def Inr x sum.case prod.case)
    then have "1 < k" by (cases "k \<le> 1") (auto simp: le_Suc_eq)
    moreover have "del_sizes c env ms (?k div 2) ch1 s1 = Inl err" using step by (cases "max 1 (del_len_limit c) < ?k \<and> 1 \<le> length (in_data s1)") (simp_all only: if_True if_False simp_thms sum.distinct)
    ultimately show ?thesis using less.IH [of "?k div 2" ch1 s1] st by simp
  qed
qed

lemma alpha_loop_fails: "alpha_loop c env ms am is ch s = Inl err \<Longrightarrow> settled d s \<Longrightarrow> fails d err"
proof (induction "is" arbitrary: ch s)
  case (Cons i "is")
  then show ?case
    by (auto simp: Let_def split: if_splits sum.splits prod.splits bool.splits
      intro: failsI elim!: Cons.IH dest: settled_accept settled_reject)
qed simp

lemma char_loop_fails:
  "char_loop c env ms is tmp ch s = Inl err \<Longrightarrow> settled d s \<Longrightarrow> tmp = in_data s \<Longrightarrow> fails d err"
proof (induction "is" arbitrary: tmp ch s)
  case (Cons i "is")
  then show ?case
    by (auto simp: Let_def tmin_run_target_in_data split: if_splits sum.splits prod.splits bool.splits
      intro: failsI elim!: Cons.IH dest: settled_accept settled_reject)
qed simp

lemma one_pass_fails: "one_pass c env ms n s = Inl err \<Longrightarrow> settled d s \<Longrightarrow> fails d err"
  by (auto simp: one_pass_def del_stage_def alpha_stage_def char_stage_def split: sum.splits prod.splits if_splits
    dest: del_sizes_fails alpha_loop_fails char_loop_fails
    del_stage_settled [unfolded del_stage_def] alpha_stage_settled [unfolded alpha_stage_def])

lemma passes_fails: "passes c env ms n s = Inl err \<Longrightarrow> settled d s \<Longrightarrow> fails d err"
proof (induction "weight (in_data s)" arbitrary: n s rule: less_induct)
  case less
  note run = trans [OF passes.simps [symmetric] less.prems(1)]
  show ?case
  proof (cases "one_pass c env ms n s")
    case (Inl e)
    then show ?thesis using run one_pass_fails less.prems(2) by simp
  next
    case (Inr x)
    obtain ch s1 where x: "x = (ch, s1)" by fastforce
    have "lighter (in_data s) False ch (in_data s1)" "settled d s1"
      using one_pass_lighter one_pass_settled less.prems(2) Inr x by blast+
    then show ?thesis using less.hyps [of s1 "n + 1"] run Inr x by (simp add: lighter_def split: if_splits)
  qed
qed

lemma trim_loop_fails:
  "trim_loop steps c env ms t cur mx tr s = Inl err \<Longrightarrow> settled d s \<Longrightarrow> fails d err \<or> err = Trim_Steps_Exhausted"
proof (induction steps arbitrary: cur tr s)
  case 0
  then show ?case by (simp add: trim_loop.simps [of 0] split: if_splits)
next
  case (Suc steps)
  show ?case
    using Suc.prems
    by (auto simp: trim_loop.simps [of "Suc steps"] Let_def split: if_splits prod.splits sum.splits
      intro!: settled_world elim!: Suc.IH
      dest: failsI [OF settled_world] settled_accept [OF settled_world] settled_reject [OF settled_world])
qed

lemma custom_trims_fails:
  "custom_trims steps c env ms els ct s = Inl err \<Longrightarrow> settled d s \<Longrightarrow> fails d err \<or> err = Trim_Steps_Exhausted"
  by (induction els arbitrary: ct s)
    (auto simp: Let_def settled_world dest: trim_loop_settled [OF _ settled_world] trim_loop_fails [OF _ settled_world] split: option.splits prod.splits if_splits sum.splits)

lemma minimize_fails:
  assumes "minimize steps c env ms s = Inl err" "inv s"
  shows "fails (in_data s) err \<or> err = Trim_Steps_Exhausted \<and> ms \<noteq> []"
proof -
  have st: "settled (in_data s) s" using assms(2) by (simp add: settled_def)
  show ?thesis
  proof (cases "custom_trims steps c env ms ms False s")
    case (Inl e)
    then show ?thesis using custom_trims_fails [OF Inl st] assms(1) by (cases ms) (simp_all add: minimize_def)
  next
    case (Inr x)
    obtain tr ct s1 where x: "x = (tr, ct, s1)" by (cases x) fastforce
    have "settled (in_data s) s1" using custom_trims_settled [OF Inr [unfolded x] st] .
    moreover have "(case set_stage c env ms s1 of Inl err \<Rightarrow> Inl err | Inr s \<Rightarrow> passes c env ms 1 s) = Inl err"
      using assms(1) Inr x by (simp add: minimize_def split: if_splits)
    ultimately show ?thesis using passes_fails set_stage_settled set_stage_fails by (auto split: sum.splits)
  qed
qed

lemma minimize_aborted:
  assumes "minimize steps c env ms s = Inl (Tmin_Aborted out)" "inv s"
  shows "out = in_data s \<or> good out"
  using minimize_fails [OF assms] aborted_in_data by (fastforce simp: fails_def settled_def)

lemma minimize_returns:
  assumes "ms = []" "inv s" "\<And>mem t. \<exists>x. tmin_run_target c env ms mem False t = Inr x"
  shows "\<exists>s'. minimize steps c env ms s = Inr s'"
proof (cases "minimize steps c env ms s")
  case (Inl err)
  have "fails (in_data s) err" using minimize_fails [OF Inl assms(2)] assms(1) by blast
  then obtain mem t where "tmin_run_target c env ms mem False t = Inl err" unfolding fails_def by blast
  then show ?thesis using assms(3) [of mem t] by auto
qed simp

end

text \<open>A test that decides: rejected candidates are not good.\<close>

locale deciding_test = candidate_test +
  assumes decided: "inv s \<Longrightarrow> tmin_run_target c env ms mem False s = Inr (False, s') \<Longrightarrow> \<not> good mem"
begin

definition one_minimal :: "bytes \<Rightarrow> bool" where
  "one_minimal d \<longleftrightarrow> (\<forall>i < length d. \<not> good (take i d @ drop (i + 1) d))"

lemma delete_neighbour:
  assumes "0 < p" "p < length d" "d ! (p - 1) = d ! p"
  shows "take p d @ drop (p + 1) d = take (p - 1) d @ drop p d"
proof -
  have "take p d = take (p - 1) d @ [d ! (p - 1)]" using assms(1,2) take_Suc_conv_app_nth [of "p - 1" d] by simp
  moreover have "drop p d = d ! p # drop (p + 1) d" using assms(2) Cons_nth_drop_Suc [of p d] by simp
  ultimately show ?thesis using assms(3) by simp
qed

lemma del_loop_one_minimal:
  assumes "del_loop c env ms 1 0 True ch s = Inr (ch', s')" "inv s" "\<not> ch'"
  shows "one_minimal (in_data s)"
proof -
  let ?d = "in_data s"
  let ?I = "\<lambda>p prev ch s'. inv s' \<and> (\<not> ch \<longrightarrow> in_data s' = ?d \<and> (\<not> prev \<longrightarrow> 0 < p) \<and>
    (\<forall>i < p. i < length ?d \<longrightarrow> \<not> good (take i ?d @ drop (i + 1) ?d)))"
  have "inv s \<and> (\<not> ch \<longrightarrow> ?d = ?d \<and> (\<not> True \<longrightarrow> 0 < (0 :: nat)) \<and>
    (\<forall>i < 0. i < length ?d \<longrightarrow> \<not> good (take i ?d @ drop (i + 1) ?d)))" using assms(2) by simp
  from assms(1) zero_less_one this have "\<exists>p prev. ?I p prev ch' s' \<and> length (in_data s') \<le> p"
  proof (rule del_loop_rule [where I = ?I])
    fix p ch t
    assume I: "?I p False ch t" and l: "p + 1 < length (in_data t)"
      and eq: "take 1 (drop (p - 1) (in_data t)) = take 1 (drop p (in_data t))"
    have "\<not> good (take i ?d @ drop (i + 1) ?d)" if "\<not> ch" "i < p + 1" "i < length ?d" for i
    proof (cases "i = p")
      case True
      have d: "in_data t = ?d" "0 < p" "p < length ?d" using I that l by auto
      then have "?d ! (p - 1) = ?d ! p" using eq by (simp add: take_Suc hd_drop_conv_nth split: if_splits)
      then have "take p ?d @ drop (p + 1) ?d = take (p - 1) ?d @ drop (p - 1 + 1) ?d"
        using delete_neighbour [OF d(2,3)] d(2) by simp
      moreover have "\<forall>i < p. i < length ?d \<longrightarrow> \<not> good (take i ?d @ drop (i + 1) ?d)" using I that(1) by blast
      then have "\<not> good (take (p - 1) ?d @ drop (p - 1 + 1) ?d)" using d(2,3) by (metis diff_less less_trans zero_less_one)
      ultimately show ?thesis using True by simp
    qed (use I that in auto)
    then show "?I (p + 1) False ch t" using I by auto
  next
    fix p prev ch t t' tmp
    assume "?I p prev ch t" "tmin_run_target c env ms tmp False t = Inr (True, t')"
    then show "?I p True True (t'\<lparr>in_data := tmp\<rparr>)" using accepted inv_frame(1) by blast
  next
    fix p prev ch t t' tmp
    assume I: "?I p prev ch t" and tmp: "tmp = take p (in_data t) @ drop (p + 1) (in_data t)"
      and run: "tmin_run_target c env ms tmp False t = Inr (False, t')"
    then have "inv t'" "\<not> good tmp" "in_data t' = in_data t"
      using rejected decided tmin_run_target_in_data [OF run] by blast+
    then show "?I (p + 1) False ch t'" using I tmp by (auto simp: less_Suc_eq)
  qed
  then show ?thesis using assms(3) by (auto simp: one_minimal_def)
qed

lemma del_sizes_one_minimal:
  "del_sizes c env ms k ch s = Inr (ch', s') \<Longrightarrow> inv s \<Longrightarrow> del_len_limit c \<le> 1 \<Longrightarrow> \<not> ch' \<Longrightarrow> one_minimal (in_data s')"
proof (induction k arbitrary: ch s rule: less_induct)
  case (less del_len)
  let ?k = "if del_len = 0 then 1 else del_len"
  note run = trans [OF del_sizes.simps [symmetric] less.prems(1)]
  then obtain ch1 s1 where l: "del_loop c env ms ?k 0 True ch s = Inr (ch1, s1)"
    by (auto simp: Let_def split: sum.splits prod.splits)
  have k: "0 < ?k" by simp
  have I: "inv s1" using del_loop_settled [OF l k, of "in_data s"] less.prems(2) by (simp add: settled_def)
  show ?case
  proof (cases "max 1 (del_len_limit c) < ?k \<and> 1 \<le> length (in_data s1)")
    case True
    then have "del_sizes c env ms (?k div 2) ch1 s1 = Inr (ch', s')" using run l by (simp add: Let_def)
    then show ?thesis using less.IH [of "?k div 2" ch1 s1] I True less.prems(3,4) by (simp split: if_splits)
  next
    case False
    have "(ch1, s1) = (ch', s')"
      using run False by (simp only: Let_def l sum.case prod.case if_False sum.inject)
    then have e: "ch' = ch1" "s' = s1" by simp_all
    show ?thesis
    proof (cases "in_data s1 = []")
      case True
      then show ?thesis using e by (simp add: one_minimal_def)
    next
      case ne: False
      then have "?k = 1" using False less.prems(3) k by (auto simp: Suc_le_eq)
      then have "del_loop c env ms 1 0 True ch s = Inr (ch1, s1)" using l by (simp only:)
      then have "one_minimal (in_data s)" using del_loop_one_minimal less.prems(2,4) e by blast
      moreover have "in_data s1 = in_data s" using del_loop_lighter [OF l k] less.prems(4) e by (simp add: lighter_def)
      ultimately show ?thesis using e by simp
    qed
  qed
qed

lemma one_pass_one_minimal:
  assumes "one_pass c env ms n s = Inr (False, s')" "inv s" "del_len_limit c \<le> 1"
  shows "one_minimal (in_data s')"
proof -
  obtain ch s1 where del: "del_stage c env ms s = Inr (ch, s1)"
    using assms(1) by (auto simp: one_pass_def split: sum.splits prod.splits)
  show ?thesis
  proof (cases "1 < n \<and> \<not> ch")
    case True
    then show ?thesis
      using del_sizes_one_minimal [OF del [unfolded del_stage_def] assms(2,3)] assms(1) del by (simp add: one_pass_def)
  next
    case False
    then obtain ch2 s2 where al: "alpha_stage c env ms ch s1 = Inr (ch2, s2)" and cs: "char_stage c env ms ch2 s2 = Inr (False, s')"
      using assms(1) del by (auto simp: one_pass_def split: sum.splits prod.splits)
    have "\<not> ch2" "\<not> ch" "in_data s' = in_data s1"
      using alpha_stage_lighter [OF al] char_stage_lighter [OF cs] by (auto simp: lighter_def)
    then show ?thesis using del_sizes_one_minimal [OF del [unfolded del_stage_def] assms(2,3)] by simp
  qed
qed

lemma passes_one_minimal:
  "passes c env ms n s = Inr s' \<Longrightarrow> inv s \<Longrightarrow> del_len_limit c \<le> 1 \<Longrightarrow> one_minimal (in_data s')"
proof (induction "weight (in_data s)" arbitrary: n s rule: less_induct)
  case less
  note run = trans [OF passes.simps [symmetric] less.prems(1)]
  then obtain ch s1 where p: "one_pass c env ms n s = Inr (ch, s1)" by (auto split: sum.splits prod.splits)
  have "lighter (in_data s) False ch (in_data s1)" "inv s1"
    using one_pass_lighter [OF p] one_pass_settled [OF p, of "in_data s"] less.prems(2) by (simp_all add: settled_def)
  then show ?case using less.hyps [of s1 "n + 1"] run p one_pass_one_minimal [of n s s1] less.prems(2,3)
    by (cases ch) (simp_all add: lighter_def)
qed

end

lemma minimize_shorter:
  assumes "minimize steps c env [] s = Inr s'"
  shows "length (in_data s') \<le> length (in_data s)"
proof -
  have t: "candidate_test c env [] (\<lambda>_. True) (\<lambda>_. True)" by unfold_locales simp_all
  have st: "candidate_test.settled (\<lambda>_. True) (\<lambda>_. True) (in_data s) s" for s :: "'a tmin_state"
    using candidate_test.settled_def [OF t] by simp
  show ?thesis
    using assms candidate_test.set_stage_settled [OF t _ st] candidate_test.passes_settled [OF t _ st]
    by (fastforce simp: minimize_def split: if_splits sum.splits)
qed

section \<open>Any target\<close>

interpretation any_target: candidate_test c env ms "\<lambda>_. True"
  "\<lambda>mem. \<exists>t t'. tmin_run_target c env ms mem False t = Inr (True, t')" for c env ms
  by unfold_locales auto

section \<open>A target without memory\<close>

text \<open>
  A target whose result and trace depend on the test case only: \<open>f\<close> gives both. When the user
  interrupts and what else the runs do to the world is left open.
\<close>

definition steady_env ::
  "(bytes \<Rightarrow> fsrv_run_result \<times> bytes) \<Rightarrow> ('w \<Rightarrow> bool) \<Rightarrow> ('w \<Rightarrow> bytes \<Rightarrow> 'w) \<Rightarrow> (bytes \<Rightarrow> u64) \<Rightarrow> 'w tmin_env" where
  "steady_env f stop step h = \<lparr>fsrv_run_target = (\<lambda>w b. (fst (f b), snd (f b), stop w, step w b)), hash64 = h\<rparr>"

definition masked :: "tmin_config \<Rightarrow> bytes \<Rightarrow> bytes" where
  "masked c trace = (case apply_mask c (tmin_classify_counts c trace) of Inl _ \<Rightarrow> [] | Inr t \<Rightarrow> t)"

text \<open>
  To behave like the input: to hang if hangs are minimized, to crash if the input crashes (on
  the same path if paths have to match exactly), else to end normally on the same path. \<open>cr\<close> and
  \<open>ck\<close> say whether the input crashes and which hash its trace has.
\<close>

definition behaves ::
  "tmin_config \<Rightarrow> (bytes \<Rightarrow> u64) \<Rightarrow> (bytes \<Rightarrow> fsrv_run_result \<times> bytes) \<Rightarrow> bool \<Rightarrow> u64 \<Rightarrow> bytes \<Rightarrow> bool" where
  "behaves c h f cr ck mem \<longleftrightarrow> (case f mem of (ret, trace) \<Rightarrow>
     if hang_mode c then ret = FSRV_RUN_TMOUT
     else ret \<noteq> FSRV_RUN_TMOUT \<and>
       (if cr then ret = FSRV_RUN_CRASH \<and> (exact_mode c \<longrightarrow> h (masked c trace) = ck)
        else ret \<noteq> FSRV_RUN_CRASH \<and> h (masked c trace) = ck))"

definition like_input ::
  "tmin_config \<Rightarrow> (bytes \<Rightarrow> u64) \<Rightarrow> (bytes \<Rightarrow> fsrv_run_result \<times> bytes) \<Rightarrow> bytes \<Rightarrow> bytes \<Rightarrow> bool" where
  "like_input c h f input mem =
     behaves c h f (fst (f input) = FSRV_RUN_CRASH) (h (masked c (snd (f input)))) mem"

lemma judge_path_eq:
  "judge_path env fr s = (r, s') \<Longrightarrow> crash_mode s' = crash_mode s \<and>
     orig_cksum s' = (if fr then hash64 env (tmin_trace s) else orig_cksum s) \<and>
     r = (fr \<or> hash64 env (tmin_trace s) = orig_cksum s) \<and> last_run_timed_out s' = last_run_timed_out s"
  by (auto simp: judge_path_def Let_def split: if_splits)

lemma judge_run_again:
  assumes "judge_run c env False ret s = Inr (r, s')"
  shows "crash_mode s' = crash_mode s \<and> orig_cksum s' = orig_cksum s \<and> r = (ret \<noteq> FSRV_RUN_TMOUT \<and>
    (if crash_mode s then ret = FSRV_RUN_CRASH \<and> (exact_mode c \<longrightarrow> hash64 env (tmin_trace s) = orig_cksum s)
     else ret \<noteq> FSRV_RUN_CRASH \<and> hash64 env (tmin_trace s) = orig_cksum s))"
  using assms unfolding judge_run_def Let_def
  by (auto simp: judge_path_def Let_def split: if_splits)

lemma judge_run_first:
  assumes "judge_run c env True ret s = Inr (r, s')" "\<not> crash_mode s" "ret \<noteq> FSRV_RUN_TMOUT"
  shows "crash_mode s' = (ret = FSRV_RUN_CRASH) \<and>
    (ret = FSRV_RUN_CRASH \<and> \<not> exact_mode c \<or> orig_cksum s' = hash64 env (tmin_trace s))"
proof (cases "ret = FSRV_RUN_CRASH")
  case True
  show ?thesis
  proof (cases "exact_mode c")
    case ex: True
    then have "judge_path env True (s\<lparr>crash_mode := True\<rparr>) = (r, s')" using assms(1) True by (simp add: judge_run_def)
    from judge_path_eq [OF this] show ?thesis using True by simp
  qed (use assms(1) True in \<open>auto simp: judge_run_def\<close>)
next
  case False
  then have "judge_path env True s = (r, s')" using assms by (simp add: judge_run_def split: if_splits)
  from judge_path_eq [OF this] show ?thesis using False assms(2) by simp
qed

lemma steady_env_simps [simp]:
  "hash64 (steady_env f stop step h) = h"
  "fsrv_run_target (steady_env f stop step h) w b = (fst (f b), snd (f b), stop w, step w b)"
  by (simp_all add: steady_env_def)

text \<open>A run of such a target, with the mutators out of the way.\<close>

lemma steady_run_eq:
  "tmin_run_target c (steady_env f stop step h) [] mem fr s =
     (let s1 = s\<lparr>fsrv_testcase := mem, world := step (world s) mem, tmin_trace := snd (f mem),
                 last_run_timed_out := (fst (f mem) = FSRV_RUN_TMOUT)\<rparr>
      in if fst (f mem) = FSRV_RUN_ERROR then Inl (Tmin_Fatal ''Couldn't run child'')
         else if stop (world s) then Inl (Tmin_Aborted (in_data s))
         else if hang_mode c then
           Inr (fst (f mem) = FSRV_RUN_TMOUT,
                if fst (f mem) = FSRV_RUN_TMOUT then s1
                else if fst (f mem) = FSRV_RUN_CRASH then s1\<lparr>missed_crashes := missed_crashes s + 1\<rparr>
                else s1\<lparr>missed_hangs := missed_hangs s + 1\<rparr>)
         else (case apply_mask c (tmin_classify_counts c (snd (f mem))) of
                 Inl err \<Rightarrow> Inl err
               | Inr trace \<Rightarrow> judge_run c (steady_env f stop step h) fr (fst (f mem)) (s1\<lparr>tmin_trace := trace\<rparr>)))"
  by (simp add: tmin_run_target_def pre_afl_fsrv_write_to_testcase_def Let_def)

lemma steady_run:
  assumes "tmin_run_target c (steady_env f stop step h) [] mem False s = Inr (r, s')"
  shows "crash_mode s' = crash_mode s \<and> orig_cksum s' = orig_cksum s \<and> r = behaves c h f (crash_mode s) (orig_cksum s) mem"
proof (cases "hang_mode c")
  case True
  then show ?thesis using assms by (auto simp: steady_run_eq behaves_def Let_def split: if_splits prod.splits)
next
  case False
  then obtain trace s1 where "apply_mask c (tmin_classify_counts c (snd (f mem))) = Inr trace"
    "judge_run c (steady_env f stop step h) False (fst (f mem)) s1 = Inr (r, s')"
    "tmin_trace s1 = trace" "crash_mode s1 = crash_mode s" "orig_cksum s1 = orig_cksum s"
    using assms by (simp add: steady_run_eq Let_def split: if_splits sum.splits)
  then show ?thesis using judge_run_again [of c "steady_env f stop step h" "fst (f mem)" s1 r s'] False
    by (simp add: behaves_def masked_def case_prod_unfold)
qed

lemma steady_first_run:
  assumes "tmin_run_target c (steady_env f stop step h) [] mem True s = Inr (r, s')" "\<not> crash_mode s"
    "hang_mode c \<longleftrightarrow> fst (f mem) = FSRV_RUN_TMOUT"
  shows "behaves c h f (crash_mode s') (orig_cksum s') = like_input c h f mem \<and> like_input c h f mem mem"
proof (cases "hang_mode c")
  case True
  then show ?thesis using assms(3) by (auto simp: behaves_def like_input_def fun_eq_iff split: prod.splits)
next
  case False
  then obtain trace s1 where "apply_mask c (tmin_classify_counts c (snd (f mem))) = Inr trace"
    "judge_run c (steady_env f stop step h) True (fst (f mem)) s1 = Inr (r, s')"
    "tmin_trace s1 = trace" "crash_mode s1 = crash_mode s"
    using assms(1) by (simp add: steady_run_eq Let_def split: if_splits sum.splits)
  then show ?thesis using judge_run_first [of c "steady_env f stop step h" "fst (f mem)" s1 r s'] False assms(2,3)
    by (auto simp: behaves_def like_input_def masked_def fun_eq_iff case_prod_unfold)
qed

interpretation steady: deciding_test c "steady_env f stop step h" "[]"
  "\<lambda>s. crash_mode s = cr \<and> orig_cksum s = ck" "behaves c h f cr ck" for c f stop step h cr ck
  by unfold_locales (auto dest: steady_run)

section \<open>An example\<close>

text \<open>A target that crashes when it reads the byte 42.\<close>

definition ex_target :: "bytes \<Rightarrow> fsrv_run_result \<times> bytes" where
  "ex_target b = (if list_ex (\<lambda>x. x = 42) b then (FSRV_RUN_CRASH, []) else (FSRV_RUN_OK, []))"

definition ex_config :: tmin_config where
  "ex_config = \<lparr>tmin_map_size = 0, hang_mode = False, edges_only = False, exact_mode = False, mask_bitmap = None,
     del_len_limit = 1\<rparr>"

section \<open>Properties\<close>

text \<open>The state the program starts with, and what is known when the minimization begins.\<close>

definition tmin_start :: "'w \<Rightarrow> bytes \<Rightarrow> 'w tmin_state" where
  "tmin_start w input = \<lparr>in_data = input, orig_cksum = 0, crash_mode = False, missed_hangs = 0, missed_crashes = 0,
     missed_paths = 0, alpha_d_total = 0, tmin_trace = [], last_run_timed_out = False, fsrv_testcase = [], world = w\<rparr>"

lemma tmin_start_simps [simp]:
  "in_data (tmin_start w input) = input" "\<not> crash_mode (tmin_start w input)" "world (tmin_start w input) = w"
  by (simp_all add: tmin_start_def)

lemma main_minimizes:
  assumes "tmin_main steps c env ms w (Some input) = r"
  obtains msg where "r = Inl (Tmin_Fatal msg)"
  | err where "tmin_run_target c env ms input True (tmin_start w input) = Inl err" "r = Inl err"
  | v s where "tmin_run_target c env ms input True (tmin_start w input) = Inr (v, s)"
      "hang_mode c \<longleftrightarrow> last_run_timed_out s" "r = map_sum id in_data (minimize steps c env ms s)"
proof (cases "tmin_run_target c env ms input True (tmin_start w input)")
  case (Inl err)
  then show thesis using assms that(1,2)
    by (auto simp: tmin_main_def read_initial_file_def tmin_start_def [symmetric] Let_def split: if_splits)
next
  case (Inr x)
  obtain v s where x: "x = (v, s)" by fastforce
  have "r = map_sum id in_data (minimize steps c env ms s) \<and> (hang_mode c \<longleftrightarrow> last_run_timed_out s) \<or> (\<exists>msg. r = Inl (Tmin_Fatal msg))"
    using assms Inr x
    by (cases "minimize steps c env ms s")
      (auto simp: tmin_main_def read_initial_file_def tmin_start_def [symmetric] Let_def split: if_splits)
  then show thesis using that(1,3) Inr x by blast
qed

lemma judge_run_timed_out: "judge_run c env fr ret s = Inr (r, s') \<Longrightarrow> last_run_timed_out s' = last_run_timed_out s"
  by (auto simp: judge_run_def Let_def dest!: judge_path_eq split: if_splits)

lemma steady_timed_out:
  assumes "tmin_run_target c (steady_env f stop step h) [] mem fr s = Inr (r, s')"
  shows "last_run_timed_out s' = (fst (f mem) = FSRV_RUN_TMOUT)"
  using assms by (auto simp: steady_run_eq Let_def dest!: judge_run_timed_out split: if_splits sum.splits)

lemma steady_start:
  assumes "tmin_run_target c (steady_env f stop step h) [] input True (tmin_start w input) = Inr (v, s)"
    "hang_mode c \<longleftrightarrow> last_run_timed_out s"
  shows "in_data s = input" "behaves c h f (crash_mode s) (orig_cksum s) = like_input c h f input" "like_input c h f input input"
  using tmin_run_target_in_data [OF assms(1)] steady_first_run [OF assms(1)] assms(2) steady_timed_out [OF assms(1)]
  by simp_all

lemma minimize_one_minimal:
  assumes "minimize steps c (steady_env f stop step h) [] s = Inr s'" "1 < length (in_data s)" "del_len_limit c \<le> 1"
    "i < length (in_data s')"
  shows "\<not> behaves c h f (crash_mode s) (orig_cksum s) (take i (in_data s') @ drop (i + 1) (in_data s'))"
proof -
  obtain s1 where s1: "set_stage c (steady_env f stop step h) [] s = Inr s1"
    "passes c (steady_env f stop step h) [] 1 s1 = Inr s'"
    using assms(1,2) by (auto simp: minimize_def split: sum.splits if_splits)
  have "steady.settled (crash_mode s) (orig_cksum s) c h f (in_data s) s" by (simp add: steady.settled_def)
  then have "crash_mode s1 = crash_mode s \<and> orig_cksum s1 = orig_cksum s"
    using steady.set_stage_settled [OF s1(1)] by (auto simp: steady.settled_def)
  from steady.passes_one_minimal [OF s1(2) this assms(3)] show ?thesis
    using assms(4) by (simp add: steady.one_minimal_def)
qed

lemma steady_trace:
  assumes "tmin_run_target c (steady_env f stop step h) [] mem True s = Inr (r, s')"
  shows "hang_mode c \<or> tmin_trace s' = masked c (snd (f mem)) \<and> (fst (f mem) = FSRV_RUN_CRASH \<longrightarrow> crash_mode s')"
  using assms by (auto simp: steady_run_eq masked_def judge_run_def judge_path_def Let_def split: if_splits sum.splits)

lemma steady_answers:
  assumes "\<forall>w. \<not> stop w" "\<forall>b. fst (f b) \<noteq> FSRV_RUN_ERROR \<and> fst (f b) \<noteq> FSRV_RUN_NOINST"
    "\<forall>mk. mask_bitmap c = Some mk \<longrightarrow> 4 * unat (drop_bit 2 (tmin_map_size c)) \<le> length mk"
  shows "\<exists>r s'. tmin_run_target c (steady_env f stop step h) [] mem fr s = Inr (r, s')"
  using assms by (auto simp: steady_run_eq apply_mask_def judge_run_def Let_def split: option.splits sum.splits)

lemma main_returns:
  assumes "input \<noteq> []" "length input < 10 * 1024 * 1024" "\<forall>w. \<not> stop w"
    "\<forall>b. fst (f b) \<noteq> FSRV_RUN_ERROR \<and> fst (f b) \<noteq> FSRV_RUN_NOINST"
    "\<forall>mk. mask_bitmap c = Some mk \<longrightarrow> 4 * unat (drop_bit 2 (tmin_map_size c)) \<le> length mk"
    "hang_mode c \<longleftrightarrow> fst (f input) = FSRV_RUN_TMOUT"
    "hang_mode c \<or> fst (f input) = FSRV_RUN_CRASH \<or> anything_set c (masked c (snd (f input)))"
  shows "\<exists>out. tmin_main steps c (steady_env f stop step h) [] w (Some input) = Inr out"
proof -
  let ?e = "steady_env f stop step h"
  have ok: "\<exists>r s'. tmin_run_target c ?e [] mem fr s = Inr (r, s')" for mem fr s
    using assms(3-5) by (rule steady_answers)
  then obtain v s where s: "tmin_run_target c ?e [] input True (tmin_start w input) = Inr (v, s)" by blast
  obtain s' where m: "minimize steps c ?e [] s = Inr s'"
    using steady.minimize_returns [OF refl, of s "crash_mode s" "orig_cksum s" c f stop step h steps] ok by blast
  have "last_run_timed_out s = hang_mode c" "hang_mode c \<or> crash_mode s \<or> anything_set c (tmin_trace s)"
    using steady_timed_out [OF s] assms(6) steady_trace [OF s] assms(7) by auto
  then show ?thesis using s m assms(1,2)
    by (auto simp: tmin_main_def read_initial_file_def tmin_start_def [symmetric] Let_def)
qed

lemma ex_returns:
  "\<exists>out. tmin_main 0 ex_config (steady_env ex_target (\<lambda>_. False) (\<lambda>w _. w) (\<lambda>_. 0)) [] () (Some [1, 42, 3]) = Inr out"
  by (rule main_returns) (simp_all add: ex_target_def ex_config_def)

text \<open>Property C10. The minimizer does what it promises for a target whose behaviour depends on the
  test case only: the output behaves like the input (it hangs, crashes, or takes the same path, by
  mode), it is not longer, and no single byte of it can be removed without losing the behaviour.\<close>

theorem tmin_main_minimal:
  assumes "tmin_main steps c (steady_env f stop step h) [] w (Some input) = Inr out"
  shows "like_input c h f input out \<and> length out \<le> length input \<and>
    (1 < length input \<and> del_len_limit c \<le> 1 \<longrightarrow>
       (\<forall>i < length out. \<not> like_input c h f input (take i out @ drop (i + 1) out)))"
proof -
  let ?e = "steady_env f stop step h"
  obtain v s s' where s: "tmin_run_target c ?e [] input True (tmin_start w input) = Inr (v, s)"
    "hang_mode c \<longleftrightarrow> last_run_timed_out s" and m: "minimize steps c ?e [] s = Inr s'" "out = in_data s'"
    using main_minimizes [OF assms] by (smt (verit) map_sum.simps sum.exhaust sum.distinct sum.inject)
  note start = steady_start [OF s]
  have "like_input c h f input out"
    using steady.minimize_settled [OF m(1), of "crash_mode s" "orig_cksum s"] start m(2) by auto
  moreover have "length out \<le> length input" using minimize_shorter [OF m(1)] start(1) m(2) by simp
  ultimately show ?thesis using minimize_one_minimal [OF m(1)] start m(2) by simp
qed

theorem tmin_main_minimal_witness:
  "\<exists>out. tmin_main 0 ex_config (steady_env ex_target (\<lambda>_. False) (\<lambda>w _. w) (\<lambda>_. 0)) [] () (Some [1, 42, 3]) = Inr out \<and>
     length out \<le> 3 \<and> 42 \<in> set out \<and> (\<forall>i < length out. 42 \<notin> set (take i out @ drop (i + 1) out))"
proof -
  obtain out where out: "tmin_main 0 ex_config (steady_env ex_target (\<lambda>_. False) (\<lambda>w _. w) (\<lambda>_. 0)) [] () (Some [1, 42, 3]) = Inr out"
    using ex_returns by blast
  have like: "like_input ex_config (\<lambda>_. 0) ex_target [1, 42, 3] b \<longleftrightarrow> 42 \<in> set b" for b
    by (auto simp: like_input_def behaves_def ex_config_def ex_target_def list_ex_iff)
  have "del_len_limit ex_config = 1" by (simp add: ex_config_def)
  then show ?thesis using tmin_main_minimal [OF out] out by (simp add: like)
qed

text \<open>Property C34. An interrupt loses nothing: whenever the user stops the minimizer, the file it
  leaves is the input or behaves like it.\<close>

theorem tmin_interrupt_safe:
  assumes "tmin_main steps c (steady_env f stop step h) [] w (Some input) = Inl (Tmin_Aborted out)"
  shows "out = input \<or> like_input c h f input out"
proof -
  let ?e = "steady_env f stop step h"
  consider "tmin_run_target c ?e [] input True (tmin_start w input) = Inl (Tmin_Aborted out)"
  | v s where "tmin_run_target c ?e [] input True (tmin_start w input) = Inr (v, s)" "hang_mode c \<longleftrightarrow> last_run_timed_out s"
      "minimize steps c ?e [] s = Inl (Tmin_Aborted out)"
    using main_minimizes [OF assms(1)]
    by (smt (verit) map_sum.simps sum.exhaust sum.distinct sum.inject tmin_exit.distinct id_apply)
  then show ?thesis
  proof cases
    case 1
    then show ?thesis using aborted_in_data by fastforce
  next
    case 2
    note start = steady_start [OF 2(1,2)]
    from steady.minimize_aborted [OF 2(3), of "crash_mode s" "orig_cksum s"] show ?thesis using start by auto
  qed
qed

theorem tmin_interrupt_safe_witness:
  "tmin_main 0 ex_config (steady_env ex_target (\<lambda>n. n = 1) (\<lambda>n _. n + 1) (\<lambda>_. 0)) [] (0 :: nat) (Some [1, 42, 3]) =
     Inl (Tmin_Aborted [1, 42, 3]) \<and> like_input ex_config (\<lambda>_. 0) ex_target [1, 42, 3] [1, 42, 3]"
proof -
  have a: "tmin_main 0 ex_config (steady_env ex_target (\<lambda>n. n = 1) (\<lambda>n _. n + 1) (\<lambda>_. 0)) [] (0 :: nat) (Some [1, 42, 3]) =
     Inl (Tmin_Aborted [1, 42, 3])"
    by (simp add: tmin_main_def read_initial_file_def minimize_def set_stage_def next_pow2_def set_loop.simps steady_run_eq
      ex_config_def ex_target_def apply_mask_def tmin_classify_counts_def judge_run_def)
  from tmin_interrupt_safe [OF a] show ?thesis using a by (simp add: like_input_def behaves_def ex_config_def ex_target_def)
qed

text \<open>Property C11. The minimizer ends and writes an output: if the target always runs, is instrumented
  and shows the behaviour asked for on the input, and nobody interrupts, every loop of every pass
  comes to its end.\<close>

theorem tmin_main_returns:
  assumes "input \<noteq> []" "length input < 10 * 1024 * 1024" "\<forall>w. \<not> stop w"
    "\<forall>b. fst (f b) \<noteq> FSRV_RUN_ERROR \<and> fst (f b) \<noteq> FSRV_RUN_NOINST"
    "\<forall>mk. mask_bitmap c = Some mk \<longrightarrow> 4 * unat (drop_bit 2 (tmin_map_size c)) \<le> length mk"
    "hang_mode c \<longleftrightarrow> fst (f input) = FSRV_RUN_TMOUT"
    "hang_mode c \<or> fst (f input) = FSRV_RUN_CRASH \<or> anything_set c (masked c (snd (f input)))"
  shows "\<exists>out. tmin_main steps c (steady_env f stop step h) [] w (Some input) = Inr out"
  using assms by (rule main_returns)

theorem tmin_main_returns_witness:
  "\<exists>out. tmin_main 0 ex_config (steady_env ex_target (\<lambda>_. False) (\<lambda>w _. w) (\<lambda>_. 0)) [] () (Some [1, 42, 3]) = Inr out"
  by (rule tmin_main_returns) (simp_all add: ex_target_def ex_config_def)

text \<open>A candidate that a post-processing plugin rejects is not discarded: the target runs
  on the test case of the previous candidate, and its verdict is taken for the new one.\<close>

theorem tmin_rejected_by_plugin:
  assumes "post_process_all ms mem (world s) = (None, w)"
  shows "tmin_run_target c env ms mem fr s = tmin_run_target c env [] (fsrv_testcase s) fr (s\<lparr>world := w\<rparr>)"
  using assms by (simp add: tmin_run_target_def pre_afl_fsrv_write_to_testcase_def cong: if_cong)

theorem tmin_rejected_by_plugin_witness:
  "tmin_run_target ex_config (steady_env ex_target (\<lambda>_. False) (\<lambda>w _. w) (\<lambda>_. 0))
     [\<lparr>custom_post_process = Some (\<lambda>w b. (None, w)), custom_fuzz_send = None, custom_trimmer = None\<rparr>] [7] False
     ((tmin_start () [42])\<lparr>crash_mode := True, fsrv_testcase := [42]\<rparr>) =
   Inr (True, (tmin_start () [42])\<lparr>crash_mode := True, fsrv_testcase := [42]\<rparr>)"
  by (subst tmin_rejected_by_plugin [where w = "()"])
    (simp_all add: steady_run_eq ex_config_def ex_target_def tmin_start_def apply_mask_def tmin_classify_counts_def judge_run_def)

end
