(* ===== verification/Score.thy ===== *)
theory Score
  imports Queue
begin

text \<open>
  The energy of a queue entry, \<^verbatim>\<open>calculate_score\<close> of \<^verbatim>\<open>AFLplusplus/src/afl-fuzz-queue.c\<close>.
  Scores are 32-bit integers; a compound assignment with a \<^verbatim>\<open>double\<close> converts there and back.
\<close>

record 'd score_state = "'d queue_state" +
  total_cal_us :: u64
  total_cal_cycles :: u64
  total_bitmap_size :: u64
  total_bitmap_entries :: u64
  total_execs :: u64
  limit_time_sig :: int
  havoc_max_mult :: u32
  queued_discovered :: u32
  alias_table :: "nat list"
  alias_probability :: "'d list"

text \<open>A \<^verbatim>\<open>FATAL\<close> exit, or a division by an integer zero, which stops the process.\<close>

datatype score_error = Score_Fatal string | Division_By_Zero

definition scale :: "'d dops \<Rightarrow> rat \<Rightarrow> u32 \<Rightarrow> u32" where
  "scale D c p = d_u32 D (d_mul D (d_word D p) (d_lit D c))"

definition score_speed :: "'d dops \<Rightarrow> u64 \<Rightarrow> u32 \<Rightarrow> u32" where
  "score_speed D exec_us avg =
     (let over = (\<lambda>c. d_less D (d_word D avg) (d_mul D (d_word D exec_us) (d_lit D c)))
      in if over (1/10) then 10
         else if over (1/4) then 25
         else if over (1/2) then 50
         else if over (3/4) then 75
         else if exec_us * 4 < ucast avg then 300
         else if exec_us * 3 < ucast avg then 200
         else if exec_us * 2 < ucast avg then 150
         else 100)"

definition score_coverage :: "'d dops \<Rightarrow> u32 \<Rightarrow> u32 \<Rightarrow> u32 \<Rightarrow> u32" where
  "score_coverage D bitmap_size avg p =
     (let over = (\<lambda>c. d_less D (d_word D avg) (d_mul D (d_word D bitmap_size) (d_lit D c)))
      in if over (3/10) then p * 3
         else if over (1/2) then p * 2
         else if over (3/4) then scale D (3/2) p
         else if bitmap_size * 3 < avg then scale D (1/4) p
         else if bitmap_size * 2 < avg then scale D (1/2) p
         else if d_less D (d_mul D (d_word D bitmap_size) (d_lit D (3/2))) (d_word D avg) then scale D (3/4) p
         else p)"

text \<open>Latecomers get more, and use up their handicap.\<close>

definition score_handicap :: "u64 \<Rightarrow> u32 \<Rightarrow> u32 \<times> u64" where
  "score_handicap handicap p =
     (if 4 \<le> handicap then (p * 4, handicap - 4)
      else if handicap \<noteq> 0 then (p * 2, handicap - 1)
      else (p, handicap))"

definition score_depth :: "u64 \<Rightarrow> u32 \<Rightarrow> u32" where
  "score_depth depth p =
     (if depth \<le> 3 then p else if depth \<le> 7 then p * 2 else if depth \<le> 13 then p * 3
      else if depth \<le> 25 then p * 4 else p * 5)"

text \<open>The mean of the logarithms of the path frequencies over the enabled entries.\<close>

definition fuzz_mu :: "'d dops \<Rightarrow> ('d, 'a) score_state_scheme \<Rightarrow> score_error + 'd" where
  "fuzz_mu D s =
     (let es = filter (\<lambda>e. \<not> q_disabled e) (take (unat (queued_items s)) (queue_buf s));
          mu = foldl (\<lambda>mu e. d_addl D mu (d_log2 D (d_word D (n_fuzz s ! unat (q_n_fuzz_entry e))))) (d_lit D 0) es
      in if es = [] then Inl (Score_Fatal ''Queue state corrupt'')
         else Inr (d_divl D mu (d_lit D (of_nat (length es)))))"

definition factor_fast :: "'d dops \<Rightarrow> ('d, 'a) score_state_scheme \<Rightarrow> 'd queue_entry \<Rightarrow> 'd" where
  "factor_fast D s e =
     (if q_fuzz_level e = 0 then d_lit D 1
      else (let k = d_u32 D (d_log2 D (d_word D (n_fuzz s ! unat (q_n_fuzz_entry e))));
                lit = (\<lambda>c. d_lit D (if q_favored e then 1 else c));
                factor = (if k \<le> 1 then d_lit D 4 else if k \<le> 3 then d_lit D 3 else if k = 4 then d_lit D 2
                          else if k = 5 then d_lit D 1 else if k = 6 then lit (8/10) else if k = 7 then lit (6/10)
                          else lit (4/10))
            in if q_favored e then d_mul D factor (d_lit D (115/100)) else factor))"

text \<open>The part of the score that depends on the power schedule: the new score and the factor.\<close>

definition score_schedule ::
  "'d dops \<Rightarrow> ('d, 'a) score_state_scheme \<Rightarrow> 'd queue_entry \<Rightarrow> u32 \<Rightarrow> score_error + u32 \<times> 'd" where
  "score_schedule D s e p =
     (let one = d_lit D 1; hits = n_fuzz s ! unat (q_n_fuzz_entry e) in
      if schedule s = EXPLORE \<or> schedule s = SEEK then Inr (p, one)
      else if schedule s = EXPLOIT then Inr (p, d_lit D 32)
      else if schedule s = COE then
        (if q_fuzz_level e = 0 then Inr (p, one)
         else (case fuzz_mu D s of
                 Inl err \<Rightarrow> Inl err
               | Inr mu \<Rightarrow>
                   if d_less D mu (d_log2 D (d_word D hits))
                   then Inr (p, if q_favored e then one else d_lit D 0)
                   else Inr (p, factor_fast D s e)))
      else if schedule s = FAST then Inr (p, factor_fast D s e)
      else if schedule s = LIN then
        (if q_fuzz_level e = 0 then Inr (p, one)
         else if hits + 1 = 0 then Inl Division_By_Zero
         else Inr (p, d_word D (q_fuzz_level e div (hits + 1))))
      else if schedule s = QUAD then
        (if q_fuzz_level e = 0 then Inr (p, one)
         else if hits + 1 = 0 then Inl Division_By_Zero
         else Inr (p, d_word D (q_fuzz_level e * q_fuzz_level e div (hits + 1))))
      else if schedule s = MMOPT then
        Inr (if ucast (max_depth s) - q_depth e < 5 then p * 2 else p, one)
      else if schedule s = RARE then
        (let p = p + q_tc_ref e * 10;
             rate = d_sub D one (d_div D (d_word D hits) (d_word D (total_execs s)))
         in Inr (d_u32 D (d_mul D (d_word D p) rate), one))
      else Inl (Score_Fatal ''Unknown Power Schedule''))"

definition score_limit :: "('d, 'a) score_state_scheme \<Rightarrow> 'd queue_entry \<Rightarrow> u32 \<Rightarrow> u32" where
  "score_limit s e p =
     (let p = (if limit_time_sig s \<noteq> 0 \<and> ucast (max_depth s) - q_depth e < 3 then p * 2
               else if schedule s \<noteq> COE \<and> p < 1 then 1 else p)
      in if havoc_max_mult s * 100 < p then havoc_max_mult s * 100 else p)"

text \<open>The part before the schedule, with the handicap that is left.\<close>

definition score_base :: "'d dops \<Rightarrow> ('d, 'a) score_state_scheme \<Rightarrow> 'd queue_entry \<Rightarrow> u32 \<times> u64" where
  "score_base D s e =
     (let cal_cycles = (if (ucast (total_cal_cycles s) :: u32) = 0 then 1 else ucast (total_cal_cycles s));
          bitmap_entries = (if (ucast (total_bitmap_entries s) :: u32) = 0 then 1 else ucast (total_bitmap_entries s));
          avg_exec_us = ucast (total_cal_us s div ucast (cal_cycles :: u32));
          avg_bitmap_size = ucast (total_bitmap_size s div ucast (bitmap_entries :: u32));
          p = (if schedule s < RARE \<and> \<not> fixed_seed s then score_speed D (q_exec_us e) avg_exec_us else 100);
          p = score_coverage D (q_bitmap_size e) avg_bitmap_size p;
          (p, handicap) = score_handicap (q_handicap e) p
      in (score_depth (q_depth e) p, handicap))"

definition apply_factor :: "'d dops \<Rightarrow> ('d, 'a) score_state_scheme \<Rightarrow> 'd \<Rightarrow> u32 \<Rightarrow> u32" where
  "apply_factor D s factor p =
     (if EXPLOIT \<le> schedule s \<and> schedule s \<le> QUAD
      then (let factor = (if d_less D (d_lit D 32) factor then d_lit D 32 else factor)
            in d_u32 D (d_mul D (d_word D p) (d_div D factor (d_lit D 1))))
      else p)"

definition calculate_score ::
  "'d dops \<Rightarrow> nat \<Rightarrow> ('d, 'a) score_state_scheme \<Rightarrow> score_error + u32 \<times> ('d, 'a) score_state_scheme" where
  "calculate_score D q s =
     (let (p, handicap) = score_base D s (entry s q);
          s = upd_entry q (\<lambda>e. e\<lparr>q_handicap := handicap\<rparr>) s
      in case score_schedule D s (entry s q) p of
           Inl err \<Rightarrow> Inl err
         | Inr (p, factor) \<Rightarrow> Inr (score_limit s (entry s q) (apply_factor D s factor p), s))"

text \<open>A corpus of two entries.\<close>

definition ex_scored :: "u64 \<Rightarrow> rat queue_entry" where
  "ex_scored us = \<lparr>q_fname = ''/q/id'', q_len = 10, q_id = 0, q_trim_done = False,
     q_was_fuzzed = True, q_passed_det = False, q_has_new_cov = True, q_var_behavior = False,
     q_favored = False, q_fs_redundant = False, q_is_ascii = False, q_disabled = False,
     q_bitmap_size = 2, q_fuzz_level = 0, q_n_fuzz_entry = 0, q_exec_us = us, q_handicap = 5,
     q_depth = 1, q_exec_cksum = 0, q_tc_ref = 0, q_perf_score = 100, q_weight = 1,
     q_mother = None, q_trace_mini = None, q_testcase_buf = None\<rparr>"

definition ex_score :: "rat score_state" where
  "ex_score = \<lparr>trace_bits = [], map_size = 0, real_map_size = 0, virgin_bits = [], virgin_tmout = [],
     virgin_crash = [], bitmap_changed = 0, queue_buf = [ex_scored 100, ex_scored 300], queued_items = 2,
     active_items = 2, pending_not_fuzzed = 0, queued_favored = 0, pending_favored = 0, cur_depth = 1,
     max_depth = 2, ready_for_splicing_count = 0, cycles_wo_finds = 0, queue_head = Some 0,
     queue_top = Some 1, queue_cur = None, top_rated = [], top_rated_candidates = [],
     last_scored_idx = - 1, smallest_favored = - 1, score_changed = False, reinit_table = True,
     schedule = EXPLORE, fixed_seed = False, non_instrumented_mode = False, afl_disable_redundant = False,
     cmplog_mode = False, custom_mutators_count = 0, syncing_party = False, n_fuzz = [],
     map_tmp_buf = [], start_time = 0, last_find_time = 0, longest_find_time = 0,
     total_cal_us = 400, total_cal_cycles = 2, total_bitmap_size = 4, total_bitmap_entries = 2,
     total_execs = 2, limit_time_sig = 0, havoc_max_mult = 64, queued_discovered = 0,
     alias_table = [], alias_probability = []\<rparr>"

section \<open>Properties\<close>

lemma score_limit_le: "score_limit s e p \<le> havoc_max_mult s * 100"
  by (simp add: score_limit_def Let_def not_less)

lemma score_limit_pos:
  assumes "schedule s \<noteq> COE" "limit_time_sig s = 0" "0 < havoc_max_mult s * 100"
  shows "0 < score_limit s e p"
  using assms by (auto simp: score_limit_def Let_def word_gt_0 not_less word_le_nat_alt word_less_nat_alt unat_gt_0)

lemma score_schedule_errors:
  "score_schedule D s e p = Inl err \<longleftrightarrow>
     (err = Division_By_Zero \<and> (schedule s = LIN \<or> schedule s = QUAD) \<and> q_fuzz_level e \<noteq> 0 \<and>
       n_fuzz s ! unat (q_n_fuzz_entry e) = 2 ^ 32 - 1) \<or>
     (err = Score_Fatal ''Queue state corrupt'' \<and> schedule s = COE \<and> q_fuzz_level e \<noteq> 0 \<and>
       list_all q_disabled (take (unat (queued_items s)) (queue_buf s))) \<or>
     (err = Score_Fatal ''Unknown Power Schedule'' \<and> SEEK < schedule s)"
proof -
  have "(- 1 :: u32) = 2 ^ 32 - 1" by code_simp
  then have wrap: "(x :: u32) + 1 = 0 \<longleftrightarrow> x = 2 ^ 32 - 1" for x by (simp only: add_eq_0_iff2)
  obtain m where mu: "fuzz_mu D s = (if list_all q_disabled (take (unat (queued_items s)) (queue_buf s))
      then Inl (Score_Fatal ''Queue state corrupt'') else Inr m)"
    by (simp add: fuzz_mu_def Let_def filter_empty_conv list_all_iff)
  consider "schedule s = EXPLORE" | "schedule s = MMOPT" | "schedule s = EXPLOIT" | "schedule s = FAST" | "schedule s = COE"
    | "schedule s = LIN" | "schedule s = QUAD" | "schedule s = RARE" | "schedule s = SEEK" | "SEEK < schedule s" by linarith
  then show ?thesis by cases (auto simp: score_schedule_def wrap mu Let_def split: sum.splits if_splits)
qed

lemma list_all_map_disabled: "map q_disabled xs = map q_disabled ys \<Longrightarrow> list_all q_disabled xs = list_all q_disabled ys"
  by (metis in_set_conv_nth length_map list_all_length nth_map)

lemma handicap_disabled:
  "list_all q_disabled (take n (queue_buf (upd_entry q (\<lambda>e. e\<lparr>q_handicap := h\<rparr>) s))) = list_all q_disabled (take n (queue_buf s))"
proof (rule list_all_map_disabled)
  have "map q_disabled (queue_buf (upd_entry q (\<lambda>e. e\<lparr>q_handicap := h\<rparr>) s)) = map q_disabled (queue_buf s)"
    by (cases "q < length (queue_buf s)") (simp_all add: upd_entry_def map_update list_update_same_conv list_update_beyond)
  then show "map q_disabled (take n (queue_buf (upd_entry q (\<lambda>e. e\<lparr>q_handicap := h\<rparr>) s))) = map q_disabled (take n (queue_buf s))"
    by (metis take_map)
qed

lemma handicap_frame:
  "q_fuzz_level (entry (upd_entry q (\<lambda>e. e\<lparr>q_handicap := h\<rparr>) s) q) = q_fuzz_level (entry s q)"
  "q_n_fuzz_entry (entry (upd_entry q (\<lambda>e. e\<lparr>q_handicap := h\<rparr>) s) q) = q_n_fuzz_entry (entry s q)"
  by (cases "q < length (queue_buf s)"; simp add: upd_entry_def list_update_beyond)+

abbreviation spend :: "nat \<Rightarrow> ('d, 'a) score_state_scheme \<Rightarrow> ('d, 'a) score_state_scheme" where
  "spend q s \<equiv> upd_entry q (\<lambda>e. e\<lparr>q_handicap := (if 4 \<le> q_handicap (entry s q) then q_handicap (entry s q) - 4
     else if q_handicap (entry s q) \<noteq> 0 then q_handicap (entry s q) - 1 else 0)\<rparr>) s"

lemma snd_score_base: "snd (score_base D s e) = (if 4 \<le> q_handicap e then q_handicap e - 4 else if q_handicap e \<noteq> 0 then q_handicap e - 1 else 0)"
  by (simp add: score_base_def score_handicap_def Let_def)

lemma calculate_score_eq:
  "calculate_score D q s = (case score_schedule D (spend q s) (entry (spend q s) q) (fst (score_base D s (entry s q))) of
     Inl err \<Rightarrow> Inl err
   | Inr (p, factor) \<Rightarrow> Inr (score_limit (spend q s) (entry (spend q s) q) (apply_factor D (spend q s) factor p), spend q s))"
  unfolding calculate_score_def snd_score_base [where D = D and s = s and e = "entry s q", symmetric] by (simp add: case_prod_unfold Let_def)

lemma spend_frame [simp]:
  "havoc_max_mult (upd_entry q f s) = havoc_max_mult s" "limit_time_sig (upd_entry q f s) = limit_time_sig s"
  by (simp_all add: upd_entry_def)

lemma calculate_score_fails:
  "calculate_score D q s = Inl err \<longleftrightarrow>
     (err = Division_By_Zero \<and> (schedule s = LIN \<or> schedule s = QUAD) \<and> q_fuzz_level (entry s q) \<noteq> 0 \<and>
       n_fuzz s ! unat (q_n_fuzz_entry (entry s q)) = 2 ^ 32 - 1) \<or>
     (err = Score_Fatal ''Queue state corrupt'' \<and> schedule s = COE \<and> q_fuzz_level (entry s q) \<noteq> 0 \<and>
       list_all q_disabled (take (unat (queued_items s)) (queue_buf s))) \<or>
     (err = Score_Fatal ''Unknown Power Schedule'' \<and> SEEK < schedule s)"
proof -
  have "calculate_score D q s = Inl err \<longleftrightarrow>
      score_schedule D (spend q s) (entry (spend q s) q) (fst (score_base D s (entry s q))) = Inl err"
    by (simp add: calculate_score_eq split: sum.splits prod.splits)
  then show ?thesis unfolding score_schedule_errors handicap_frame handicap_disabled by simp
qed

text \<open>Property C14. Whatever the rounding of the floating-point unit, the score stays within the
  configured limit, is positive outside the COE schedule and MOpt mode, and the only change to the
  corpus is that the entry's handicap shrinks by 4, by 1, or not at all.\<close>

theorem calculate_score_bounds:
  assumes "calculate_score D q s = Inr (p, s')"
  shows "p \<le> havoc_max_mult s * 100 \<and>
    (schedule s \<noteq> COE \<and> limit_time_sig s = 0 \<and> 0 < havoc_max_mult s * 100 \<longrightarrow> 0 < p) \<and>
    s' = upd_entry q (\<lambda>e. e\<lparr>q_handicap := (if 4 \<le> q_handicap e then q_handicap e - 4
      else if q_handicap e \<noteq> 0 then q_handicap e - 1 else 0)\<rparr>) s"
proof -
  obtain p' e where r: "s' = spend q s" "p = score_limit s' e p'"
    using assms by (simp add: calculate_score_eq split: sum.splits prod.splits) blast
  have "s' = upd_entry q (\<lambda>e. e\<lparr>q_handicap := (if 4 \<le> q_handicap e then q_handicap e - 4
      else if q_handicap e \<noteq> 0 then q_handicap e - 1 else 0)\<rparr>) s"
    using r(1) by (simp add: upd_entry_def)
  then show ?thesis using score_limit_le [of s' e p'] score_limit_pos [of s' e p'] r by simp
qed


theorem calculate_score_bounds_witness:
  "\<exists>p s'. calculate_score (exact_dops id id id) 0 ex_score = Inr (p, s') \<and> 0 < p \<and> p \<le> 6400 \<and> q_handicap (entry s' 0) = 1"
proof -
  obtain p s' where r: "calculate_score (exact_dops id id id) 0 ex_score = Inr (p, s')"
    by (simp add: calculate_score_def score_schedule_def ex_score_def Let_def case_prod_unfold)
  from calculate_score_bounds [OF r] have "p \<le> 6400" "0 < p" "q_handicap (entry s' 0) = 1"
    by (simp_all add: ex_score_def ex_scored_def upd_entry_def)
  then show ?thesis using r by blast
qed

text \<open>Property C39. When no score is computed: an entry that was fuzzed and whose path was hit
  \<open>2 ^ 32 - 1\<close> times, where the counter saturates, makes the LIN and QUAD schedules divide by zero;
  the COE schedule stops when every entry is disabled; a schedule without a case stops.\<close>

theorem calculate_score_errors:
  "calculate_score D q s = Inl err \<longleftrightarrow>
     (err = Division_By_Zero \<and> (schedule s = LIN \<or> schedule s = QUAD) \<and> q_fuzz_level (entry s q) \<noteq> 0 \<and>
       n_fuzz s ! unat (q_n_fuzz_entry (entry s q)) = 2 ^ 32 - 1) \<or>
     (err = Score_Fatal ''Queue state corrupt'' \<and> schedule s = COE \<and> q_fuzz_level (entry s q) \<noteq> 0 \<and>
       list_all q_disabled (take (unat (queued_items s)) (queue_buf s))) \<or>
     (err = Score_Fatal ''Unknown Power Schedule'' \<and> SEEK < schedule s)"
  by (rule calculate_score_fails)

end
