(* ===== verification/Alias.thy ===== *)
theory Alias
  imports Score
begin

text \<open>
  The choice of the next queue entry in \<^verbatim>\<open>AFLplusplus/src/afl-fuzz-queue.c\<close>: the weights of the
  entries, the alias table built from them by Vose's method, and the draw from it. The two work
  lists share their representation with the code: \<open>Small\<close> is a stack that grows from the front of
  its array, \<open>Large\<close> one that grows from the back, whose 32-bit index wraps below 0; here it is
  the integer \<open>-1\<close> then.
\<close>

section \<open>Weights\<close>

definition weigh_time :: "'d dops \<Rightarrow> 'd \<Rightarrow> 'd \<Rightarrow> 'd" where
  "weigh_time D t w =
     (let lit = d_lit D in
      if d_less D t (lit (1/10)) then w
      else if d_leq D t (lit (1/4)) then d_mul D w (lit (95/100))
      else if d_leq D t (lit (1/2)) then w
      else if d_leq D t (lit (3/4)) then d_mul D w (lit (105/100))
      else if d_leq D t (lit 1) then d_mul D w (lit (11/10))
      else if d_less D t (lit (5/4)) then d_mul D w (lit (2/10))
      else if d_leq D t (lit (3/2)) then w
      else if d_leq D t (lit 2) then d_mul D w (lit (11/10))
      else if d_leq D t (lit (5/2)) then w
      else if d_leq D t (lit 5) then d_mul D w (lit (115/100))
      else if d_leq D t (lit 20) then d_mul D w (lit (11/10))
      else w)"

definition weigh_len :: "'d dops \<Rightarrow> 'd \<Rightarrow> 'd \<Rightarrow> 'd" where
  "weigh_len D l w =
     (let lit = d_lit D in
      if d_less D l (lit (1/10)) then d_mul D w (lit (1/2))
      else if d_leq D l (lit (1/2)) then w
      else if d_leq D l (lit (5/4)) then d_mul D w (lit (105/100))
      else if d_leq D l (lit (7/4)) then w
      else if d_leq D l (lit 2) then d_mul D w (lit (95/100))
      else if d_leq D l (lit 5) then w
      else if d_leq D l (lit 10) then d_mul D w (lit (105/100))
      else d_mul D w (lit (115/100)))"

definition weigh_bitmap :: "'d dops \<Rightarrow> 'd \<Rightarrow> 'd \<Rightarrow> 'd" where
  "weigh_bitmap D bms w =
     (let lit = d_lit D in
      if d_less D bms (lit (1/10)) then d_mul D w (lit (1/100))
      else if d_leq D bms (lit (1/4)) then d_mul D w (lit (55/100))
      else if d_leq D bms (lit (1/2)) then w
      else if d_leq D bms (lit (3/4)) then d_mul D w (lit (12/10))
      else if d_leq D bms (lit (5/4)) then d_mul D w (lit (13/10))
      else if d_leq D bms (lit (7/4)) then d_mul D w (lit (5/4))
      else if d_leq D bms (lit 2) then w
      else if d_leq D bms (lit (5/2)) then d_mul D w (lit (13/10))
      else d_mul D w (lit (3/4)))"

text \<open>The averages over the enabled entries.\<close>

record 'd averages =
  avg_exec_us :: 'd
  avg_bitmap_size :: 'd
  avg_len :: 'd

definition averages_of :: "'d dops \<Rightarrow> 'd queue_entry list \<Rightarrow> 'd averages" where
  "averages_of D es =
     (let es = filter (\<lambda>e. \<not> q_disabled e) es;
          active = d_lit D (of_nat (length es));
          total = (\<lambda>f. foldl (\<lambda>x e. d_add D x (f e)) (d_lit D 0) es)
      in \<lparr>avg_exec_us = d_div D (total (\<lambda>e. d_word D (q_exec_us e))) active,
          avg_bitmap_size = d_div D (total (\<lambda>e. d_log D (d_word D (q_bitmap_size e)))) active,
          avg_len = d_div D (total (\<lambda>e. d_word D (q_len e))) active\<rparr>)"

definition entry_weight :: "'d dops \<Rightarrow> 'd averages \<Rightarrow> ('d, 'a) score_state_scheme \<Rightarrow> 'd queue_entry \<Rightarrow> 'd" where
  "entry_weight D avg s e =
     (let w = d_lit D 1;
          hits = n_fuzz s ! unat (q_n_fuzz_entry e);
          w = (if FAST \<le> schedule s \<and> schedule s \<le> RARE \<and> hits \<noteq> 0
               then d_div D w (d_add D (d_log10 D (d_word D hits)) (d_lit D 1)) else w);
          w = (if schedule s < RARE then weigh_time D (d_div D (d_word D (q_exec_us e)) (avg_exec_us avg)) w else w);
          w = weigh_len D (d_div D (d_word D (q_len e)) (avg_len avg)) w;
          w = weigh_bitmap D (d_div D (d_word D (q_bitmap_size e)) (avg_bitmap_size avg)) w;
          w = (if q_was_fuzzed e then w else d_mul D w (d_lit D (5/2)))
      in if q_fs_redundant e then d_mul D w (d_lit D (3/4)) else w)"

text \<open>One entry of the weighting loops: the accumulated sum and the entry's fields.\<close>

definition weigh_entry ::
  "'d dops \<Rightarrow> 'd averages \<Rightarrow> nat \<Rightarrow> score_error + 'd \<times> ('d, 'a) score_state_scheme \<Rightarrow>
   score_error + 'd \<times> ('d, 'a) score_state_scheme" where
  "weigh_entry D avg i r = (case r of Inl err \<Rightarrow> Inl err | Inr (acc, s) \<Rightarrow>
     if q_disabled (entry s i) then Inr (acc, s)
     else (let s = upd_entry i (\<lambda>e. e\<lparr>q_weight := entry_weight D avg s e\<rparr>) s
           in case calculate_score D i s of
                Inl err \<Rightarrow> Inl err
              | Inr (p, s) \<Rightarrow>
                  (let s = upd_entry i (\<lambda>e. e\<lparr>q_perf_score := d_word D p\<rparr>) s
                   in Inr (d_add D acc (q_weight (entry s i)), s))))"

definition score_entry ::
  "'d dops \<Rightarrow> nat \<Rightarrow> score_error + 'd \<times> ('d, 'a) score_state_scheme \<Rightarrow> score_error + 'd \<times> ('d, 'a) score_state_scheme" where
  "score_entry D i r = (case r of Inl err \<Rightarrow> Inl err | Inr (acc, s) \<Rightarrow>
     if q_disabled (entry s i) then Inr (acc, s)
     else (case calculate_score D i s of
             Inl err \<Rightarrow> Inl err
           | Inr (p, s) \<Rightarrow>
               (let s = upd_entry i (\<lambda>e. e\<lparr>q_perf_score := d_word D p\<rparr>) s
                in Inr (d_add D acc (q_perf_score (entry s i)), s))))"

definition boost_latest :: "'d dops \<Rightarrow> ('d, 'a) score_state_scheme \<Rightarrow> ('d, 'a) score_state_scheme" where
  "boost_latest D s =
     (if schedule s = MMOPT \<and> queued_discovered s \<noteq> 0
      then (let cnt = (if 5 \<le> queued_discovered s then 5 else queued_discovered s)
            in fold (\<lambda>i s. if q_disabled (entry s i) then s
                           else upd_entry i (\<lambda>e. e\<lparr>q_weight := d_mul D (q_weight e) (d_lit D 2)\<rparr>) s)
                 [unat (queued_items s - cnt)..<unat (queued_items s)] s)
      else s)"

text \<open>The array \<^verbatim>\<open>P\<close> of the scaled weights.\<close>

definition scaled :: "'d dops \<Rightarrow> ('d queue_entry \<Rightarrow> 'd) \<Rightarrow> 'd \<Rightarrow> ('d, 'a) score_state_scheme \<Rightarrow> 'd list" where
  "scaled D f acc s =
     (let n = unat (queued_items s)
      in map (\<lambda>e. if q_disabled e then d_lit D 0
                  else d_div D (d_mul D (f e) (d_word D (queued_items s))) acc) (take n (queue_buf s)))"

definition weigh_all :: "'d dops \<Rightarrow> ('d, 'a) score_state_scheme \<Rightarrow> score_error + 'd list \<times> ('d, 'a) score_state_scheme" where
  "weigh_all D s =
     (let n = unat (queued_items s) in
      if schedule s < RARE then
        (case fold (weigh_entry D (averages_of D (take n (queue_buf s)))) [0..<n] (Inr (d_lit D 0, s)) of
           Inl err \<Rightarrow> Inl err
         | Inr (acc, s) \<Rightarrow> (let s = boost_latest D s in Inr (scaled D q_weight acc s, s)))
      else
        (case fold (score_entry D) [0..<n] (Inr (d_lit D 0, s)) of
           Inl err \<Rightarrow> Inl err
         | Inr (acc, s) \<Rightarrow> Inr (scaled D q_perf_score acc s, s)))"

section \<open>The alias table\<close>

record 'd vose =
  vP :: "'d list"
  Small :: "nat list"
  nSmall :: nat
  Large :: "nat list"
  nLarge :: int
  vprob :: "'d list"
  valias :: "nat list"

definition push_small :: "nat \<Rightarrow> 'd vose \<Rightarrow> 'd vose" where
  "push_small j v = v\<lparr>Small := (Small v)[nSmall v := j], nSmall := nSmall v + 1\<rparr>"

definition push_large :: "nat \<Rightarrow> 'd vose \<Rightarrow> 'd vose" where
  "push_large j v = v\<lparr>Large := (Large v)[nat (nLarge v) := j], nLarge := nLarge v - 1\<rparr>"

definition push :: "'d dops \<Rightarrow> nat \<Rightarrow> 'd vose \<Rightarrow> 'd vose" where
  "push D j v = (if d_less D (vP v ! j) (d_lit D 1) then push_small j v else push_large j v)"

definition pair_off :: "'d dops \<Rightarrow> 'd vose \<Rightarrow> 'd vose" where
  "pair_off D v =
     (let small = Small v ! (nSmall v - 1);
          large = Large v ! nat (nLarge v + 1);
          p = vP v ! small;
          v = v\<lparr>nSmall := nSmall v - 1, nLarge := nLarge v + 1,
                vprob := (vprob v)[small := p], valias := (valias v)[small := large],
                vP := (vP v)[large := d_sub D (vP v ! large) (d_sub D (d_lit D 1) p)]\<rparr>
      in push D large v)"

text \<open>The loops; \<open>n\<close> is the number of entries, and no loop runs more often than there are entries left.\<close>

function pair_loop :: "'d dops \<Rightarrow> nat \<Rightarrow> 'd vose \<Rightarrow> 'd vose" where
  "pair_loop D n v =
     (if nSmall v \<noteq> 0 \<and> nLarge v \<noteq> int n - 1 \<and> nLarge v < int n - 1 then pair_loop D n (pair_off D v) else v)"
  by pat_completeness auto
termination
  by (relation "measure (\<lambda>(D, n, v). nSmall v + nat (int n - 1 - nLarge v))")
    (auto simp: pair_off_def push_def push_small_def push_large_def Let_def)

declare pair_loop.simps [simp del]

fun drain_small :: "'d dops \<Rightarrow> nat \<Rightarrow> 'd vose \<Rightarrow> 'd vose" where
  "drain_small D 0 v = v"
| "drain_small D (Suc k) v = drain_small D k (v\<lparr>nSmall := k, vprob := (vprob v)[Small v ! k := d_lit D 1]\<rparr>)"

fun drain_large :: "'d dops \<Rightarrow> nat \<Rightarrow> 'd vose \<Rightarrow> 'd vose" where
  "drain_large D 0 v = v"
| "drain_large D (Suc k) v =
     drain_large D k (v\<lparr>nLarge := nLarge v + 1, vprob := (vprob v)[Large v ! nat (nLarge v + 1) := d_lit D 1]\<rparr>)"

definition vose_start :: "'d dops \<Rightarrow> 'd list \<Rightarrow> 'd vose" where
  "vose_start D P =
     (let n = length P
      in fold (push D) (rev [0..<n])
           \<lparr>vP = P, Small = replicate n 0, nSmall = 0, Large = replicate n 0, nLarge = int n - 1,
            vprob = replicate n (d_lit D 0), valias = replicate n 0\<rparr>)"

definition vose_table :: "'d dops \<Rightarrow> 'd list \<Rightarrow> 'd vose" where
  "vose_table D P =
     (let n = length P;
          v = pair_loop D n (vose_start D P);
          v = drain_small D (nSmall v) v
      in drain_large D (nat (int n - 1 - nLarge v)) v)"

definition create_alias_table :: "'d dops \<Rightarrow> ('d, 'a) score_state_scheme \<Rightarrow> score_error + ('d, 'a) score_state_scheme" where
  "create_alias_table D s =
     (case weigh_all D s of
        Inl err \<Rightarrow> Inl err
      | Inr (P, s) \<Rightarrow>
          (let v = vose_table D P
           in Inr (s\<lparr>alias_probability := vprob v, alias_table := valias v, reinit_table := False\<rparr>)))"

text \<open>\<open>s_draw\<close> comes from \<^verbatim>\<open>rand_below(queued_items)\<close>, \<open>p_draw\<close> from \<^verbatim>\<open>rand_next_percent\<close>.\<close>

definition select_next_queue_entry :: "'d dops \<Rightarrow> nat \<Rightarrow> 'd \<Rightarrow> ('d, 'a) score_state_scheme \<Rightarrow> nat" where
  "select_next_queue_entry D s_draw p_draw s =
     (if d_less D p_draw (alias_probability s ! s_draw) then s_draw else alias_table s ! s_draw)"

end
