(* ===== verification/Alias_Props.thy ===== *)
theory Alias_Props
  imports Alias
begin

text \<open>
  The alias table: for every floating-point arithmetic the work lists stay inside their arrays and
  every alias is the index of an entry; for exact arithmetic an entry is drawn with a
  probability proportional to its weight.
\<close>

section \<open>The work lists as lists\<close>

definition smalls :: "'d vose \<Rightarrow> nat list" where
  "smalls v = take (nSmall v) (Small v)"

definition larges :: "'d vose \<Rightarrow> nat list" where
  "larges v = drop (nat (nLarge v + 1)) (Large v)"

definition vose_ok :: "nat \<Rightarrow> 'd vose \<Rightarrow> bool" where
  "vose_ok n v \<longleftrightarrow> length (vP v) = n \<and> length (Small v) = n \<and> length (Large v) = n \<and> length (vprob v) = n \<and>
     length (valias v) = n \<and> nSmall v \<le> n \<and> - 1 \<le> nLarge v \<and> nLarge v < int n \<and>
     distinct (smalls v @ larges v) \<and> set (smalls v @ larges v) \<subseteq> {..<n} \<and> (\<forall>i < n. valias v ! i < n)"

lemma vose_ok_counts:
  assumes "vose_ok n v"
  shows "length (smalls v) = nSmall v" "int (length (larges v)) = int n - 1 - nLarge v"
    "nSmall v + length (larges v) = card (set (smalls v @ larges v))"
proof -
  show 1: "length (smalls v) = nSmall v" "int (length (larges v)) = int n - 1 - nLarge v"
    using assms by (auto simp: vose_ok_def smalls_def larges_def)
  show "nSmall v + length (larges v) = card (set (smalls v @ larges v))"
    using distinct_card [of "smalls v @ larges v"] assms 1(1) by (simp add: vose_ok_def)
qed

text \<open>Pushing an index that is in neither list.\<close>

lemma push_lists:
  assumes "vose_ok n v" "j < n" "j \<notin> set (smalls v @ larges v)"
  shows "vose_ok n (push D j v)"
    "smalls (push D j v) = (if d_less D (vP v ! j) (d_lit D 1) then smalls v @ [j] else smalls v)"
    "larges (push D j v) = (if d_less D (vP v ! j) (d_lit D 1) then larges v else j # larges v)"
    "vP (push D j v) = vP v" "vprob (push D j v) = vprob v" "valias (push D j v) = valias v"
proof -
  note c = vose_ok_counts [OF assms(1)]
  have "insert j (set (smalls v @ larges v)) \<subseteq> {..<n}" using assms(1,2) by (auto simp: vose_ok_def)
  then have "card (insert j (set (smalls v @ larges v))) \<le> n" using card_mono [of "{..<n}"] by fastforce
  then have room: "nSmall v < n" "0 \<le> nLarge v" using c assms(3) by simp_all
  have len: "length (Small v) = n" "length (Large v) = n" "nLarge v < int n" using assms(1) by (simp_all add: vose_ok_def)
  show s: "smalls (push D j v) = (if d_less D (vP v ! j) (d_lit D 1) then smalls v @ [j] else smalls v)"
    using room(1) len(1)
    by (simp add: push_def push_small_def push_large_def smalls_def take_Suc_conv_app_nth)
  have "drop (nat (nLarge v)) ((Large v)[nat (nLarge v) := j]) = j # drop (nat (nLarge v + 1)) (Large v)"
    using room(2) len(2,3) Cons_nth_drop_Suc [of "nat (nLarge v)" "(Large v)[nat (nLarge v) := j]"]
    by (simp add: nat_add_distrib)
  then show l: "larges (push D j v) = (if d_less D (vP v ! j) (d_lit D 1) then larges v else j # larges v)"
    by (simp add: push_def push_small_def push_large_def larges_def)
  show f: "vP (push D j v) = vP v" "vprob (push D j v) = vprob v" "valias (push D j v) = valias v"
    by (simp_all add: push_def push_small_def push_large_def)
  show "vose_ok n (push D j v)"
    using assms room s l f unfolding vose_ok_def
    by (auto simp: push_def push_small_def push_large_def)
qed

lemma pair_off_lists:
  assumes "vose_ok n v" "nSmall v \<noteq> 0" "nLarge v < int n - 1"
  obtains ss a b ls where "smalls v = ss @ [a]" "larges v = b # ls" "a < n" "b < n" "a \<noteq> b"
    "vose_ok n (pair_off D v)"
    "vP (pair_off D v) = (vP v)[b := d_sub D (vP v ! b) (d_sub D (d_lit D 1) (vP v ! a))]"
    "vprob (pair_off D v) = (vprob v)[a := vP v ! a]" "valias (pair_off D v) = (valias v)[a := b]"
    "smalls (pair_off D v) = (if d_less D (vP (pair_off D v) ! b) (d_lit D 1) then ss @ [b] else ss)"
    "larges (pair_off D v) = (if d_less D (vP (pair_off D v) ! b) (d_lit D 1) then ls else b # ls)"
proof -
  note c = vose_ok_counts [OF assms(1)]
  let ?a = "Small v ! (nSmall v - 1)" and ?b = "Large v ! nat (nLarge v + 1)"
  define w where "w = v\<lparr>nSmall := nSmall v - 1, nLarge := nLarge v + 1,
    vprob := (vprob v)[?a := vP v ! ?a], valias := (valias v)[?a := ?b],
    vP := (vP v)[?b := d_sub D (vP v ! ?b) (d_sub D (d_lit D 1) (vP v ! ?a))]\<rparr>"
  have w: "pair_off D v = push D ?b w" by (simp add: pair_off_def w_def Let_def)
  have ok: "length (Small v) = n" "length (Large v) = n" "nSmall v \<le> n" "- 1 \<le> nLarge v" "nLarge v < int n"
    "distinct (smalls v @ larges v)" "set (smalls v @ larges v) \<subseteq> {..<n}" using assms(1) by (simp_all add: vose_ok_def)
  have s: "smalls v = smalls w @ [?a]"
    using ok(1,3) assms(2) take_Suc_conv_app_nth [of "nSmall v - 1" "Small v"] by (simp add: smalls_def w_def)
  have l: "larges v = ?b # larges w"
    using ok(2,4) assms(3) Cons_nth_drop_Suc [of "nat (nLarge v + 1)" "Large v"]
    by (simp add: larges_def w_def nat_add_distrib [symmetric]) (simp add: Suc_nat_eq_nat_zadd1 add.assoc)
  have b: "?a < n" "?b < n" "?a \<noteq> ?b" "?b \<notin> set (smalls w @ larges w)" using ok(6,7) s l by auto
  have "vose_ok n w"
    using assms ok s l b(2) by (auto simp: vose_ok_def w_def nth_list_update)
  note p = push_lists [OF this b(2,4), of D]
  show thesis
    by (rule that [of "smalls w" ?a ?b "larges w"]) (use s l b p in \<open>simp_all add: w, simp_all add: w_def\<close>)
qed

section \<open>The loops\<close>

definition sorted_out :: "'d dops \<Rightarrow> 'd vose \<Rightarrow> bool" where
  "sorted_out D v \<longleftrightarrow> (\<forall>i \<in> set (smalls v). d_less D (vP v ! i) (d_lit D 1)) \<and>
     (\<forall>i \<in> set (larges v). \<not> d_less D (vP v ! i) (d_lit D 1))"

lemma fold_push:
  assumes "vose_ok n v" "sorted_out D v" "distinct js" "set js \<subseteq> {..<n}" "set js \<inter> set (smalls v @ larges v) = {}"
  shows "vose_ok n (fold (push D) js v) \<and> sorted_out D (fold (push D) js v) \<and>
    set (smalls (fold (push D) js v) @ larges (fold (push D) js v)) = set js \<union> set (smalls v @ larges v) \<and>
    vP (fold (push D) js v) = vP v \<and> vprob (fold (push D) js v) = vprob v \<and> valias (fold (push D) js v) = valias v"
  using assms
proof (induction js arbitrary: v)
  case (Cons j js)
  have p: "vose_ok n (push D j v)"
    "smalls (push D j v) = (if d_less D (vP v ! j) (d_lit D 1) then smalls v @ [j] else smalls v)"
    "larges (push D j v) = (if d_less D (vP v ! j) (d_lit D 1) then larges v else j # larges v)"
    "vP (push D j v) = vP v" "vprob (push D j v) = vprob v" "valias (push D j v) = valias v"
    using push_lists [of n v j D] Cons.prems by simp_all
  have "sorted_out D (push D j v)" using Cons.prems(2) p(2-4) by (auto simp: sorted_out_def)
  moreover have "set (smalls (push D j v) @ larges (push D j v)) = insert j (set (smalls v @ larges v))" using p(2,3) by auto
  ultimately show ?case using Cons.IH [OF p(1)] Cons.prems p(4-6) by auto
qed simp

lemma vose_start_ok:
  fixes P :: "'d list"
  shows "vose_ok (length P) (vose_start D P) \<and> sorted_out D (vose_start D P) \<and>
    set (smalls (vose_start D P) @ larges (vose_start D P)) = {..<length P} \<and> vP (vose_start D P) = P"
proof -
  let ?n = "length P"
  let ?v = "\<lparr>vP = P, Small = replicate ?n 0, nSmall = 0, Large = replicate ?n 0, nLarge = int ?n - 1,
    vprob = replicate ?n (d_lit D 0), valias = replicate ?n 0\<rparr>"
  have "smalls ?v = []" "larges ?v = []" by (simp_all add: smalls_def larges_def)
  then have "vose_ok ?n ?v" "sorted_out D ?v" by (auto simp: vose_ok_def sorted_out_def)
  from fold_push [OF this, of "rev [0..<?n]"] \<open>smalls ?v = []\<close> \<open>larges ?v = []\<close>
  show ?thesis by (simp add: vose_start_def Let_def atLeast0LessThan)
qed

lemma pair_loop_rule:
  assumes "vose_ok n v" "I v"
    "\<And>v. vose_ok n v \<Longrightarrow> nSmall v \<noteq> 0 \<Longrightarrow> nLarge v < int n - 1 \<Longrightarrow> I v \<Longrightarrow> I (pair_off D v)"
  shows "vose_ok n (pair_loop D n v) \<and> I (pair_loop D n v) \<and>
    (smalls (pair_loop D n v) = [] \<or> larges (pair_loop D n v) = [])"
  using assms(1,2)
proof (induction "nSmall v + nat (int n - 1 - nLarge v)" arbitrary: v rule: less_induct)
  case less
  show ?case
  proof (cases "nSmall v \<noteq> 0 \<and> nLarge v < int n - 1")
    case True
    then have more: "nSmall v \<noteq> 0" "nLarge v < int n - 1" by simp_all
    have p3: "vose_ok n (pair_off D v)" by (rule pair_off_lists [OF less.prems(1) more, of D])
    have "length (smalls (pair_off D v)) + length (larges (pair_off D v)) < length (smalls v) + length (larges v)"
      by (rule pair_off_lists [OF less.prems(1) more, of D]) simp
    then have "nSmall (pair_off D v) + nat (int n - 1 - nLarge (pair_off D v)) < nSmall v + nat (int n - 1 - nLarge v)"
      by (simp only: vose_ok_counts(1) [symmetric, OF less.prems(1)] vose_ok_counts(2) [symmetric, OF less.prems(1)]
        vose_ok_counts(1) [symmetric, OF p3] vose_ok_counts(2) [symmetric, OF p3] nat_int)
    moreover have "pair_loop D n v = pair_loop D n (pair_off D v)" using True by (subst pair_loop.simps) simp
    ultimately show ?thesis using less.hyps [of "pair_off D v"] p3 assms(3) [OF less.prems(1) _ _ less.prems(2)] True by simp
  next
    case False
    then have "pair_loop D n v = v" by (subst pair_loop.simps) auto
    moreover have "nSmall v = 0 \<or> nLarge v = int n - 1" using False less.prems(1) by (auto simp: vose_ok_def)
    then have "smalls v = [] \<or> larges v = []" using vose_ok_counts [OF less.prems(1)] by auto
    ultimately show ?thesis using less.prems by simp
  qed
qed

lemma drain_small_prob:
  "k \<le> length (Small v) \<Longrightarrow> vprob (drain_small D k v) = map (\<lambda>i. if i \<in> set (take k (Small v)) then d_lit D 1 else vprob v ! i) [0..<length (vprob v)] \<and>
     larges (drain_small D k v) = larges v \<and> Large (drain_small D k v) = Large v \<and> nLarge (drain_small D k v) = nLarge v \<and>
     valias (drain_small D k v) = valias v"
proof (induction k arbitrary: v)
  case 0
  then show ?case by (simp add: map_nth)
next
  case (Suc k)
  let ?w = "v\<lparr>nSmall := k, vprob := (vprob v)[Small v ! k := d_lit D 1]\<rparr>"
  have "vprob (drain_small D k ?w) = map (\<lambda>i. if i \<in> set (take k (Small v)) then d_lit D 1 else vprob ?w ! i) [0..<length (vprob v)]"
    using Suc.IH [of ?w] Suc.prems by simp
  then show ?case using Suc.IH [of ?w] Suc.prems
    by (auto simp: take_Suc_conv_app_nth nth_list_update larges_def)
qed

lemma drain_large_prob:
  "0 \<le> nLarge v + 1 \<Longrightarrow> nLarge v + 1 + int k \<le> int (length (Large v)) \<Longrightarrow>
   vprob (drain_large D k v) = map (\<lambda>i. if i \<in> set (take k (larges v)) then d_lit D 1 else vprob v ! i) [0..<length (vprob v)] \<and>
     valias (drain_large D k v) = valias v"
proof (induction k arbitrary: v)
  case 0
  then show ?case by (simp add: map_nth)
next
  case (Suc k)
  let ?b = "Large v ! nat (nLarge v + 1)"
  let ?w = "v\<lparr>nLarge := nLarge v + 1, vprob := (vprob v)[?b := d_lit D 1]\<rparr>"
  have "larges v = ?b # larges ?w"
    using Suc.prems Cons_nth_drop_Suc [of "nat (nLarge v + 1)" "Large v"]
    by (simp add: larges_def Suc_nat_eq_nat_zadd1 ac_simps)
  moreover have "vprob (drain_large D k ?w) = map (\<lambda>i. if i \<in> set (take k (larges ?w)) then d_lit D 1 else vprob ?w ! i) [0..<length (vprob v)]"
    "valias (drain_large D k ?w) = valias v"
    using Suc.IH [of ?w] Suc.prems by simp_all
  ultimately show ?case by (auto simp: nth_list_update)
qed

lemma vose_table_drained:
  fixes P :: "'d list" and D :: "'d dops"
  defines "n \<equiv> length P" and "w \<equiv> pair_loop D (length P) (vose_start D P)"
  assumes "vose_ok n w"
  shows "vprob (vose_table D P) = map (\<lambda>i. if i \<in> set (smalls w @ larges w) then d_lit D 1 else vprob w ! i) [0..<n]"
    "valias (vose_table D P) = valias w"
proof -
  have ok: "nSmall w \<le> length (Small w)" "length (vprob w) = n" "length (Large w) = n" "- 1 \<le> nLarge w" "nLarge w < int n"
    using assms(3) by (simp_all add: vose_ok_def)
  let ?u = "drain_small D (nSmall w) w"
  note u = drain_small_prob [OF ok(1), of D]
  have k: "take (nat (int n - 1 - nLarge w)) (larges w) = larges w" "nLarge w + 1 + int (nat (int n - 1 - nLarge w)) \<le> int n"
    using vose_ok_counts(2) [OF assms(3)] ok(5) by simp_all
  have t: "vose_table D P = drain_large D (nat (int n - 1 - nLarge w)) ?u"
    using u by (simp add: vose_table_def n_def w_def Let_def)
  have "vprob (vose_table D P) = map (\<lambda>i. if i \<in> set (take (nat (int n - 1 - nLarge w)) (larges ?u)) then d_lit D 1 else vprob ?u ! i) [0..<length (vprob ?u)] \<and>
     valias (vose_table D P) = valias ?u"
    unfolding t by (rule drain_large_prob) (use u ok k in auto)
  then show "vprob (vose_table D P) = map (\<lambda>i. if i \<in> set (smalls w @ larges w) then d_lit D 1 else vprob w ! i) [0..<n]"
    "valias (vose_table D P) = valias w"
    using u k(1) ok(2) by (auto simp: smalls_def)
qed

lemma vose_table_indices:
  "length (vprob (vose_table D P)) = length P \<and> length (valias (vose_table D P)) = length P \<and>
   (\<forall>i < length P. valias (vose_table D P) ! i < length P)"
proof -
  have "vose_ok (length P) (pair_loop D (length P) (vose_start D P))"
    using pair_loop_rule [of "length P" "vose_start D P" "\<lambda>_. True" D] vose_start_ok [of P D] by simp
  from vose_table_drained [OF this] this show ?thesis by (simp add: vose_ok_def)
qed

section \<open>Exact arithmetic\<close>

text \<open>
  What an index has been given so far: its own share, plus what the indices that are done leave
  to it. Indices in a work list still own all of their (adjusted) weight.
\<close>

abbreviation alive :: "'d vose \<Rightarrow> nat set" where
  "alive v \<equiv> set (smalls v @ larges v)"

definition share :: "nat \<Rightarrow> rat vose \<Rightarrow> nat \<Rightarrow> rat" where
  "share n v i = (if i \<in> alive v then vP v ! i else vprob v ! i) +
     (\<Sum>j \<in> {..<n} - alive v. if valias v ! j = i then 1 - vprob v ! j else 0)"

definition balanced :: "rat list \<Rightarrow> rat vose \<Rightarrow> bool" where
  "balanced P v \<longleftrightarrow> (\<forall>i < length P. share (length P) v i = P ! i) \<and> (\<Sum>i \<in> alive v. vP v ! i) = of_nat (card (alive v))"

lemma pair_off_sorted_out:
  assumes "vose_ok n v" "nSmall v \<noteq> 0" "nLarge v < int n - 1" "sorted_out D v"
  shows "sorted_out D (pair_off D v)"
proof (rule pair_off_lists [OF assms(1-3), of D])
  fix ss a b ls
  assume p: "smalls v = ss @ [a]" "larges v = b # ls" "b < n"
    "vP (pair_off D v) = (vP v)[b := d_sub D (vP v ! b) (d_sub D (d_lit D 1) (vP v ! a))]"
    "smalls (pair_off D v) = (if d_less D (vP (pair_off D v) ! b) (d_lit D 1) then ss @ [b] else ss)"
    "larges (pair_off D v) = (if d_less D (vP (pair_off D v) ! b) (d_lit D 1) then ls else b # ls)"
  have "distinct (smalls v @ larges v)" using assms(1) by (simp add: vose_ok_def)
  then have ne: "i \<noteq> b" if "i \<in> set ss \<union> set ls" for i using that p(1,2) by auto
  have "d_less D (vP (pair_off D v) ! i) (d_lit D 1)" if "i \<in> set ss" for i
    using assms(4) p(1,4) that ne [of i] by (simp add: sorted_out_def)
  moreover have "\<not> d_less D (vP (pair_off D v) ! i) (d_lit D 1)" if "i \<in> set ls" for i
    using assms(4) p(2,4) that ne [of i] by (simp add: sorted_out_def)
  ultimately show ?thesis using p(5,6) by (auto simp: sorted_out_def)
qed

lemma pair_off_balanced:
  fixes ln2 lb lg :: "rat \<Rightarrow> rat"
  defines "D \<equiv> exact_dops ln2 lb lg"
  assumes "vose_ok (length P) v" "nSmall v \<noteq> 0" "nLarge v < int (length P) - 1" "balanced P v \<and> sorted_out D v"
  shows "balanced P (pair_off D v) \<and> sorted_out D (pair_off D v)"
proof -
  let ?n = "length P" and ?w = "pair_off D v"
  have D: "d_sub D = (-)" "d_lit D = (\<lambda>x. x)" "d_less D = (<)" by (simp_all add: D_def exact_dops_def)
  obtain ss a b ls where p: "smalls v = ss @ [a]" "larges v = b # ls" "a < ?n" "b < ?n" "a \<noteq> b" "vose_ok ?n ?w"
    "vP ?w = (vP v)[b := d_sub D (vP v ! b) (d_sub D (d_lit D 1) (vP v ! a))]"
    "vprob ?w = (vprob v)[a := vP v ! a]" "valias ?w = (valias v)[a := b]"
    "smalls ?w = (if d_less D (vP ?w ! b) (d_lit D 1) then ss @ [b] else ss)"
    "larges ?w = (if d_less D (vP ?w ! b) (d_lit D 1) then ls else b # ls)"
    by (rule pair_off_lists [OF assms(2-4), of D])
  have len: "length (vP v) = ?n" "length (vprob v) = ?n" "length (valias v) = ?n" and dis: "distinct (smalls v @ larges v)"
    and sub: "alive v \<subseteq> {..<?n}" using assms(2) by (simp_all add: vose_ok_def)
  have al: "alive v = insert a (alive ?w)" "a \<notin> alive ?w" "a \<in> alive v" "b \<in> alive ?w" using p dis by auto
  have P': "vP ?w ! b = vP v ! b - (1 - vP v ! a)" "\<And>i. i \<noteq> b \<Longrightarrow> vP ?w ! i = vP v ! i"
    using p(4,7) len(1) by (simp_all add: D)
  have so: "sorted_out D ?w" using pair_off_sorted_out [OF assms(2-4)] assms(5) by simp
  have done_w: "{..<?n} - alive ?w = insert a ({..<?n} - alive v)" using al sub p(3) by auto
  have "share ?n ?w i = share ?n v i" for i
  proof -
    have "(\<Sum>j \<in> {..<?n} - alive ?w. if valias ?w ! j = i then 1 - vprob ?w ! j else 0) =
      (if b = i then 1 - vP v ! a else 0) + (\<Sum>j \<in> {..<?n} - alive v. if valias ?w ! j = i then 1 - vprob ?w ! j else 0)"
      unfolding done_w using al(3) p(3,8,9) len by simp
    also have "(\<Sum>j \<in> {..<?n} - alive v. if valias ?w ! j = i then 1 - vprob ?w ! j else 0) =
        (\<Sum>j \<in> {..<?n} - alive v. if valias v ! j = i then 1 - vprob v ! j else 0)"
    proof (rule sum.cong [OF refl])
      fix j
      assume "j \<in> {..<?n} - alive v"
      then have "j \<noteq> a" using al(3) by blast
      then show "(if valias ?w ! j = i then 1 - vprob ?w ! j else 0) = (if valias v ! j = i then 1 - vprob v ! j else 0)"
        using p(8,9) by simp
    qed
    finally have rest: "(\<Sum>j \<in> {..<?n} - alive ?w. if valias ?w ! j = i then 1 - vprob ?w ! j else 0) =
      (if b = i then 1 - vP v ! a else 0) + (\<Sum>j \<in> {..<?n} - alive v. if valias v ! j = i then 1 - vprob v ! j else 0)" .
    have own: "(if i \<in> alive ?w then vP ?w ! i else vprob ?w ! i) + (if b = i then 1 - vP v ! a else 0) =
      (if i \<in> alive v then vP v ! i else vprob v ! i)"
      using al P' p(3,5,8) len(2) by (cases "i = a"; cases "i = b") (auto simp: nth_list_update)
    show ?thesis unfolding share_def rest own [symmetric] by simp
  qed
  moreover have "(\<Sum>i \<in> alive ?w. vP ?w ! i) = of_nat (card (alive ?w))"
  proof -
    have "(\<Sum>i \<in> alive ?w. vP ?w ! i) = vP ?w ! b + (\<Sum>i \<in> alive ?w - {b}. vP ?w ! i)"
      using al(4) by (intro sum.remove) simp_all
    also have "(\<Sum>i \<in> alive ?w - {b}. vP ?w ! i) = (\<Sum>i \<in> alive ?w - {b}. vP v ! i)"
      using P'(2) by (intro sum.cong) auto
    also have "vP ?w ! b + (\<Sum>i \<in> alive ?w - {b}. vP v ! i) = (\<Sum>i \<in> alive ?w. vP v ! i) - (1 - vP v ! a)"
      using P'(1) sum.remove [of "alive ?w" b "\<lambda>i. vP v ! i"] al(4) by simp
    also have "\<dots> = (\<Sum>i \<in> alive v. vP v ! i) - 1" unfolding al(1) using al(2) by simp
    also have "\<dots> = of_nat (card (alive v)) - 1" using assms(5) by (simp add: balanced_def)
    also have "\<dots> = of_nat (card (alive ?w))" unfolding al(1) using al(2) by simp
    finally show ?thesis .
  qed
  ultimately show ?thesis using assms(5) so by (simp add: balanced_def)
qed

lemma balanced_end:
  fixes ln2 lb lg :: "rat \<Rightarrow> rat"
  defines "D \<equiv> exact_dops ln2 lb lg"
  assumes "balanced P v" "sorted_out D v" "smalls v = [] \<or> larges v = []" "i \<in> alive v"
  shows "vP v ! i = 1"
proof -
  have D: "d_lit D = (\<lambda>x. x)" "d_less D = (<)" by (simp_all add: D_def exact_dops_def)
  have s: "(\<Sum>i \<in> alive v. vP v ! i) = (\<Sum>i \<in> alive v. 1)" using assms(2) by (simp add: balanced_def)
  show ?thesis
  proof (cases "smalls v = []")
    case True
    then have "\<forall>i \<in> alive v. 1 \<le> vP v ! i" using assms(3) by (auto simp: sorted_out_def D not_less)
    then have "(\<Sum>i \<in> alive v. vP v ! i - 1) = 0" "\<forall>i \<in> alive v. 0 \<le> vP v ! i - 1" using s by (simp_all add: sum_subtractf)
    then show ?thesis using sum_nonneg_eq_0_iff [of "alive v" "\<lambda>i. vP v ! i - 1"] assms(5) by simp
  next
    case False
    then have "\<forall>i \<in> alive v. vP v ! i < 1" using assms(3,4) by (auto simp: sorted_out_def D)
    then have "(\<Sum>i \<in> alive v. vP v ! i) < (\<Sum>i \<in> alive v. 1)" using assms(5) by (intro sum_strict_mono) auto
    then show ?thesis using s by simp
  qed
qed

text \<open>How often, out of \<open>n\<close> draws of a slot, an index comes out of a table.\<close>

definition chance :: "rat list \<Rightarrow> nat list \<Rightarrow> nat \<Rightarrow> rat" where
  "chance prob tab i = prob ! i + (\<Sum>j < length prob. if tab ! j = i then 1 - prob ! j else 0)"

lemma vose_table_exact:
  assumes "sum_list P = of_nat (length P)" "i < length P"
  shows "chance (vprob (vose_table (exact_dops ln2 lb lg) P)) (valias (vose_table (exact_dops ln2 lb lg) P)) i = P ! i"
proof -
  let ?D = "exact_dops ln2 lb lg" and ?n = "length P"
  define w where "w = pair_loop ?D ?n (vose_start ?D P)"
  have st: "vose_ok ?n (vose_start ?D P)" "sorted_out ?D (vose_start ?D P)" "alive (vose_start ?D P) = {..<?n}"
    "vP (vose_start ?D P) = P" using vose_start_ok [of P ?D] by simp_all
  have "balanced P (vose_start ?D P)"
    using assms(1) st(3,4) by (simp add: balanced_def share_def sum_list_sum_nth atLeast0LessThan)
  then have w: "vose_ok ?n w" "balanced P w" "sorted_out ?D w" "smalls w = [] \<or> larges w = []"
    using pair_loop_rule [of ?n "vose_start ?D P" "\<lambda>v. balanced P v \<and> sorted_out ?D v" ?D] st pair_off_balanced
    by (simp_all add: w_def)
  have sub: "alive w \<subseteq> {..<?n}" using w(1) by (simp add: vose_ok_def)
  have prob: "vprob (vose_table ?D P) ! j = (if j \<in> alive w then 1 else vprob w ! j)" if "j < ?n" for j
    using vose_table_drained(1) [of P ?D] w(1) that by (simp add: w_def exact_dops_def)
  have al: "valias (vose_table ?D P) = valias w" using vose_table_drained(2) [of P ?D] w(1) by (simp add: w_def)
  have "(\<Sum>j < ?n. if valias w ! j = i then 1 - vprob (vose_table ?D P) ! j else 0) =
      (\<Sum>j \<in> {..<?n} - alive w. if valias w ! j = i then 1 - vprob w ! j else 0)"
    using prob sub by (intro sum.mono_neutral_cong_right) auto
  moreover have "vprob (vose_table ?D P) ! i = (if i \<in> alive w then vP w ! i else vprob w ! i)"
    using prob [OF assms(2)] balanced_end [OF w(2,3,4)] by simp
  ultimately have "chance (vprob (vose_table ?D P)) (valias (vose_table ?D P)) i = share ?n w i"
    using vose_table_indices [of ?D P] by (simp add: chance_def share_def al)
  then show ?thesis using w(2) assms(2) by (simp add: balanced_def)
qed


section \<open>Probabilities\<close>

definition in_range :: "rat vose \<Rightarrow> bool" where
  "in_range v \<longleftrightarrow> (\<forall>x \<in> set (vP v). 0 \<le> x) \<and> (\<forall>x \<in> set (vprob v). 0 \<le> x \<and> x \<le> 1)"

lemma set_update_ball: "\<forall>x \<in> set xs. Q x \<Longrightarrow> Q y \<Longrightarrow> \<forall>x \<in> set (xs[i := y]). Q x"
  using set_update_subset_insert [of xs i y] by auto

lemma pair_off_in_range:
  fixes ln2 lb lg :: "rat \<Rightarrow> rat"
  defines "D \<equiv> exact_dops ln2 lb lg"
  assumes "vose_ok n v" "nSmall v \<noteq> 0" "nLarge v < int n - 1" "in_range v" "sorted_out D v"
  shows "in_range (pair_off D v)"
proof (rule pair_off_lists [OF assms(2-4), of D])
  fix ss a b ls
  have D: "d_sub D = (-)" "d_lit D = (\<lambda>x. x)" "d_less D = (<)" by (simp_all add: D_def exact_dops_def)
  assume p: "smalls v = ss @ [a]" "larges v = b # ls" "a < n" "b < n"
    "vP (pair_off D v) = (vP v)[b := d_sub D (vP v ! b) (d_sub D (d_lit D 1) (vP v ! a))]"
    "vprob (pair_off D v) = (vprob v)[a := vP v ! a]"
  have "vP v ! a < 1" "1 \<le> vP v ! b" using assms(6) p(1,2) by (auto simp: sorted_out_def D)
  moreover have "0 \<le> vP v ! a" using assms(2,5) p(3) by (simp add: vose_ok_def in_range_def)
  ultimately show ?thesis
    using assms(5) unfolding in_range_def p(5,6) D by (intro conjI set_update_ball) simp_all
qed

lemma push_in_range: "in_range v \<Longrightarrow> in_range (push D j v)"
  by (simp add: in_range_def push_def push_small_def push_large_def)

lemma fold_push_in_range: "in_range v \<Longrightarrow> in_range (fold (push D) js v)"
  by (induction js arbitrary: v) (simp_all add: push_in_range)

lemma vose_table_in_range:
  assumes "\<forall>x \<in> set P. 0 \<le> x"
  shows "\<forall>x \<in> set (vprob (vose_table (exact_dops ln2 lb lg) P)). 0 \<le> x \<and> x \<le> 1"
proof -
  let ?D = "exact_dops ln2 lb lg" and ?n = "length P"
  have st: "vose_ok ?n (vose_start ?D P)" "sorted_out ?D (vose_start ?D P)" using vose_start_ok [of P ?D] by simp_all
  have r: "in_range (vose_start ?D P)"
    unfolding vose_start_def Let_def
    by (rule fold_push_in_range) (simp add: assms in_range_def exact_dops_def)
  have so: "sorted_out ?D (pair_off ?D v)" if "vose_ok ?n v" "nSmall v \<noteq> 0" "nLarge v < int ?n - 1" "sorted_out ?D v" for v
    using pair_off_sorted_out [OF that] .
  have w: "vose_ok ?n (pair_loop ?D ?n (vose_start ?D P))" "in_range (pair_loop ?D ?n (vose_start ?D P))"
    using pair_loop_rule [of ?n "vose_start ?D P" "\<lambda>v. in_range v \<and> sorted_out ?D v" ?D] st r pair_off_in_range so by simp_all
  then have "0 \<le> vprob (pair_loop ?D ?n (vose_start ?D P)) ! i \<and> vprob (pair_loop ?D ?n (vose_start ?D P)) ! i \<le> 1" if "i < ?n" for i
    using that by (simp add: in_range_def vose_ok_def)
  then show ?thesis unfolding vose_table_drained(1) [OF w(1)] by (auto simp: exact_dops_def)
qed

section \<open>Weights\<close>

text \<open>What the weighting loops leave alone.\<close>

definition same_queue :: "('d, 'a) score_state_scheme \<Rightarrow> ('d, 'a) score_state_scheme \<Rightarrow> bool" where
  "same_queue s t \<longleftrightarrow> queued_items t = queued_items s \<and> schedule t = schedule s \<and> queued_discovered t = queued_discovered s \<and>
     n_fuzz t = n_fuzz s \<and> length (queue_buf t) = length (queue_buf s) \<and> (\<forall>i. q_disabled (entry t i) = q_disabled (entry s i))"

lemma same_queue_refl [simp]: "same_queue s s"
  by (simp add: same_queue_def)

lemma same_queue_trans: "same_queue s t \<Longrightarrow> same_queue t u \<Longrightarrow> same_queue s u"
  by (simp add: same_queue_def)

lemma same_queue_upd: "(\<And>e. q_disabled (f e) = q_disabled e) \<Longrightarrow> same_queue s (upd_entry i f s)"
  by (cases "i < length (queue_buf s)") (auto simp: same_queue_def upd_entry_def nth_list_update list_update_beyond)

lemma calculate_score_same:
  assumes "calculate_score D q s = Inr (p, s')"
  shows "same_queue s s'" "i \<noteq> q \<Longrightarrow> entry s' i = entry s i" "q_weight (entry s' q) = q_weight (entry s q)"
proof -
  have s': "s' = spend q s" using assms by (auto simp: calculate_score_eq split: sum.splits)
  show "same_queue s s'" unfolding s' by (rule same_queue_upd) simp
  show "i \<noteq> q \<Longrightarrow> entry s' i = entry s i" by (simp add: s' upd_entry_def)
  show "q_weight (entry s' q) = q_weight (entry s q)"
    by (cases "q < length (queue_buf s)") (simp_all add: s' upd_entry_def list_update_beyond)
qed

lemma weigh_entry_step:
  assumes "weigh_entry D avg k (Inr (acc, s)) = Inr (acc', s')" "k < length (queue_buf s)"
  shows "same_queue s s' \<and> (\<forall>i. i \<noteq> k \<longrightarrow> entry s' i = entry s i) \<and>
    (if q_disabled (entry s k) then acc' = acc
     else acc' = d_add D acc (q_weight (entry s' k)) \<and> q_weight (entry s' k) = entry_weight D avg s (entry s k))"
proof (cases "q_disabled (entry s k)")
  case True
  then show ?thesis using assms(1) by (simp add: weigh_entry_def)
next
  case False
  let ?u = "upd_entry k (\<lambda>e. e\<lparr>q_weight := entry_weight D avg s e\<rparr>) s"
  obtain p t where c: "calculate_score D k ?u = Inr (p, t)"
    "acc' = d_add D acc (q_weight (entry (upd_entry k (\<lambda>e. e\<lparr>q_perf_score := d_word D p\<rparr>) t) k))"
    "s' = upd_entry k (\<lambda>e. e\<lparr>q_perf_score := d_word D p\<rparr>) t"
    using assms(1) False by (auto simp: weigh_entry_def Let_def split: sum.splits)
  note t = calculate_score_same [OF c(1)]
  have u: "same_queue s ?u" "same_queue t s'" unfolding c(3) by (rule same_queue_upd; simp)+
  then have sq: "same_queue s s'" using t(1) same_queue_trans by blast
  have len: "k < length (queue_buf t)" using t(1) assms(2) by (simp add: same_queue_def)
  have "entry s' i = entry s i" if "i \<noteq> k" for i using t(2) [OF that] that by (simp add: c(3) upd_entry_def)
  moreover have "q_weight (entry s' k) = entry_weight D avg s (entry s k)"
    using t(3) len assms(2) by (simp add: c(3))
  ultimately show ?thesis using sq False c(2,3) by simp
qed

lemma score_entry_step:
  assumes "score_entry D k (Inr (acc, s)) = Inr (acc', s')"
  shows "same_queue s s'"
proof (cases "q_disabled (entry s k)")
  case False
  then obtain p t where c: "calculate_score D k s = Inr (p, t)" "s' = upd_entry k (\<lambda>e. e\<lparr>q_perf_score := d_word D p\<rparr>) t"
    using assms by (auto simp: score_entry_def Let_def split: sum.splits)
  have "same_queue t s'" unfolding c(2) by (rule same_queue_upd) simp
  then show ?thesis using calculate_score_same(1) [OF c(1)] same_queue_trans by blast
qed (use assms in \<open>simp add: score_entry_def\<close>)

lemma fold_error: "(\<And>i. f i (Inl err) = Inl err) \<Longrightarrow> fold f is (Inl err) = Inl err"
  by (induction "is") simp_all

lemma step_Inl [simp]: "weigh_entry D avg i (Inl err) = Inl err" "score_entry D i (Inl err) = Inl err"
  by (simp_all add: weigh_entry_def score_entry_def)

lemma fold_score_same:
  "fold (score_entry D) is (Inr (acc, s)) = Inr (acc', s') \<Longrightarrow> same_queue s s'"
proof (induction "is" arbitrary: acc s)
  case (Cons i "is")
  show ?case
  proof (cases "score_entry D i (Inr (acc, s))")
    case (Inl err)
    have "fold (score_entry D) is (Inl err) = Inl err" by (rule fold_error) simp
    then show ?thesis using Cons.prems unfolding fold_simps Inl by (metis sum.distinct(1))
  next
    case (Inr x)
    obtain a t where x: "x = (a, t)" by fastforce
    then show ?thesis using Cons Inr score_entry_step [of D i acc s a t] same_queue_trans by fastforce
  qed
qed simp

lemma entry_weight_cong: "same_queue s u \<Longrightarrow> entry_weight D avg u e = entry_weight D avg s e"
  by (simp add: entry_weight_def same_queue_def)

lemma fold_weigh:
  assumes "fold (weigh_entry D avg) [0..<n] (Inr (d_lit D 0, s)) = Inr (acc, t)" "n \<le> length (queue_buf s)"
  shows "same_queue s t \<and> (\<forall>i. n \<le> i \<longrightarrow> entry t i = entry s i) \<and>
    acc = foldl (d_add D) (d_lit D 0) (map (\<lambda>i. q_weight (entry t i)) (filter (\<lambda>i. \<not> q_disabled (entry s i)) [0..<n])) \<and>
    (\<forall>i < n. \<not> q_disabled (entry s i) \<longrightarrow> q_weight (entry t i) = entry_weight D avg s (entry s i))"
  using assms
proof (induction n arbitrary: acc t)
  case (Suc n)
  obtain a u where u: "fold (weigh_entry D avg) [0..<n] (Inr (d_lit D 0, s)) = Inr (a, u)"
    "weigh_entry D avg n (Inr (a, u)) = Inr (acc, t)"
    using Suc.prems(1) by (cases "fold (weigh_entry D avg) [0..<n] (Inr (d_lit D 0, s))") auto
  note ih = Suc.IH [OF u(1)]
  have len: "n < length (queue_buf u)" using ih Suc.prems(2) by (simp add: same_queue_def)
  note st = weigh_entry_step [OF u(2) len]
  have n: "entry u n = entry s n" using ih Suc.prems(2) by simp
  have sq: "same_queue s t" using ih st same_queue_trans [of s u t] Suc.prems(2) by auto
  have old: "map (\<lambda>i. q_weight (entry t i)) (filter (\<lambda>i. \<not> q_disabled (entry s i)) [0..<n]) =
      map (\<lambda>i. q_weight (entry u i)) (filter (\<lambda>i. \<not> q_disabled (entry s i)) [0..<n])"
    using st by auto
  have w: "q_weight (entry t i) = entry_weight D avg s (entry s i)"
    if "i < Suc n" "\<not> q_disabled (entry s i)" for i
  proof (cases "i = n")
    case True
    have "entry_weight D avg u (entry s n) = entry_weight D avg s (entry s n)"
      using ih Suc.prems(2) by (intro entry_weight_cong) simp
    then show ?thesis using st n True that(2) by simp
  qed (use that st ih Suc.prems(2) in auto)
  have "acc = foldl (d_add D) (d_lit D 0) (map (\<lambda>i. q_weight (entry t i)) (filter (\<lambda>i. \<not> q_disabled (entry s i)) [0..<Suc n]))"
    using st n ih Suc.prems(2) by (cases "q_disabled (entry s n)") (simp_all add: old)
  then show ?case using sq w st ih Suc.prems(2) by auto
qed (simp add: fun_eq_iff)

lemma weigh_factors_pos:
  assumes "0 < w"
  shows "0 < weigh_time (exact_dops ln2 lb lg) t w" "0 < weigh_len (exact_dops ln2 lb lg) t w"
    "0 < weigh_bitmap (exact_dops ln2 lb lg) t w"
  using assms by (simp_all add: weigh_time_def weigh_len_def weigh_bitmap_def exact_dops_def Let_def)

lemma entry_weight_pos:
  assumes "\<forall>x \<ge> 1. 0 \<le> lg x"
  shows "0 < entry_weight (exact_dops ln2 lb lg) avg s e"
proof -
  define D where "D = exact_dops ln2 lb lg"
  have D: "d_mul D = (*)" "d_lit D = (\<lambda>x. x)" "d_div D = (/)" "d_add D = (+)" "d_log10 D = lg"
    by (simp_all add: D_def exact_dops_def)
  note pos = weigh_factors_pos [of _ ln2 lb lg, folded D_def]
  define hits where "hits = n_fuzz s ! unat (q_n_fuzz_entry e)"
  define w where "w = (if FAST \<le> schedule s \<and> schedule s \<le> RARE \<and> hits \<noteq> 0
    then d_div D (d_lit D 1) (d_add D (d_log10 D (d_word D hits)) (d_lit D 1)) else d_lit D 1)"
  have "0 \<le> lg (d_word D hits)" if "hits \<noteq> 0"
  proof -
    have "of_nat 1 \<le> (of_nat (unat hits) :: rat)" using that unat_gt_0 [of hits] by (intro of_nat_mono) simp
    then show ?thesis using assms by (simp only: of_nat_1 d_word_def D)
  qed
  then have "0 < w" by (simp add: w_def D add_nonneg_pos)
  then have "0 < (if schedule s < RARE then weigh_time D t w else w)" for t using pos by simp
  then show ?thesis
    unfolding D_def [symmetric] entry_weight_def Let_def hits_def [symmetric] w_def [symmetric]
    using pos by (simp add: D)
qed

lemma boost_same: "same_queue s (boost_latest D s)"
proof -
  have "same_queue s (fold (\<lambda>i s. if q_disabled (entry s i) then s
      else upd_entry i (\<lambda>e. e\<lparr>q_weight := d_mul D (q_weight e) (d_lit D 2)\<rparr>) s) is s)" for "is" and s :: "('a, 'b) score_state_scheme"
  proof (induction "is" arbitrary: s)
    case (Cons i "is")
    have "same_queue s (upd_entry i (\<lambda>e. e\<lparr>q_weight := d_mul D (q_weight e) (d_lit D 2)\<rparr>) s)" by (rule same_queue_upd) simp
    then show ?case using Cons.IH same_queue_trans by simp blast
  qed simp
  then show ?thesis by (simp add: boost_latest_def Let_def)
qed

lemma weigh_all_length:
  assumes "weigh_all D s = Inr (P, s')" "unat (queued_items s) \<le> length (queue_buf s)"
  shows "length P = unat (queued_items s)" "same_queue s s'"
proof -
  have "\<exists>f acc. P = scaled D f acc s' \<and> same_queue s s'"
  proof (cases "schedule s < RARE")
    case True
    then obtain acc t where f: "fold (weigh_entry D (averages_of D (take (unat (queued_items s)) (queue_buf s)))) [0..<unat (queued_items s)]
        (Inr (d_lit D 0, s)) = Inr (acc, t)" "P = scaled D q_weight acc s'" "s' = boost_latest D t"
      using assms(1) by (auto simp: weigh_all_def Let_def split: sum.splits)
    then show ?thesis using fold_weigh [OF f(1) assms(2)] boost_same same_queue_trans by blast
  next
    case False
    then obtain acc where f: "fold (score_entry D) [0..<unat (queued_items s)] (Inr (d_lit D 0, s)) = Inr (acc, s')"
      "P = scaled D q_perf_score acc s'"
      using assms(1) by (auto simp: weigh_all_def Let_def split: sum.splits)
    then show ?thesis using fold_score_same [OF f(1)] by blast
  qed
  then show "length P = unat (queued_items s)" "same_queue s s'"
    using assms(2) by (auto simp: scaled_def same_queue_def Let_def)
qed

text \<open>In exact arithmetic the scaled weights add up to the number of entries.\<close>

lemma weigh_all_exact:
  fixes ln2 lb lg :: "rat \<Rightarrow> rat"
  defines "D \<equiv> exact_dops ln2 lb lg"
  assumes "weigh_all D s = Inr (P, s')" "schedule s < RARE" "\<not> (schedule s = MMOPT \<and> queued_discovered s \<noteq> 0)"
    "\<forall>x \<ge> 1. 0 \<le> lg x" "length (queue_buf s) = unat (queued_items s)" "k < unat (queued_items s)" "\<not> q_disabled (entry s k)"
  defines "W \<equiv> (\<Sum>e \<leftarrow> queue_buf s'. if q_disabled e then 0 else q_weight e)"
  shows "P = map (\<lambda>e. (if q_disabled e then 0 else q_weight e) * of_nat (unat (queued_items s)) / W) (queue_buf s') \<and> 0 < W \<and>
    (\<forall>e \<in> set (queue_buf s'). \<not> q_disabled e \<longrightarrow> 0 < q_weight e) \<and> same_queue s s'"
proof -
  let ?n = "unat (queued_items s)"
  have D: "d_add D = (+)" "d_mul D = (*)" "d_div D = (/)" "d_lit D = (\<lambda>x. x)" by (simp_all add: D_def exact_dops_def)
  obtain acc where f: "fold (weigh_entry D (averages_of D (take ?n (queue_buf s)))) [0..<?n] (Inr (d_lit D 0, s)) = Inr (acc, s')"
    "P = scaled D q_weight acc s'"
  proof -
    obtain acc t where f: "fold (weigh_entry D (averages_of D (take ?n (queue_buf s)))) [0..<?n] (Inr (d_lit D 0, s)) = Inr (acc, t)"
      "P = scaled D q_weight acc s'" "s' = boost_latest D t"
      using assms(2,3) by (auto simp: weigh_all_def Let_def split: sum.splits)
    have "same_queue s t" using fold_weigh [OF f(1)] assms(6) by simp
    then have "boost_latest D t = t" using assms(4) by (auto simp: boost_latest_def same_queue_def)
    then show ?thesis using that f by simp
  qed
  have fw: "same_queue s s'"
    "acc = foldl (d_add D) (d_lit D 0) (map (\<lambda>i. q_weight (entry s' i)) (filter (\<lambda>i. \<not> q_disabled (entry s i)) [0..<?n]))"
    "\<forall>i < ?n. \<not> q_disabled (entry s i) \<longrightarrow> 0 < q_weight (entry s' i)"
    using fold_weigh [OF f(1)] assms(6) by (simp_all add: D_def entry_weight_pos [OF assms(5)])
  have sq: "queued_items s' = queued_items s" "length (queue_buf s') = ?n" "\<And>i. q_disabled (entry s' i) = q_disabled (entry s i)"
    using fw(1) assms(6) by (simp_all add: same_queue_def)
  have fs: "foldl (+) (0 :: rat) (map g (filter Q xs)) = (\<Sum>x \<leftarrow> xs. if Q x then g x else 0)" for g :: "nat \<Rightarrow> rat" and Q xs
  proof -
    have "foldl (+) a ys = a + sum_list ys" for a :: rat and ys by (induction ys arbitrary: a) simp_all
    then show ?thesis by (simp add: sum_list_map_filter')
  qed
  have "map (\<lambda>e. if q_disabled e then 0 else q_weight e) (queue_buf s') =
      map (\<lambda>i. if \<not> q_disabled (entry s i) then q_weight (entry s' i) else 0) [0..<?n]"
    by (rule nth_equalityI) (simp_all add: sq)
  then have acc: "acc = W" unfolding fw(2) D fs W_def by (simp only:)
  have pos: "\<forall>e \<in> set (queue_buf s'). \<not> q_disabled e \<longrightarrow> 0 < q_weight e"
    using fw(3) sq(2,3) by (auto simp: in_set_conv_nth)
  have "entry s' k \<in> set (queue_buf s')" "0 < (if q_disabled (entry s' k) then 0 else q_weight (entry s' k))"
    using fw(3) assms(7,8) sq(2,3) by simp_all
  then obtain e where e: "e \<in> set (queue_buf s')" "0 < (if q_disabled e then 0 else q_weight e)" by blast
  then obtain xs ys where sp: "queue_buf s' = xs @ e # ys" using split_list by metis
  have "0 \<le> (\<Sum>e \<leftarrow> zs. if q_disabled e then 0 else q_weight e)" if "set zs \<subseteq> set (queue_buf s')" for zs
    using that pos by (intro sum_list_nonneg) (auto simp: less_imp_le)
  from this [of xs] this [of ys] have "0 < W" unfolding W_def sp using e(2) by (simp add: subset_iff split del: if_split)
  then show ?thesis using f(2) acc pos fw(1) sq(1,2)
    by (simp add: scaled_def D d_word_def Let_def if_distrib cong: if_cong)
qed

section \<open>Properties\<close>


text \<open>Property C12. In exact arithmetic the draw is fair: outside MOpt's boost, an entry is selected with a
  probability proportional to its weight, a disabled entry never, and the table holds probabilities.\<close>

theorem alias_selection_exact:
  assumes "create_alias_table (exact_dops ln2 lb lg) s = Inr s'" "schedule s < RARE"
    "\<not> (schedule s = MMOPT \<and> queued_discovered s \<noteq> 0)" "\<forall>x \<ge> 1. 0 \<le> lg x"
    "length (queue_buf s) = unat (queued_items s)" "k < unat (queued_items s)" "\<not> q_disabled (entry s k)"
    "i < unat (queued_items s)"
  shows "chance (alias_probability s') (alias_table s') i / of_nat (unat (queued_items s)) =
      (if q_disabled (entry s' i) then 0 else q_weight (entry s' i)) / (\<Sum>e \<leftarrow> queue_buf s'. if q_disabled e then 0 else q_weight e) \<and>
    (\<forall>x \<in> set (alias_probability s'). 0 \<le> x \<and> x \<le> 1)"
proof -
  let ?D = "exact_dops ln2 lb lg" and ?n = "unat (queued_items s)"
  obtain P t where w: "weigh_all ?D s = Inr (P, t)" and s': "s' = t\<lparr>alias_probability := vprob (vose_table ?D P),
      alias_table := valias (vose_table ?D P), reinit_table := False\<rparr>"
    using assms(1) by (auto simp: create_alias_table_def Let_def split: sum.splits)
  define W where "W = (\<Sum>e \<leftarrow> queue_buf t. if q_disabled e then 0 else q_weight e)"
  have P: "P = map (\<lambda>e. (if q_disabled e then 0 else q_weight e) * of_nat ?n / W) (queue_buf t)" "0 < W"
    "\<forall>e \<in> set (queue_buf t). \<not> q_disabled e \<longrightarrow> 0 < q_weight e" "length (queue_buf t) = ?n"
    using weigh_all_exact [OF w assms(2-7)] assms(5) by (simp_all add: W_def same_queue_def)
  have len: "length P = ?n" using P(1,4) by simp
  have "sum_list P = of_nat ?n / W * (\<Sum>e \<leftarrow> queue_buf t. if q_disabled e then 0 else q_weight e)"
    unfolding P(1) by (simp add: sum_list_const_mult [symmetric] mult.commute)
  then have "sum_list P = of_nat (length P)" using P(2) len by (simp add: W_def [symmetric])
  from vose_table_exact [OF this, of i ln2 lb lg] have "chance (alias_probability s') (alias_table s') i = P ! i"
    using assms(8) len by (simp add: s')
  moreover have "P ! i = (if q_disabled (entry t i) then 0 else q_weight (entry t i)) * of_nat ?n / W"
    using assms(8) P(1,4) by simp
  moreover have "0 \<le> x" if x: "x \<in> set P" for x
  proof -
    obtain e where e: "e \<in> set (queue_buf t)" "x = (if q_disabled e then 0 else q_weight e) * of_nat ?n / W"
      using x unfolding P(1) set_map by blast
    have "0 \<le> (if q_disabled e then 0 else q_weight e)" using P(3) e(1) by (simp add: less_imp_le)
    then show ?thesis unfolding e(2) using P(2) by (intro divide_nonneg_pos mult_nonneg_nonneg of_nat_0_le_iff)
  qed
  moreover have "(of_nat ?n :: rat) \<noteq> 0" using assms(6) unfolding of_nat_eq_0_iff by linarith
  ultimately show ?thesis
    using vose_table_in_range [of P ln2 lb lg] by (simp add: s' W_def)
qed

text \<open>
  MOpt doubles the weights of the latest entries after their sum was taken, so the scaled weights
  no longer add up to the number of entries. With two entries of equal weight of which the second
  is doubled, both weights are large, and the table treats the entries alike: the boost is lost.
\<close>

lemma boost_lost:
  "vprob (vose_table (exact_dops ln2 lb lg) [1, 2]) = [1, 1]"
  "chance (vprob (vose_table (exact_dops ln2 lb lg) [1, 2])) (valias (vose_table (exact_dops ln2 lb lg) [1, 2])) 1 = 1"
  by (simp_all add: chance_def vose_table_def vose_start_def push_def push_large_def pair_loop.simps exact_dops_def Let_def numeral_2_eq_2)

lemma weigh_entry_explore:
  assumes "schedule s = EXPLORE"
  obtains acc' t where "weigh_entry D avg i (Inr (acc, s)) = Inr (acc', t)" "schedule t = EXPLORE"
proof (cases "q_disabled (entry s i)")
  case True
  then show thesis using that assms by (simp add: weigh_entry_def)
next
  case False
  let ?u = "upd_entry i (\<lambda>e. e\<lparr>q_weight := entry_weight D avg s e\<rparr>) s"
  obtain p t where c: "calculate_score D i ?u = Inr (p, t)"
    using assms calculate_score_fails [of D i ?u] by (cases "calculate_score D i ?u") auto
  have "schedule t = EXPLORE" using calculate_score_same(1) [OF c] assms by (simp add: same_queue_def)
  then show thesis using that False c by (simp add: weigh_entry_def Let_def)
qed

lemma fold_weigh_explore:
  "schedule s = EXPLORE \<Longrightarrow> \<exists>acc' t. fold (weigh_entry D avg) is (Inr (acc, s)) = Inr (acc', t)"
proof (induction "is" arbitrary: acc s)
  case (Cons i "is")
  obtain acc' t where "weigh_entry D avg i (Inr (acc, s)) = Inr (acc', t)" "schedule t = EXPLORE"
    using weigh_entry_explore [OF Cons.prems] .
  then show ?case using Cons.IH [of t acc'] by simp
qed simp

lemma ex_score_table: "\<exists>s'. create_alias_table D ex_score = Inr s'"
proof -
  have s: "schedule ex_score = EXPLORE" by (simp add: ex_score_def)
  obtain acc t where "fold (weigh_entry D (averages_of D (take (unat (queued_items ex_score)) (queue_buf ex_score))))
      [0..<unat (queued_items ex_score)] (Inr (d_lit D 0, ex_score)) = Inr (acc, t)"
    using fold_weigh_explore [OF s] by blast
  then show ?thesis using s by (simp add: create_alias_table_def weigh_all_def Let_def)
qed


theorem alias_selection_exact_witness:
  "\<exists>s'. create_alias_table (exact_dops id id id) ex_score = Inr s' \<and>
     chance (alias_probability s') (alias_table s') 1 / 2 =
       (if q_disabled (entry s' 1) then 0 else q_weight (entry s' 1)) / (\<Sum>e \<leftarrow> queue_buf s'. if q_disabled e then 0 else q_weight e)"
proof -
  obtain s' where s': "create_alias_table (exact_dops id id id) ex_score = Inr s'" using ex_score_table by blast
  have e: "schedule ex_score < RARE" "\<not> (schedule ex_score = MMOPT \<and> queued_discovered ex_score \<noteq> 0)" "\<forall>x \<ge> 1. 0 \<le> (id x :: rat)"
    "length (queue_buf ex_score) = unat (queued_items ex_score)" "0 < unat (queued_items ex_score)"
    "\<not> q_disabled (entry ex_score 0)" "1 < unat (queued_items ex_score)" "unat (queued_items ex_score) = 2"
    by (simp_all add: ex_score_def ex_scored_def)
  from alias_selection_exact [OF s' e(1-7)] s' show ?thesis by (simp add: e(8))
qed

end
