(* ===== verification/Rand.thy ===== *)
theory Rand
  imports Afl_Prelude
begin

text \<open>
  The random numbers of the fuzzer: the romuDuoJr generator of \<^verbatim>\<open>AFLplusplus/src/afl-performance.c\<close>
  (the 64-bit build) and the draws of \<^verbatim>\<open>AFLplusplus/include/afl-fuzz.h\<close>. \<^verbatim>\<open>hash64\<close> is a parameter, and so is
  what \<^verbatim>\<open>/dev/urandom\<close> delivers. Loops without a bound of their own are partial functions, so that
  not returning is \<open>None\<close>.
\<close>

record rng =
  rand_seed0 :: u64
  rand_seed1 :: u64
  rand_seed2 :: u64
  rand_cnt :: u32
  init_seed :: u64
  rand_fixed_seed :: bool

abbreviation (input) RESEED_RNG :: nat where "RESEED_RNG \<equiv> 2500000"

definition rand_set_seed :: "(u64 \<Rightarrow> u64) \<Rightarrow> u64 \<Rightarrow> rng \<Rightarrow> rng" where
  "rand_set_seed hash64 seed s =
     (let s0 = hash64 seed; s1 = s0 XOR 0x1234567890abcdef
      in s\<lparr>init_seed := seed, rand_seed0 := s0, rand_seed1 := s1,
           rand_seed2 := (s0 AND 0x1234567890abcdef) XOR (s1 OR 0xfedcba9876543210)\<rparr>)"

definition ROTL :: "u64 \<Rightarrow> nat \<Rightarrow> u64" where
  "ROTL d lrot = push_bit lrot d OR drop_bit (64 - lrot) d"

definition rand_next :: "rng \<Rightarrow> u64 \<times> rng" where
  "rand_next s =
     (let xp = rand_seed0 s;
          s = s\<lparr>rand_seed0 := 15241094284759029579 * rand_seed1 s\<rparr>;
          s = s\<lparr>rand_seed1 := rand_seed1 s - xp\<rparr>;
          s = s\<lparr>rand_seed1 := ROTL (rand_seed1 s) 27\<rparr>
      in (xp, s))"

definition rand_get_seed :: "rng \<Rightarrow> u64" where
  "rand_get_seed s = (if rand_fixed_seed s then init_seed s else rand_seed0 s)"

text \<open>Every so many draws the state is read afresh from \<open>urandom\<close>, unless the seed is fixed.\<close>

definition reseed :: "u64 \<times> u64 \<times> u64 \<Rightarrow> rng \<Rightarrow> rng" where
  "reseed urandom s =
     (let due = (rand_cnt s = 0);
          s = s\<lparr>rand_cnt := rand_cnt s - 1\<rparr>
      in if due \<and> \<not> rand_fixed_seed s
         then (case urandom of (a, b, c) \<Rightarrow>
                s\<lparr>rand_seed0 := a, rand_seed1 := b, rand_seed2 := c,
                  rand_cnt := of_nat (RESEED_RNG div 2) + ucast (b mod of_nat RESEED_RNG)\<rparr>)
         else s)"

text \<open>Values from here on are drawn again, since they would favour small remainders.\<close>

definition rand_bound :: "u32 \<Rightarrow> u64" where
  "rand_bound limit = - 1 - (- 1 mod ucast limit)"

partial_function (option) draw_below :: "u64 \<Rightarrow> rng \<Rightarrow> (u64 \<times> rng) option" where
  "draw_below bound s =
     (let (r, s) = rand_next s in if bound \<le> r then draw_below bound s else Some (r, s))"

definition rand_below :: "u64 \<times> u64 \<times> u64 \<Rightarrow> u32 \<Rightarrow> rng \<Rightarrow> (u32 \<times> rng) option" where
  "rand_below urandom limit s =
     (if limit \<le> 1 then Some (0, s)
      else (case draw_below (rand_bound limit) (reseed urandom s) of
              None \<Rightarrow> None
            | Some (r, s) \<Rightarrow> Some (ucast (r mod ucast limit), s)))"

text \<open>
  \<^verbatim>\<open>rand_below_datalen\<close>; the operands of \<^verbatim>\<open>%\<close> are drawn from left to right here. The last case cannot be reached.
\<close>

definition rand_below_datalen :: "u64 \<times> u64 \<times> u64 \<Rightarrow> u32 \<Rightarrow> rng \<Rightarrow> (u32 \<times> rng) option" where
  "rand_below_datalen urandom limit s =
     (if limit \<le> 1 then Some (0, s)
      else Option.bind (rand_below urandom 3 s) (\<lambda>(k, s).
        if k = 2 then
          Option.bind (rand_below urandom limit s) (\<lambda>(a, s).
          Option.bind (rand_below urandom (limit - 1) s) (\<lambda>(b, s).
          Option.bind (rand_below urandom (limit - 1) s) (\<lambda>(c, s).
            Some ((a mod (1 + b)) mod (1 + c), s))))
        else if k = 1 then
          Option.bind (rand_below urandom limit s) (\<lambda>(a, s).
          Option.bind (rand_below urandom (limit - 1) s) (\<lambda>(b, s).
            Some (a mod (1 + b), s)))
        else if k = 0 then rand_below urandom limit s
        else Some (1, s)))"

partial_function (option) next_p2_from :: "u64 \<Rightarrow> u64 \<Rightarrow> u64 option" where
  "next_p2_from val ret = (if ret < val then next_p2_from val (push_bit 1 ret) else Some ret)"

definition next_p2 :: "u64 \<Rightarrow> u64 option" where
  "next_p2 val = next_p2_from val 1"

definition ex_rng :: rng where
  "ex_rng = \<lparr>rand_seed0 = 25, rand_seed1 = 0, rand_seed2 = 0, rand_cnt = 9, init_seed = 0, rand_fixed_seed = False\<rparr>"

section \<open>The generator\<close>

text \<open>One step can be undone, because the factor is odd and a rotation loses nothing.\<close>

lemma odd_factor: "(4888251478366616163 * 15241094284759029579 :: u64) = 1"
  by simp

lemma factor_zero: "15241094284759029579 * (x :: u64) = 0 \<longleftrightarrow> x = 0"
proof
  assume z: "15241094284759029579 * x = 0"
  have "x = (4888251478366616163 * 15241094284759029579) * x" unfolding odd_factor by (rule mult_1 [symmetric])
  also have "\<dots> = 4888251478366616163 * (15241094284759029579 * x)" by (rule mult.assoc)
  also have "\<dots> = 0" unfolding z by (rule mult_zero_right)
  finally show "x = 0" .
qed (simp only: mult_zero_right)

lemma ROTL_zero: "ROTL x 27 = 0 \<longleftrightarrow> x = 0"
proof
  assume z: "ROTL x 27 = 0"
  show "x = 0"
  proof (rule bit_eqI)
    fix n
    show "bit x n = bit 0 n"
    proof (cases "n < 37")
      case True
      have "\<not> bit (ROTL x 27) (n + 27)" using z by simp
      then show ?thesis using True by (simp add: ROTL_def bit_or_iff bit_push_bit_iff)
    next
      case False
      have "\<not> bit (ROTL x 27) (n - 37)" using z by simp
      then show ?thesis using False by (simp add: ROTL_def bit_or_iff bit_drop_bit_eq)
    qed
  qed
qed (simp add: ROTL_def)

definition live :: "rng \<Rightarrow> bool" where
  "live s \<longleftrightarrow> rand_seed0 s \<noteq> 0 \<or> rand_seed1 s \<noteq> 0"

abbreviation steps :: "nat \<Rightarrow> rng \<Rightarrow> rng" where
  "steps k \<equiv> (\<lambda>s. snd (rand_next s)) ^^ k"

abbreviation outp :: "nat \<Rightarrow> rng \<Rightarrow> u64" where
  "outp k s \<equiv> fst (rand_next (steps k s))"

lemma live_next: "live s \<Longrightarrow> live (snd (rand_next s))"
  by (auto simp: live_def rand_next_def Let_def factor_zero ROTL_zero)

text \<open>The generator never gets stuck: after seeding with any seed, whatever the hash gives,
  the state it can never leave, all zero, is never reached.\<close>

theorem rand_never_stuck: "live (steps k (rand_set_seed hash64 seed s))"
proof (induction k)
  case 0
  have "x XOR 0x1234567890abcdef \<noteq> 0 \<or> x \<noteq> 0" for x :: u64 by auto
  then show ?case by (auto simp: live_def rand_set_seed_def Let_def)
next
  case (Suc k)
  then show ?case using live_next by simp
qed

section \<open>Draws below a limit\<close>

lemma steps_Suc: "steps (Suc k) s = steps k (snd (rand_next s))"
  by (induction k) simp_all

lemma draw_below_unfold:
  "draw_below bound s = (if bound \<le> outp 0 s then draw_below bound (steps 1 s) else Some (outp 0 s, steps 1 s))"
  by (subst draw_below.simps) (simp add: case_prod_unfold Let_def)

lemma draw_below_first:
  "outp k s < bound \<Longrightarrow> \<forall>j < k. bound \<le> outp j s \<Longrightarrow> draw_below bound s = Some (outp k s, steps (Suc k) s)"
proof (induction k arbitrary: s)
  case 0
  then show ?case by (subst draw_below_unfold) (auto dest: leD)
next
  case (Suc k)
  have "bound \<le> outp j (steps 1 s)" if "j < k" for j
    using Suc.prems(2) that steps_Suc [of j s] by (metis One_nat_def Suc_mono funpow_0 steps_Suc)
  moreover have "outp k (steps 1 s) < bound" using Suc.prems(1) by (simp only: steps_Suc One_nat_def funpow_0)
  moreover have "bound \<le> outp 0 s" using Suc.prems(2) by blast
  ultimately show ?case using Suc.IH [of "steps 1 s"] draw_below_unfold [of bound s] by (simp only: steps_Suc One_nat_def funpow_0) simp
qed

lemma draw_below_never:
  assumes "\<forall>k. bound \<le> outp k s"
  shows "draw_below bound s = None"
proof -
  have "\<exists>k. outp k s < bound" if "draw_below bound s = Some r" for r
  proof (rule draw_below.raw_induct [of "\<lambda>bound s r. \<exists>k. outp k s < bound", OF _ that])
    fix draw bound s r
    assume ih: "\<And>bound s r. draw bound s = Some r \<Longrightarrow> \<exists>k. outp k s < bound"
      and run: "(let (r, s) = rand_next s in if bound \<le> r then draw bound s else Some (r, s)) = Some r"
    show "\<exists>k. outp k s < bound"
    proof (cases "bound \<le> outp 0 s")
      case True
      then have "draw bound (steps 1 s) = Some r" using run by (simp add: case_prod_unfold Let_def)
      then obtain k where "outp k (steps 1 s) < bound" using ih by blast
      then have "outp (Suc k) s < bound" by (simp only: steps_Suc One_nat_def funpow_0)
      then show ?thesis by blast
    next
      case False
      then show ?thesis by (metis not_le)
    qed
  qed
  then show ?thesis using assms by (cases "draw_below bound s") (auto simp: not_less [symmetric])
qed

lemma draw_below_Some_iff:
  "draw_below bound s = Some (r, s') \<longleftrightarrow>
     (\<exists>k. outp k s < bound \<and> (\<forall>j < k. bound \<le> outp j s) \<and> r = outp k s \<and> s' = steps (Suc k) s)"
proof (cases "\<forall>k. bound \<le> outp k s")
  case True
  then show ?thesis using draw_below_never [OF True] by (auto simp: not_less [symmetric])
next
  case False
  define k where "k = (LEAST k. outp k s < bound)"
  have ex: "\<exists>k. outp k s < bound" using False by (auto simp: not_le)
  then have k: "outp k s < bound" unfolding k_def by (rule LeastI_ex)
  have lt: "bound \<le> outp j s" if "j < k" for j using not_less_Least that unfolding k_def by (metis not_le)
  have d: "draw_below bound s = Some (outp k s, steps (Suc k) s)" using draw_below_first k lt by blast
  have unique: "k' = k" if "outp k' s < bound" "\<forall>j < k'. bound \<le> outp j s" for k'
    using that k lt by (metis linorder_neqE_nat not_le)
  show ?thesis
  proof
    assume "draw_below bound s = Some (r, s')"
    then have "r = outp k s" "s' = steps (Suc k) s" unfolding d by simp_all
    then show "\<exists>k. outp k s < bound \<and> (\<forall>j < k. bound \<le> outp j s) \<and> r = outp k s \<and> s' = steps (Suc k) s"
      using k lt by blast
  next
    assume "\<exists>k. outp k s < bound \<and> (\<forall>j < k. bound \<le> outp j s) \<and> r = outp k s \<and> s' = steps (Suc k) s"
    then show "draw_below bound s = Some (r, s')" using d unique by metis
  qed
qed

text \<open>A draw below a limit is the first acceptable number of the generator, reduced modulo
  the limit; it returns exactly when the generator ever delivers an acceptable one.\<close>

theorem rand_below_first_accepted:
  assumes "1 < limit"
  shows "rand_below urandom limit s = Some (r, s') \<longleftrightarrow>
    (\<exists>k. outp k (reseed urandom s) < rand_bound limit \<and> (\<forall>j < k. rand_bound limit \<le> outp j (reseed urandom s)) \<and>
       r = ucast (outp k (reseed urandom s) mod ucast limit) \<and> s' = steps (Suc k) (reseed urandom s))"
proof -
  have "rand_below urandom limit s = Some (r, s') \<longleftrightarrow>
      (\<exists>x. draw_below (rand_bound limit) (reseed urandom s) = Some (x, s') \<and> r = ucast (x mod ucast limit))"
    using assms by (auto simp: rand_below_def split: option.splits)
  then show ?thesis unfolding draw_below_Some_iff by blast
qed

theorem rand_below_first_accepted_witness:
  "rand_below (0, 0, 0) 10 ex_rng = Some (5, steps 1 (reseed (0, 0, 0) ex_rng))"
proof -
  have "rand_bound 10 = 18446744073709551610" by code_simp
  then have "outp 0 (reseed (0, 0, 0) ex_rng) < rand_bound 10"
    "ucast (outp 0 (reseed (0, 0, 0) ex_rng) mod ucast (10 :: u32)) = (5 :: u32)"
    by (simp_all add: reseed_def ex_rng_def rand_next_def Let_def)
  then show ?thesis
    by (subst rand_below_first_accepted) (simp, intro exI [of _ 0], simp)
qed

lemma unat_u32: "unat (x :: u32) < 2 ^ 32"
proof -
  have "unat x < 2 ^ LENGTH(32)" by (rule unsigned_less)
  then show ?thesis by simp
qed

lemma unat_ucast_limit: "unat (ucast (limit :: u32) :: u64) = unat limit"
  using unat_u32 [of limit] by (simp add: unsigned_ucast_eq take_bit_nat_eq_self)

lemma rand_bound_nat:
  assumes "1 < limit"
  shows "unat (rand_bound limit) = unat limit * ((2 ^ 64 - 1) div unat limit)"
proof -
  note l = unat_ucast_limit
  have m: "unat (- 1 :: u64) = 2 ^ 64 - 1" by (simp add: unsigned_minus_1_eq_mask mask_eq_exp_minus_1)
  have "unat (rand_bound limit) = unat (- 1 :: u64) - unat (- 1 mod (ucast limit :: u64))"
    unfolding rand_bound_def by (rule unat_sub) (simp add: word_le_nat_alt unat_mod_distrib m)
  also have "\<dots> = (2 ^ 64 - 1) - (2 ^ 64 - 1) mod unat limit" by (simp only: unat_mod_distrib l m)
  finally show ?thesis by (simp only: minus_mod_eq_mult_div)
qed

lemma unat_ucast_mod:
  assumes "limit \<noteq> 0"
  shows "unat (ucast (x mod ucast limit) :: u32) = unat (x :: u64) mod unat (limit :: u32)"
proof -
  have "0 < unat limit" using assms by (simp add: unat_gt_0)
  then have "unat x mod unat limit < unat limit" by (rule mod_less_divisor)
  then have "unat x mod unat limit < 2 ^ 32" using unat_u32 [of limit] by linarith
  moreover have "take_bit 64 (unat limit) = unat limit" using unat_u32 [of limit] by (simp add: take_bit_nat_eq_self)
  ultimately show ?thesis by (simp add: unsigned_ucast_eq unat_mod_distrib take_bit_nat_eq_self)
qed

text \<open>The multiples below \<open>l * q\<close> with a given remainder.\<close>

lemma remainder_class:
  assumes "r < (l :: nat)"
  shows "{n. n < l * q \<and> n mod l = r} = (\<lambda>j. r + j * l) ` {..<q}"
proof (intro set_eqI iffI)
  fix n
  assume n: "n \<in> {n. n < l * q \<and> n mod l = r}"
  then have "n div l < q" "n = r + n div l * l"
    using assms by (auto simp: less_mult_imp_div_less mult.commute)
  then show "n \<in> (\<lambda>j. r + j * l) ` {..<q}" by blast
next
  fix n
  assume "n \<in> (\<lambda>j. r + j * l) ` {..<q}"
  then obtain j where j: "n = r + j * l" "j < q" by blast
  have "n < (j + 1) * l" using j(1) assms by simp
  also have "\<dots> \<le> l * q" using j(2) by (metis Suc_eq_plus1 Suc_leI mult.commute mult_le_mono2)
  finally show "n \<in> {n. n < l * q \<and> n mod l = r}" using j(1) assms by simp
qed



lemma rand_below_less: "rand_below urandom limit s = Some (r, s') \<Longrightarrow> unat r < max 1 (unat limit)"
proof (cases "limit \<le> 1")
  case False
  assume "rand_below urandom limit s = Some (r, s')"
  then obtain x :: u64 where "r = ucast (x mod ucast limit)" using False by (auto simp: rand_below_def split: option.splits)
  moreover have "limit \<noteq> 0" using False by auto
  ultimately show ?thesis using unat_ucast_mod [of limit x] by (simp add: unat_gt_0 less_max_iff_disj)
qed (simp add: rand_below_def)

text \<open>The biased draw of a position stays inside the data, and its last branch is never
  taken.\<close>

theorem rand_below_datalen_in_bounds:
  assumes "rand_below_datalen urandom limit s = Some (r, s')"
  shows "unat r < max 1 (unat limit)"
proof (cases "limit \<le> 1")
  case True
  then show ?thesis using assms by (simp add: rand_below_datalen_def)
next
  case False
  have le: "unat (a mod b) \<le> unat a" for a b :: u32 by (simp add: unat_mod_distrib)
  obtain k t where k: "rand_below urandom 3 s = Some (k, t)"
    using assms False by (cases "rand_below urandom 3 s") (auto simp: rand_below_datalen_def)
  have "k \<le> 2" using rand_below_less [OF k] by (simp add: word_le_nat_alt)
  then consider "k = 0" | "k = 1" | "k = 2" unfolding word_le_nat_alt word_unat_eq_iff by fastforce
  then show ?thesis
  proof cases
    case 1
    then show ?thesis using assms False k rand_below_less by (simp add: rand_below_datalen_def)
  next
    case 2
    then obtain a u b v where "rand_below urandom limit t = Some (a, u)" "r = a mod (1 + b)"
      using assms False k by (auto simp: rand_below_datalen_def bind_eq_Some_conv)
    then show ?thesis using rand_below_less le [of a "1 + b"] by (metis le_less_trans)
  next
    case 3
    then obtain a u b c where "rand_below urandom limit t = Some (a, u)" "r = (a mod (1 + b)) mod (1 + c)"
      using assms False k by (auto simp: rand_below_datalen_def bind_eq_Some_conv)
    then show ?thesis using rand_below_less le [of a "1 + b"] le [of "a mod (1 + b)" "1 + c"] by (metis le_less_trans)
  qed
qed

theorem rand_below_datalen_in_bounds_witness:
  "\<exists>r s'. rand_below_datalen (0, 0, 0) 10 (ex_rng\<lparr>rand_seed0 := 0\<rparr>) = Some (r, s') \<and> unat r < 10"
proof -
  have b: "0 < rand_bound 10" "0 < rand_bound 3" by code_simp+
  have d: "draw_below bound s = Some (0, snd (rand_next s))" if "rand_seed0 s = 0" "0 < bound" for bound s
    using that by (subst draw_below_unfold) (auto simp: rand_next_def Let_def)
  obtain r s' where "rand_below_datalen (0, 0, 0) 10 (ex_rng\<lparr>rand_seed0 := 0\<rparr>) = Some (r, s')"
    using b by (simp add: rand_below_datalen_def rand_below_def reseed_def ex_rng_def d rand_next_def ROTL_def Let_def word_le_nat_alt)
  then show ?thesis using rand_below_datalen_in_bounds [of "(0, 0, 0)" 10] by fastforce
qed

section \<open>The next power of two\<close>

lemma unat_pow:
  assumes "k \<le> 63"
  shows "unat (2 ^ k :: u64) = 2 ^ k"
proof -
  have "(2 :: nat) ^ k < 2 ^ LENGTH(64)" using assms by (intro power_strict_increasing) simp_all
  moreover have "unat (of_nat (2 ^ k) :: u64) = 2 ^ k mod 2 ^ LENGTH(64)" by (rule unat_of_nat)
  ultimately show ?thesis by simp
qed

lemma shift_pow: "k < 63 \<Longrightarrow> push_bit 1 (2 ^ k :: u64) = 2 ^ Suc k" "push_bit 1 (2 ^ 63 :: u64) = 0"
  by (simp_all add: push_bit_eq_mult)

lemma next_p2_from_power:
  assumes "k \<le> 63" "unat val \<le> 2 ^ 63" "k = 0 \<or> 2 ^ (k - 1) < unat val"
  shows "\<exists>m \<le> 63. next_p2_from val (2 ^ k) = Some (2 ^ m) \<and> unat val \<le> 2 ^ m \<and> (m = 0 \<or> 2 ^ (m - 1) < unat val)"
  using assms
proof (induction "63 - k" arbitrary: k rule: less_induct)
  case less
  show ?case
  proof (cases "2 ^ k < val")
    case True
    then have lt: "2 ^ k < unat val" using unat_pow [OF less.prems(1)] by (simp add: word_less_nat_alt)
    then have k: "k < 63" using less.prems(1,2) by (metis le_neq_implies_less not_less)
    have "next_p2_from val (2 ^ k) = next_p2_from val (2 ^ Suc k)"
      using True by (subst next_p2_from.simps) (simp only: shift_pow(1) [OF k] if_True)
    then show ?thesis using less.hyps [of "Suc k"] k lt less.prems(2) by simp
  next
    case False
    then have "next_p2_from val (2 ^ k) = Some (2 ^ k)" by (subst next_p2_from.simps) simp
    then show ?thesis using less.prems False unat_pow [OF less.prems(1)] by (auto simp: word_less_nat_alt not_less)
  qed
qed

lemma next_p2_from_diverges:
  assumes "2 ^ 63 < unat val" "ret = 0 \<or> (\<exists>k \<le> 63. ret = 2 ^ k)"
  shows "next_p2_from val ret = None"
proof -
  let ?Q = "\<lambda>val ret. \<not> (2 ^ 63 < unat val \<and> (ret = 0 \<or> (\<exists>k \<le> 63. ret = 2 ^ k)))"
  have "?Q val ret" if "next_p2_from val ret = Some r" for r
  proof (rule next_p2_from.raw_induct [of "\<lambda>val ret r. ?Q val ret", OF _ that])
    fix f and val ret r :: u64
    assume ih: "\<And>val ret r. f val ret = Some r \<Longrightarrow> ?Q val ret"
      and run: "(if ret < val then f val (push_bit 1 ret) else Some ret) = Some r"
    show "?Q val ret"
    proof
      assume h: "2 ^ 63 < unat val \<and> (ret = 0 \<or> (\<exists>k \<le> 63. ret = 2 ^ k))"
      have "unat ret \<le> 2 ^ 63"
      proof (cases "ret = 0")
        case False
        then obtain k where "k \<le> 63" "ret = 2 ^ k" using h by blast
        then show ?thesis using unat_pow [of k] power_increasing [of k 63 "2 :: nat"] by simp
      qed simp
      then have "ret < val" using h by (simp add: word_less_nat_alt)
      moreover have "push_bit 1 ret = 0 \<or> (\<exists>k \<le> 63. push_bit 1 ret = 2 ^ k)"
      proof (cases "ret = 0")
        case False
        then obtain k where k: "k \<le> 63" "ret = 2 ^ k" using h by blast
        then show ?thesis using shift_pow(1) [of k] shift_pow(2) by (cases "k = 63") (auto intro!: exI [of _ "Suc k"] simp del: power_Suc)
      qed simp
      ultimately show False using ih [of val "push_bit 1 ret" r] run h by simp
    qed
  qed
  then show ?thesis using assms by (cases "next_p2_from val ret") auto
qed

text \<open>\<^verbatim>\<open>next_p2\<close> gives the least power of two that is not below its argument, up to
  \<open>2 ^ 63\<close>; above that its shift leaves zero and the loop does not end.\<close>

theorem next_p2_exact:
  "if unat val \<le> 2 ^ 63
   then \<exists>m \<le> 63. next_p2 val = Some (2 ^ m) \<and> unat val \<le> 2 ^ m \<and> (m = 0 \<or> 2 ^ (m - 1) < unat val)
   else next_p2 val = None"
proof (cases "unat val \<le> 2 ^ 63")
  case True
  then show ?thesis using next_p2_from_power [of 0 val] by (simp add: next_p2_def)
next
  case False
  have "(1 :: u64) = 0 \<or> (\<exists>k \<le> 63. (1 :: u64) = 2 ^ k)" by (rule disjI2) (rule exI [of _ 0], simp)
  then show ?thesis using False next_p2_from_diverges [of val 1] by (simp add: next_p2_def)
qed

end
