(* ===== verification/Magma.thy ===== *)
theory Magma
  imports Afl_Prelude
begin

text \<open>
  Magma's canaries: the bug records in shared memory (\<^verbatim>\<open>magma/magma/src/storage.c\<close>), the logging that
  instrumented targets call (\<^verbatim>\<open>canary.c\<close>) and the monitor that reads them (\<^verbatim>\<open>monitor.c\<close>), for the
  64-bit build, where a record has 32 bytes and a buffer \<^verbatim>\<open>BUFFERLEN\<close> = 31 records.
\<close>

section \<open>Storage\<close>

text \<open>
  A record. \<^verbatim>\<open>strncpy\<close> keeps the first 16 characters and pads with NUL, so a name is a string of
  at most 16 characters and the empty name marks a free record.
\<close>

record canary =
  c_name :: string
  reached :: u64
  triggered :: u64

definition free_canary :: canary where
  "free_canary = \<lparr>c_name = [], reached = 0, triggered = 0\<rparr>"

abbreviation (input) NAMELEN :: nat where "NAMELEN \<equiv> 16"
abbreviation (input) BUFFERLEN :: nat where "BUFFERLEN \<equiv> 31"

text \<open>
  The mapped file: the flag and, behind it and next to each other, the producer's and the consumer's buffer.
  The producer's buffer are the cells below \<^verbatim>\<open>BUFFERLEN\<close>; one past its end is the consumer's first cell.
\<close>

record stored =
  consumed :: bool
  cells :: "canary list"

definition producer :: "stored \<Rightarrow> canary list" where
  "producer d = take BUFFERLEN (cells d)"

definition consumer :: "stored \<Rightarrow> canary list" where
  "consumer d = take BUFFERLEN (drop BUFFERLEN (cells d))"

text \<open>The loop all operations share: the index of the record with the name, or of the first free one, or the end.\<close>

function find_canary :: "canary list \<Rightarrow> string \<Rightarrow> nat \<Rightarrow> nat" where
  "find_canary buf name i =
     (if i < BUFFERLEN \<and> c_name (buf ! i) \<noteq> [] \<and> take NAMELEN name \<noteq> c_name (buf ! i)
      then find_canary buf name (i + 1) else i)"
  by pat_completeness auto
termination
  by (relation "measure (\<lambda>(buf, name, i). BUFFERLEN - i)") auto

declare find_canary.simps [simp del]

text \<open>
  \<^verbatim>\<open>stor_get\<close> gives the index of the record; it creates the record where the loop stopped, also when that
  is one past the end of the buffer.
\<close>

definition stor_get :: "canary list \<Rightarrow> string \<Rightarrow> nat \<times> canary list" where
  "stor_get buf name =
     (let i = find_canary buf name 0
      in if i < BUFFERLEN \<and> c_name (buf ! i) \<noteq> [] then (i, buf)
         else (i, buf[i := \<lparr>c_name = take NAMELEN name, reached = 0, triggered = 0\<rparr>]))"

definition stor_put :: "canary list \<Rightarrow> string \<Rightarrow> canary \<Rightarrow> bool \<times> canary list" where
  "stor_put buf name v =
     (let i = find_canary buf name 0
      in if BUFFERLEN \<le> i then (False, buf) else (True, buf[i := v]))"

text \<open>
  \<^verbatim>\<open>stor_forall\<close>: the function is called on the used records in order, with the index of the record, and may
  change \<open>arg\<close>; its results go to the array if there is one, which also bounds the walk.
\<close>

function forall_from ::
  "canary list \<Rightarrow> (nat \<Rightarrow> 'a \<Rightarrow> 'r \<times> 'a) \<Rightarrow> nat \<Rightarrow> 'a \<Rightarrow> 'r list option \<Rightarrow> nat \<Rightarrow> 'a \<times> 'r list option \<times> nat" where
  "forall_from buf f i arg results len =
     (if i < BUFFERLEN \<and> c_name (buf ! i) \<noteq> [] then
        (case results of
           None \<Rightarrow> (case f i arg of (r, arg) \<Rightarrow> forall_from buf f (i + 1) arg None len)
         | Some rs \<Rightarrow>
             if i < len then (case f i arg of (r, arg) \<Rightarrow> forall_from buf f (i + 1) arg (Some (rs[i := r])) len)
             else (arg, results, i))
      else (arg, results, i))"
  by pat_completeness auto
termination
  by (relation "measure (\<lambda>(buf, f, i, arg, results, len). BUFFERLEN - i)") auto

declare forall_from.simps [simp del]

definition stor_forall ::
  "canary list \<Rightarrow> (nat \<Rightarrow> 'a \<Rightarrow> 'r \<times> 'a) \<Rightarrow> 'a \<Rightarrow> 'r list option \<Rightarrow> nat \<Rightarrow> 'a \<times> 'r list option \<times> nat" where
  "stor_forall buf f arg results len = forall_from buf f 0 arg results len"

text \<open>The used records, those before the first free one.\<close>

definition used_canaries :: "canary list \<Rightarrow> canary list" where
  "used_canaries buf = takeWhile (\<lambda>c. c_name c \<noteq> []) (take BUFFERLEN buf)"

section \<open>Logging\<close>

text \<open>The instrumented process: whether the file is mapped, whether that was tried, and the fault flag.\<close>

record canary_proc =
  mapped :: bool
  init_called :: bool
  magma_faulty :: bool

definition magma_init :: "bool \<Rightarrow> canary_proc \<Rightarrow> bool \<times> canary_proc" where
  "magma_init can_open p =
     (if init_called p then (False, p)
      else if can_open then (True, p\<lparr>init_called := True, mapped := True\<rparr>)
      else (False, p\<lparr>init_called := True, mapped := False\<rparr>))"

text \<open>The update of the producer's buffer.\<close>

definition log_update :: "string \<Rightarrow> bool \<Rightarrow> bool \<Rightarrow> canary list \<Rightarrow> canary list" where
  "log_update bug condition faulty buf =
     (let (i, buf) = stor_get buf bug;
          c = buf ! i;
          c = c\<lparr>reached := reached c + (if faulty then 0 else 1)\<rparr>;
          c = c\<lparr>triggered := triggered c + (if condition \<and> \<not> faulty then 1 else 0)\<rparr>
      in buf[i := c])"

text \<open>Publishing: the whole producer's buffer is copied if the consumer has taken the last copy.\<close>

definition publish :: "stored \<Rightarrow> stored" where
  "publish d =
     (if consumed d
      then d\<lparr>cells := producer d @ producer d @ drop (2 * BUFFERLEN) (cells d), consumed := False\<rparr> else d)"

definition magma_log :: "bool \<Rightarrow> string \<Rightarrow> bool \<Rightarrow> canary_proc \<times> stored \<Rightarrow> canary_proc \<times> stored" where
  "magma_log can_open bug condition = (\<lambda>(p, d).
     let (ok, p) = (if mapped p then (True, p) else magma_init can_open p)
     in if \<not> ok then (p, d)
        else (let d = d\<lparr>cells := log_update bug condition (magma_faulty p) (cells d)\<rparr>;
                  d = publish d
              in (p\<lparr>magma_faulty := magma_faulty p \<or> condition\<rparr>, d)))"

section \<open>The monitor\<close>

text \<open>
  \<^verbatim>\<open>fetch_file\<close>: a missing file is created with zero bytes (\<open>creatable\<close> says whether that works), then
  the consumer's copy is taken unless it was taken before.
\<close>

definition empty_stored :: stored where
  "empty_stored = \<lparr>consumed = False, cells = replicate (2 * BUFFERLEN) free_canary\<rparr>"

definition fetch_file :: "bool \<Rightarrow> stored option \<Rightarrow> canary list option \<times> stored option" where
  "fetch_file creatable f =
     (case (case f of Some d \<Rightarrow> Some d | None \<Rightarrow> if creatable then Some empty_stored else None) of
        None \<Rightarrow> (None, None)
      | Some d \<Rightarrow> if consumed d then (None, Some d) else (Some (consumer d), Some (d\<lparr>consumed := True\<rparr>)))"

text \<open>
  \<^verbatim>\<open>fetch_watch\<close> reads the producer's buffer of a process that has ended; \<open>run\<close> is what that process left in
  the fresh file and its exit status, \<open>temp_ok\<close> whether the file could be made.
\<close>

definition fetch_watch :: "bool \<Rightarrow> (stored \<Rightarrow> stored \<times> nat option) \<Rightarrow> (canary list \<times> nat option) option" where
  "fetch_watch temp_ok run =
     (if temp_ok then (case run empty_stored of (d, status) \<Rightarrow> Some (producer d, status)) else None)"

text \<open>A record as bytes, and the three ways to print.\<close>

definition char_byte :: "char \<Rightarrow> u8" where
  "char_byte c = of_nat (of_char c)"

definition canary_bytes :: "canary \<Rightarrow> bytes" where
  "canary_bytes c = map char_byte (c_name c) @ replicate (NAMELEN - length (c_name c)) 0 @
     le_bytes 8 (reached c) @ le_bytes 8 (triggered c)"

definition dump_one_raw :: "canary list \<Rightarrow> nat \<Rightarrow> bytes \<Rightarrow> unit \<times> bytes" where
  "dump_one_raw data i out = ((), out @ canary_bytes (data ! i))"

definition dump_raw :: "canary list \<Rightarrow> bytes" where
  "dump_raw data = fst (stor_forall data (dump_one_raw data) [] None 0)"

text \<open>\<^verbatim>\<open>%s\<close> of a name: the bytes from its start to the next zero byte, which lies behind the name if that has 16 characters.\<close>

definition print_name :: "canary list \<Rightarrow> nat \<Rightarrow> bytes" where
  "print_name data i = takeWhile (\<lambda>b. b \<noteq> 0) (concat (map canary_bytes (drop i data)))"

fun print_nat :: "nat \<Rightarrow> bytes" where
  "print_nat n = (if n < 10 then [of_nat (48 + n)] else print_nat (n div 10) @ [of_nat (48 + n mod 10)])"

declare print_nat.simps [simp del]

definition str :: "string \<Rightarrow> bytes" where
  "str s = map char_byte s"

definition dump_one_row_header :: "canary list \<Rightarrow> nat \<Rightarrow> bool \<times> bytes \<Rightarrow> unit \<times> bool \<times> bytes" where
  "dump_one_row_header data i = (\<lambda>(begin, out). ((), False, out @ (if begin then [] else str '','') @
     print_name data i @ str ''_R,'' @ print_name data i @ str ''_T''))"

definition dump_one_row_data :: "canary list \<Rightarrow> nat \<Rightarrow> bool \<times> bytes \<Rightarrow> unit \<times> bool \<times> bytes" where
  "dump_one_row_data data i = (\<lambda>(begin, out). ((), False, out @ (if begin then [] else str '','') @
     print_nat (unat (reached (data ! i))) @ str '','' @ print_nat (unat (triggered (data ! i)))))"

definition dump_row :: "canary list \<Rightarrow> bytes" where
  "dump_row data = snd (fst (stor_forall data (dump_one_row_header data) (True, []) None 0)) @ [10] @
     snd (fst (stor_forall data (dump_one_row_data data) (True, []) None 0)) @ [10]"

definition dump_one_human :: "canary list \<Rightarrow> nat \<Rightarrow> bytes \<Rightarrow> unit \<times> bytes" where
  "dump_one_human data i out = ((), out @ print_name data i @ str '' reached '' @
     print_nat (unat (reached (data ! i))) @ str '' triggered '' @ print_nat (unat (triggered (data ! i))) @ [10])"

definition dump_human :: "canary list \<Rightarrow> bytes" where
  "dump_human data = fst (stor_forall data (dump_one_human data) [] None 0)"

text \<open>
  Arguments: recognised keywords with their values up to the first other word; then \<^verbatim>\<open>argc\<close> and the words
  \<^verbatim>\<open>argv\<close> points to. A value that is missing is \<open>None\<close>, the \<^verbatim>\<open>NULL\<close> at the end of \<^verbatim>\<open>argv\<close>; the walk has then stepped over
  the end, \<^verbatim>\<open>argc\<close> is -1 and \<^verbatim>\<open>argv\<close> points to the environment.
\<close>

datatype arg_num = ARG_DUMP | ARG_FETCH | ARG_HELP

definition arg_of :: "string \<Rightarrow> arg_num option" where
  "arg_of w = (if w = ''--dump'' then Some ARG_DUMP else if w = ''--fetch'' then Some ARG_FETCH
     else if w = ''--help'' then Some ARG_HELP else None)"

definition ARG_LIST :: "(string \<times> string) list" where
  "ARG_LIST =
     [(''--dump'', ''The format to use when dumping canary structs:'' @ [CHR 0x0A] @
         ''- raw: dumps the raw bytes'' @ [CHR 0x0A] @
         ''- row: writes a CSV-style header and data row'' @ [CHR 0x0A] @
         ''- human: writes a human-readable output''),
      (''--fetch'', ''The source from which to fetch canary data:'' @ [CHR 0x0A] @
         ''- file: reads data from FILE'' @ [CHR 0x0A] @
         ''- watch: runs COMMAND and collects data''),
      (''--help'', ''Prints this help message'')]"

definition puts :: "string \<Rightarrow> bytes" where
  "puts s = str s @ [10]"

definition print_help :: bytes where
  "print_help = puts ''monitor [--dump {raw|row|human}] [--fetch {file|watch}] FILE|COMMAND'' @ puts [] @
     concat (map (\<lambda>(name, help). puts name @ puts [] @ puts help @ puts []) ARG_LIST)"

fun parse_args :: "string list \<Rightarrow> string list \<Rightarrow> (arg_num \<times> string option) list \<times> int \<times> string list" where
  "parse_args env [] = ([], 0, [])"
| "parse_args env (w # ws) =
     (case arg_of w of
        None \<Rightarrow> ([], 1 + int (length ws), w # ws)
      | Some ARG_HELP \<Rightarrow> (case parse_args env ws of (items, rest) \<Rightarrow> ((ARG_HELP, None) # items, rest))
      | Some a \<Rightarrow>
          (case ws of
             [] \<Rightarrow> ([(a, None)], - 1, env)
           | v # ws \<Rightarrow> (case parse_args env ws of (items, rest) \<Rightarrow> ((a, Some v) # items, rest))))"

text \<open>The last item with a keyword wins.\<close>

definition last_arg :: "arg_num \<Rightarrow> (arg_num \<times> string option) list \<Rightarrow> (arg_num \<times> string option) option" where
  "last_arg a items = (case filter (\<lambda>(b, v). b = a) items of [] \<Rightarrow> None | xs \<Rightarrow> Some (last xs))"

text \<open>The program: what it prints and its exit code, or a crash when a missing value is compared.\<close>

datatype monitor_result = Exit nat bytes | Null_Dereference

definition monitor_dump :: "(arg_num \<times> string option) option \<Rightarrow> nat \<Rightarrow> canary list \<Rightarrow> monitor_result" where
  "monitor_dump itm err data =
     (case itm of
        None \<Rightarrow> Exit err (dump_raw data)
      | Some (_, None) \<Rightarrow> Null_Dereference
      | Some (_, Some v) \<Rightarrow>
          if v = ''raw'' then Exit err (dump_raw data)
          else if v = ''row'' then Exit err (dump_row data)
          else if v = ''human'' then Exit err (dump_human data)
          else Exit 5 [])"

text \<open>The files of the monitor: those by name, whether one can be made, and what a command does to its own file.\<close>

record monitor_env =
  files :: "string \<Rightarrow> stored option"
  creatable :: "string \<Rightarrow> bool"
  temp_ok :: bool
  exec :: "string list \<Rightarrow> stored \<Rightarrow> stored \<times> nat option"
  environ :: "string list"

definition monitor_file :: "string \<Rightarrow> (arg_num \<times> string option) list \<Rightarrow> monitor_env \<Rightarrow> monitor_result \<times> monitor_env" where
  "monitor_file fname items e =
     (case fetch_file (creatable e fname) (files e fname) of (r, f) \<Rightarrow>
        (case r of None \<Rightarrow> Exit 1 [] | Some data \<Rightarrow> monitor_dump (last_arg ARG_DUMP items) 0 data,
         e\<lparr>files := (files e)(fname := f)\<rparr>))"

definition monitor_main :: "string \<Rightarrow> string list \<Rightarrow> monitor_env \<Rightarrow> monitor_result \<times> monitor_env" where
  "monitor_main NAME args e =
     (case parse_args (environ e) args of (items, argc, argv) \<Rightarrow>
        let fname = (if 0 < argc then hd argv else NAME)
        in if list_ex (\<lambda>(a, v). a = ARG_HELP) items then (Exit 0 print_help, e)
           else (case last_arg ARG_FETCH items of
                   None \<Rightarrow> monitor_file fname items e
                 | Some (_, None) \<Rightarrow> (Null_Dereference, e)
                 | Some (_, Some v) \<Rightarrow>
                     if v = ''file'' then monitor_file fname items e
                     else if v = ''watch'' then
                       (if argc = 0 then (Exit 2 [], e)
                        else (case fetch_watch (temp_ok e) (exec e argv) of
                                None \<Rightarrow> (Exit 3 [], e)
                              | Some (data, status) \<Rightarrow>
                                  (monitor_dump (last_arg ARG_DUMP items) (case status of None \<Rightarrow> 0 | Some c \<Rightarrow> c) data, e)))
                     else (Exit 4 [], e)))"

end
