(* ===== verification/Magma_Props.thy ===== *)
theory Magma_Props
  imports Magma
begin

text \<open>
  What Magma's counters mean. The records are a table from bug names to a pair of counters; the lemmas below show
  that the search finds a bug's record, that logging bumps exactly its counters, and what the totals are.
\<close>

section \<open>The table\<close>

definition tally :: "canary list \<Rightarrow> string \<Rightarrow> u64 \<times> u64" where
  "tally buf n = (case find (\<lambda>c. c_name c = n) (used_canaries buf) of
                    None \<Rightarrow> (0, 0) | Some c \<Rightarrow> (reached c, triggered c))"

text \<open>Distinct names, then free records up to the end of the buffer.\<close>

definition bug_names :: "canary list \<Rightarrow> string set" where
  "bug_names buf = set (map c_name (used_canaries buf))"

definition wf_records :: "canary list \<Rightarrow> bool" where
  "wf_records buf \<longleftrightarrow> length buf = 2 * BUFFERLEN \<and> distinct (map c_name (used_canaries buf)) \<and>
     (\<forall>j\<in>{length (used_canaries buf)..<BUFFERLEN}. c_name (buf ! j) = [])"

lemma used_length: "length (used_canaries buf) \<le> BUFFERLEN"
  using length_takeWhile_le [of _ "take BUFFERLEN buf"] unfolding used_canaries_def by fastforce

lemma used_nth: "i < length (used_canaries buf) \<Longrightarrow> used_canaries buf ! i = buf ! i \<and> c_name (buf ! i) \<noteq> []"
proof -
  assume i: "i < length (used_canaries buf)"
  have "used_canaries buf ! i = take BUFFERLEN buf ! i" using i unfolding used_canaries_def by (rule takeWhile_nth)
  moreover have "c_name (used_canaries buf ! i) \<noteq> []"
    using nth_mem [OF i] unfolding used_canaries_def by (blast dest: set_takeWhileD)
  moreover have "i < BUFFERLEN" using i used_length [of buf] by simp
  ultimately show ?thesis by simp
qed

lemma used_end:
  "\<lbrakk>length (used_canaries buf) < BUFFERLEN; BUFFERLEN \<le> length buf\<rbrakk> \<Longrightarrow> c_name (buf ! length (used_canaries buf)) = []"
  using nth_length_takeWhile [of "\<lambda>c. c_name c \<noteq> []" "take BUFFERLEN buf"] unfolding used_canaries_def by simp

lemma used_eqI:
  assumes "n \<le> BUFFERLEN" "n \<le> length buf" "\<forall>i<n. c_name (buf ! i) \<noteq> []" "n < BUFFERLEN \<longrightarrow> n < length buf \<longrightarrow> c_name (buf ! n) = []"
  shows "used_canaries buf = take n buf"
proof -
  have "takeWhile (\<lambda>c. c_name c \<noteq> []) (take BUFFERLEN buf) = take n (take BUFFERLEN buf)"
    using assms by (intro takeWhile_eq_take_P_nth) auto
  then show ?thesis using assms(1) by (simp add: used_canaries_def min_def)
qed

lemma used_take: "BUFFERLEN \<le> length buf \<Longrightarrow> used_canaries buf = take (length (used_canaries buf)) buf"
  by (rule used_eqI) (use used_length [of buf] used_end [of buf] used_nth in auto)

text \<open>The search.\<close>

lemma find_canary_spec:
  assumes "BUFFERLEN \<le> length buf" "i \<le> length (used_canaries buf)"
    "\<forall>j<i. c_name (buf ! j) \<noteq> take NAMELEN name"
  shows "find_canary buf name i \<le> length (used_canaries buf) \<and>
    (\<forall>j<find_canary buf name i. c_name (buf ! j) \<noteq> take NAMELEN name) \<and>
    (find_canary buf name i < length (used_canaries buf) \<longrightarrow> c_name (buf ! find_canary buf name i) = take NAMELEN name)"
  using assms
proof (induction buf name i rule: find_canary.induct)
  case (1 buf name i)
  show ?case
  proof (cases "i < BUFFERLEN \<and> c_name (buf ! i) \<noteq> [] \<and> take NAMELEN name \<noteq> c_name (buf ! i)")
    case True
    then have "i \<noteq> length (used_canaries buf)" using used_end [of buf] "1.prems"(1) by auto
    then have "find_canary buf name (i + 1) \<le> length (used_canaries buf) \<and>
      (\<forall>j<find_canary buf name (i + 1). c_name (buf ! j) \<noteq> take NAMELEN name) \<and>
      (find_canary buf name (i + 1) < length (used_canaries buf) \<longrightarrow> c_name (buf ! find_canary buf name (i + 1)) = take NAMELEN name)"
      using True "1.prems" by (intro "1.IH") (auto simp: less_Suc_eq)
    then show ?thesis using True by (simp add: find_canary.simps [of buf name i])
  next
    case False
    then have "find_canary buf name i = i" by (subst find_canary.simps) (simp only: if_False)
    then show ?thesis using "1.prems" False used_nth [of i buf] used_length [of buf] by fastforce
  qed
qed

lemmas find_canary_from_start = find_canary_spec [of _ 0, simplified]

section \<open>One update\<close>

definition bump :: "bool \<Rightarrow> bool \<Rightarrow> canary \<Rightarrow> canary" where
  "bump condition faulty c =
     c\<lparr>reached := reached c + (if faulty then 0 else 1),
       triggered := triggered c + (if condition \<and> \<not> faulty then 1 else 0)\<rparr>"

lemma bump_name [simp]: "c_name (bump condition faulty c) = c_name c"
  by (simp add: bump_def)

abbreviation new_canary :: "string \<Rightarrow> canary" where
  "new_canary n \<equiv> \<lparr>c_name = n, reached = 0, triggered = 0\<rparr>"

lemma log_update_cases:
  assumes "wf_records buf" "bug \<noteq> []" "card (insert (take NAMELEN bug) (bug_names buf)) \<le> BUFFERLEN"
  obtains (known) i where "i < length (used_canaries buf)" "c_name (buf ! i) = take NAMELEN bug"
      "log_update bug condition faulty buf = buf[i := bump condition faulty (buf ! i)]"
  | (fresh) "take NAMELEN bug \<notin> bug_names buf" "length (used_canaries buf) < BUFFERLEN"
      "log_update bug condition faulty buf =
         buf[length (used_canaries buf) := bump condition faulty (new_canary (take NAMELEN bug))]"
proof -
  let ?u = "used_canaries buf" and ?i = "find_canary buf bug 0" and ?n = "take NAMELEN bug"
  have len: "BUFFERLEN \<le> length buf" using assms(1) by (simp add: wf_records_def)
  note sp = find_canary_from_start [OF len, of bug]
  show ?thesis
  proof (cases "?i < length ?u")
    case True
    then have "stor_get buf bug = (?i, buf)"
      using used_nth [OF True] used_length [of buf] by (simp add: stor_get_def Let_def)
    then show ?thesis using True sp by (intro known [of ?i]) (auto simp: log_update_def bump_def Let_def)
  next
    case False
    then have i: "?i = length ?u" using sp by simp
    have "c_name c \<noteq> ?n" if c: "c \<in> set ?u" for c
    proof -
      obtain j where "j < length ?u" "c = ?u ! j" using c by (auto simp: in_set_conv_nth)
      then show ?thesis using sp i used_nth [of j buf] by auto
    qed
    then have new: "?n \<notin> bug_names buf" by (force simp: bug_names_def)
    have "card (bug_names buf) = length ?u"
      using assms(1) distinct_card [of "map c_name ?u"] by (simp add: bug_names_def wf_records_def)
    then have lt: "length ?u < BUFFERLEN" using assms(3) new by (simp add: bug_names_def)
    then have "stor_get buf bug = (?i, buf[length ?u := new_canary ?n])"
      using used_end [OF _ len] i by (simp add: stor_get_def Let_def)
    then have "log_update bug condition faulty buf = buf[length ?u := bump condition faulty (new_canary ?n)]"
      using i lt len by (simp add: log_update_def bump_def Let_def)
    then show ?thesis using new lt by (rule fresh [rotated -1])
  qed
qed

text \<open>The used records afterwards.\<close>

lemma used_update_known:
  assumes "i < length (used_canaries buf)" "c_name c = c_name (buf ! i)" "BUFFERLEN \<le> length buf"
  shows "used_canaries (buf[i := c]) = (used_canaries buf)[i := c]"
proof -
  let ?k = "length (used_canaries buf)"
  have "used_canaries (buf[i := c]) = take ?k (buf[i := c])"
    using assms used_length [of buf] used_end [OF _ assms(3)] used_nth [of _ buf]
    by (intro used_eqI) (auto simp: nth_list_update)
  also have "\<dots> = (take ?k buf)[i := c]" by (rule take_update_swap)
  finally show ?thesis using used_take [OF assms(3)] by simp
qed

lemma used_update_fresh:
  assumes "wf_records buf" "length (used_canaries buf) < BUFFERLEN" "c_name c \<noteq> []"
  shows "used_canaries (buf[length (used_canaries buf) := c]) = used_canaries buf @ [c]"
proof -
  let ?k = "length (used_canaries buf)"
  have len: "length buf = 2 * BUFFERLEN" using assms(1) by (simp add: wf_records_def)
  have "used_canaries (buf[?k := c]) = take (Suc ?k) (buf[?k := c])"
    using assms len used_nth [of _ buf]
    by (intro used_eqI) (auto simp: nth_list_update less_Suc_eq wf_records_def)
  also have "\<dots> = take ?k buf @ [c]" using assms(2) len by (simp add: take_Suc_conv_app_nth)
  finally show ?thesis using used_take [of buf] len by simp
qed

text \<open>Counters by name.\<close>

lemma tally_used:
  assumes "distinct (map c_name (used_canaries buf))" "c \<in> set (used_canaries buf)"
  shows "tally buf (c_name c) = (reached c, triggered c)"
proof -
  have inj: "inj_on c_name (set (used_canaries buf))" using assms(1) by (simp add: distinct_map)
  obtain c' where c': "find (\<lambda>x. c_name x = c_name c) (used_canaries buf) = Some c'"
    using assms(2) by (cases "find (\<lambda>x. c_name x = c_name c) (used_canaries buf)") (auto simp: find_None_iff)
  then have "c' \<in> set (used_canaries buf)" "c_name c' = c_name c" by (auto simp: find_Some_iff)
  then have "c' = c" using inj assms(2) by (auto dest: inj_onD)
  then show ?thesis using c' by (simp add: tally_def)
qed

lemma tally_unused: "n \<notin> bug_names buf \<Longrightarrow> tally buf n = (0, 0)"
proof -
  assume "n \<notin> bug_names buf"
  then have "find (\<lambda>c. c_name c = n) (used_canaries buf) = None" by (auto simp: bug_names_def find_None_iff)
  then show ?thesis by (simp add: tally_def)
qed

definition more :: "bool \<Rightarrow> bool \<Rightarrow> u64 \<times> u64 \<Rightarrow> u64 \<times> u64" where
  "more condition faulty = (\<lambda>(r, t). (r + (if faulty then 0 else 1), t + (if condition \<and> \<not> faulty then 1 else 0)))"

text \<open>What one event means for the table: the counters of its bug, and nothing else.\<close>

definition logged :: "string \<Rightarrow> bool \<Rightarrow> bool \<Rightarrow> canary list \<Rightarrow> canary list \<Rightarrow> bool" where
  "logged n condition faulty buf buf' \<longleftrightarrow> wf_records buf' \<and> bug_names buf' = insert n (bug_names buf) \<and>
     (\<forall>m. tally buf' m = (if m = n then more condition faulty (tally buf m) else tally buf m)) \<and>
     drop BUFFERLEN buf' = drop BUFFERLEN buf"

lemma wf_recordsD:
  "wf_records buf \<Longrightarrow> length buf = 62" "wf_records buf \<Longrightarrow> distinct (map c_name (used_canaries buf))"
  by (simp_all add: wf_records_def)

lemma logged_known:
  assumes wf: "wf_records buf" and i: "i < length (used_canaries buf)"
  shows "logged (c_name (buf ! i)) condition faulty buf (buf[i := bump condition faulty (buf ! i)])"
proof -
  let ?u = "used_canaries buf" and ?c = "bump condition faulty (buf ! i)" and ?n = "c_name (buf ! i)"
  let ?buf = "buf[i := ?c]"
  note nth = used_nth [OF i]
  have u: "used_canaries ?buf = ?u[i := ?c]" using used_update_known [OF i, of ?c] wf_recordsD(1) [OF wf] by simp
  then have "map c_name (used_canaries ?buf) = (map c_name ?u)[i := c_name (?u ! i)]" using nth by (simp add: map_update)
  then have names: "map c_name (used_canaries ?buf) = map c_name ?u" using i by (simp add: list_update_same_conv)
  have mem: "buf ! i \<in> set ?u" using nth nth_mem [OF i] by simp
  have wf': "wf_records ?buf" using wf names u i by (auto simp: wf_records_def)
  have ns: "bug_names ?buf = insert ?n (bug_names buf)"
    using names mem unfolding bug_names_def by (metis imageI insert_absorb list.set_map)
  have "tally ?buf m = (if m = ?n then more condition faulty (tally buf m) else tally buf m)" for m
  proof -
    consider "m = ?n" | j where "j < length ?u" "j \<noteq> i" "m = c_name (?u ! j)" "m \<noteq> ?n" | "m \<notin> bug_names buf" "m \<noteq> ?n"
      using nth by (force simp: bug_names_def in_set_conv_nth)
    then show ?thesis
    proof cases
      case 1
      have "?c \<in> set (used_canaries ?buf)" using i u by (simp add: set_update_memI)
      then show ?thesis using 1 tally_used [OF wf_recordsD(2) [OF wf] mem] tally_used [OF wf_recordsD(2) [OF wf'], of ?c]
        by (simp add: more_def bump_def)
    next
      case (2 j)
      then have "?u ! j \<in> set (used_canaries ?buf)" using u by (metis length_list_update nth_list_update_neq nth_mem)
      then show ?thesis using 2 tally_used [OF wf_recordsD(2) [OF wf] nth_mem [OF 2(1)]] tally_used [OF wf_recordsD(2) [OF wf'], of "?u ! j"]
        by simp
    qed (use ns tally_unused in simp)
  qed
  moreover have "drop BUFFERLEN ?buf = drop BUFFERLEN buf" using i used_length [of buf] by (simp add: drop_update_cancel)
  ultimately show ?thesis using wf' ns by (simp add: logged_def)
qed

lemma logged_fresh:
  assumes wf: "wf_records buf" and k: "length (used_canaries buf) < BUFFERLEN" and n: "n \<noteq> []" "n \<notin> bug_names buf"
  shows "logged n condition faulty buf (buf[length (used_canaries buf) := bump condition faulty (new_canary n)])"
proof -
  let ?u = "used_canaries buf" and ?c = "bump condition faulty (new_canary n)"
  let ?buf = "buf[length ?u := ?c]"
  have u: "used_canaries ?buf = ?u @ [?c]" using used_update_fresh [OF wf k, of ?c] n(1) by simp
  have wf': "wf_records ?buf" using wf u k n(2) by (auto simp: wf_records_def bug_names_def)
  have "tally ?buf m = (if m = n then more condition faulty (tally buf m) else tally buf m)" for m
  proof (cases "m = n")
    case True
    have "tally ?buf (c_name ?c) = (reached ?c, triggered ?c)" using wf_recordsD(2) [OF wf'] u by (intro tally_used) auto
    then show ?thesis using True tally_unused [OF n(2)] by (simp add: more_def bump_def)
  next
    case False
    then have "find (\<lambda>c. c_name c = m) (xs @ [?c]) = find (\<lambda>c. c_name c = m) xs" for xs by (induction xs) auto
    then show ?thesis using False u by (simp add: tally_def)
  qed
  moreover have "drop BUFFERLEN ?buf = drop BUFFERLEN buf" using k by (simp add: drop_update_cancel)
  ultimately show ?thesis using wf' u by (simp add: logged_def bug_names_def)
qed

lemma log_update_logged:
  assumes "wf_records buf" "bug \<noteq> []" "card (insert (take NAMELEN bug) (bug_names buf)) \<le> BUFFERLEN"
  shows "logged (take NAMELEN bug) condition faulty buf (log_update bug condition faulty buf)"
  using assms
proof (cases rule: log_update_cases [where condition = condition and faulty = faulty])
  case (known i)
  then show ?thesis using logged_known [OF assms(1) known(1)] by metis
next
  case fresh
  then show ?thesis using logged_fresh [OF assms(1) fresh(2), of "take NAMELEN bug"] assms(2) by simp
qed

section \<open>Whole campaigns\<close>

text \<open>
  What happens to a storage file: a target reports a bug, the target is started afresh, the monitor polls.
  In each process the events count up to and including the first one that triggers its bug.
\<close>

datatype magma_op = Log string bool | Restart | Poll

fun counted :: "bool \<Rightarrow> magma_op list \<Rightarrow> (string \<times> bool) list" where
  "counted faulty [] = []"
| "counted faulty (Log b c # ops) = (if faulty then [] else [(b, c)]) @ counted (faulty \<or> c) ops"
| "counted faulty (Restart # ops) = counted False ops"
| "counted faulty (Poll # ops) = counted faulty ops"

fun bugs_of :: "magma_op list \<Rightarrow> string list" where
  "bugs_of [] = []"
| "bugs_of (Log b c # ops) = b # bugs_of ops"
| "bugs_of (op # ops) = bugs_of ops"

text \<open>The contract of a table of bug counters with room for a number of bugs, and what it gives.\<close>

locale bug_counters =
  fixes good :: "'s \<Rightarrow> bool" and names :: "'s \<Rightarrow> string set" and totals :: "'s \<Rightarrow> string \<Rightarrow> u64 \<times> u64"
    and faulty :: "'s \<Rightarrow> bool" and exec :: "magma_op \<Rightarrow> 's \<Rightarrow> 's" and key :: "string \<Rightarrow> string" and room :: nat
  assumes log_ok: "good s \<Longrightarrow> b \<noteq> [] \<Longrightarrow> card (insert (key b) (names s)) \<le> room \<Longrightarrow>
      good (exec (Log b c) s) \<and> names (exec (Log b c) s) = insert (key b) (names s) \<and>
      faulty (exec (Log b c) s) = (faulty s \<or> c)"
    and log_totals: "good s \<Longrightarrow> b \<noteq> [] \<Longrightarrow> card (insert (key b) (names s)) \<le> room \<Longrightarrow>
      totals (exec (Log b c) s) n = (if n = key b then more c (faulty s) (totals s n) else totals s n)"
    and restart_ok: "good s \<Longrightarrow> good (exec Restart s) \<and> names (exec Restart s) = names s \<and> \<not> faulty (exec Restart s) \<and>
      totals (exec Restart s) = totals s"
    and poll_ok: "good s \<Longrightarrow> good (exec Poll s) \<and> names (exec Poll s) = names s \<and> faulty (exec Poll s) = faulty s \<and>
      totals (exec Poll s) = totals s"
    and finite_names: "finite (names s)"
begin

lemma totals_exec:
  assumes "good s" "[] \<notin> set (bugs_of ops)" "card (names s \<union> key ` set (bugs_of ops)) \<le> room"
  shows "good (fold exec ops s) \<and> names (fold exec ops s) = names s \<union> key ` set (bugs_of ops) \<and>
    fst (totals (fold exec ops s) n) =
      fst (totals s n) + of_nat (length (filter (\<lambda>(b, c). key b = n) (counted (faulty s) ops))) \<and>
    snd (totals (fold exec ops s) n) =
      snd (totals s n) + of_nat (length (filter (\<lambda>(b, c). key b = n \<and> c) (counted (faulty s) ops)))"
  using assms
proof (induction ops arbitrary: s)
  case (Cons op ops)
  show ?case
  proof (cases op)
    case (Log b c)
    have "insert (key b) (names s) \<subseteq> names s \<union> key ` set (bugs_of (op # ops))" by (auto simp: Log)
    then have le: "card (insert (key b) (names s)) \<le> room"
      using Cons.prems(3) by (meson List.finite_set card_mono finite_UnI finite_imageI finite_names le_trans)
    have b: "b \<noteq> []" using Cons.prems(2) by (auto simp: Log)
    note ok = log_ok [OF Cons.prems(1) b le] and tot = log_totals [OF Cons.prems(1) b le, of c n]
    have "names (exec (Log b c) s) \<union> key ` set (bugs_of ops) = names s \<union> key ` set (bugs_of (op # ops))"
      using ok by (auto simp: Log)
    then show ?thesis using Cons.IH [of "exec (Log b c) s"] Cons.prems ok tot by (auto simp: Log more_def split: prod.splits)
  next
    case Restart
    then show ?thesis using Cons.IH [of "exec Restart s"] Cons.prems restart_ok [OF Cons.prems(1)] by simp
  next
    case Poll
    then show ?thesis using Cons.IH [of "exec Poll s"] Cons.prems poll_ok [OF Cons.prems(1)] by simp
  qed
qed simp

end

text \<open>The operations on the process and the file.\<close>

definition fresh_proc :: canary_proc where
  "fresh_proc = \<lparr>mapped = False, init_called = False, magma_faulty = False\<rparr>"

definition magma_exec :: "magma_op \<Rightarrow> canary_proc \<times> stored \<Rightarrow> canary_proc \<times> stored" where
  "magma_exec op = (\<lambda>(p, d).
     (case op of
        Log b c \<Rightarrow> magma_log True b c (p, d)
      | Restart \<Rightarrow> (fresh_proc, d)
      | Poll \<Rightarrow> (p, the (snd (fetch_file True (Some d))))))"

definition magma_good :: "canary_proc \<times> stored \<Rightarrow> bool" where
  "magma_good = (\<lambda>(p, d). wf_records (cells d) \<and> (mapped p \<or> \<not> init_called p))"

lemma producer_only:
  assumes "take BUFFERLEN buf = take BUFFERLEN buf'"
  shows "used_canaries buf = used_canaries buf'" "tally buf = tally buf'" "bug_names buf = bug_names buf'"
    "length buf = length buf' \<Longrightarrow> wf_records buf = wf_records buf'"
proof -
  show u: "used_canaries buf = used_canaries buf'" using assms by (simp add: used_canaries_def)
  then show "tally buf = tally buf'" "bug_names buf = bug_names buf'" by (auto simp: tally_def bug_names_def)
  have "buf ! j = buf' ! j" if "j < BUFFERLEN" for j using that assms by (metis nth_take)
  then show "length buf = length buf' \<Longrightarrow> wf_records buf = wf_records buf'" using u by (simp add: wf_records_def)
qed

lemma publish_cells:
  assumes "length (cells d) = 2 * BUFFERLEN"
  shows "take BUFFERLEN (cells (publish d)) = take BUFFERLEN (cells d)" "length (cells (publish d)) = length (cells d)"
  using assms by (simp_all add: publish_def producer_def)

lemma magma_log_good:
  assumes "magma_good (p, d)" "b \<noteq> []" "card (insert (take NAMELEN b) (bug_names (cells d))) \<le> BUFFERLEN"
    "magma_log True b c (p, d) = (p', d')"
  shows "magma_good (p', d')" "magma_faulty p' = (magma_faulty p \<or> c)"
    "bug_names (cells d') = insert (take NAMELEN b) (bug_names (cells d))"
    "tally (cells d') n = (if n = take NAMELEN b then more c (magma_faulty p) (tally (cells d) n) else tally (cells d) n)"
proof -
  let ?d = "d\<lparr>cells := log_update b c (magma_faulty p) (cells d)\<rparr>"
  have l: "logged (take NAMELEN b) c (magma_faulty p) (cells d) (cells ?d)"
    using log_update_logged [OF _ assms(2,3)] assms(1) by (simp add: magma_good_def)
  then have "length (cells ?d) = 2 * BUFFERLEN" by (simp add: logged_def wf_records_def)
  note pub = publish_cells [OF this]
  have d': "d' = publish ?d" and p': "magma_faulty p' = (magma_faulty p \<or> c)" "mapped p'"
    using assms(1,4) by (auto simp: magma_log_def magma_init_def magma_good_def Let_def split: if_splits)
  show "magma_faulty p' = (magma_faulty p \<or> c)" by (rule p')
  show "magma_good (p', d')" "bug_names (cells d') = insert (take NAMELEN b) (bug_names (cells d))"
    "tally (cells d') n = (if n = take NAMELEN b then more c (magma_faulty p) (tally (cells d) n) else tally (cells d) n)"
    using l p'(2) pub(2) producer_only(4) [OF pub(1)]
    unfolding d' logged_def magma_good_def producer_only(2,3) [OF pub(1)] by (simp_all del: stored.simps)
qed

interpretation canaries: bug_counters magma_good "\<lambda>(p, d). bug_names (cells d)" "\<lambda>(p, d). tally (cells d)"
  "\<lambda>(p, d). magma_faulty p" magma_exec "take NAMELEN" BUFFERLEN
proof (unfold_locales, goal_cases)
  case (1 s b c)
  obtain p d p' d' where "s = (p, d)" and l: "magma_log True b c (p, d) = (p', d')" by (metis surj_pair)
  then show ?case using 1 magma_log_good(1-3) [OF _ _ _ l] by (simp add: magma_exec_def)
next
  case (2 s b c n)
  obtain p d p' d' where "s = (p, d)" and l: "magma_log True b c (p, d) = (p', d')" by (metis surj_pair)
  then show ?case using 2 magma_log_good(4) [OF _ _ _ l] by (simp add: magma_exec_def)
qed (auto simp: magma_exec_def magma_good_def fresh_proc_def fetch_file_def bug_names_def split: prod.splits)

text \<open>A new file is a table without bugs.\<close>

lemma empty_records [simp]: "used_canaries (cells empty_stored) = []"
  by (simp add: used_canaries_def empty_stored_def free_canary_def)

lemma empty_good: "magma_good (fresh_proc, empty_stored)"
  by (simp add: magma_good_def wf_records_def fresh_proc_def) (simp add: empty_stored_def free_canary_def)

lemma magma_counters:
  assumes "[] \<notin> set (bugs_of ops)" "card (take NAMELEN ` set (bugs_of ops)) \<le> BUFFERLEN"
  defines "d \<equiv> snd (fold magma_exec ops (fresh_proc, empty_stored))"
  shows "wf_records (cells d)" "bug_names (cells d) = take NAMELEN ` set (bugs_of ops)"
    "tally (cells d) n =
      (of_nat (length (filter (\<lambda>(b, c). take NAMELEN b = n) (counted False ops))),
       of_nat (length (filter (\<lambda>(b, c). take NAMELEN b = n \<and> c) (counted False ops))))"
proof -
  obtain p d' where e: "fold magma_exec ops (fresh_proc, empty_stored) = (p, d')" by (metis surj_pair)
  have z: "bug_names (cells empty_stored) = {}" "tally (cells empty_stored) n = (0, 0)"
    by (simp_all add: bug_names_def tally_def)
  note t = canaries.totals_exec [OF empty_good assms(1), of n, unfolded e]
  then have "magma_good (p, d') \<and> bug_names (cells d') = take NAMELEN ` set (bugs_of ops) \<and>
     fst (tally (cells d') n) = of_nat (length (filter (\<lambda>(b, c). take NAMELEN b = n) (counted False ops))) \<and>
     snd (tally (cells d') n) = of_nat (length (filter (\<lambda>(b, c). take NAMELEN b = n \<and> c) (counted False ops)))"
    using assms(2) z by (simp add: fresh_proc_def)
  then show "wf_records (cells d)" "bug_names (cells d) = take NAMELEN ` set (bugs_of ops)"
    "tally (cells d) n =
      (of_nat (length (filter (\<lambda>(b, c). take NAMELEN b = n) (counted False ops))),
       of_nat (length (filter (\<lambda>(b, c). take NAMELEN b = n \<and> c) (counted False ops))))"
    unfolding d_def e by (auto simp: magma_good_def prod_eq_iff)
qed

section \<open>Dumps\<close>

lemma forall_from_none:
  assumes "BUFFERLEN \<le> length buf" "i \<le> length (used_canaries buf)"
  shows "forall_from buf f i arg None len =
    (fold (\<lambda>j a. snd (f j a)) [i..<length (used_canaries buf)] arg, None, length (used_canaries buf))"
  using assms(2)
proof (induction "length (used_canaries buf) - i" arbitrary: i arg)
  case 0
  then have "\<not> (i < BUFFERLEN \<and> c_name (buf ! i) \<noteq> [])" using used_end [OF _ assms(1)] by auto
  then show ?case using 0 by (subst forall_from.simps) (simp only: if_False, simp)
next
  case (Suc k)
  then have i: "i < length (used_canaries buf)" by simp
  then have "i < BUFFERLEN \<and> c_name (buf ! i) \<noteq> []" using used_nth [OF i] used_length [of buf] by simp
  then have "forall_from buf f i arg None len = forall_from buf f (i + 1) (snd (f i arg)) None len"
    by (subst forall_from.simps) (simp add: case_prod_beta)
  also have "\<dots> = (fold (\<lambda>j a. snd (f j a)) [i + 1..<length (used_canaries buf)] (snd (f i arg)), None, length (used_canaries buf))"
    using Suc i by (intro Suc.hyps(1)) auto
  finally show ?case using i by (simp add: upt_conv_Cons)
qed

lemma stor_forall_none:
  assumes "BUFFERLEN \<le> length buf"
  shows "fst (stor_forall buf f arg None len) = fold (\<lambda>j a. snd (f j a)) [0..<length (used_canaries buf)] arg"
  by (simp add: stor_forall_def forall_from_none [OF assms])

lemma fold_append_used:
  assumes "\<forall>j<length (used_canaries buf). \<forall>a. g j a = a @ h (used_canaries buf ! j)"
  shows "fold g [0..<length (used_canaries buf)] arg = arg @ concat (map h (used_canaries buf))"
proof -
  have "fold g [0..<k] arg = arg @ concat (map h (take k (used_canaries buf)))" if "k \<le> length (used_canaries buf)" for k
    using that assms by (induction k) (auto simp: take_Suc_conv_app_nth)
  then show ?thesis by simp
qed

lemma dump_raw_eq: "BUFFERLEN \<le> length data \<Longrightarrow> dump_raw data = concat (map canary_bytes (used_canaries data))"
  unfolding dump_raw_def
  by (simp add: stor_forall_none dump_one_raw_def fold_append_used [where h = canary_bytes] used_nth)

text \<open>A reader of raw dumps: records of 32 bytes.\<close>

definition byte_char :: "u8 \<Rightarrow> char" where
  "byte_char b = char_of (unat b)"

definition read_canary :: "bytes \<Rightarrow> canary" where
  "read_canary b = \<lparr>c_name = map byte_char (takeWhile (\<lambda>x. x \<noteq> 0) (take NAMELEN b)),
     reached = le_word (take 8 (drop 16 b)), triggered = le_word (take 8 (drop 24 b))\<rparr>"

function undump :: "bytes \<Rightarrow> canary list" where
  "undump b = (if length b < 32 then [] else read_canary b # undump (drop 32 b))"
  by pat_completeness auto
termination
  by (relation "measure length") auto

declare undump.simps [simp del]

definition storable :: "canary \<Rightarrow> bool" where
  "storable c \<longleftrightarrow> length (c_name c) \<le> NAMELEN \<and> CHR 0x00 \<notin> set (c_name c)"

lemma unat_char_byte: "unat (char_byte c) = of_char c"
  using nat_of_char_less_256 [of c] by (simp add: char_byte_def unat_of_nat take_bit_nat_eq_self)

lemma byte_char_inverse [simp]: "byte_char (char_byte c) = c"
  by (simp add: byte_char_def unat_char_byte)

lemma char_byte_zero: "char_byte c = 0 \<longleftrightarrow> c = CHR 0x00"
proof
  assume "char_byte c = 0"
  then have "c = byte_char 0" by (metis byte_char_inverse)
  then show "c = CHR 0x00" by (simp add: byte_char_def char_of_def)
qed (simp add: char_byte_def)

lemma takeWhile_name:
  assumes "CHR 0x00 \<notin> set n"
  shows "takeWhile (\<lambda>x. x \<noteq> 0) (map char_byte n @ replicate k 0 @ rest) =
    map char_byte n @ (if k = 0 then takeWhile (\<lambda>x. x \<noteq> 0) rest else [])"
  using assms by (induction n) (auto simp: char_byte_zero gr0_conv_Suc)

lemma length_canary_bytes: "storable c \<Longrightarrow> length (canary_bytes c) = 32"
  by (simp add: storable_def canary_bytes_def)

lemma read_canary_bytes:
  assumes "storable c"
  shows "read_canary (canary_bytes c @ rest) = c"
proof -
  let ?n = "map char_byte (c_name c) @ replicate (NAMELEN - length (c_name c)) 0"
  have len: "length ?n = NAMELEN" using assms by (simp add: storable_def)
  have b: "canary_bytes c @ rest = ?n @ le_bytes 8 (reached c) @ le_bytes 8 (triggered c) @ rest"
    by (simp add: canary_bytes_def)
  have "takeWhile (\<lambda>x. x \<noteq> 0) ?n = map char_byte (c_name c)"
    using assms takeWhile_name [of "c_name c" "NAMELEN - length (c_name c)" "[]"] by (simp add: storable_def)
  moreover have "le_word (le_bytes 8 w) = (w :: u64)" for w by (rule le_word_le_bytes) simp
  ultimately show ?thesis unfolding b read_canary_def using len by (simp add: comp_def)
qed

lemma undump_concat: "\<forall>c\<in>set cs. storable c \<Longrightarrow> undump (concat (map canary_bytes cs)) = cs"
proof (induction cs)
  case Nil
  show ?case by (subst undump.simps) simp
next
  case (Cons c cs)
  then have "length (canary_bytes c) = 32" by (simp add: length_canary_bytes)
  then show ?case using Cons read_canary_bytes [of c] by (subst undump.simps) simp
qed

subsection \<open>Rows\<close>

fun join :: "bytes list \<Rightarrow> bytes" where
  "join [] = []"
| "join [x] = x"
| "join (x # y # xs) = x @ 44 # join (y # xs)"

fun csv_fields :: "bytes \<Rightarrow> bytes list" where
  "csv_fields [] = [[]]"
| "csv_fields (b # bs) = (if b = 44 then [] # csv_fields bs else (b # hd (csv_fields bs)) # tl (csv_fields bs))"

definition read_nat :: "bytes \<Rightarrow> nat" where
  "read_nat bs = foldl (\<lambda>n b. 10 * n + (unat b - 48)) 0 bs"

lemma join_snoc: "join (xs @ [x]) = (if xs = [] then x else join xs @ 44 # x)"
  by (induction xs rule: join.induct) auto

lemma join_pairs: "join (map (\<lambda>c. f c @ 44 # g c) cs) = join (concat (map (\<lambda>c. [f c, g c]) cs))"
proof (induction cs)
  case (Cons c cs)
  then show ?case by (cases cs) auto
qed simp

lemma csv_fields_plain: "44 \<notin> set x \<Longrightarrow> csv_fields x = [x]"
  by (induction x) auto

lemma fields_comma: "44 \<notin> set x \<Longrightarrow> csv_fields (x @ 44 # y) = x # csv_fields y"
  by (induction x) auto

lemma fields_join: "xs \<noteq> [] \<Longrightarrow> \<forall>x\<in>set xs. 44 \<notin> set x \<Longrightarrow> csv_fields (join xs) = xs"
  by (induction xs rule: join.induct) (auto simp: csv_fields_plain fields_comma)

lemma set_join: "set (join xs) \<subseteq> insert 44 (\<Union> (set ` set xs))"
  by (induction xs rule: join.induct) auto

lemma fold_rows:
  assumes "\<forall>j<n. \<forall>b out. f j (b, out) = ((), False, out @ (if b then [] else [44]) @ h j)"
  shows "fold (\<lambda>j a. snd (f j a)) [0..<n] (True, []) = (n = 0, join (map h [0..<n]))"
  using assms by (induction n) (auto simp: join_snoc)

text \<open>Numbers in decimal.\<close>

lemma unat_digit: "k < 10 \<Longrightarrow> unat (of_nat (48 + k) :: u8) = 48 + k"
  by (simp add: unat_of_nat take_bit_nat_eq_self del: of_nat_add)

lemma print_nat_digits: "b \<in> set (print_nat n) \<Longrightarrow> 48 \<le> unat b"
proof (induction n rule: print_nat.induct)
  case (1 n)
  then show ?case using unat_digit [of n] unat_digit [of "n mod 10"]
    by (auto simp: print_nat.simps [of n] split: if_splits simp del: of_nat_add)
qed

lemma read_print_nat: "read_nat (print_nat n) = n"
proof (induction n rule: print_nat.induct)
  case (1 n)
  then show ?case using unat_digit [of n] unat_digit [of "n mod 10"]
    by (auto simp: print_nat.simps [of n] read_nat_def simp del: of_nat_add)
qed

lemma no_comma: "x \<in> {44, 10} \<Longrightarrow> x \<notin> set (print_nat n)"
  using print_nat_digits by fastforce

text \<open>A name is printed as it is if a NUL follows it.\<close>

definition printable :: "canary \<Rightarrow> bool" where
  "printable c \<longleftrightarrow> length (c_name c) < NAMELEN \<and>
     set (c_name c) \<inter> {CHR 0x00, CHR 0x0A, CHR '',''} = {}"

lemma print_name_eq:
  assumes "i < length data" "printable (data ! i)"
  shows "print_name data i = str (c_name (data ! i))"
proof -
  have "drop i data = data ! i # drop (Suc i) data" using assms(1) by (rule Cons_nth_drop_Suc [symmetric])
  then show ?thesis
    using assms(2) takeWhile_name [of "c_name (data ! i)" "NAMELEN - length (c_name (data ! i))"]
    by (simp add: print_name_def canary_bytes_def printable_def str_def)
qed

lemma char_byte_eq_iff: "char_byte c = char_byte d \<longleftrightarrow> c = d"
  by (metis byte_char_inverse)

lemma str_comma: "str '','' = [44]" "char_byte (CHR 0x0A) = 10" "char_byte (CHR '','') = 44"
  by (simp_all add: str_def char_byte_def)

lemma in_str: "char_byte c \<in> set (str s) \<longleftrightarrow> c \<in> set s"
  by (auto simp: str_def char_byte_eq_iff)

definition row_header :: "canary list \<Rightarrow> bytes list" where
  "row_header cs = concat (map (\<lambda>c. [str (c_name c @ ''_R''), str (c_name c @ ''_T'')]) cs)"

definition row_data :: "canary list \<Rightarrow> bytes list" where
  "row_data cs = concat (map (\<lambda>c. [print_nat (unat (reached c)), print_nat (unat (triggered c))]) cs)"

lemma map_used: "map (\<lambda>i. h (used_canaries data ! i)) [0..<length (used_canaries data)] = map h (used_canaries data)"
  by (rule nth_equalityI) simp_all

lemma row_header_fold:
  assumes "BUFFERLEN \<le> length data" "\<forall>c\<in>set (used_canaries data). printable c"
  shows "snd (fst (stor_forall data (dump_one_row_header data) (True, []) None 0)) = join (row_header (used_canaries data))"
proof -
  let ?u = "used_canaries data"
  let ?h = "\<lambda>c. str (c_name c @ ''_R'') @ 44 # str (c_name c @ ''_T'')"
  have "print_name data j = str (c_name (?u ! j))" if "j < length ?u" for j
    using that used_nth [OF that] used_length [of data] assms nth_mem [OF that] by (intro trans [OF print_name_eq]) auto
  then have "\<forall>j<length ?u. \<forall>b out. dump_one_row_header data j (b, out) = ((), False, out @ (if b then [] else [44]) @ ?h (?u ! j))"
    by (simp add: dump_one_row_header_def str_def char_byte_def)
  then show ?thesis using fold_rows [of "length ?u" "dump_one_row_header data" "\<lambda>j. ?h (?u ! j)"]
    by (simp add: stor_forall_none [OF assms(1)] map_used [of ?h] join_pairs row_header_def)
qed

lemma row_data_fold:
  assumes "BUFFERLEN \<le> length data"
  shows "snd (fst (stor_forall data (dump_one_row_data data) (True, []) None 0)) = join (row_data (used_canaries data))"
proof -
  let ?u = "used_canaries data"
  let ?h = "\<lambda>c. print_nat (unat (reached c)) @ 44 # print_nat (unat (triggered c))"
  have "\<forall>j<length ?u. \<forall>b out. dump_one_row_data data j (b, out) = ((), False, out @ (if b then [] else [44]) @ ?h (?u ! j))"
    using used_nth [of _ data] by (simp add: dump_one_row_data_def str_comma)
  then show ?thesis using fold_rows [of "length ?u" "dump_one_row_data data" "\<lambda>j. ?h (?u ! j)"]
    by (simp add: stor_forall_none [OF assms(1)] map_used [of ?h] join_pairs row_data_def)
qed

lemma row_header_plain:
  assumes "\<forall>c\<in>set cs. printable c" "x \<in> set (row_header cs)"
  shows "44 \<notin> set x" "10 \<notin> set x"
proof -
  obtain c t where "c \<in> set cs" "x = str (c_name c @ t)" "t = ''_R'' \<or> t = ''_T''"
    using assms(2) by (auto simp: row_header_def)
  then have "char_byte (CHR '','') \<notin> set x" "char_byte (CHR 0x0A) \<notin> set x"
    using assms(1) unfolding in_str by (auto simp: printable_def in_str)
  then show "44 \<notin> set x" "10 \<notin> set x" by (simp_all add: str_comma)
qed

lemma row_data_plain: "x \<in> set (row_data cs) \<Longrightarrow> 44 \<notin> set x \<and> 10 \<notin> set x"
  using no_comma by (auto simp: row_data_def)

lemma row_lines:
  assumes "BUFFERLEN \<le> length data" "\<forall>c\<in>set (used_canaries data). printable c" "used_canaries data \<noteq> []"
  obtains h d where "dump_row data = h @ [10] @ d @ [10]" "10 \<notin> set h" "10 \<notin> set d"
    "csv_fields h = row_header (used_canaries data)" "csv_fields d = row_data (used_canaries data)"
proof
  let ?u = "used_canaries data"
  show "dump_row data = join (row_header ?u) @ [10] @ join (row_data ?u) @ [10]"
    unfolding dump_row_def row_header_fold [OF assms(1,2)] row_data_fold [OF assms(1)] ..
  have ne: "row_header ?u \<noteq> []" "row_data ?u \<noteq> []" using assms(3) by (cases ?u; simp add: row_header_def row_data_def)+
  show "csv_fields (join (row_header ?u)) = row_header ?u" "csv_fields (join (row_data ?u)) = row_data ?u"
    using ne row_header_plain [OF assms(2)] row_data_plain by (blast intro: fields_join)+
  show "10 \<notin> set (join (row_header ?u))" "10 \<notin> set (join (row_data ?u))"
    using row_header_plain [OF assms(2)] row_data_plain set_join [of "row_header ?u"] set_join [of "row_data ?u"] by force+
qed

section \<open>Properties\<close>

text \<open>Property C30. Whatever the sequence of reports, restarts of the target and polls of the monitor, the
  counters of a new file are exact: in every process the reports count up to and including the first one
  whose condition holds, every counted report adds one to the reached counter of its bug and, if its condition holds,
  to the triggered counter (modulo 2 to the 64), as long as at most 31 bugs with different first 16 characters
  are reported.\<close>

theorem magma_counters_exact:
  assumes "[] \<notin> set (bugs_of ops)" "card (take 16 ` set (bugs_of ops)) \<le> 31"
  shows "tally (cells (snd (fold magma_exec ops (fresh_proc, empty_stored)))) n =
    (of_nat (length (filter (\<lambda>(b, c). take 16 b = n) (counted False ops))),
     of_nat (length (filter (\<lambda>(b, c). take 16 b = n \<and> c) (counted False ops))))"
  by (rule magma_counters(3) [OF assms])

theorem magma_counters_exact_witness:
  "tally (cells (snd (fold magma_exec [Log ''A'' False, Poll, Log ''B'' True, Log ''A'' True, Restart, Log ''A'' False]
     (fresh_proc, empty_stored)))) ''A'' = (2, 0)"
  using magma_counters_exact [of "[Log ''A'' False, Poll, Log ''B'' True, Log ''A'' True, Restart, Log ''A'' False]" "''A''"]
  by (simp add: card_insert_if)

text \<open>A bug that finds all 31 records taken by others gets the record behind the producer's buffer, which is
  the first one of the consumer's buffer, and every report resets that record first, so its counters never
  exceed one.\<close>

theorem magma_overflow:
  assumes "wf_records buf" "length (used_canaries buf) = 31" "take 16 bug \<notin> bug_names buf"
  shows "log_update bug condition faulty buf =
    buf[31 := \<lparr>c_name = take 16 bug, reached = of_bool (\<not> faulty), triggered = of_bool (condition \<and> \<not> faulty)\<rparr>]"
proof -
  have len: "BUFFERLEN \<le> length buf" "31 < length buf" using assms(1) by (simp_all add: wf_records_def)
  note sp = find_canary_from_start [OF len(1), of bug]
  have "\<not> find_canary buf bug 0 < 31"
  proof
    assume i: "find_canary buf bug 0 < 31"
    then have "c_name (used_canaries buf ! find_canary buf bug 0) = take 16 bug" using sp assms(2) used_nth [of _ buf] by simp
    then have "take 16 bug \<in> c_name ` set (used_canaries buf)" using i assms(2) by (metis imageI nth_mem)
    then show False using assms(3) by (simp add: bug_names_def)
  qed
  then have "stor_get buf bug = (31, buf[31 := new_canary (take 16 bug)])"
    using sp assms(2) by (simp add: stor_get_def Let_def)
  then show ?thesis using len(2) by (simp add: log_update_def Let_def)
qed

definition full_records :: "canary list" where
  "full_records = map (\<lambda>i. new_canary [char_of (65 + i :: nat)]) [0..<31] @ replicate 31 free_canary"

theorem magma_overflow_witness:
  "log_update ''late'' True False full_records = full_records[31 := \<lparr>c_name = ''late'', reached = 1, triggered = 1\<rparr>]"
proof -
  have u: "used_canaries full_records = take 31 full_records" by code_simp
  have "wf_records full_records" unfolding wf_records_def u by code_simp
  moreover have "take 16 ''late'' \<notin> bug_names full_records" unfolding bug_names_def u by code_simp
  ultimately show ?thesis using magma_overflow [of full_records "''late''" True False] u by (simp add: full_records_def)
qed

text \<open>A raw dump can be read back: cut into records of 32 bytes it gives the used records.\<close>

theorem dump_raw_reads_back:
  assumes "31 \<le> length data" "\<forall>c\<in>set (used_canaries data). storable c"
  shows "undump (dump_raw data) = used_canaries data"
  using undump_concat [OF assms(2)] dump_raw_eq [OF assms(1)] by simp

theorem dump_raw_reads_back_witness: "undump (dump_raw full_records) = take 31 full_records"
proof -
  have "used_canaries full_records = take 31 full_records" "list_all storable (take 31 full_records)" "31 \<le> length full_records"
    by code_simp+
  then show ?thesis using dump_raw_reads_back [of full_records] by (simp add: list_all_iff)
qed

text \<open>A row dump can be read back if the names are shorter than 16 characters and have no comma or line break:
  two lines, whose fields are the names with their suffixes and the counters in decimal.\<close>

theorem dump_row_reads_back:
  assumes "31 \<le> length data" "\<forall>c\<in>set (used_canaries data). printable c" "used_canaries data \<noteq> []"
  shows "\<exists>h d. dump_row data = h @ [10] @ d @ [10] \<and> 10 \<notin> set h \<and> 10 \<notin> set d \<and>
    csv_fields h = concat (map (\<lambda>c. [str (c_name c @ ''_R''), str (c_name c @ ''_T'')]) (used_canaries data)) \<and>
    map read_nat (csv_fields d) = concat (map (\<lambda>c. [unat (reached c), unat (triggered c)]) (used_canaries data))"
proof -
  obtain h d where hd: "dump_row data = h @ [10] @ d @ [10]" "10 \<notin> set h" "10 \<notin> set d"
    "csv_fields h = row_header (used_canaries data)" "csv_fields d = row_data (used_canaries data)"
    using row_lines [OF assms] .
  have "map read_nat (csv_fields d) = concat (map (\<lambda>c. [unat (reached c), unat (triggered c)]) (used_canaries data))"
    unfolding hd(5) row_data_def by (simp add: map_concat comp_def read_print_nat)
  then show ?thesis using hd(1-4) unfolding row_header_def by blast
qed

theorem dump_row_reads_back_witness:
  "\<exists>h d. dump_row (replicate 1 (new_canary ''AB'') @ replicate 30 free_canary) = h @ [10] @ d @ [10] \<and>
     10 \<notin> set h \<and> 10 \<notin> set d \<and> csv_fields h = [str ''AB_R'', str ''AB_T''] \<and> map read_nat (csv_fields d) = [0, 0]"
proof -
  let ?d = "replicate 1 (new_canary ''AB'') @ replicate 30 free_canary"
  have u: "used_canaries ?d = [new_canary ''AB'']" and "printable (new_canary ''AB'')" "31 \<le> length ?d" by code_simp+
  then have "\<forall>c\<in>set (used_canaries ?d). printable c" "used_canaries ?d \<noteq> []" by simp_all
  from dump_row_reads_back [OF \<open>31 \<le> length ?d\<close> this, unfolded u] show ?thesis by simp
qed

end
