(* ===== verification/Magma_Protocol.thy ===== *)
theory Magma_Protocol
  imports Magma_Props
begin

text \<open>
  How an instrumented target and the monitor share the storage file, record by record: \<^verbatim>\<open>magma_log\<close> copies its buffer while
  \<^verbatim>\<open>consumed\<close> is set, the monitor's \<^verbatim>\<open>fetch_file\<close> copies while it is not, and either process may be killed
  at any time. The steps are those of the C code, with each record of a \<^verbatim>\<open>memcpy\<close> copied at once and writes
  seen in the order of the program. The second part runs the monitor end to end.
\<close>

section \<open>Steps\<close>

datatype writer = W_Idle | W_Check | W_Copy nat
datatype reader = R_Idle | R_Copy "canary list"

text \<open>The fields after the first four record what was published and fetched.\<close>

record proto =
  shared :: stored
  faulty_flag :: bool
  writer_at :: writer
  reader_at :: reader
  published :: "canary list list"
  fetched :: "canary list list"

definition upd_cells :: "(canary list \<Rightarrow> canary list) \<Rightarrow> proto \<Rightarrow> proto" where
  "upd_cells f s = s\<lparr>shared := (shared s)\<lparr>cells := f (cells (shared s))\<rparr>\<rparr>"

definition set_consumed :: "bool \<Rightarrow> proto \<Rightarrow> proto" where
  "set_consumed b s = s\<lparr>shared := (shared s)\<lparr>consumed := b\<rparr>\<rparr>"

abbreviation room_for :: "string \<Rightarrow> canary list \<Rightarrow> bool" where
  "room_for bug buf \<equiv> bug \<noteq> [] \<and> card (insert (take NAMELEN bug) (bug_names buf)) \<le> BUFFERLEN"

inductive proto_step :: "proto \<Rightarrow> proto \<Rightarrow> bool" where
  log: "\<lbrakk>writer_at s = W_Idle; room_for bug (cells (shared s))\<rbrakk> \<Longrightarrow>
    proto_step s ((upd_cells (log_update bug c (faulty_flag s)) s)\<lparr>faulty_flag := faulty_flag s \<or> c, writer_at := W_Check\<rparr>)"
| check: "writer_at s = W_Check \<Longrightarrow>
    proto_step s (s\<lparr>writer_at := if consumed (shared s) then W_Copy 0 else W_Idle\<rparr>)"
| copy: "\<lbrakk>writer_at s = W_Copy i; i < BUFFERLEN\<rbrakk> \<Longrightarrow>
    proto_step s ((upd_cells (\<lambda>b. b[BUFFERLEN + i := b ! i]) s)\<lparr>writer_at := W_Copy (i + 1)\<rparr>)"
| release: "\<lbrakk>writer_at s = W_Copy i; BUFFERLEN \<le> i\<rbrakk> \<Longrightarrow>
    proto_step s ((set_consumed False s)\<lparr>writer_at := W_Idle, published := published s @ [producer (shared s)]\<rparr>)"
| restart: "proto_step s (s\<lparr>writer_at := W_Idle, faulty_flag := False\<rparr>)"
| fetch: "\<lbrakk>reader_at s = R_Idle; \<not> consumed (shared s)\<rbrakk> \<Longrightarrow> proto_step s (s\<lparr>reader_at := R_Copy []\<rparr>)"
| read: "\<lbrakk>reader_at s = R_Copy got; length got < BUFFERLEN\<rbrakk> \<Longrightarrow>
    proto_step s (s\<lparr>reader_at := R_Copy (got @ [cells (shared s) ! (BUFFERLEN + length got)])\<rparr>)"
| take: "\<lbrakk>reader_at s = R_Copy got; BUFFERLEN \<le> length got\<rbrakk> \<Longrightarrow>
    proto_step s ((set_consumed True s)\<lparr>reader_at := R_Idle, fetched := fetched s @ [got]\<rparr>)"
| abort: "proto_step s (s\<lparr>reader_at := R_Idle\<rparr>)"

definition proto_start :: "stored \<Rightarrow> proto" where
  "proto_start d = \<lparr>shared = d, faulty_flag = False, writer_at = W_Idle, reader_at = R_Idle, published = [], fetched = []\<rparr>"

section \<open>Snapshots\<close>

text \<open>
  The flag is the lock: while it is set the reader is idle, while it is not the writer does not copy and the
  consumer's buffer is the last published one.
\<close>

definition proto_inv :: "canary list \<Rightarrow> proto \<Rightarrow> bool" where
  "proto_inv first s \<longleftrightarrow> wf_records (cells (shared s)) \<and>
     (consumed (shared s) \<longrightarrow> reader_at s = R_Idle) \<and>
     (\<forall>i. writer_at s = W_Copy i \<longrightarrow> consumed (shared s) \<and> i \<le> BUFFERLEN \<and>
        take i (consumer (shared s)) = take i (producer (shared s))) \<and>
     (\<not> consumed (shared s) \<longrightarrow> consumer (shared s) = last (first # published s)) \<and>
     (\<forall>got. reader_at s = R_Copy got \<longrightarrow> got = take (length got) (consumer (shared s))) \<and>
     set (fetched s) \<subseteq> set (first # published s)"

lemma consumer_cells: "length (cells d) = 2 * BUFFERLEN \<Longrightarrow> consumer d = drop BUFFERLEN (cells d)"
  by (simp add: consumer_def)

lemma log_keeps:
  assumes "wf_records buf" "room_for bug buf"
  shows "wf_records (log_update bug c f buf)" "drop BUFFERLEN (log_update bug c f buf) = drop BUFFERLEN buf"
  using log_update_logged [OF assms(1)] assms(2) by (auto simp: logged_def)

lemma copy_keeps:
  assumes "wf_records buf" "i < BUFFERLEN"
  defines "buf' \<equiv> buf[BUFFERLEN + i := buf ! i]"
  shows "wf_records buf'" "take BUFFERLEN buf' = take BUFFERLEN buf"
    "take i (drop BUFFERLEN buf) = take i (take BUFFERLEN buf) \<Longrightarrow>
     take (Suc i) (drop BUFFERLEN buf') = take (Suc i) (take BUFFERLEN buf')"
proof -
  have len: "length buf = 62" using assms(1) by (simp add: wf_records_def)
  show p: "take BUFFERLEN buf' = take BUFFERLEN buf" by (simp add: buf'_def)
  then show "wf_records buf'" using producer_only(4) [OF p] assms(1) by (simp add: buf'_def)
  assume eq: "take i (drop BUFFERLEN buf) = take i (take BUFFERLEN buf)"
  have "drop BUFFERLEN buf' = (drop BUFFERLEN buf)[i := buf ! i]" by (simp add: buf'_def drop_update_swap)
  then show "take (Suc i) (drop BUFFERLEN buf') = take (Suc i) (take BUFFERLEN buf')"
    unfolding p using eq len assms(2) by (simp add: take_Suc_conv_app_nth take_update_swap list_update_append)
qed

lemmas proto_defs = proto_inv_def upd_cells_def set_consumed_def

lemma proto_inv_step:
  assumes "proto_step s s'" "proto_inv first s"
  shows "proto_inv first s'"
  using assms
proof (induction rule: proto_step.induct)
  case (log s bug c)
  let ?buf = "log_update bug c (faulty_flag s) (cells (shared s))"
  have wf: "wf_records (cells (shared s))" using log.prems by (simp add: proto_inv_def)
  note k = log_keeps [OF wf log.hyps(2), of c "faulty_flag s"]
  have "consumer ((shared s)\<lparr>cells := ?buf\<rparr>) = consumer (shared s)" using k(2) by (simp add: consumer_def)
  then show ?case using log k(1) by (simp add: proto_defs)
next
  case (copy s i)
  let ?b = "cells (shared s)"
  have inv: "wf_records ?b" "consumed (shared s)" "take i (consumer (shared s)) = take i (producer (shared s))"
    using copy by (simp_all add: proto_inv_def)
  have len: "length ?b = 62" using inv(1) by (simp add: wf_records_def)
  note k = copy_keeps [OF inv(1) copy.hyps(2)]
  have "take (Suc i) (consumer ((shared s)\<lparr>cells := ?b[BUFFERLEN + i := ?b ! i]\<rparr>)) =
        take (Suc i) (producer ((shared s)\<lparr>cells := ?b[BUFFERLEN + i := ?b ! i]\<rparr>))"
    using k(3) inv(3) len by (simp add: consumer_def producer_def)
  then show ?case using copy inv k(1) by (simp add: proto_defs)
next
  case (release s i)
  then have "length (cells (shared s)) = 62" "i = 31" "take i (consumer (shared s)) = take i (producer (shared s))"
    by (auto simp: proto_inv_def wf_records_def)
  then have "consumer (shared s) = producer (shared s)" by (simp add: consumer_def producer_def)
  then show ?case using release by (auto simp: proto_defs consumer_def producer_def)
next
  case (read s got)
  have "length (consumer (shared s)) = 31" "got = take (length got) (consumer (shared s))"
    using read by (auto simp: proto_inv_def wf_records_def consumer_def)
  moreover have "consumer (shared s) ! length got = cells (shared s) ! (31 + length got)"
    using read by (simp add: consumer_def proto_inv_def wf_records_def)
  moreover define more where "more = got @ [cells (shared s) ! (31 + length got)]"
  ultimately have "more = take (length more) (consumer (shared s))"
    using read.hyps(2) by (simp add: take_Suc_conv_app_nth)
  then show ?case using read unfolding proto_inv_def more_def by (auto simp add: more_def [symmetric] simp del: last.simps)
next
  case (take s got)
  have c: "\<not> consumed (shared s)" "length (consumer (shared s)) = 31" "got = take (length got) (consumer (shared s))"
    using take by (auto simp: proto_inv_def wf_records_def consumer_def)
  then have "got = consumer (shared s)" using take.hyps(2) by simp
  then have "got \<in> set (first # published s)" using take.prems c(1) by (simp add: proto_inv_def)
  then show ?case using take c(1) by (auto simp: proto_defs)
qed (auto simp: proto_inv_def consumer_def split: if_splits)

lemma proto_inv_reach: "proto_step\<^sup>*\<^sup>* s s' \<Longrightarrow> proto_inv first s \<Longrightarrow> proto_inv first s'"
  by (induction rule: rtranclp_induct) (auto intro: proto_inv_step)

lemma proto_inv_start:
  assumes "wf_records (cells d)"
  shows "proto_inv (consumer d) (proto_start d)"
  using assms by (simp add: proto_inv_def proto_start_def)

text \<open>Without interference the steps of a report are \<^verbatim>\<open>magma_log\<close>.\<close>

lemma copy_steps:
  assumes "writer_at s = W_Copy i" "i \<le> BUFFERLEN" "length (cells (shared s)) = 2 * BUFFERLEN"
    "take i (drop BUFFERLEN (cells (shared s))) = take i (cells (shared s))"
  shows "\<exists>s'. proto_step\<^sup>*\<^sup>* s s' \<and> writer_at s' = W_Copy BUFFERLEN \<and> faulty_flag s' = faulty_flag s \<and>
    shared s' = (shared s)\<lparr>cells := producer (shared s) @ producer (shared s)\<rparr>"
  using assms
proof (induction "BUFFERLEN - i" arbitrary: i s)
  case 0
  then have "cells (shared s) = producer (shared s) @ producer (shared s)"
    by (metis append_take_drop_id diff_diff_cancel diff_is_0_eq' le_antisym length_drop mult_2 add_diff_cancel_left' take_all producer_def order_refl zero_diff)
  then show ?case using 0 by (intro exI [of _ s]) simp
next
  case (Suc k)
  let ?b = "cells (shared s)"
  let ?s = "(upd_cells (\<lambda>b. b[BUFFERLEN + i := b ! i]) s)\<lparr>writer_at := W_Copy (i + 1)\<rparr>"
  have i: "i < BUFFERLEN" using Suc.hyps(2) by simp
  have step: "proto_step s ?s" using Suc.prems(1) i by (rule proto_step.copy)
  have p: "producer (shared ?s) = producer (shared s)" by (simp add: upd_cells_def producer_def)
  have "drop BUFFERLEN (?b[BUFFERLEN + i := ?b ! i]) = (drop BUFFERLEN ?b)[i := ?b ! i]" by (simp add: drop_update_swap)
  then have "take (i + 1) (drop BUFFERLEN (cells (shared ?s))) = take (i + 1) (cells (shared ?s))"
    using Suc.prems i by (simp add: upd_cells_def take_Suc_conv_app_nth take_update_swap list_update_append)
  moreover have "k = BUFFERLEN - (i + 1)" "i + 1 \<le> BUFFERLEN" "writer_at ?s = W_Copy (i + 1)"
    "length (cells (shared ?s)) = 2 * BUFFERLEN"
    using Suc.hyps(2) Suc.prems(3) i by (simp_all add: upd_cells_def)
  ultimately obtain s' where "proto_step\<^sup>*\<^sup>* ?s s'" "writer_at s' = W_Copy BUFFERLEN" "faulty_flag s' = faulty_flag ?s"
    "shared s' = (shared ?s)\<lparr>cells := producer (shared ?s) @ producer (shared ?s)\<rparr>"
    using Suc.hyps(1) [of "i + 1" ?s] by blast
  then show ?case using converse_rtranclp_into_rtranclp [of proto_step, OF step] unfolding p by (intro exI [of _ s']) (simp add: upd_cells_def)
qed

lemma log_steps:
  assumes "writer_at s = W_Idle" "room_for bug (cells (shared s))" "wf_records (cells (shared s))"
  shows "\<exists>s'. proto_step\<^sup>*\<^sup>* s s' \<and> writer_at s' = W_Idle \<and>
    (\<exists>p'. magma_log True bug c (\<lparr>mapped = True, init_called = True, magma_faulty = faulty_flag s\<rparr>, shared s) = (p', shared s') \<and>
          magma_faulty p' = faulty_flag s')"
proof -
  let ?s = "(upd_cells (log_update bug c (faulty_flag s)) s)\<lparr>faulty_flag := faulty_flag s \<or> c, writer_at := W_Check\<rparr>"
  let ?t = "?s\<lparr>writer_at := if consumed (shared ?s) then W_Copy 0 else W_Idle\<rparr>"
  have "proto_step s ?s" using assms(1,2) by (rule proto_step.log)
  moreover have "proto_step ?s ?t" by (rule proto_step.check) simp
  ultimately have st: "proto_step\<^sup>*\<^sup>* s ?t" by (meson converse_rtranclp_into_rtranclp r_into_rtranclp)
  have len: "length (cells (shared ?t)) = 62" using log_keeps(1) [OF assms(3,2)] by (simp add: upd_cells_def wf_records_def)
  show ?thesis
  proof (cases "consumed (shared s)")
    case False
    then show ?thesis using st by (intro exI [of _ ?t]) (simp add: upd_cells_def magma_log_def publish_def Let_def)
  next
    case True
    then have "writer_at ?t = W_Copy 0" by (simp add: upd_cells_def)
    then obtain u where u: "proto_step\<^sup>*\<^sup>* ?t u" "writer_at u = W_Copy BUFFERLEN" "faulty_flag u = faulty_flag ?t"
      "shared u = (shared ?t)\<lparr>cells := producer (shared ?t) @ producer (shared ?t)\<rparr>"
      using copy_steps [of ?t 0] len by auto
    let ?v = "(set_consumed False u)\<lparr>writer_at := W_Idle, published := published u @ [producer (shared u)]\<rparr>"
    have "proto_step u ?v" using u(2) order_refl by (rule proto_step.release)
    then have "proto_step\<^sup>*\<^sup>* s ?v" using st u(1) by (meson rtranclp.rtrancl_into_rtrancl rtranclp_trans)
    then show ?thesis using True u len
      by (intro exI [of _ ?v]) (simp add: upd_cells_def set_consumed_def magma_log_def publish_def producer_def Let_def)
  qed
qed

section \<open>The monitor\<close>

lemma wf_takes: "\<forall>b\<in>N. CHR 0x00 \<notin> set b \<Longrightarrow> c_name c \<in> take NAMELEN ` N \<Longrightarrow> storable c"
  unfolding storable_def by (auto dest!: set_take_subset [THEN subsetD])

lemma used_producer [simp]: "used_canaries (producer d) = used_canaries (cells d)"
  by (simp add: used_canaries_def producer_def)

lemma parse_watch:
  assumes "arg_of cmd = None"
  shows "parse_args env (''--fetch'' # ''watch'' # ''--dump'' # ''raw'' # cmd # args) =
    ([(ARG_FETCH, Some ''watch''), (ARG_DUMP, Some ''raw'')], 1 + int (length args), cmd # args)"
  using assms by (simp add: arg_of_def split: if_splits)

text \<open>An option without its value: the words run out, and the comparison of the value faults.\<close>

lemma monitor_missing_value:
  "monitor_main NAME [''--fetch''] e = (Null_Dereference, e)"
  "files e NAME = Some d \<Longrightarrow> \<not> consumed d \<Longrightarrow>
     monitor_main NAME [''--dump''] e = (Null_Dereference, e\<lparr>files := (files e)(NAME \<mapsto> d\<lparr>consumed := True\<rparr>)\<rparr>)"
  by (simp_all add: monitor_main_def arg_of_def last_arg_def monitor_file_def fetch_file_def monitor_dump_def)

text \<open>A name of 16 characters has no NUL behind it, so that printing it runs into the counters.\<close>

lemma print_name_runs_on:
  "print_name [\<lparr>c_name = ''ABCDEFGHIJKLMNOP'', reached = 33, triggered = 0\<rparr>] 0 = str ''ABCDEFGHIJKLMNOP!''"
  by code_simp

section \<open>Properties\<close>



text \<open>Property C32. The monitor, asked to watch a command, exits with the command's status, and the raw dump it prints
  holds one record for every bug the command reported, with the exact counters.\<close>

theorem monitor_watch_exact:
  assumes "temp_ok e" "exec e (cmd # args) = (\<lambda>d. (snd (fold magma_exec ops (fresh_proc, d)), status))"
    "arg_of cmd = None" "\<forall>b\<in>set (bugs_of ops). b \<noteq> [] \<and> CHR 0x00 \<notin> set b"
    "card (take 16 ` set (bugs_of ops)) \<le> 31"
  shows "\<exists>out. monitor_main NAME (''--fetch'' # ''watch'' # ''--dump'' # ''raw'' # cmd # args) e =
      (Exit (case status of None \<Rightarrow> 0 | Some c \<Rightarrow> c) out, e) \<and>
    distinct (map c_name (undump out)) \<and> c_name ` set (undump out) = take 16 ` set (bugs_of ops) \<and>
    (\<forall>c\<in>set (undump out).
       reached c = of_nat (length (filter (\<lambda>(b, x). take 16 b = c_name c) (counted False ops))) \<and>
       triggered c = of_nat (length (filter (\<lambda>(b, x). take 16 b = c_name c \<and> x) (counted False ops))))"
proof -
  define d where "d = snd (fold magma_exec ops (fresh_proc, empty_stored))"
  have ne: "[] \<notin> set (bugs_of ops)" using assms(4) by auto
  note m = magma_counters [OF ne assms(5), folded d_def]
  have u: "set (map c_name (used_canaries (cells d))) = take 16 ` set (bugs_of ops)"
    using m(2) unfolding bug_names_def by simp
  moreover have "\<forall>b\<in>set (bugs_of ops). CHR 0x00 \<notin> set b" using assms(4) by blast
  ultimately have "storable c" if "c \<in> set (used_canaries (cells d))" for c
    using that by (intro wf_takes) (simp_all add: set_eq_iff image_iff, blast)
  then have "\<forall>c\<in>set (used_canaries (cells d)). storable c" ..
  moreover have "31 \<le> length (producer d)" using m(1) by (simp add: wf_records_def producer_def)
  ultimately have r: "undump (dump_raw (producer d)) = used_canaries (cells d)" using undump_concat dump_raw_eq by simp
  have main: "monitor_main NAME (''--fetch'' # ''watch'' # ''--dump'' # ''raw'' # cmd # args) e =
      (Exit (case status of None \<Rightarrow> 0 | Some c \<Rightarrow> c) (dump_raw (producer d)), e)"
    unfolding monitor_main_def parse_watch [OF assms(3)]
    using assms(1,2) by (simp add: last_arg_def fetch_watch_def d_def monitor_dump_def)
  have "reached c = of_nat (length (filter (\<lambda>(b, x). take 16 b = c_name c) (counted False ops))) \<and>
      triggered c = of_nat (length (filter (\<lambda>(b, x). take 16 b = c_name c \<and> x) (counted False ops)))"
    if "c \<in> set (used_canaries (cells d))" for c
    using tally_used [OF wf_recordsD(2) [OF m(1)] that] unfolding m(3) by (simp only: prod.inject)
  then show ?thesis using main r u wf_recordsD(2) [OF m(1)] by (intro exI [of _ "dump_raw (producer d)"]) simp
qed

definition ex_monitor :: monitor_env where
  "ex_monitor = \<lparr>files = (\<lambda>_. None), creatable = (\<lambda>_. False), temp_ok = True,
     exec = (\<lambda>_ d. (snd (fold magma_exec [Log ''A'' True] (fresh_proc, d)), Some 3)), environ = []\<rparr>"

theorem monitor_watch_exact_witness:
  "\<exists>out. monitor_main [] [''--fetch'', ''watch'', ''--dump'', ''raw'', ''run''] ex_monitor = (Exit 3 out, ex_monitor) \<and>
     c_name ` set (undump out) = {''A''}"
proof -
  have "arg_of ''run'' = None" by (simp add: arg_of_def)
  then show ?thesis
    using monitor_watch_exact [of ex_monitor "''run''" "[]" "[Log ''A'' True]" "Some 3" "[]"] by (auto simp: ex_monitor_def)
qed

end
