(* ===== verification/Trim.thy ===== *)
theory Trim
  imports Testcase_Cache Tmin
begin

text \<open>
  Trimming queue entries: \<^verbatim>\<open>write_to_testcase\<close>, \<^verbatim>\<open>write_with_gap\<close> and \<^verbatim>\<open>trim_case\<close> of
  \<^verbatim>\<open>AFLplusplus/src/afl-fuzz-run.c\<close> and \<^verbatim>\<open>trim_case_custom\<close> of \<^verbatim>\<open>AFLplusplus/src/afl-fuzz-mutators.c\<close>. The state adds to the
  one of the test case cache the files, the test case that the target will read and the trimming statistics. A run
  of the target, the hash of a trace and the plugins are parameters. Lengths are at most \<^verbatim>\<open>MAX_FILE\<close>, so
  positions inside a test case do not wrap and are natural numbers; screens and timers are left out.
\<close>

section \<open>State\<close>

text \<open>
  \<^verbatim>\<open>afl_custom_post_process\<close> gives a size and a buffer (\<open>None\<close> for \<^verbatim>\<open>NULL\<close>), which is taken to be one of its own;
  \<^verbatim>\<open>afl_custom_trim\<close> likewise.
\<close>

record 'w fuzz_trimmer =
  ft_init_trim :: "'w \<Rightarrow> bytes \<Rightarrow> int \<times> 'w"
  ft_trim :: "'w \<Rightarrow> nat \<times> bytes option \<times> 'w"
  ft_post_trim :: "'w \<Rightarrow> bool \<Rightarrow> int \<times> 'w"

record 'w fuzz_mutator =
  fm_post_process :: "('w \<Rightarrow> bytes \<Rightarrow> int \<times> bytes option \<times> 'w) option"
  fm_fuzz_send :: "('w \<Rightarrow> bytes \<Rightarrow> 'w) option"
  fm_trimmer :: "'w fuzz_trimmer option"

record 'w trim_env =
  run_target :: "'w \<Rightarrow> bytes \<Rightarrow> bytes option \<Rightarrow> fsrv_run_result \<times> bytes \<times> bool \<times> 'w"
  trace_hash :: "bytes \<Rightarrow> u64"
  can_create :: "string \<Rightarrow> bool"
  out_file_ok :: bool
  class_table :: "u16 list"
  mutator_list :: "'w fuzz_mutator list"
  min_length :: nat
  max_length :: nat
  keep_original :: bool
  late_send :: bool
  no_unlink :: bool
  write_results :: "int list"

record ('d, 'w) trim_state = "'d cache_state" +
  disk :: "string \<Rightarrow> bytes option"
  testcase :: bytes
  custom_input :: "bytes option"
  clean_trace :: bytes
  clean_trace_custom :: bytes
  bytes_trim_in :: u64
  bytes_trim_out :: u64
  trim_execs :: u64
  stop_soon :: bool
  stage_cur :: u32
  stage_max :: u32
  plugin_world :: 'w

datatype trim_error = Trim_Fatal string | Null_Read | Over_Read | Steps_Exhausted | Cache_Failed cache_error

text \<open>
  \<^verbatim>\<open>in_buf\<close> is what \<^verbatim>\<open>queue_testcase_get\<close> gave \<^verbatim>\<open>fuzz_one\<close> for the current entry: the cached buffer, written in place,
  or the buffer for entries that are not cached.
\<close>

definition in_buf :: "nat \<Rightarrow> ('d, 'w) trim_state \<Rightarrow> bytes" where
  "in_buf q s = (case q_testcase_buf (entry s q) of Some b \<Rightarrow> b | None \<Rightarrow> afl_testcase_buf s)"

definition put_in_buf :: "nat \<Rightarrow> bytes \<Rightarrow> ('d, 'w) trim_state \<Rightarrow> ('d, 'w) trim_state" where
  "put_in_buf q b s = (case q_testcase_buf (entry s q) of
       Some _ \<Rightarrow> upd_entry q (\<lambda>e. e\<lparr>q_testcase_buf := Some b\<rparr>) s
     | None \<Rightarrow> s\<lparr>afl_testcase_buf := b\<rparr>)"

definition fuzz_run_target :: "'w trim_env \<Rightarrow> ('d, 'w) trim_state \<Rightarrow> fsrv_run_result \<times> ('d, 'w) trim_state" where
  "fuzz_run_target env s =
     (case run_target env (plugin_world s) (testcase s) (custom_input s) of (ret, trace, stop, w) \<Rightarrow>
        (ret, s\<lparr>trace_bits := trace, stop_soon := stop_soon s \<or> stop, plugin_world := w\<rparr>))"

definition map_trace :: "('d, 'w) trim_state \<Rightarrow> bytes" where
  "map_trace s = take (unat (map_size s)) (trace_bits s)"

section \<open>Putting a test case in place\<close>

text \<open>
  The chain of \<^verbatim>\<open>post_process\<close> calls of \<^verbatim>\<open>write_to_testcase\<close> and \<^verbatim>\<open>trim_case\<close>: a plugin that gives no buffer or no bytes leaves
  the buffer and sets the size to 0. The flag says whether the buffer was replaced.
\<close>

fun fuzz_post_process :: "'w fuzz_mutator list \<Rightarrow> nat \<Rightarrow> bytes \<Rightarrow> bool \<Rightarrow> 'w \<Rightarrow> nat \<times> bytes \<times> bool \<times> 'w" where
  "fuzz_post_process [] new_size new_mem replaced w = (new_size, new_mem, replaced, w)"
| "fuzz_post_process (m # ms) new_size new_mem replaced w =
     (case fm_post_process m of
        None \<Rightarrow> fuzz_post_process ms new_size new_mem replaced w
      | Some f \<Rightarrow>
          (case f w (take new_size new_mem) of
             (sz, None, w) \<Rightarrow> fuzz_post_process ms 0 new_mem replaced w
           | (sz, Some buf, w) \<Rightarrow>
               if sz \<le> 0 then fuzz_post_process ms 0 new_mem replaced w
               else fuzz_post_process ms (nat sz) buf True w))"

definition clamp_length :: "'w trim_env \<Rightarrow> bool \<Rightarrow> nat \<Rightarrow> nat" where
  "clamp_length env fix_len len =
     (if len < min_length env \<and> \<not> fix_len then min_length env
      else if max_length env < len then max_length env else len)"

fun send_all :: "'w trim_env \<Rightarrow> 'w fuzz_mutator list \<Rightarrow> bytes \<Rightarrow> bool \<Rightarrow> ('d, 'w) trim_state \<Rightarrow> bool \<times> ('d, 'w) trim_state" where
  "send_all env [] mem sent s = (sent, s)"
| "send_all env (m # ms) mem sent s =
     (case fm_fuzz_send m of
        None \<Rightarrow> send_all env ms mem sent s
      | Some f \<Rightarrow>
          send_all env ms mem True
            (if late_send env then s\<lparr>custom_input := Some mem\<rparr> else s\<lparr>plugin_world := f (plugin_world s) mem\<rparr>))"

text \<open>
  \<^verbatim>\<open>write_to_testcase\<close>: the length written, 0 when the test case is to be skipped, and the buffer the
  caller's pointer refers to afterwards. Raising a size to the minimum may read past the end of a buffer.
\<close>

definition write_to_testcase ::
  "'w trim_env \<Rightarrow> bytes \<Rightarrow> nat \<Rightarrow> bool \<Rightarrow> ('d, 'w) trim_state \<Rightarrow> trim_error + nat \<times> bytes \<times> ('d, 'w) trim_state" where
  "write_to_testcase env mem len fix_len s =
     (if custom_mutators_count s \<noteq> 0 then
        (case fuzz_post_process (mutator_list env) len mem False (plugin_world s) of
           (new_size, new_mem, replaced, w) \<Rightarrow>
             (let s = s\<lparr>plugin_world := w\<rparr>
              in if new_size = 0 \<and> \<not> fix_len then Inr (0, mem, s)
                 else (let new_size = clamp_length env fix_len (if new_size = 0 then len else new_size);
                           out = (if replaced \<and> 0 < new_size then new_mem else mem)
                       in if length out < new_size then Inl Over_Read
                          else (case send_all env (mutator_list env) (take new_size out) False s of
                                  (sent, s) \<Rightarrow>
                                    (let s = (if sent then s else s\<lparr>testcase := take new_size out\<rparr>)
                                     in if keep_original env then Inr (len, mem, s)
                                        else Inr (new_size, if replaced \<and> 0 < new_size then take new_size out else mem, s))))))
      else (let len = clamp_length env fix_len len
            in if length mem < len then Inl Over_Read
               else Inr (len, mem, s\<lparr>testcase := take len mem\<rparr>)))"

text \<open>
  The chain of \<^verbatim>\<open>write_with_gap\<close> only recovers when the plugin gives neither a buffer nor a size: without a buffer but
  with a size the next use reads through \<^verbatim>\<open>NULL\<close>.
\<close>

fun gap_post_process :: "'w fuzz_mutator list \<Rightarrow> int \<Rightarrow> bytes option \<Rightarrow> 'w \<Rightarrow> trim_error + int \<times> bytes option \<times> 'w" where
  "gap_post_process [] new_size new_mem w = Inr (new_size, new_mem, w)"
| "gap_post_process (m # ms) new_size new_mem w =
     (case fm_post_process m of
        None \<Rightarrow> gap_post_process ms new_size new_mem w
      | Some f \<Rightarrow>
          (case new_mem of
             None \<Rightarrow> Inl Null_Read
           | Some mem \<Rightarrow>
               (case f w (take (nat new_size) mem) of
                  (sz, buf, w) \<Rightarrow>
                    if buf = None \<and> sz \<le> 0 then gap_post_process ms 0 new_mem w
                    else gap_post_process ms sz buf w)))"

definition without_gap :: "bytes \<Rightarrow> nat \<Rightarrow> nat \<Rightarrow> nat \<Rightarrow> bytes" where
  "without_gap mem len skip_at skip_len =
     take skip_at mem @ take (len - skip_at - skip_len) (drop (skip_at + skip_len) mem)"

definition write_with_gap ::
  "'w trim_env \<Rightarrow> bytes \<Rightarrow> nat \<Rightarrow> nat \<Rightarrow> nat \<Rightarrow> ('d, 'w) trim_state \<Rightarrow> trim_error + ('d, 'w) trim_state" where
  "write_with_gap env mem len skip_at skip_len s =
     (let cand = without_gap mem len skip_at skip_len
      in if custom_mutators_count s \<noteq> 0 \<and> list_ex (\<lambda>m. fm_post_process m \<noteq> None) (mutator_list env) then
           (case gap_post_process (mutator_list env) (int (len - skip_len)) (Some cand) (plugin_world s) of
              Inl err \<Rightarrow> Inl err
            | Inr (sz, None, w) \<Rightarrow> Inl Null_Read
            | Inr (sz, Some mem, w) \<Rightarrow>
                if sz < 0 \<or> int (length mem) < sz then Inl Over_Read
                else if \<not> out_file_ok env then Inl (Trim_Fatal ''Unable to create'')
                else Inr (s\<lparr>testcase := take (nat sz) mem, plugin_world := w\<rparr>))
         else if \<not> out_file_ok env then Inl (Trim_Fatal ''Unable to create'')
         else Inr (s\<lparr>testcase := cand\<rparr>))"

section \<open>Writing the queue file\<close>

text \<open>
  With \<^verbatim>\<open>no_unlink\<close> the file is written by a loop that passes \<^verbatim>\<open>in_buf\<close> itself to every \<^verbatim>\<open>write\<close>; \<open>rs\<close> are the results of
  these calls, and a call beyond them writes all it is given.
\<close>

fun write_loop :: "int list \<Rightarrow> bytes \<Rightarrow> nat \<Rightarrow> nat \<Rightarrow> bytes \<Rightarrow> bytes" where
  "write_loop rs buf len written out =
     (if written < len then
        (case rs of
           [] \<Rightarrow> out @ take (len - written) buf
         | r # rs \<Rightarrow>
             (let n = min (nat r) (len - written) in write_loop rs buf len (written + n) (out @ take n buf)))
      else out)"

declare write_loop.simps [simp del]

definition write_queue_file ::
  "'w trim_env \<Rightarrow> string \<Rightarrow> bytes \<Rightarrow> nat \<Rightarrow> ('d, 'w) trim_state \<Rightarrow> trim_error + ('d, 'w) trim_state" where
  "write_queue_file env fname buf len s =
     (if \<not> can_create env fname then Inl (Trim_Fatal ''Unable to create'')
      else if length buf < len then Inl Over_Read
      else Inr (s\<lparr>disk := (disk s)(fname \<mapsto>
             (if no_unlink env then write_loop (write_results env) buf len 0 [] else take len buf))\<rparr>))"

section \<open>Built-in trimming\<close>

text \<open>\<^verbatim>\<open>memmove\<close> of the tail over the removed bytes; what lies behind the new end stays.\<close>

definition close_gap :: "bytes \<Rightarrow> nat \<Rightarrow> nat \<Rightarrow> nat \<Rightarrow> bytes" where
  "close_gap buf len pos avail =
     (let tail = len - pos - avail
      in take pos buf @ take tail (drop (pos + avail) buf) @ drop (pos + tail) buf)"

abbreviation (input) TRIM_MIN_BYTES :: nat where "TRIM_MIN_BYTES \<equiv> 4"
abbreviation (input) TRIM_END_STEPS :: nat where "TRIM_END_STEPS \<equiv> 1024"

definition len_pow2 :: "nat \<Rightarrow> nat" where
  "len_pow2 len = unat (ucast (next_pow2 (of_nat len)) :: u32)"

abbreviation trim_len :: "('d, 'w) trim_state \<Rightarrow> nat \<Rightarrow> nat" where
  "trim_len s q \<equiv> unat (q_len (entry s q))"

text \<open>A deletion that left the trace alone is made permanent; the first such trace is kept.\<close>

definition accept_gap :: "nat \<Rightarrow> nat \<Rightarrow> nat \<Rightarrow> bool \<Rightarrow> ('d, 'w) trim_state \<Rightarrow> ('d, 'w) trim_state" where
  "accept_gap q pos avail needs_write s =
     (let buf = close_gap (in_buf q s) (trim_len s q) pos avail;
          s = upd_entry q (\<lambda>e. e\<lparr>q_len := q_len e - of_nat avail\<rparr>) s;
          s = put_in_buf q buf s
      in if needs_write then s else s\<lparr>clean_trace := map_trace s\<rparr>)"

text \<open>What the loops carry: \<^verbatim>\<open>len_p2\<close>, \<^verbatim>\<open>needs_write\<close> and \<^verbatim>\<open>fault\<close>.\<close>

record trim_vars =
  len_p2 :: nat
  needs_write :: bool
  fault :: fsrv_run_result

text \<open>
  One candidate: put it in place, run it, compare the checksums. The first component says that
  trimming is to be aborted, the second that the deletion was accepted.
\<close>

definition try_gap ::
  "'w trim_env \<Rightarrow> nat \<Rightarrow> nat \<Rightarrow> nat \<Rightarrow> trim_vars \<Rightarrow> ('d, 'w) trim_state \<Rightarrow>
   trim_error + bool \<times> bool \<times> trim_vars \<times> ('d, 'w) trim_state" where
  "try_gap env q pos remove_len v s =
     (let avail = min remove_len (trim_len s q - pos)
      in case write_with_gap env (in_buf q s) (trim_len s q) pos avail s of
           Inl err \<Rightarrow> Inl err
         | Inr s \<Rightarrow>
             (case fuzz_run_target env s of (ret, s) \<Rightarrow>
                (let v = v\<lparr>fault := ret\<rparr>
                 in if stop_soon s \<or> ret = FSRV_RUN_ERROR then Inr (True, False, v, s)
                    else (let s = classify_counts (class_table env) (s\<lparr>trim_execs := trim_execs s + 1\<rparr>)
                          in if trace_hash env (map_trace s) = q_exec_cksum (entry s q)
                             then (let s = accept_gap q pos avail (needs_write v) s
                                   in Inr (False, True, v\<lparr>len_p2 := len_pow2 (trim_len s q), needs_write := True\<rparr>, s))
                             else Inr (False, False, v, s)))))"

lemma write_with_gap_queue: "write_with_gap env mem len pos n s = Inr s' \<Longrightarrow> queue_buf s' = queue_buf s"
  by (auto simp: write_with_gap_def Let_def split: if_splits sum.splits prod.splits option.splits)

lemma fuzz_run_target_queue: "fuzz_run_target env s = (r, s') \<Longrightarrow> queue_buf s' = queue_buf s"
  by (auto simp: fuzz_run_target_def split: prod.splits)

lemma put_in_buf_len: "length (queue_buf (put_in_buf q b s)) = length (queue_buf s)"
  "q < length (queue_buf s) \<Longrightarrow> q_len (entry (put_in_buf q b s) q') = q_len (entry s q')"
  by (auto simp: put_in_buf_def upd_entry_def nth_list_update split: option.splits)

lemma accept_gap_len:
  assumes "q < length (queue_buf s)"
  shows "q_len (entry (accept_gap q pos avail nw s) q) = q_len (entry s q) - of_nat avail"
    "length (queue_buf (accept_gap q pos avail nw s)) = length (queue_buf s)"
  using assms by (simp_all add: accept_gap_def Let_def put_in_buf_len upd_entry_def)

lemma try_gap_shrinks:
  assumes "try_gap env q pos remove_len v s = Inr (stop, hit, v', s')" "q < length (queue_buf s)"
    "pos < trim_len s q" "0 < remove_len"
  shows "length (queue_buf s') = length (queue_buf s)"
    "trim_len s' q = (if hit then trim_len s q - min remove_len (trim_len s q - pos) else trim_len s q)"
proof -
  let ?n = "min remove_len (trim_len s q - pos)"
  have n: "?n \<le> trim_len s q" by simp
  have "unat (q_len (entry s q)) < 2 ^ LENGTH(32)" by (rule unsigned_less)
  with n have le: "of_nat ?n \<le> q_len (entry s q)" "unat (of_nat ?n :: u32) = ?n"
    by (simp_all add: word_le_nat_alt unat_of_nat take_bit_nat_eq_self)
  show "length (queue_buf s') = length (queue_buf s)"
    "trim_len s' q = (if hit then trim_len s q - ?n else trim_len s q)"
    using assms(1,2) le
    by (auto simp: try_gap_def Let_def accept_gap_len classify_counts_def unat_sub
        dest!: write_with_gap_queue fuzz_run_target_queue split: sum.splits prod.splits if_splits)
qed

text \<open>The positions for one step width; the first one is \<^verbatim>\<open>remove_len\<close>, so the first block is never removed.\<close>

function gap_loop ::
  "'w trim_env \<Rightarrow> nat \<Rightarrow> nat \<Rightarrow> nat \<Rightarrow> trim_vars \<Rightarrow> ('d, 'w) trim_state \<Rightarrow> trim_error + bool \<times> trim_vars \<times> ('d, 'w) trim_state" where
  "gap_loop env q remove_len remove_pos v s =
     (if q < length (queue_buf s) \<and> remove_pos < trim_len s q \<and> 0 < remove_len then
        (case try_gap env q remove_pos remove_len v s of
           Inl err \<Rightarrow> Inl err
         | Inr (stop, hit, v, s) \<Rightarrow>
             if stop then Inr (True, v, s)
             else if hit then gap_loop env q remove_len remove_pos v s
             else gap_loop env q remove_len (remove_pos + remove_len) v s)
      else Inr (False, v, s))"
  by pat_completeness auto
termination
  by (relation "measure (\<lambda>(env, q, remove_len, remove_pos, v, s). trim_len s q - remove_pos)")
    (auto dest: try_gap_shrinks(2))

declare gap_loop.simps [simp del]

text \<open>The step widths: halved until there would be too many steps.\<close>

function gap_sizes ::
  "'w trim_env \<Rightarrow> nat \<Rightarrow> nat \<Rightarrow> trim_vars \<Rightarrow> ('d, 'w) trim_state \<Rightarrow> trim_error + bool \<times> trim_vars \<times> ('d, 'w) trim_state" where
  "gap_sizes env q remove_len v s =
     (if max (len_p2 v div TRIM_END_STEPS) TRIM_MIN_BYTES \<le> remove_len then
        (case gap_loop env q remove_len remove_len v s of
           Inl err \<Rightarrow> Inl err
         | Inr (stop, v, s) \<Rightarrow> if stop then Inr (True, v, s) else gap_sizes env q (remove_len div 2) v s)
      else Inr (False, v, s))"
  by pat_completeness auto
termination
  by (relation "measure (\<lambda>(env, q, remove_len, v, s). remove_len)") auto

declare gap_sizes.simps [simp del]

section \<open>Trimming by plugins\<close>

text \<open>\<^verbatim>\<open>memcpy\<close> of a saved trace into the map, then scoring.\<close>

definition score_trace :: "nat \<Rightarrow> bytes \<Rightarrow> ('d, 'w) trim_state \<Rightarrow> ('d, 'w) trim_state" where
  "score_trace q trace s =
     update_bitmap_score q True (s\<lparr>trace_bits := trace @ drop (length trace) (trace_bits s)\<rparr>)"

text \<open>
  One candidate of the plugin: whether to abort, the accepted bytes if any, and the result of the run. An empty
  candidate is not run.
\<close>

definition try_custom ::
  "'w trim_env \<Rightarrow> nat \<Rightarrow> nat \<Rightarrow> bytes \<Rightarrow> fsrv_run_result \<Rightarrow> ('d, 'w) trim_state \<Rightarrow>
   trim_error + bool \<times> bytes option \<times> fsrv_run_result \<times> ('d, 'w) trim_state" where
  "try_custom env q retlen retbuf flt s =
     (if retlen = 0 then Inr (False, None, flt, s\<lparr>trim_execs := trim_execs s + 1\<rparr>)
      else (case write_to_testcase env retbuf retlen False s of
              Inl err \<Rightarrow> Inl err
            | Inr (retlen, retbuf, s) \<Rightarrow>
                if retlen = 0 then Inr (False, None, flt, s\<lparr>trim_execs := trim_execs s + 1\<rparr>)
                else (case fuzz_run_target env s of (ret, s) \<Rightarrow>
                        (let s = s\<lparr>trim_execs := trim_execs s + 1\<rparr>
                         in if stop_soon s \<or> ret = FSRV_RUN_ERROR then Inr (True, None, ret, s)
                            else (let s = classify_counts (class_table env) s
                                  in Inr (False, if trace_hash env (map_trace s) = q_exec_cksum (entry s q)
                                                 then Some (take retlen retbuf) else None, ret, s))))))"

text \<open>The plugin decides how long the loop runs, so the loop carries fuel.\<close>

fun custom_loop ::
  "nat \<Rightarrow> 'w trim_env \<Rightarrow> 'w fuzz_trimmer \<Rightarrow> nat \<Rightarrow> bytes option \<Rightarrow> fsrv_run_result \<Rightarrow> ('d, 'w) trim_state \<Rightarrow>
   trim_error + bool \<times> bytes option \<times> fsrv_run_result \<times> ('d, 'w) trim_state" where
  "custom_loop fuel env m q out_buf flt s =
     (if stage_cur s < stage_max s then
        (case fuel of
           0 \<Rightarrow> Inl Steps_Exhausted
         | Suc fuel \<Rightarrow>
             (case ft_trim m (plugin_world s) of
                (retlen, None, w) \<Rightarrow> Inl (Trim_Fatal ''custom_trim failed'')
              | (retlen, Some retbuf, w) \<Rightarrow>
                  (case try_custom env q retlen retbuf flt (s\<lparr>plugin_world := w\<rparr>) of
                     Inl err \<Rightarrow> Inl err
                   | Inr (stop, got, flt, s) \<Rightarrow>
                       if stop then Inr (True, out_buf, flt, s)
                       else (case got of
                               Some b \<Rightarrow>
                                 (let s = (if out_buf = None then s\<lparr>clean_trace_custom := map_trace s\<rparr> else s)
                                  in case ft_post_trim m (plugin_world s) True of (r, w) \<Rightarrow>
                                       custom_loop fuel env m q (Some b) flt (s\<lparr>plugin_world := w, stage_cur := of_int r\<rparr>))
                             | None \<Rightarrow>
                                 (case ft_post_trim m (plugin_world s) False of (r, w) \<Rightarrow>
                                    if r < 0 then Inl (Trim_Fatal ''Error ret in custom_post_trim'')
                                    else custom_loop fuel env m q out_buf flt (s\<lparr>plugin_world := w, stage_cur := of_int r\<rparr>))))))
      else Inr (False, out_buf, flt, s))"

declare custom_loop.simps [simp del]

text \<open>
  \<^verbatim>\<open>trim_case_custom\<close>. The check \<^verbatim>\<open>unlikely(retval) < 0\<close> compares a truth value and never fails, so a negative answer of
  \<^verbatim>\<open>init_trim\<close> becomes a large \<^verbatim>\<open>stage_max\<close>.
\<close>

definition finish_custom ::
  "'w trim_env \<Rightarrow> nat \<Rightarrow> bytes option \<Rightarrow> ('d, 'w) trim_state \<Rightarrow> trim_error + ('d, 'w) trim_state" where
  "finish_custom env q out_buf s =
     (case out_buf of
        None \<Rightarrow> Inr s
      | Some b \<Rightarrow>
          if \<not> can_create env (q_fname (entry s q)) then Inl (Trim_Fatal ''Unable to create'')
          else (let s = s\<lparr>disk := (disk s)(q_fname (entry s q) \<mapsto> b)\<rparr>;
                    s = upd_entry q (\<lambda>e. e\<lparr>q_len := of_nat (length b)\<rparr>) s
                in Inr (score_trace q (take (unat (map_size s)) (clean_trace_custom s)) s)))"

definition trim_case_custom ::
  "nat \<Rightarrow> 'w trim_env \<Rightarrow> 'w fuzz_trimmer \<Rightarrow> nat \<Rightarrow> bytes \<Rightarrow> ('d, 'w) trim_state \<Rightarrow>
   trim_error + fsrv_run_result \<times> ('d, 'w) trim_state" where
  "trim_case_custom fuel env m q buf s =
     (case ft_init_trim m (plugin_world s) (take (trim_len s q) buf) of (r, w) \<Rightarrow>
        (case custom_loop fuel env m q None FSRV_RUN_OK (s\<lparr>plugin_world := w, stage_cur := 0, stage_max := of_int r\<rparr>) of
           Inl err \<Rightarrow> Inl err
         | Inr (stop, out_buf, flt, s) \<Rightarrow>
             if stop then Inr (flt, s)
             else (case finish_custom env q out_buf s of Inl err \<Rightarrow> Inl err | Inr s \<Rightarrow> Inr (flt, s))))"

fun fuzz_custom_trims ::
  "nat \<Rightarrow> 'w trim_env \<Rightarrow> 'w fuzz_mutator list \<Rightarrow> nat \<Rightarrow> bool \<Rightarrow> fsrv_run_result \<Rightarrow> ('d, 'w) trim_state \<Rightarrow>
   trim_error + bool \<times> fsrv_run_result \<times> ('d, 'w) trim_state" where
  "fuzz_custom_trims fuel env [] q trimmed flt s = Inr (trimmed, flt, s)"
| "fuzz_custom_trims fuel env (m # ms) q trimmed flt s =
     (case fm_trimmer m of
        None \<Rightarrow> fuzz_custom_trims fuel env ms q trimmed flt s
      | Some t \<Rightarrow>
          (case trim_case_custom fuel env t q (in_buf q s) s of
             Inl err \<Rightarrow> Inl err
           | Inr (flt, s) \<Rightarrow> fuzz_custom_trims fuel env ms q True flt s))"

section \<open>The whole operation\<close>

text \<open>
  After built-in trimming changed something: the plugins' \<^verbatim>\<open>post_process\<close> (giving the buffer to write, and whether it is still
  \<^verbatim>\<open>in_buf\<close>), the file, the cache, the score.
\<close>

definition process_trimmed ::
  "'w trim_env \<Rightarrow> nat \<Rightarrow> ('d, 'w) trim_state \<Rightarrow> bytes \<times> bool \<times> ('d, 'w) trim_state" where
  "process_trimmed env q s =
     (if custom_mutators_count s \<noteq> 0 \<and> \<not> keep_original env then
        (case fuzz_post_process (mutator_list env) (trim_len s q) (in_buf q s) False (plugin_world s) of
           (new_size, new_mem, replaced, w) \<Rightarrow>
             (let (new_size, new_mem, replaced) =
                    (if new_size = 0 then (trim_len s q, in_buf q s, False) else (new_size, new_mem, replaced));
                  new_size = clamp_length env False new_size;
                  s = upd_entry q (\<lambda>e. e\<lparr>q_len := of_nat new_size\<rparr>) (s\<lparr>plugin_world := w\<rparr>)
              in if replaced then (take new_size new_mem, False, s) else (in_buf q s, True, s)))
      else (in_buf q s, True, s))"

definition finish_trim ::
  "'w trim_env \<Rightarrow> nat \<Rightarrow> u32 \<Rightarrow> ('d, 'w) trim_state \<Rightarrow> trim_error + ('d, 'w) trim_state" where
  "finish_trim env q orig_len s =
     (case process_trimmed env q s of (buf, same_ptr, s) \<Rightarrow>
        (case write_queue_file env (q_fname (entry s q)) buf (trim_len s q) s of
           Inl err \<Rightarrow> Inl err
         | Inr s \<Rightarrow>
             (let s = queue_testcase_retake_mem q buf same_ptr (q_len (entry s q)) orig_len s
              in Inr (score_trace q (take (unat (map_size s)) (clean_trace s)) s))))"

definition trim_builtin ::
  "'w trim_env \<Rightarrow> nat \<Rightarrow> u32 \<Rightarrow> ('d, 'w) trim_state \<Rightarrow> trim_error + fsrv_run_result \<times> ('d, 'w) trim_state" where
  "trim_builtin env q orig_len s =
     (if trim_len s q < 5 then Inr (FSRV_RUN_OK, s)
      else (let p2 = len_pow2 (trim_len s q)
            in case gap_sizes env q (max (p2 div TRIM_START_STEPS) TRIM_MIN_BYTES)
                      \<lparr>len_p2 = p2, needs_write = False, fault = FSRV_RUN_OK\<rparr> s of
                 Inl err \<Rightarrow> Inl err
               | Inr (stop, v, s) \<Rightarrow>
                   if stop \<or> \<not> needs_write v then Inr (fault v, s)
                   else (case finish_trim env q orig_len s of Inl err \<Rightarrow> Inl err | Inr s \<Rightarrow> Inr (fault v, s))))"

text \<open>
  \<^verbatim>\<open>trim_case\<close>. \<^verbatim>\<open>queue_testcase_retake\<close> reloads the cached buffer after plugins have trimmed.
\<close>

definition trim_case ::
  "nat \<Rightarrow> 'w trim_env \<Rightarrow> nat \<Rightarrow> ('d, 'w) trim_state \<Rightarrow> trim_error + fsrv_run_result \<times> ('d, 'w) trim_state" where
  "trim_case fuel env q s =
     (let orig_len = q_len (entry s q);
          s = s\<lparr>bytes_trim_in := bytes_trim_in s + ucast orig_len\<rparr>;
          result =
            (case (if custom_mutators_count s \<noteq> 0 then fuzz_custom_trims fuel env (mutator_list env) q False FSRV_RUN_OK s
                   else Inr (False, FSRV_RUN_OK, s)) of
               Inl err \<Rightarrow> Inl err
             | Inr (trimmed, flt, s) \<Rightarrow>
                 (case (if custom_mutators_count s \<noteq> 0 \<and> (orig_len \<noteq> q_len (entry s q) \<or> trimmed)
                        then queue_testcase_retake (disk s) q orig_len s else Inr s) of
                    Inl err \<Rightarrow> Inl (Cache_Failed err)
                  | Inr s \<Rightarrow> if trimmed then Inr (flt, s) else trim_builtin env q orig_len s))
      in case result of
           Inl err \<Rightarrow> Inl err
         | Inr (flt, s) \<Rightarrow> Inr (flt, s\<lparr>bytes_trim_out := bytes_trim_out s + ucast (q_len (entry s q))\<rparr>))"

end
