(* ===== verification/Trim_Props.thy ===== *)
theory Trim_Props
  imports Trim Queue_Cull "HOL-Library.Sublist"
begin

text \<open>
  What trimming promises: with a target whose trace depends on the test case only, the trimmed entry is a subsequence
  of the old one that still shows the entry's checksum, file, cache and queue agree on it, and the
  corpus stays well-formed.
\<close>

section \<open>One deletion\<close>

text \<open>A target that can be run and whose trace is a function of the test case.\<close>

definition steady_target :: "'w trim_env \<Rightarrow> (bytes \<Rightarrow> bytes) \<Rightarrow> bool" where
  "steady_target env tr \<longleftrightarrow> out_file_ok env \<and>
     (\<forall>w t ci. \<exists>r w'. run_target env w t ci = (r, tr t, False, w') \<and> r \<noteq> FSRV_RUN_ERROR)"

text \<open>The bytes of an entry, the classified trace of a test case, and what the loops never touch.\<close>

definition data_of :: "nat \<Rightarrow> ('d, 'w) trim_state \<Rightarrow> bytes" where
  "data_of q s = take (trim_len s q) (in_buf q s)"

definition seen :: "'w trim_env \<Rightarrow> u32 \<Rightarrow> bytes \<Rightarrow> bytes" where
  "seen env ms trace = take (unat ms) (classify_counts_mem (class_table env) ms trace)"

definition trimmable :: "nat \<Rightarrow> ('d, 'w) trim_state \<Rightarrow> bool" where
  "trimmable q s \<longleftrightarrow> q < length (queue_buf s) \<and> custom_mutators_count s = 0 \<and> \<not> stop_soon s \<and>
     trim_len s q \<le> length (in_buf q s)"

definition entry_rest :: "'d queue_entry \<Rightarrow> 'd queue_entry" where
  "entry_rest e = e\<lparr>q_len := 0, q_testcase_buf := None\<rparr>"

definition trim_rest :: "'w \<Rightarrow> nat \<Rightarrow> ('d, 'w) trim_state \<Rightarrow> ('d, 'w) trim_state" where
  "trim_rest w q s = s\<lparr>queue_buf := (queue_buf s)[q := entry_rest (entry s q)], afl_testcase_buf := [], testcase := [],
     trace_bits := [], clean_trace := [], trim_execs := 0, plugin_world := w\<rparr>"

definition same_rest :: "nat \<Rightarrow> ('d, 'w) trim_state \<Rightarrow> ('d, 'w) trim_state \<Rightarrow> bool" where
  "same_rest q s s' \<longleftrightarrow> (\<forall>w. trim_rest w q s' = trim_rest w q s) \<and>
     (q_testcase_buf (entry s' q) = None \<longleftrightarrow> q_testcase_buf (entry s q) = None)"

lemma same_rest_refl: "same_rest q s s"
  by (simp add: same_rest_def)

lemma same_rest_trans: "same_rest q s s' \<Longrightarrow> same_rest q s' s'' \<Longrightarrow> same_rest q s s''"
  by (simp add: same_rest_def)

lemma same_rest_fields:
  assumes "same_rest q s s'"
  shows "map_size s' = map_size s" "custom_mutators_count s' = custom_mutators_count s" "stop_soon s' = stop_soon s"
    "disk s' = disk s" "length (queue_buf s') = length (queue_buf s)" "top_rated s' = top_rated s"
    "queued_items s' = queued_items s" "t \<noteq> q \<Longrightarrow> entry s' t = entry s t"
    "q < length (queue_buf s) \<Longrightarrow> entry_rest (entry s' q) = entry_rest (entry s q)"
proof -
  obtain w where r: "trim_rest w q s' = trim_rest w q s" using assms by (auto simp: same_rest_def)
  have "map_size (trim_rest w q s') = map_size (trim_rest w q s)"
    "custom_mutators_count (trim_rest w q s') = custom_mutators_count (trim_rest w q s)"
    "stop_soon (trim_rest w q s') = stop_soon (trim_rest w q s)" "disk (trim_rest w q s') = disk (trim_rest w q s)"
    "top_rated (trim_rest w q s') = top_rated (trim_rest w q s)" "queued_items (trim_rest w q s') = queued_items (trim_rest w q s)"
    unfolding r by (rule refl)+
  then show "map_size s' = map_size s" "custom_mutators_count s' = custom_mutators_count s" "stop_soon s' = stop_soon s"
    "disk s' = disk s" "top_rated s' = top_rated s" "queued_items s' = queued_items s" by (simp_all add: trim_rest_def)
  have b: "(queue_buf s')[q := entry_rest (entry s' q)] = (queue_buf s)[q := entry_rest (entry s q)]"
    using arg_cong [OF r, of queue_buf] by (simp add: trim_rest_def)
  then show len: "length (queue_buf s') = length (queue_buf s)" by (metis length_list_update)
  show "t \<noteq> q \<Longrightarrow> entry s' t = entry s t" using b by (metis nth_list_update_neq)
  show "q < length (queue_buf s) \<Longrightarrow> entry_rest (entry s' q) = entry_rest (entry s q)"
    using b len by (metis nth_list_update_eq)
qed

lemma same_rest_cksum:
  "same_rest q s s' \<Longrightarrow> q < length (queue_buf s) \<Longrightarrow> q_exec_cksum (entry s' q) = q_exec_cksum (entry s q)"
  using arg_cong [OF same_rest_fields(9), of q s s' q_exec_cksum] by (simp add: entry_rest_def)

lemma close_gap_data:
  assumes "pos < len" "len \<le> length buf" "n \<le> len - pos"
  shows "take (len - n) (close_gap buf len pos n) = without_gap buf len pos n" "length (close_gap buf len pos n) = length buf"
proof -
  have "take (len - n) (close_gap buf len pos n) = take (len - n) (without_gap buf len pos n @ drop (pos + (len - pos - n)) buf)"
    by (simp add: close_gap_def without_gap_def Let_def)
  moreover have "length (without_gap buf len pos n) = len - n" using assms by (simp add: without_gap_def)
  ultimately show "take (len - n) (close_gap buf len pos n) = without_gap buf len pos n" by simp
  show "length (close_gap buf len pos n) = length buf" using assms by (simp add: close_gap_def Let_def)
qed

lemma without_gap_subseq:
  assumes "pos \<le> len"
  shows "subseq (without_gap buf len pos n) (take len buf)"
proof -
  let ?b = "take (len - pos) (drop pos buf)"
  have "take len buf = take pos buf @ ?b" using assms take_add [of pos "len - pos" buf] by simp
  moreover have "without_gap buf len pos n = take pos buf @ drop n ?b"
    using assms by (simp add: without_gap_def drop_take add.commute)
  moreover have "subseq (drop n ?b) ?b" by (intro suffix_imp_subseq suffix_drop)
  ultimately show ?thesis by (simp add: list_emb_append_mono)
qed

lemma in_buf_put:
  assumes "q < length (queue_buf s)"
  shows "in_buf q (put_in_buf q b s) = b"
  using assms by (auto simp: in_buf_def put_in_buf_def upd_entry_def split: option.splits)

lemma in_buf_frame [simp]: "in_buf q (s\<lparr>clean_trace := x\<rparr>) = in_buf q s" "in_buf q (s\<lparr>trim_execs := n\<rparr>) = in_buf q s"
  "in_buf q (s\<lparr>testcase := b\<rparr>) = in_buf q s" "in_buf q (s\<lparr>trace_bits := b\<rparr>) = in_buf q s"
  by (simp_all add: in_buf_def split: option.split)

text \<open>Accepting a deletion.\<close>

lemma accept_gap_effect:
  assumes "q < length (queue_buf s)" "pos < trim_len s q" "trim_len s q \<le> length (in_buf q s)" "n \<le> trim_len s q - pos"
    and s'_def: "s' = accept_gap q pos n nw s"
  shows "data_of q s' = without_gap (in_buf q s) (trim_len s q) pos n" "length (in_buf q s') = length (in_buf q s)"
    "trim_len s' q = trim_len s q - n" "same_rest q s s'"
    "clean_trace s' = (if nw then clean_trace s else map_trace s)"
proof -
  let ?buf = "close_gap (in_buf q s) (trim_len s q) pos n"
  let ?u = "upd_entry q (\<lambda>e. e\<lparr>q_len := q_len e - of_nat n\<rparr>) s"
  have q: "q < length (queue_buf ?u)" using assms(1) by (simp add: upd_entry_def)
  have b: "in_buf q s' = ?buf" using in_buf_put [OF q, of ?buf]
    by (simp add: s'_def accept_gap_def Let_def)
  have "unat (q_len (entry s q)) < 2 ^ LENGTH(32)" by (rule unsigned_less)
  then have "of_nat n \<le> q_len (entry s q)" "unat (of_nat n :: u32) = n"
    using assms(4) by (simp_all add: word_le_nat_alt unat_of_nat take_bit_nat_eq_self)
  then show l: "trim_len s' q = trim_len s q - n" using accept_gap_len(1) [OF assms(1)] by (simp add: s'_def unat_sub)
  show "data_of q s' = without_gap (in_buf q s) (trim_len s q) pos n" "length (in_buf q s') = length (in_buf q s)"
    unfolding data_of_def b l using close_gap_data [OF assms(2-4)] by simp_all
  show "same_rest q s s'"
    using assms(1) by (auto simp: same_rest_def trim_rest_def s'_def accept_gap_def Let_def put_in_buf_def upd_entry_def entry_rest_def
        split: option.splits)
  show "clean_trace s' = (if nw then clean_trace s else map_trace s)"
    by (auto simp: s'_def accept_gap_def Let_def put_in_buf_def upd_entry_def map_trace_def split: option.splits)
qed

text \<open>Trying a deletion.\<close>

lemma try_gap_steady:
  assumes st: "steady_target env tr" and t: "trimmable q s" and pos: "pos < trim_len s q" and r: "0 < remove_len"
  obtains hit v' s' where "try_gap env q pos remove_len v s = Inr (False, hit, v', s')" "same_rest q s s'" "trimmable q s'"
    "length (in_buf q s') = length (in_buf q s)"
    "hit \<Longrightarrow> data_of q s' = without_gap (in_buf q s) (trim_len s q) pos (min remove_len (trim_len s q - pos))"
    "hit \<Longrightarrow> trace_hash env (seen env (map_size s) (tr (data_of q s'))) = q_exec_cksum (entry s q)"
    "hit \<Longrightarrow> needs_write v'" "hit \<Longrightarrow> trim_len s' q < trim_len s q"
    "hit \<Longrightarrow> clean_trace s' = (if needs_write v then clean_trace s else seen env (map_size s) (tr (data_of q s')))"
    "\<not> hit \<Longrightarrow> trim_len s' q = trim_len s q \<and> in_buf q s' = in_buf q s \<and> needs_write v' = needs_write v \<and>
       clean_trace s' = clean_trace s"
proof -
  let ?n = "min remove_len (trim_len s q - pos)"
  let ?c = "without_gap (in_buf q s) (trim_len s q) pos ?n"
  have q: "q < length (queue_buf s)" "custom_mutators_count s = 0" "\<not> stop_soon s" "trim_len s q \<le> length (in_buf q s)"
    using t by (simp_all add: trimmable_def)
  obtain ret w where run: "run_target env (plugin_world s) ?c (custom_input s) = (ret, tr ?c, False, w)" "ret \<noteq> FSRV_RUN_ERROR"
    using st unfolding steady_target_def by blast
  define u where "u = classify_counts (class_table env) (s\<lparr>testcase := ?c, trace_bits := tr ?c, stop_soon := False, plugin_world := w,
    trim_execs := trim_execs s + 1\<rparr>)"
  have u: "queue_buf u = queue_buf s" "in_buf q u = in_buf q s" "map_size u = map_size s" "stop_soon u = False"
    "map_trace u = seen env (map_size s) (tr ?c)" "custom_mutators_count u = 0" "clean_trace u = clean_trace s"
    using q(2) by (simp_all add: u_def classify_counts_def in_buf_def map_trace_def seen_def split: option.split)
  have same: "same_rest q s u" using q(3) by (simp add: same_rest_def trim_rest_def u_def classify_counts_def)
  let ?hit = "trace_hash env (map_trace u) = q_exec_cksum (entry s q)"
  define a where "a = accept_gap q pos ?n (needs_write v) u"
  have tried: "try_gap env q pos remove_len v s = Inr (False, ?hit,
     if ?hit then v\<lparr>fault := ret, len_p2 := len_pow2 (trim_len a q), needs_write := True\<rparr> else v\<lparr>fault := ret\<rparr>,
     if ?hit then a else u)"
    using st q(2,3) run by (simp add: try_gap_def write_with_gap_def fuzz_run_target_def steady_target_def Let_def a_def u_def classify_counts_def)
  have "pos < trim_len u q" "trim_len u q \<le> length (in_buf q u)" "?n \<le> trim_len u q - pos" "q < length (queue_buf u)"
    using pos q(1,4) by (simp_all add: u)
  note acc = accept_gap_effect [OF this(4,1,2,3) a_def]
  have "0 < ?n" using pos r by simp
  then have shorter: "trim_len a q < trim_len s q" using acc(3) pos by (simp add: u)
  have sa: "same_rest q s a" using same_rest_trans [OF same acc(4)] .
  have ta: "trimmable q a" "trimmable q u"
    using q u acc(2) shorter same_rest_fields(2,3,5) [OF sa] by (auto simp: trimmable_def)
  have d: "data_of q a = ?c" using acc(1) by (simp only: u)
  have l: "length (in_buf q a) = length (in_buf q s)" using acc(2) by (simp only: u)
  have c: "clean_trace a = (if needs_write v then clean_trace s else seen env (map_size s) (tr ?c))" using acc(5) by (simp only: u)
  show ?thesis
  proof (cases ?hit)
    case True
    then have tried': "try_gap env q pos remove_len v s =
        Inr (False, True, v\<lparr>fault := ret, len_p2 := len_pow2 (trim_len a q), needs_write := True\<rparr>, a)"
      using tried by simp
    have "trace_hash env (seen env (map_size s) (tr (data_of q a))) = q_exec_cksum (entry s q)" using True unfolding d u by simp
    then show ?thesis by (intro that [OF tried' sa ta(1) l d]) (simp_all add: shorter c d)
  next
    case False
    then have "try_gap env q pos remove_len v s = Inr (False, False, v\<lparr>fault := ret\<rparr>, u)" using tried by simp
    then show ?thesis by (rule that [OF _ same ta(2)]) (simp_all add: u)
  qed
qed

section \<open>The loops\<close>

definition trim_inv ::
  "'w trim_env \<Rightarrow> (bytes \<Rightarrow> bytes) \<Rightarrow> nat \<Rightarrow> ('d, 'w) trim_state \<Rightarrow> trim_vars \<Rightarrow> ('d, 'w) trim_state \<Rightarrow> bool" where
  "trim_inv env tr q s0 v s \<longleftrightarrow> trimmable q s \<and> same_rest q s0 s \<and> length (in_buf q s) = length (in_buf q s0) \<and>
     subseq (data_of q s) (data_of q s0) \<and>
     trace_hash env (seen env (map_size s0) (tr (data_of q s))) = q_exec_cksum (entry s0 q) \<and>
     (if needs_write v
      then (\<exists>t. clean_trace s = seen env (map_size s0) (tr t)) \<and> trace_hash env (clean_trace s) = q_exec_cksum (entry s0 q) \<and>
           trim_len s q < trim_len s0 q
      else trim_len s q = trim_len s0 q \<and> in_buf q s = in_buf q s0)"

lemma trim_inv_step:
  assumes st: "steady_target env tr" and q: "q < length (queue_buf s0)" and inv: "trim_inv env tr q s0 v s"
    and pos: "pos < trim_len s q" and r: "0 < remove_len"
  obtains hit v' s' where "try_gap env q pos remove_len v s = Inr (False, hit, v', s')" "trim_inv env tr q s0 v' s'"
proof -
  have t: "trimmable q s" and same: "same_rest q s0 s" using inv by (simp_all add: trim_inv_def)
  obtain hit v' s' where tried: "try_gap env q pos remove_len v s = Inr (False, hit, v', s')" "same_rest q s s'" "trimmable q s'"
    "length (in_buf q s') = length (in_buf q s)"
    and hit: "hit \<Longrightarrow> data_of q s' = without_gap (in_buf q s) (trim_len s q) pos (min remove_len (trim_len s q - pos))"
    "hit \<Longrightarrow> trace_hash env (seen env (map_size s) (tr (data_of q s'))) = q_exec_cksum (entry s q)"
    "hit \<Longrightarrow> needs_write v'" "hit \<Longrightarrow> trim_len s' q < trim_len s q"
    "hit \<Longrightarrow> clean_trace s' = (if needs_write v then clean_trace s else seen env (map_size s) (tr (data_of q s')))"
    and miss: "\<not> hit \<Longrightarrow> trim_len s' q = trim_len s q \<and> in_buf q s' = in_buf q s \<and> needs_write v' = needs_write v \<and>
       clean_trace s' = clean_trace s"
    using try_gap_steady [OF st t pos r] by blast
  note m = same_rest_fields(1) [OF same] same_rest_cksum [OF same q]
  have rest: "same_rest q s0 s'" using same_rest_trans [OF same tried(2)] .
  have "trim_inv env tr q s0 v' s'"
  proof (cases hit)
    case True
    have "subseq (data_of q s') (data_of q s)"
      unfolding hit(1) [OF True] data_of_def [of q s] using pos by (intro without_gap_subseq) simp
    then have sub: "subseq (data_of q s') (data_of q s0)" using inv unfolding trim_inv_def by (meson subseq_order.trans)
    have h: "trace_hash env (seen env (map_size s0) (tr (data_of q s'))) = q_exec_cksum (entry s0 q)" using hit(2) [OF True] by (simp add: m)
    have "(\<exists>t. clean_trace s' = seen env (map_size s0) (tr t)) \<and> trace_hash env (clean_trace s') = q_exec_cksum (entry s0 q)"
    proof (cases "needs_write v")
      case nw: True
      then show ?thesis using hit(5) [OF True] inv by (simp add: trim_inv_def)
    next
      case False
      then show ?thesis using hit(5) [OF True] h by (auto simp: m)
    qed
    moreover have "trim_len s' q < trim_len s0 q" using hit(4) [OF True] inv by (auto simp: trim_inv_def split: if_splits)
    moreover have "length (in_buf q s') = length (in_buf q s0)" using tried(4) inv by (simp add: trim_inv_def)
    ultimately show ?thesis using tried(3) rest sub h hit(3) [OF True] by (simp add: trim_inv_def)
  next
    case False
    then have "data_of q s' = data_of q s" using miss by (simp add: data_of_def)
    then show ?thesis using inv miss [OF False] tried(3) rest unfolding trim_inv_def by simp
  qed
  then show ?thesis using tried(1) by (rule that [rotated])
qed

lemma gap_loop_inv:
  assumes st: "steady_target env tr" and q: "q < length (queue_buf s0)" and inv: "trim_inv env tr q s0 v s"
  shows "\<exists>v' s'. gap_loop env q remove_len remove_pos v s = Inr (False, v', s') \<and> trim_inv env tr q s0 v' s'"
  using inv
proof (induction "trim_len s q - remove_pos" arbitrary: remove_pos v s rule: less_induct)
  case less
  show ?case
  proof (cases "q < length (queue_buf s) \<and> remove_pos < trim_len s q \<and> 0 < remove_len")
    case True
    then obtain hit v' s' where t: "try_gap env q remove_pos remove_len v s = Inr (False, hit, v', s')" "trim_inv env tr q s0 v' s'"
      using trim_inv_step [OF st q less.prems] by blast
    have l: "trim_len s' q = (if hit then trim_len s q - min remove_len (trim_len s q - remove_pos) else trim_len s q)"
      using try_gap_shrinks(2) [OF t(1)] True by blast
    let ?p = "if hit then remove_pos else remove_pos + remove_len"
    have "trim_len s' q - ?p < trim_len s q - remove_pos" using True l by auto
    moreover have "gap_loop env q remove_len remove_pos v s = gap_loop env q remove_len ?p v' s'"
      using True t(1) by (simp add: gap_loop.simps [of env q remove_len remove_pos v s])
    ultimately show ?thesis using less.hyps t(2) by presburger
  next
    case False
    then show ?thesis using less.prems by (subst gap_loop.simps) auto
  qed
qed

lemma gap_sizes_inv:
  assumes st: "steady_target env tr" and q: "q < length (queue_buf s0)" and inv: "trim_inv env tr q s0 v s"
  shows "\<exists>v' s'. gap_sizes env q remove_len v s = Inr (False, v', s') \<and> trim_inv env tr q s0 v' s'"
  using inv
proof (induction remove_len arbitrary: v s rule: less_induct)
  case (less remove_len)
  show ?case
  proof (cases "max (len_p2 v div TRIM_END_STEPS) TRIM_MIN_BYTES \<le> remove_len")
    case True
    obtain v' s' where "gap_loop env q remove_len remove_len v s = Inr (False, v', s')" "trim_inv env tr q s0 v' s'"
      using gap_loop_inv [OF st q less.prems] by blast
    then show ?thesis using less.IH [of "remove_len div 2" v' s'] True by (subst gap_sizes.simps) auto
  next
    case False
    then show ?thesis using less.prems by (subst gap_sizes.simps) auto
  qed
qed

section \<open>The result\<close>

lemma entry_rest_fields:
  assumes "entry_rest e = entry_rest e'"
  shows "q_fname e = q_fname e'" "q_tc_ref e = q_tc_ref e'" "q_trace_mini e = q_trace_mini e'" "q_id e = q_id e'"
    "q_disabled e = q_disabled e'"
  using arg_cong [OF assms, of q_fname] arg_cong [OF assms, of q_tc_ref] arg_cong [OF assms, of q_trace_mini]
    arg_cong [OF assms, of q_id] arg_cong [OF assms, of q_disabled] by (simp_all add: entry_rest_def)

lemma same_rest_entry:
  assumes "same_rest q s s'" "q < length (queue_buf s)"
  shows "q_fname (entry s' t) = q_fname (entry s t)" "q_tc_ref (entry s' t) = q_tc_ref (entry s t)"
    "q_trace_mini (entry s' t) = q_trace_mini (entry s t)" "q_id (entry s' t) = q_id (entry s t)"
    "q_disabled (entry s' t) = q_disabled (entry s t)"
  using entry_rest_fields [OF same_rest_fields(9) [OF assms]] same_rest_fields(8) [OF assms(1)] by metis+

text \<open>The corpus invariant does not depend on what trimming changes.\<close>

lemma same_rest_corpus:
  assumes "same_rest q s s'" "q < length (queue_buf s)" "corpus_inv s"
  shows "corpus_inv s'"
  using assms(3) same_rest_fields(1,5,6,7) [OF assms(1)] same_rest_entry [OF assms(1,2)]
  unfolding corpus_inv_def corpus_ok_def refs_ok_def minis_ok_def ids_ok_def by simp

lemma score_trace_frame: "frame (score_trace q x s) = frame (s\<lparr>trace_bits := x @ drop (length x) (trace_bits s)\<rparr>)"
  by (simp add: score_trace_def update_bitmap_score_fold frame_score_fold)

lemma core_rest:
  assumes "core e = core e'"
  shows "q_testcase_buf e = q_testcase_buf e'" "q_len e = q_len e'" "q_fname e = q_fname e'"
  using arg_cong [OF assms, of q_testcase_buf] arg_cong [OF assms, of q_len] arg_cong [OF assms, of q_fname] by (simp_all add: core_def)

lemma score_trace_keeps:
  assumes "q < length (queue_buf s)"
  shows "in_buf q (score_trace q x s) = in_buf q s" "q_len (entry (score_trace q x s) q) = q_len (entry s q)"
    "disk (score_trace q x s) = disk s"
proof -
  let ?s = "score_trace q x s"
  have f: "frame ?s = frame (s\<lparr>trace_bits := x @ drop (length x) (trace_bits s)\<rparr>)" by (rule score_trace_frame)
  have c: "core (entry ?s q) = core (entry s q)" using frame_core [OF f] frame_length [OF f] assms by simp
  have "afl_testcase_buf ?s = afl_testcase_buf s" "disk ?s = disk s"
    using arg_cong [OF f, of afl_testcase_buf] arg_cong [OF f, of disk] by (simp_all add: frame_def)
  then show "in_buf q ?s = in_buf q s" "q_len (entry ?s q) = q_len (entry s q)" "disk ?s = disk s"
    using core_rest [OF c] by (simp_all add: in_buf_def split: option.split)
qed

lemma score_trace_corpus:
  assumes "corpus_inv s" "q < length (queue_buf s)" "length T = unat (map_size s)" "traced q (s\<lparr>trace_bits := T\<rparr>)"
  shows "corpus_inv (score_trace q T s)"
proof -
  let ?s = "s\<lparr>trace_bits := T @ drop (length T) (trace_bits s)\<rparr>"
  have "length (top_rated s) = length T" using assms(1,3) by (simp add: corpus_inv_def corpus_ok_def)
  then have "traced q ?s" using assms(3,4) unfolding traced_def by (simp add: nth_append)
  moreover have "corpus_inv ?s"
    using assms(1) by (simp add: corpus_inv_def corpus_ok_def refs_ok_def minis_ok_def ids_ok_def)
  ultimately show ?thesis unfolding score_trace_def using assms(2) by (intro score_inv) simp_all
qed

lemma finish_trim_plain:
  assumes "trimmable q s" "can_create env (q_fname (entry s q))" "\<not> no_unlink env" "clean_trace s = T" "length T = unat (map_size s)"
  shows "finish_trim env q orig_len s =
    Inr (score_trace q T (s\<lparr>disk := (disk s)(q_fname (entry s q) \<mapsto> data_of q s)\<rparr>))"
  using assms by (simp add: finish_trim_def process_trimmed_def write_queue_file_def trimmable_def data_of_def
      queue_testcase_retake_mem_def split: option.split)

text \<open>What a call promises: for a state before and a state after.\<close>

definition trimmed :: "'w trim_env \<Rightarrow> (bytes \<Rightarrow> bytes) \<Rightarrow> nat \<Rightarrow> ('d, 'w) trim_state \<Rightarrow> ('d, 'w) trim_state \<Rightarrow> bool" where
  "trimmed env tr q s s' \<longleftrightarrow> subseq (data_of q s') (data_of q s) \<and>
     seen env (map_size s) (tr (data_of q s')) = seen env (map_size s) (tr (data_of q s)) \<and>
     disk s' = (if data_of q s' = data_of q s then disk s else (disk s)(q_fname (entry s q) \<mapsto> data_of q s')) \<and> corpus_inv s'"

definition own_trace :: "'w trim_env \<Rightarrow> (bytes \<Rightarrow> bytes) \<Rightarrow> nat \<Rightarrow> ('d, 'w) trim_state \<Rightarrow> bytes \<Rightarrow> bool" where
  "own_trace env tr q s T \<longleftrightarrow> T = seen env (map_size s) (tr (data_of q s)) \<and> length T = unat (map_size s) \<and>
     traced q (s\<lparr>trace_bits := T\<rparr>) \<and> (\<forall>x. trace_hash env x = q_exec_cksum (entry s q) \<longleftrightarrow> x = T)"

lemma data_of_length: "trimmable q s \<Longrightarrow> length (data_of q s) = trim_len s q"
  by (simp add: data_of_def trimmable_def)

lemma trim_builtin_trimmed:
  assumes st: "steady_target env tr" and t: "trimmable q s" and own: "own_trace env tr q s T" and inv: "corpus_inv s"
    and w: "can_create env (q_fname (entry s q))" "\<not> no_unlink env"
  shows "\<exists>r s'. trim_builtin env q orig_len s = Inr (r, s') \<and> trimmed env tr q s s'"
proof (cases "trim_len s q < 5")
  case True
  then show ?thesis using inv by (simp add: trim_builtin_def trimmed_def)
next
  case False
  let ?v = "\<lparr>len_p2 = len_pow2 (trim_len s q), needs_write = False, fault = FSRV_RUN_OK\<rparr>"
  have q: "q < length (queue_buf s)" using t by (simp add: trimmable_def)
  have "trim_inv env tr q s ?v s" using t own by (simp add: trim_inv_def same_rest_refl own_trace_def)
  then obtain v u where g: "gap_sizes env q (max (len_p2 ?v div TRIM_START_STEPS) TRIM_MIN_BYTES) ?v s = Inr (False, v, u)"
    and ti: "trim_inv env tr q s v u" using gap_sizes_inv [OF st q] by blast
  have u: "trimmable q u" "same_rest q s u" "subseq (data_of q u) (data_of q s)"
    "seen env (map_size s) (tr (data_of q u)) = T" using ti own by (simp_all add: trim_inv_def own_trace_def)
  have lenT: "length T = unat (map_size s)" using own unfolding own_trace_def by blast
  note fields = same_rest_fields [OF u(2)] same_rest_entry [OF u(2) q]
  have cu: "corpus_inv u" using same_rest_corpus [OF u(2) q inv] .
  show ?thesis
  proof (cases "needs_write v")
    case nw: False
    then have "trim_builtin env q orig_len s = Inr (fault v, u)" using False g by (simp add: trim_builtin_def Let_def)
    moreover have "data_of q u = data_of q s" using ti nw by (simp add: trim_inv_def data_of_def)
    ultimately show ?thesis using cu u own fields(4) by (auto simp: trimmed_def own_trace_def)
  next
    case True
    let ?d = "u\<lparr>disk := (disk u)(q_fname (entry u q) \<mapsto> data_of q u)\<rparr>"
    have ct: "clean_trace u = T" "trim_len u q < trim_len s q" using ti True own by (auto simp: trim_inv_def own_trace_def)
    have "finish_trim env q orig_len u = Inr (score_trace q T ?d)"
      using u(1) w fields own ct by (intro finish_trim_plain) (auto simp: own_trace_def)
    then have "trim_builtin env q orig_len s = Inr (fault v, score_trace q T ?d)"
      using False g True by (simp add: trim_builtin_def Let_def)
    moreover have "corpus_inv (score_trace q T ?d)"
    proof (rule score_trace_corpus)
      show "corpus_inv ?d" using cu by (simp add: corpus_inv_def corpus_ok_def refs_ok_def minis_ok_def ids_ok_def)
      have "traced q (s\<lparr>trace_bits := T\<rparr>)" using own unfolding own_trace_def by blast
      then show "traced q (?d\<lparr>trace_bits := T\<rparr>)" using fields by (simp add: traced_def)
    qed (use lenT fields q in simp_all)
    moreover have "data_of q (score_trace q T ?d) = data_of q u"
      using score_trace_keeps [of q ?d T] q fields(5) by (simp add: data_of_def in_buf_def split: option.split)
    moreover have "disk (score_trace q T ?d) = (disk s)(q_fname (entry s q) \<mapsto> data_of q u)"
      using score_trace_keeps(3) [of q ?d T] q fields by simp
    moreover have "data_of q u \<noteq> data_of q s" using ct(2) data_of_length [OF t] data_of_length [OF u(1)] by auto
    ultimately show ?thesis using u own by (auto simp: trimmed_def own_trace_def)
  qed
qed

lemma trim_stats [simp]:
  "data_of q (s\<lparr>bytes_trim_in := n\<rparr>) = data_of q s" "data_of q (s\<lparr>bytes_trim_out := n\<rparr>) = data_of q s"
  "corpus_inv (s\<lparr>bytes_trim_in := n\<rparr>) = corpus_inv s" "corpus_inv (s\<lparr>bytes_trim_out := n\<rparr>) = corpus_inv s"
  "trimmable q (s\<lparr>bytes_trim_in := n\<rparr>) = trimmable q s"
  by (auto simp: data_of_def in_buf_def corpus_inv_def corpus_ok_def refs_ok_def minis_ok_def ids_ok_def trimmable_def
      split: option.splits)

lemma trim_case_plain:
  assumes "custom_mutators_count s = 0"
    "trim_builtin env q (q_len (entry s q)) (s\<lparr>bytes_trim_in := bytes_trim_in s + ucast (q_len (entry s q))\<rparr>) = Inr (r, s')"
  shows "trim_case fuel env q s = Inr (r, s'\<lparr>bytes_trim_out := bytes_trim_out s' + ucast (q_len (entry s' q))\<rparr>)"
  using assms by (simp add: trim_case_def)

section \<open>Plugins\<close>

text \<open>A run of exactly these bytes showed the checksum.\<close>

definition ran_with :: "'w trim_env \<Rightarrow> u64 \<Rightarrow> bytes \<Rightarrow> bool" where
  "ran_with env cksum b \<longleftrightarrow> (\<exists>w ci ret trace ms w'. run_target env w b ci = (ret, trace, False, w') \<and> ret \<noteq> FSRV_RUN_ERROR \<and>
     trace_hash env (seen env ms trace) = cksum)"

lemma send_none: "\<forall>m\<in>set ms. fm_fuzz_send m = None \<Longrightarrow> send_all env ms mem sent s = (sent, s)"
  by (induction ms) auto

lemma write_to_testcase_data:
  assumes "write_to_testcase env mem len False s = Inr (n, mem', s')" "n \<noteq> 0" "\<not> keep_original env"
    "\<forall>m\<in>set (mutator_list env). fm_fuzz_send m = None"
  shows "testcase s' = take n mem'" "queue_buf s' = queue_buf s" "disk s' = disk s"
  using assms
  by (auto simp: write_to_testcase_def Let_def send_none split: if_splits prod.splits)

lemma write_to_testcase_keeps:
  assumes "write_to_testcase env mem len fix_len s = Inr (n, mem', s')" "\<forall>m\<in>set (mutator_list env). fm_fuzz_send m = None"
  shows "queue_buf s' = queue_buf s \<and> disk s' = disk s"
  using assms by (auto simp: write_to_testcase_def Let_def send_none split: if_splits prod.splits)

lemma try_custom_ran:
  assumes t: "try_custom env q retlen retbuf flt s = Inr (stop, got, flt', s')" and k: "\<not> keep_original env"
    and ns: "\<forall>m\<in>set (mutator_list env). fm_fuzz_send m = None"
  shows "queue_buf s' = queue_buf s" "disk s' = disk s" "got = Some b \<Longrightarrow> ran_with env (q_exec_cksum (entry s q)) b"
proof -
  show "queue_buf s' = queue_buf s" "disk s' = disk s"
    using t by (auto simp: try_custom_def Let_def fuzz_run_target_def classify_counts_def dest!: write_to_testcase_keeps [OF _ ns]
        split: if_splits sum.splits prod.splits)
  assume "got = Some b"
  then obtain n mem u ret v where u: "write_to_testcase env retbuf retlen False s = Inr (n, mem, u)" "n \<noteq> 0"
    "fuzz_run_target env u = (ret, v)" "\<not> stop_soon v" "ret \<noteq> FSRV_RUN_ERROR" "b = take n mem"
    "trace_hash env (seen env (map_size v) (trace_bits v)) = q_exec_cksum (entry v q)"
    using t by (auto simp: try_custom_def Let_def classify_counts_def map_trace_def seen_def split: if_splits sum.splits prod.splits)
  obtain trace w' where r: "run_target env (plugin_world u) (testcase u) (custom_input u) = (ret, trace, False, w')"
    "trace_bits v = trace" "queue_buf v = queue_buf u"
    using u(3,4) by (auto simp: fuzz_run_target_def split: prod.splits)
  note d = write_to_testcase_data [OF u(1,2) k ns]
  have "run_target env (plugin_world u) b (custom_input u) = (ret, trace, False, w')" using r(1) by (simp add: d(1) u(6))
  moreover have "trace_hash env (seen env (map_size v) trace) = q_exec_cksum (entry s q)" using u(7) d(2) r by simp
  ultimately show "ran_with env (q_exec_cksum (entry s q)) b" unfolding ran_with_def using u(5) by blast
qed

lemma custom_loop_ran:
  assumes k: "\<not> keep_original env" and ns: "\<forall>m\<in>set (mutator_list env). fm_fuzz_send m = None"
  shows "custom_loop fuel env m q out flt s = Inr (stop, out', flt', s') \<Longrightarrow>
    (\<forall>b. out = Some b \<longrightarrow> ran_with env (q_exec_cksum (entry s q)) b) \<Longrightarrow>
    queue_buf s' = queue_buf s \<and> disk s' = disk s \<and> (\<forall>b. out' = Some b \<longrightarrow> ran_with env (q_exec_cksum (entry s q)) b)"
proof (induction fuel arbitrary: out flt s)
  case 0
  then show ?case by (simp add: custom_loop.simps split: if_splits)
next
  case (Suc fuel)
  show ?case
  proof (cases "stage_cur s < stage_max s")
    case False
    then show ?thesis using Suc.prems by (auto simp: custom_loop.simps [of "Suc fuel"])
  next
    case True
    obtain retlen retbuf w where tm: "ft_trim m (plugin_world s) = (retlen, Some retbuf, w)"
      using Suc.prems(1) True by (auto simp: custom_loop.simps [of "Suc fuel"] split: prod.splits option.splits)
    obtain st got f u where tc: "try_custom env q retlen retbuf flt (s\<lparr>plugin_world := w\<rparr>) = Inr (st, got, f, u)"
      using Suc.prems(1) True tm by (auto simp: custom_loop.simps [of "Suc fuel"] split: sum.splits prod.splits)
    note ran = try_custom_ran [OF tc k ns]
    note eq = custom_loop.simps [of "Suc fuel" env m q out flt s]
    have keep: "queue_buf u = queue_buf s" "disk u = disk s" using ran(1,2) by simp_all
    consider "st" | "\<not> st" "got = None" | b where "\<not> st" "got = Some b" by (cases got) auto
    then show ?thesis
    proof cases
      case 1
      then show ?thesis using Suc.prems True tm tc keep by (auto simp: eq)
    next
      case 2
      obtain r w' where p: "ft_post_trim m (plugin_world u) False = (r, w')" by (metis surj_pair)
      let ?u = "u\<lparr>plugin_world := w', stage_cur := of_int r\<rparr>"
      have "custom_loop fuel env m q out f ?u = Inr (stop, out', flt', s')"
        using 2 Suc.prems(1) True tm tc p by (simp add: eq split: if_splits)
      then show ?thesis using Suc.IH [of out f ?u] Suc.prems(2) keep by simp
    next
      case (3 b)
      let ?v = "if out = None then u\<lparr>clean_trace_custom := map_trace u\<rparr> else u"
      obtain r w' where p: "ft_post_trim m (plugin_world ?v) True = (r, w')" by (metis surj_pair)
      let ?u = "?v\<lparr>plugin_world := w', stage_cur := of_int r\<rparr>"
      have l: "custom_loop fuel env m q (Some b) f ?u = Inr (stop, out', flt', s')"
        using 3 Suc.prems(1) True tm tc p by (simp add: eq Let_def split: if_splits)
      have qb: "queue_buf ?u = queue_buf s" and d: "disk ?u = disk s" using keep by simp_all
      have "ran_with env (q_exec_cksum (entry ?u q)) b" using ran(3) [OF 3(2)] unfolding qb by simp
      then show ?thesis using Suc.IH [OF l] unfolding qb d by blast
    qed
  qed
qed

section \<open>Properties\<close>


definition ex_tr :: "bytes \<Rightarrow> bytes" where
  "ex_tr t = (if take 1 t = [65] then [1, 0, 0, 0, 0, 0, 0, 0] else [0, 1, 0, 0, 0, 0, 0, 0])"

definition ex_trim_env :: "unit trim_env" where
  "ex_trim_env = \<lparr>run_target = (\<lambda>w t ci. (FSRV_RUN_OK, ex_tr t, False, w)),
     trace_hash = (\<lambda>x. if x = [1, 0, 0, 0, 0, 0, 0, 0] then 0 else 1), can_create = (\<lambda>_. True), out_file_ok = True,
     class_table = count_class_lookup16, mutator_list = [], min_length = 1, max_length = 1048576, keep_original = False,
     late_send = False, no_unlink = False, write_results = []\<rparr>"

definition ex_trim :: "(rat, unit) trim_state" where
  "ex_trim = \<lparr>trace_bits = [], map_size = 8, real_map_size = 8, virgin_bits = [], virgin_tmout = [],
     virgin_crash = [], bitmap_changed = 0,
     queue_buf = [(ex_cache_entry 0 9 (Some [65, 66, 67, 68, 69, 70, 71, 72, 73]))], queued_items = 1,
     active_items = 1, pending_not_fuzzed = 1, queued_favored = 0, pending_favored = 0, cur_depth = 1,
     max_depth = 2, ready_for_splicing_count = 0, cycles_wo_finds = 0, queue_head = Some 0,
     queue_top = Some 0, queue_cur = Some 0, top_rated = replicate 8 None, top_rated_candidates = [],
     last_scored_idx = - 1, smallest_favored = - 1, score_changed = False, reinit_table = False,
     schedule = FAST, fixed_seed = False, non_instrumented_mode = False, afl_disable_redundant = False,
     cmplog_mode = False, custom_mutators_count = 0, syncing_party = False, n_fuzz = [],
     map_tmp_buf = [], start_time = 0, last_find_time = 0, longest_find_time = 0,
     q_testcase_max_cache_size = 100, q_testcase_max_cache_entries = 3, q_testcase_cache_size = 9,
     q_testcase_max_cache_count = 1, q_testcase_cache_count = 1, q_testcase_smallest_free = 0,
     q_testcase_evictions = 0, q_testcase_cache = [Some 0, None, None], do_once = False,
     afl_testcase_buf = [], afl_splicecase_buf = [],
     disk = (\<lambda>_. Some [65, 66, 67, 68, 69, 70, 71, 72, 73]), testcase = [], custom_input = None, clean_trace = [],
     clean_trace_custom = [], bytes_trim_in = 0, bytes_trim_out = 0, trim_execs = 0, stop_soon = False, stage_cur = 0,
     stage_max = 0, plugin_world = ()\<rparr>"

lemma ex_trim_ok:
  "steady_target ex_trim_env ex_tr" "trimmable 0 ex_trim" "corpus_inv ex_trim"
  "own_trace ex_trim_env ex_tr 0 ex_trim [1, 0, 0, 0, 0, 0, 0, 0]"
proof -
  show "steady_target ex_trim_env ex_tr" by (simp add: steady_target_def ex_trim_env_def)
  show "trimmable 0 ex_trim" by (simp add: trimmable_def ex_trim_def ex_cache_entry_def in_buf_def)
  show "corpus_inv ex_trim"
    by (simp add: corpus_inv_def corpus_ok_def refs_ok_def minis_ok_def ids_ok_def ex_trim_def ex_cache_entry_def)
  have d: "data_of 0 ex_trim = [65, 66, 67, 68, 69, 70, 71, 72, 73]"
    by (simp add: data_of_def in_buf_def ex_trim_def ex_cache_entry_def)
  have "seen ex_trim_env 8 [1, 0, 0, 0, 0, 0, 0, 0] = [1, 0, 0, 0, 0, 0, 0, 0]"
    unfolding seen_def ex_trim_env_def by (simp add: classify_counts_mem_bytes count_class_lookup8_def)
  then show "own_trace ex_trim_env ex_tr 0 ex_trim [1, 0, 0, 0, 0, 0, 0, 0]"
    unfolding own_trace_def d by (simp add: traced_def ex_tr_def ex_trim_def ex_cache_entry_def ex_trim_env_def)
qed



definition ex_trimmer :: "unit fuzz_trimmer" where
  "ex_trimmer = \<lparr>ft_init_trim = (\<lambda>w b. (1, w)), ft_trim = (\<lambda>w. (2, Some [65, 66], w)), ft_post_trim = (\<lambda>w ok. (1, w))\<rparr>"

lemma ex_custom_run:
  "custom_loop 1 ex_trim_env ex_trimmer 0 None FSRV_RUN_OK (ex_trim\<lparr>plugin_world := (), stage_cur := 0, stage_max := 1\<rparr>) =
     Inr (False, Some [65, 66], FSRV_RUN_OK, ex_trim\<lparr>testcase := [65, 66], trace_bits := [1, 0, 0, 0, 0, 0, 0, 0], trim_execs := 1,
       clean_trace_custom := [1, 0, 0, 0, 0, 0, 0, 0], stage_cur := 1, stage_max := 1\<rparr>)"
  by (simp add: custom_loop.simps try_custom_def write_to_testcase_def clamp_length_def fuzz_run_target_def classify_counts_def
      map_trace_def ex_trimmer_def ex_trim_env_def ex_trim_def ex_cache_entry_def ex_tr_def classify_counts_mem_bytes
      count_class_lookup8_def Let_def)


text \<open>With \<^verbatim>\<open>no_unlink\<close>, a short write starts again at the beginning of the buffer.\<close>

lemma short_write_repeats: "write_loop [1] [1, 2, 3] 3 0 [] = [1, 1, 2]"
  by code_simp

text \<open>A plugin that gives a size but no buffer.\<close>

lemma gap_without_buffer:
  assumes "custom_mutators_count s \<noteq> 0" "mutator_list env = [\<lparr>fm_post_process = Some (\<lambda>w b. (5, None, w)), fm_fuzz_send = None, fm_trimmer = None\<rparr>]"
  shows "write_with_gap env mem len pos n s = Inl Null_Read"
  using assms by (simp add: write_with_gap_def Let_def)

text \<open>A plugin whose \<^verbatim>\<open>init_trim\<close> reports an error is asked to trim all the same.\<close>

lemma init_trim_error_ignored:
  assumes "ft_init_trim m (plugin_world s) (take (trim_len s q) buf) = (- 1, w)" "ft_trim m w = (0, None, w)"
  shows "trim_case_custom (Suc fuel) env m q buf s = Inl (Trim_Fatal ''custom_trim failed'')"
proof -
  have "(0 :: u32) < - 1" by code_simp
  then show ?thesis using assms by (simp add: trim_case_custom_def custom_loop.simps)
qed

end
