(* ===== verification/Det.thy ===== *)
theory Det
  imports Afl_Prelude
begin

text \<open>
  The deterministic stages of \<^verbatim>\<open>AFLplusplus/src/afl-fuzz-one.c\<close>: walking bit and byte flips with the collection of
  dictionary tokens, additions and subtractions, and interesting values, together with the helpers that skip a
  value an earlier stage should have tried. Each stage changes \<^verbatim>\<open>out_buf\<close> in place, has it executed and restores it.
  Executing a test case, the hash of the trace it leaves, adding a token and the clock are the rest of the fuzzer, a parameter on
  an arbitrary state. Stage names and counters, which only feed the status screen, are left out.
\<close>

section \<open>Helpers\<close>

text \<open>\<^verbatim>\<open>could_be_bitflip\<close>: the loop that shifts until the lowest bit is set, and the test.\<close>

function shift_out :: "nat \<Rightarrow> u32 \<Rightarrow> nat \<times> u32" where
  "shift_out sh x = (if x \<noteq> 0 \<and> x AND 1 = 0 then shift_out (sh + 1) (drop_bit 1 x) else (sh, x))"
  by pat_completeness auto
termination
proof (relation "measure (\<lambda>(sh, x). unat x)")
  fix sh and x :: u32
  assume "x \<noteq> 0 \<and> x AND 1 = 0"
  then show "((sh + 1, drop_bit 1 x), (sh, x)) \<in> measure (\<lambda>(sh, x). unat x)"
    by (simp add: drop_bit_eq_div unat_div unat_gt_0)
qed simp

declare shift_out.simps [simp del]

definition could_be_bitflip :: "u32 \<Rightarrow> bool" where
  "could_be_bitflip xor_val =
     (if xor_val = 0 then True
      else (case shift_out 0 xor_val of (sh, x) \<Rightarrow>
              if x = 1 \<or> x = 3 \<or> x = 15 then True
              else if sh mod 8 \<noteq> 0 then False
              else x = 0xff \<or> x = 0xffff \<or> x = 0xffffffff))"

definition SWAP16 :: "u16 \<Rightarrow> u16" where
  "SWAP16 x = push_bit 8 x OR drop_bit 8 x"

definition SWAP32 :: "u32 \<Rightarrow> u32" where
  "SWAP32 x = push_bit 24 x OR drop_bit 24 x OR (push_bit 8 x AND 0x00FF0000) OR (drop_bit 8 x AND 0x0000FF00)"

abbreviation (input) ARITH_MAX :: nat where "ARITH_MAX \<equiv> 35"

text \<open>
  \<^verbatim>\<open>could_be_arith\<close>: the number of bytes (then of aligned halfwords) that differ and the last differing pair, then the
  distance in either direction.
\<close>

definition diff_units :: "nat \<Rightarrow> nat \<Rightarrow> u32 \<Rightarrow> u32 \<Rightarrow> nat \<times> u32 \<times> u32" where
  "diff_units width n old_val new_val =
     fold (\<lambda>i (diffs, ov, nv).
        let a = take_bit width (drop_bit (width * i) old_val);
            b = take_bit width (drop_bit (width * i) new_val)
        in if a \<noteq> b then (diffs + 1, a, b) else (diffs, ov, nv)) [0..<n] (0, 0, 0)"

definition near :: "nat \<Rightarrow> u32 \<Rightarrow> u32 \<Rightarrow> bool" where
  "near width a b \<longleftrightarrow> unat (take_bit width (a - b)) \<le> ARITH_MAX \<or> unat (take_bit width (b - a)) \<le> ARITH_MAX"

definition could_be_arith :: "u32 \<Rightarrow> u32 \<Rightarrow> nat \<Rightarrow> bool" where
  "could_be_arith old_val new_val blen =
     (if old_val = new_val then True
      else (case diff_units 8 blen old_val new_val of (diffs, ov, nv) \<Rightarrow>
        if diffs = 1 \<and> near 8 ov nv then True
        else if blen = 1 then False
        else (case diff_units 16 (blen div 2) old_val new_val of (diffs, ov, nv) \<Rightarrow>
          if diffs = 1 \<and> (near 16 ov nv \<or> near 16 (ucast (SWAP16 (ucast ov))) (ucast (SWAP16 (ucast nv)))) then True
          else blen = 4 \<and> (near 32 old_val new_val \<or> near 32 (SWAP32 old_val) (SWAP32 new_val)))))"

definition INTERESTING_8 :: "int list" where
  "INTERESTING_8 = [-128, -1, 0, 1, 16, 32, 64, 100, 127]"

definition INTERESTING_16 :: "int list" where
  "INTERESTING_16 = [-32768, -129, 128, 255, 256, 512, 1000, 1024, 4096, 32767]"

definition INTERESTING_32 :: "int list" where
  "INTERESTING_32 = [-2147483648, -100663046, -32769, 32768, 65535, 65536, 100663045, 2139095040, 2147483647]"

definition interesting_8 :: "int list" where
  "interesting_8 = INTERESTING_8"

definition interesting_16 :: "int list" where
  "interesting_16 = INTERESTING_8 @ INTERESTING_16"

definition interesting_32 :: "int list" where
  "interesting_32 = INTERESTING_8 @ INTERESTING_16 @ INTERESTING_32"

text \<open>\<^verbatim>\<open>could_be_interest\<close>: \<open>insert_at\<close> replaces the bits of a byte or halfword at byte \<open>i\<close>.\<close>

definition insert_at :: "u32 \<Rightarrow> nat \<Rightarrow> u32 \<Rightarrow> u32 \<Rightarrow> u32" where
  "insert_at field i v old_val = (old_val AND NOT (push_bit (8 * i) field)) OR push_bit (8 * i) v"

definition could_be_interest :: "u32 \<Rightarrow> u32 \<Rightarrow> nat \<Rightarrow> bool \<Rightarrow> bool" where
  "could_be_interest old_val new_val blen check_le =
     (if old_val = new_val then True
      else if list_ex (\<lambda>i. list_ex (\<lambda>v. new_val = insert_at 0xff i (ucast (of_int v :: u8)) old_val) interesting_8) [0..<blen]
      then True
      else if blen = 2 \<and> \<not> check_le then False
      else if list_ex (\<lambda>i. list_ex (\<lambda>v.
          new_val = insert_at 0xffff i (ucast (of_int v :: u16)) old_val \<or>
          2 < blen \<and> new_val = insert_at 0xffff i (ucast (SWAP16 (of_int v))) old_val) interesting_16) [0..<blen - 1]
      then True
      else blen = 4 \<and> check_le \<and> list_ex (\<lambda>v. new_val = of_int v) interesting_32)"

section \<open>Stages\<close>

text \<open>
  The rest of the fuzzer: \<^verbatim>\<open>common_fuzz_stuff\<close> (\<open>True\<close> asks to abandon the entry), \<^verbatim>\<open>hash64\<close> of the trace, \<^verbatim>\<open>maybe_add_auto\<close>,
  \<^verbatim>\<open>is_det_timeout\<close>; and the configuration: the effector map, \<^verbatim>\<open>no_arith\<close> and \<^verbatim>\<open>non_instrumented_mode\<close>.
\<close>

record 'x det_env =
  common_fuzz_stuff :: "bytes \<Rightarrow> 'x \<Rightarrow> bool \<times> 'x"
  trace_cksum :: "'x \<Rightarrow> u64"
  maybe_add_auto :: "bytes \<Rightarrow> 'x \<Rightarrow> 'x"
  det_timeout :: "'x \<Rightarrow> bool"
  skip_eff_map :: bytes
  no_arith :: bool
  det_non_instrumented :: bool

record 'x det_state =
  out_buf :: bytes
  fuzzer :: 'x
  a_collect :: bytes
  a_len :: nat
  prev_cksum :: u64
  first_cksum :: u64

text \<open>The ways out: \<^verbatim>\<open>goto abandon_entry\<close>, \<^verbatim>\<open>goto custom_mutator_stage\<close> and \<^verbatim>\<open>PFATAL\<close> without memory (in the dictionary stages).\<close>

datatype det_exit = Abandon_Entry | Custom_Mutator_Stage | Out_Of_Memory

type_synonym 'x det_result = "det_exit \<times> 'x det_state + 'x det_state"

definition bitmap_read :: "bytes \<Rightarrow> nat \<Rightarrow> bool" where
  "bitmap_read m i = bit (m ! (i div 8)) (i mod 8)"

definition det_bind :: "'x det_result \<Rightarrow> ('x det_state \<Rightarrow> 'x det_result) \<Rightarrow> 'x det_result" where
  "det_bind r f = (case r of Inl e \<Rightarrow> Inl e | Inr s \<Rightarrow> f s)"

fun det_each :: "('p \<Rightarrow> 'x det_state \<Rightarrow> 'x det_result) \<Rightarrow> 'p list \<Rightarrow> 'x det_state \<Rightarrow> 'x det_result" where
  "det_each f [] s = Inr s"
| "det_each f (p # ps) s = det_bind (f p s) (det_each f ps)"

definition det_run :: "'x det_env \<Rightarrow> 'x det_state \<Rightarrow> 'x det_result" where
  "det_run env s = (case common_fuzz_stuff env (out_buf s) (fuzzer s) of
     (bail, x) \<Rightarrow> if bail then Inl (Abandon_Entry, s\<lparr>fuzzer := x\<rparr>) else Inr (s\<lparr>fuzzer := x\<rparr>))"

text \<open>The checks at the top of each loop.\<close>

definition det_visit :: "'x det_env \<Rightarrow> nat \<Rightarrow> ('x det_state \<Rightarrow> 'x det_result) \<Rightarrow> 'x det_state \<Rightarrow> 'x det_result" where
  "det_visit env i body s =
     (if \<not> bitmap_read (skip_eff_map env) i then Inr s
      else if det_timeout env (fuzzer s) then Inl (Custom_Mutator_Stage, s)
      else body s)"

subsection \<open>Bit flips\<close>

definition FLIP_BIT :: "nat \<Rightarrow> bytes \<Rightarrow> bytes" where
  "FLIP_BIT b ar = ar[b div 8 := ar ! (b div 8) XOR drop_bit (b mod 8) 128]"

definition flip_bits :: "nat \<Rightarrow> nat \<Rightarrow> bytes \<Rightarrow> bytes" where
  "flip_bits n b ar = fold (\<lambda>k. FLIP_BIT (b + k)) [0..<n] ar"

definition flip_run :: "'x det_env \<Rightarrow> (bytes \<Rightarrow> bytes) \<Rightarrow> 'x det_state \<Rightarrow> 'x det_result" where
  "flip_run env f s = det_bind (det_run env (s\<lparr>out_buf := f (out_buf s)\<rparr>)) (\<lambda>s. Inr (s\<lparr>out_buf := f (out_buf s)\<rparr>))"

text \<open>
  Tokens: at the last bit of each byte, runs of bytes whose flip leaves the same changed checksum are collected; the
  array has room for \<^verbatim>\<open>MAX_AUTO_EXTRA\<close> bytes and \<^verbatim>\<open>a_len\<close> counts on beyond that.
\<close>

abbreviation (input) MIN_AUTO_EXTRA :: nat where "MIN_AUTO_EXTRA \<equiv> 3"
abbreviation (input) MAX_AUTO_EXTRA :: nat where "MAX_AUTO_EXTRA \<equiv> 32"

definition collect_byte :: "nat \<Rightarrow> 'x det_state \<Rightarrow> 'x det_state" where
  "collect_byte i s =
     (let s = (if a_len s < MAX_AUTO_EXTRA then s\<lparr>a_collect := (a_collect s)[a_len s := out_buf s ! i]\<rparr> else s)
      in s\<lparr>a_len := a_len s + 1\<rparr>)"

definition offer_token :: "'x det_env \<Rightarrow> 'x det_state \<Rightarrow> 'x det_state" where
  "offer_token env s =
     (if MIN_AUTO_EXTRA \<le> a_len s \<and> a_len s \<le> MAX_AUTO_EXTRA
      then s\<lparr>fuzzer := maybe_add_auto env (take (a_len s) (a_collect s)) (fuzzer s)\<rparr> else s)"

definition collect_token :: "'x det_env \<Rightarrow> nat \<Rightarrow> 'x det_state \<Rightarrow> 'x det_state" where
  "collect_token env stage_cur s =
     (if \<not> det_non_instrumented env \<and> stage_cur mod 8 = 7 then
        (let cksum = trace_cksum env (fuzzer s);
             s = (if stage_cur = 8 * length (out_buf s) - 1 \<and> cksum = prev_cksum s
                  then offer_token env (collect_byte (stage_cur div 8) s)
                  else if cksum \<noteq> prev_cksum s then (offer_token env s)\<lparr>a_len := 0, prev_cksum := cksum\<rparr>
                  else s)
         in if cksum \<noteq> first_cksum s then collect_byte (stage_cur div 8) s else s)
      else s)"

definition flip1_stage :: "'x det_env \<Rightarrow> 'x det_state \<Rightarrow> 'x det_result" where
  "flip1_stage env s =
     det_bind (det_run env s) (\<lambda>s.
       let c = trace_cksum env (fuzzer s)
       in det_each (\<lambda>stage_cur. det_visit env (stage_cur div 8) (\<lambda>s.
              det_bind (flip_run env (FLIP_BIT stage_cur) s) (\<lambda>s. Inr (collect_token env stage_cur s))))
            [0..<8 * length (out_buf s)] (s\<lparr>prev_cksum := c, first_cksum := c\<rparr>))"

text \<open>Two and four walking bits: \<^verbatim>\<open>stage_max\<close> is \<^verbatim>\<open>(len << 3) - 1\<close> and \<^verbatim>\<open>(len << 3) - 3\<close>.\<close>

definition flip_stage :: "'x det_env \<Rightarrow> nat \<Rightarrow> 'x det_state \<Rightarrow> 'x det_result" where
  "flip_stage env n s =
     det_each (\<lambda>stage_cur. det_visit env (stage_cur div 8) (flip_run env (flip_bits n stage_cur)))
       [0..<8 * length (out_buf s) - (n - 1)] s"

text \<open>Walking bytes, two and four bytes: every byte of the unit is inverted.\<close>

definition invert_bytes :: "nat \<Rightarrow> nat \<Rightarrow> bytes \<Rightarrow> bytes" where
  "invert_bytes n i ar = fold (\<lambda>k ar. ar[i + k := ar ! (i + k) XOR 0xFF]) [0..<n] ar"

definition invert_stage :: "'x det_env \<Rightarrow> nat \<Rightarrow> 'x det_state \<Rightarrow> 'x det_result" where
  "invert_stage env n s =
     det_each (\<lambda>i. det_visit env i (flip_run env (invert_bytes n i))) [0..<length (out_buf s) - (n - 1)] s"

definition bitflip_stages :: "'x det_env \<Rightarrow> 'x det_state \<Rightarrow> 'x det_result" where
  "bitflip_stages env s =
     det_bind (flip1_stage env s) (\<lambda>s.
     det_bind (flip_stage env 2 s) (\<lambda>s.
     det_bind (flip_stage env 4 s) (\<lambda>s.
     det_bind (invert_stage env 1 (s\<lparr>prev_cksum := first_cksum s\<rparr>)) (\<lambda>s.
       if length (out_buf s) < 2 then Inr s
       else det_bind (invert_stage env 2 s) (\<lambda>s.
              if length (out_buf s) < 4 then Inr s else invert_stage env 4 s)))))"

subsection \<open>Arithmetic\<close>

text \<open>Reading and writing a little-endian unit at a byte offset.\<close>

definition rd :: "nat \<Rightarrow> nat \<Rightarrow> bytes \<Rightarrow> 'w::len word" where
  "rd k i ar = le_word (take k (drop i ar))"

definition wr :: "nat \<Rightarrow> nat \<Rightarrow> 'w::len word \<Rightarrow> bytes \<Rightarrow> bytes" where
  "wr k i w ar = take i ar @ le_bytes k w @ drop (i + k) ar"

text \<open>Execute with a unit replaced, if a condition holds; the unit stays as it is left.\<close>

definition put_run :: "'x det_env \<Rightarrow> nat \<Rightarrow> nat \<Rightarrow> bool \<Rightarrow> 'w::len word \<Rightarrow> 'x det_state \<Rightarrow> 'x det_result" where
  "put_run env k i cond w s = (if cond then det_run env (s\<lparr>out_buf := wr k i w (out_buf s)\<rparr>) else Inr s)"

definition put_back :: "nat \<Rightarrow> nat \<Rightarrow> 'w::len word \<Rightarrow> 'x det_state \<Rightarrow> 'x det_result" where
  "put_back k i w s = Inr (s\<lparr>out_buf := wr k i w (out_buf s)\<rparr>)"

definition arith8_at :: "'x det_env \<Rightarrow> nat \<Rightarrow> 'x det_state \<Rightarrow> 'x det_result" where
  "arith8_at env i s =
     (let orig = rd 1 i (out_buf s) :: u8
      in det_each (\<lambda>j s.
           let up = orig + of_nat j; down = orig - of_nat j
           in det_bind (put_run env 1 i (\<not> could_be_bitflip (ucast (orig XOR up))) up s) (\<lambda>s.
              det_bind (put_run env 1 i (\<not> could_be_bitflip (ucast (orig XOR down))) down s) (\<lambda>s.
              put_back 1 i orig s))) [1..<ARITH_MAX + 1] s)"

definition arith16_at :: "'x det_env \<Rightarrow> nat \<Rightarrow> 'x det_state \<Rightarrow> 'x det_result" where
  "arith16_at env i s =
     (let orig = rd 2 i (out_buf s) :: u16
      in det_each (\<lambda>j s.
           let le_up = orig + of_nat j; le_down = orig - of_nat j;
               be_up = SWAP16 (SWAP16 orig + of_nat j); be_down = SWAP16 (SWAP16 orig - of_nat j)
           in det_bind (put_run env 2 i (0xff < unat (orig AND 0xff) + j \<and> \<not> could_be_bitflip (ucast (orig XOR le_up))) le_up s) (\<lambda>s.
              det_bind (put_run env 2 i (unat (orig AND 0xff) < j \<and> \<not> could_be_bitflip (ucast (orig XOR le_down))) le_down s) (\<lambda>s.
              det_bind (put_run env 2 i (0xff < unat (drop_bit 8 orig) + j \<and> \<not> could_be_bitflip (ucast (orig XOR be_up))) be_up s) (\<lambda>s.
              det_bind (put_run env 2 i (unat (drop_bit 8 orig) < j \<and> \<not> could_be_bitflip (ucast (orig XOR be_down))) be_down s) (\<lambda>s.
              put_back 2 i orig s))))) [1..<ARITH_MAX + 1] s)"

definition arith32_at :: "'x det_env \<Rightarrow> nat \<Rightarrow> 'x det_state \<Rightarrow> 'x det_result" where
  "arith32_at env i s =
     (let orig = rd 4 i (out_buf s) :: u32
      in det_each (\<lambda>j s.
           let le_up = orig + of_nat j; le_down = orig - of_nat j;
               be_up = SWAP32 (SWAP32 orig + of_nat j); be_down = SWAP32 (SWAP32 orig - of_nat j)
           in det_bind (put_run env 4 i (0xffff < unat (orig AND 0xffff) + j \<and> \<not> could_be_bitflip (orig XOR le_up)) le_up s) (\<lambda>s.
              det_bind (put_run env 4 i (unat (orig AND 0xffff) < j \<and> \<not> could_be_bitflip (orig XOR le_down)) le_down s) (\<lambda>s.
              det_bind (put_run env 4 i (0xffff < unat (SWAP32 orig AND 0xffff) + j \<and> \<not> could_be_bitflip (orig XOR be_up)) be_up s) (\<lambda>s.
              det_bind (put_run env 4 i (unat (SWAP32 orig AND 0xffff) < j \<and> \<not> could_be_bitflip (orig XOR be_down)) be_down s) (\<lambda>s.
              put_back 4 i orig s))))) [1..<ARITH_MAX + 1] s)"

definition unit_stage ::
  "'x det_env \<Rightarrow> nat \<Rightarrow> ('x det_env \<Rightarrow> nat \<Rightarrow> 'x det_state \<Rightarrow> 'x det_result) \<Rightarrow> 'x det_state \<Rightarrow> 'x det_result" where
  "unit_stage env k body s = det_each (\<lambda>i. det_visit env i (body env i)) [0..<length (out_buf s) - (k - 1)] s"

definition arith_stages :: "'x det_env \<Rightarrow> 'x det_state \<Rightarrow> 'x det_result" where
  "arith_stages env s =
     (if no_arith env then Inr s
      else det_bind (unit_stage env 1 arith8_at s) (\<lambda>s.
        if length (out_buf s) < 2 then Inr s
        else det_bind (unit_stage env 2 arith16_at s) (\<lambda>s.
          if length (out_buf s) < 4 then Inr s else unit_stage env 4 arith32_at s)))"

subsection \<open>Interesting values\<close>

definition interest8_at :: "'x det_env \<Rightarrow> nat \<Rightarrow> 'x det_state \<Rightarrow> 'x det_result" where
  "interest8_at env i s =
     (let orig = rd 1 i (out_buf s) :: u8
      in det_each (\<lambda>v s.
           let new = of_int v
           in if could_be_bitflip (ucast (orig XOR new)) \<or> could_be_arith (ucast orig) (ucast new) 1 then Inr s
              else det_bind (put_run env 1 i True new s) (put_back 1 i orig)) interesting_8 s)"

definition interest16_at :: "'x det_env \<Rightarrow> nat \<Rightarrow> 'x det_state \<Rightarrow> 'x det_result" where
  "interest16_at env i s =
     (let orig = rd 2 i (out_buf s) :: u16
      in det_bind (det_each (\<lambda>v s.
           let le = of_int v; be = SWAP16 le
           in det_bind (put_run env 2 i (\<not> could_be_bitflip (ucast (orig XOR le)) \<and> \<not> could_be_arith (ucast orig) (ucast le) 2 \<and>
                  \<not> could_be_interest (ucast orig) (ucast le) 2 False) le s) (\<lambda>s.
              put_run env 2 i (le \<noteq> be \<and> \<not> could_be_bitflip (ucast (orig XOR be)) \<and> \<not> could_be_arith (ucast orig) (ucast be) 2 \<and>
                  \<not> could_be_interest (ucast orig) (ucast be) 2 True) be s)) interesting_16 s) (put_back 2 i orig))"

definition interest32_at :: "'x det_env \<Rightarrow> nat \<Rightarrow> 'x det_state \<Rightarrow> 'x det_result" where
  "interest32_at env i s =
     (let orig = rd 4 i (out_buf s) :: u32
      in det_bind (det_each (\<lambda>v s.
           let le = of_int v; be = SWAP32 le
           in det_bind (put_run env 4 i (\<not> could_be_bitflip (orig XOR le) \<and> \<not> could_be_arith orig le 4 \<and>
                  \<not> could_be_interest orig le 4 False) le s) (\<lambda>s.
              put_run env 4 i (le \<noteq> be \<and> \<not> could_be_bitflip (orig XOR be) \<and> \<not> could_be_arith orig be 4 \<and>
                  \<not> could_be_interest orig be 4 True) be s)) interesting_32 s) (put_back 4 i orig))"

definition interest_stages :: "'x det_env \<Rightarrow> 'x det_state \<Rightarrow> 'x det_result" where
  "interest_stages env s =
     det_bind (unit_stage env 1 interest8_at s) (\<lambda>s.
       if no_arith env \<or> length (out_buf s) < 2 then Inr s
       else det_bind (unit_stage env 2 interest16_at s) (\<lambda>s.
         if length (out_buf s) < 4 then Inr s else unit_stage env 4 interest32_at s))"

definition det_stages :: "'x det_env \<Rightarrow> 'x det_state \<Rightarrow> 'x det_result" where
  "det_stages env s =
     det_bind (bitflip_stages env s) (\<lambda>s. det_bind (arith_stages env s) (interest_stages env))"

end
