(* ===== verification/Det_Props.thy ===== *)
theory Det_Props
  imports Det
begin

text \<open>
  What the deterministic stages promise: whatever the target does, a stage that ends leaves the buffer as it found it;
  and skipping the values that earlier stages have tried loses no single-byte value, but does lose 16-bit ones.
\<close>

section \<open>Buffers are restored\<close>

text \<open>
  A step keeps a property of the buffer if it holds after every normal end, and the buffer is the original one when
  the stages are left for the next ones because time is up.
\<close>

definition ends_in :: "bytes \<Rightarrow> (bytes \<Rightarrow> bool) \<Rightarrow> 'x det_result \<Rightarrow> bool" where
  "ends_in buf P r = (case r of Inl (e, s) \<Rightarrow> (e = Custom_Mutator_Stage \<longrightarrow> out_buf s = buf)
     | Inr s \<Rightarrow> P (out_buf s))"

definition keeps :: "bytes \<Rightarrow> (bytes \<Rightarrow> bool) \<Rightarrow> ('x det_state \<Rightarrow> 'x det_result) \<Rightarrow> bool" where
  "keeps buf P f \<longleftrightarrow> (\<forall>s. P (out_buf s) \<longrightarrow> ends_in buf P (f s))"

lemma ends_in_simps [simp]:
  "ends_in buf P (Inl (Abandon_Entry, s))" "ends_in buf P (Inl (Out_Of_Memory, s))"
  "ends_in buf P (Inl (Custom_Mutator_Stage, s)) \<longleftrightarrow> out_buf s = buf"
  "ends_in buf P (Inr s) \<longleftrightarrow> P (out_buf s)"
  by (simp_all add: ends_in_def)

lemma ends_in_bind: "ends_in buf P r \<Longrightarrow> (\<And>s. P (out_buf s) \<Longrightarrow> ends_in buf Q (g s)) \<Longrightarrow> ends_in buf Q (det_bind r g)"
  by (cases r) (simp_all add: det_bind_def, simp add: ends_in_def split: prod.split)

lemma keepsI: "(\<And>s. P (out_buf s) \<Longrightarrow> ends_in buf P (f s)) \<Longrightarrow> keeps buf P f"
  by (simp add: keeps_def)

lemma keepsD: "keeps buf P f \<Longrightarrow> P (out_buf s) \<Longrightarrow> ends_in buf P (f s)"
  by (simp add: keeps_def)

lemma keeps_bind: "keeps buf P f \<Longrightarrow> keeps buf P g \<Longrightarrow> keeps buf P (\<lambda>s. det_bind (f s) g)"
  by (rule keepsI, rule ends_in_bind [where P = P]) (auto dest: keepsD)

lemma keeps_each: "\<forall>p\<in>set ps. keeps buf P (f p) \<Longrightarrow> keeps buf P (det_each f ps)"
proof (induction ps)
  case (Cons p ps)
  have "keeps buf P (\<lambda>s. det_bind (f p s) (det_each f ps))" using Cons by (intro keeps_bind) simp_all
  then show ?case by (simp add: keeps_def)
qed (simp add: keeps_def)

abbreviation restores :: "bytes \<Rightarrow> ('x det_state \<Rightarrow> 'x det_result) \<Rightarrow> bool" where
  "restores buf \<equiv> keeps buf (\<lambda>b. b = buf)"

lemma keeps_visit: "restores buf body \<Longrightarrow> restores buf (det_visit env i body)"
  by (simp add: keeps_def det_visit_def)

lemma keeps_if: "keeps buf P f \<Longrightarrow> keeps buf P g \<Longrightarrow> keeps buf P (\<lambda>s. if C s then f s else g s)"
  by (simp add: keeps_def)

lemma keeps_Inr: "keeps buf P Inr"
  by (simp add: keeps_def)

lemma det_run_buf: "P (out_buf s) \<Longrightarrow> ends_in buf P (det_run env s)"
  by (simp add: det_run_def split: prod.split)

lemma keeps_run: "keeps buf P (det_run env)"
  by (simp add: keeps_def det_run_buf)

text \<open>Flips are exclusive-ors with masks, so doing one twice changes nothing.\<close>

definition masks :: "(bytes \<Rightarrow> bytes) \<Rightarrow> (nat \<Rightarrow> u8) \<Rightarrow> bool" where
  "masks f m \<longleftrightarrow> (\<forall>ar. length (f ar) = length ar \<and> (\<forall>i<length ar. f ar ! i = ar ! i XOR m i))"

lemma masks_twice: "masks f m \<Longrightarrow> f (f ar) = ar"
  by (rule nth_equalityI) (simp_all add: masks_def xor.assoc)

lemma masks_comp: "masks f m \<Longrightarrow> masks g n \<Longrightarrow> masks (\<lambda>ar. g (f ar)) (\<lambda>i. m i XOR n i)"
  by (simp add: masks_def xor.assoc)

lemma masks_FLIP_BIT: "masks (FLIP_BIT b) (\<lambda>i. if i = b div 8 then drop_bit (b mod 8) 128 else 0)"
  by (simp add: masks_def FLIP_BIT_def nth_list_update)

lemma masks_fold: "\<forall>k\<in>set ks. masks (f k) (m k) \<Longrightarrow> masks (fold f ks) (\<lambda>i. fold (\<lambda>k x. x XOR m k i) ks 0)"
proof (induction ks rule: rev_induct)
  case (snoc k ks)
  then show ?case using masks_comp [of "fold f ks" _ "f k" "m k"] by (simp add: comp_def)
qed (simp add: masks_def)

lemma masks_flip_bits: "masks (flip_bits n b) (\<lambda>i. fold (\<lambda>k x. x XOR (if i = (b + k) div 8 then drop_bit ((b + k) mod 8) 128 else 0)) [0..<n] 0)"
  unfolding flip_bits_def [abs_def] by (intro masks_fold ballI masks_FLIP_BIT)

lemma masks_invert: "masks (invert_bytes n j) (\<lambda>i. fold (\<lambda>k x. x XOR (if i = j + k then 0xFF else 0)) [0..<n] 0)"
  unfolding invert_bytes_def [abs_def]
  by (rule masks_fold) (simp add: masks_def nth_list_update)

lemma keeps_flip_run: "masks f m \<Longrightarrow> restores buf (flip_run env f)"
proof (rule keepsI)
  fix s :: "'a det_state"
  assume m: "masks f m" and P: "out_buf s = buf"
  have "ends_in buf (\<lambda>b. b = f (out_buf s)) (det_run env (s\<lparr>out_buf := f (out_buf s)\<rparr>))" by (rule det_run_buf) simp
  then show "ends_in buf (\<lambda>b. b = buf) (flip_run env f s)"
    unfolding flip_run_def by (rule ends_in_bind) (simp add: masks_twice [OF m] P)
qed

text \<open>Tokens are collected beside the buffer.\<close>

lemma collect_token_buf [simp]: "out_buf (collect_token env c s) = out_buf s"
  by (simp add: collect_token_def collect_byte_def offer_token_def Let_def)

lemma keeps_flip1: "restores buf (flip1_stage env)"
proof -
  let ?body = "\<lambda>c s. det_bind (flip_run env (FLIP_BIT c) s) (\<lambda>s. Inr (collect_token env c s))"
  have "restores buf (?body c)" for c
    by (rule keeps_bind [OF keeps_flip_run [OF masks_FLIP_BIT]]) (simp add: keeps_def)
  then have "restores buf (det_each (\<lambda>c. det_visit env (c div 8) (?body c)) [0..<n])" for n
    by (intro keeps_each ballI keeps_visit)
  then show ?thesis unfolding flip1_stage_def [abs_def] Let_def
    by (intro keeps_bind keeps_run) (simp add: keeps_def)
qed

lemma keeps_flip_stage: "restores buf (flip_stage env n)"
proof -
  have "restores buf (det_each (\<lambda>c. det_visit env (c div 8) (flip_run env (flip_bits n c))) [0..<m])" for m
    by (intro keeps_each ballI keeps_visit keeps_flip_run [OF masks_flip_bits])
  then show ?thesis by (simp add: keeps_def flip_stage_def)
qed

lemma keeps_invert_stage: "restores buf (invert_stage env n)"
proof -
  have "restores buf (det_each (\<lambda>i. det_visit env i (flip_run env (invert_bytes n i))) [0..<m])" for m
    by (intro keeps_each ballI keeps_visit keeps_flip_run [OF masks_invert])
  then show ?thesis by (simp add: keeps_def invert_stage_def)
qed

lemma keeps_reset: "restores buf f \<Longrightarrow> restores buf (\<lambda>s. f (s\<lparr>prev_cksum := c s\<rparr>))"
  by (simp add: keeps_def)

lemma keeps_bitflips: "restores buf (bitflip_stages env)"
  unfolding bitflip_stages_def [abs_def]
  by (intro keeps_bind keeps_if keeps_flip1 keeps_flip_stage keeps_reset keeps_invert_stage keeps_Inr)

text \<open>Units: between a write and the restoring write only the bytes of the unit differ.\<close>

definition dirty :: "nat \<Rightarrow> nat \<Rightarrow> bytes \<Rightarrow> bytes \<Rightarrow> bool" where
  "dirty k i buf b \<longleftrightarrow> length b = length buf \<and> take i b = take i buf \<and> drop (i + k) b = drop (i + k) buf"

lemma wr_dirty: "i + k \<le> length buf \<Longrightarrow> dirty k i buf b \<Longrightarrow> dirty k i buf (wr k i w b)"
  by (simp add: dirty_def wr_def)

lemma wr_clean:
  assumes "i + k \<le> length buf" "dirty k i buf b" "LENGTH('w::len) = 8 * k"
  shows "wr k i (rd k i buf :: 'w word) b = buf"
proof -
  have "le_bytes k (rd k i buf :: 'w word) = take k (drop i buf)"
    using le_bytes_le_word [where 'w = 'w, of "take k (drop i buf)"] assms(1,3) by (simp add: rd_def)
  then have "wr k i (rd k i buf :: 'w word) b = take i buf @ take k (drop i buf) @ drop (i + k) buf"
    using assms(2) by (simp add: wr_def dirty_def)
  also have "\<dots> = buf" by (metis append_take_drop_id drop_drop add.commute)
  finally show ?thesis .
qed

lemma dirty_self: "dirty k i buf buf"
  by (simp add: dirty_def)

lemma keeps_put_run: "i + k \<le> length buf \<Longrightarrow> keeps buf (dirty k i buf) (put_run env k i c w)"
  by (simp add: keeps_def put_run_def det_run_buf wr_dirty)

lemma ends_put_back:
  assumes "i + k \<le> length buf" "LENGTH('w::len) = 8 * k" "dirty k i buf (out_buf s)"
  shows "ends_in buf (\<lambda>b. b = buf) (put_back k i (rd k i buf :: 'w word) s)"
  using wr_clean [OF assms(1,3,2)] by (simp add: put_back_def)

text \<open>A pass over values that ends with restoring the unit.\<close>

lemma keeps_unit:
  assumes "i + k \<le> length buf" "LENGTH('w::len) = 8 * k" "keeps buf (dirty k i buf) f"
  shows "restores buf (\<lambda>s. det_bind (f s) (put_back k i (rd k i buf :: 'w word)))"
proof (rule keepsI)
  fix s :: "'a det_state"
  assume "out_buf s = buf"
  then have "ends_in buf (dirty k i buf) (f s)" using keepsD [OF assms(3)] by (simp add: dirty_self)
  then show "ends_in buf (\<lambda>b. b = buf) (det_bind (f s) (put_back k i (rd k i buf :: 'w word)))"
    by (rule ends_in_bind) (rule ends_put_back [OF assms(1,2)])
qed

lemma det_bind_assoc: "det_bind (det_bind r f) g = det_bind r (\<lambda>s. det_bind (f s) g)"
  by (simp add: det_bind_def split: sum.split)

lemma keeps_two:
  assumes "i + k \<le> length buf" "LENGTH('w::len) = 8 * k"
  shows "restores buf (\<lambda>s. det_bind (put_run env k i c1 (w1 :: 'w word) s) (\<lambda>s. det_bind (put_run env k i c2 (w2 :: 'w word) s)
    (put_back k i (rd k i buf :: 'w word))))"
proof -
  have "keeps buf (dirty k i buf) (\<lambda>s. det_bind (put_run env k i c1 w1 s) (put_run env k i c2 w2))"
    by (intro keeps_bind keeps_put_run assms(1))
  from keeps_unit [OF assms this] show ?thesis by (simp add: det_bind_assoc)
qed

lemma keeps_arith8: "i + 1 \<le> length buf \<Longrightarrow> restores buf (arith8_at env i)"
  unfolding arith8_at_def [abs_def] Let_def
  by (rule keepsI, simp, rule keepsD [OF keeps_each]) (auto intro!: keeps_two)

lemma keeps_four:
  assumes "i + k \<le> length buf" "LENGTH('w::len) = 8 * k"
  shows "restores buf (\<lambda>s. det_bind (put_run env k i c1 (w1 :: 'w word) s) (\<lambda>s. det_bind (put_run env k i c2 (w2 :: 'w word) s) (\<lambda>s.
    det_bind (put_run env k i c3 (w3 :: 'w word) s) (\<lambda>s. det_bind (put_run env k i c4 (w4 :: 'w word) s) (put_back k i (rd k i buf :: 'w word))))))"
proof -
  have "keeps buf (dirty k i buf) (\<lambda>s. det_bind (det_bind (det_bind (put_run env k i c1 w1 s) (put_run env k i c2 w2))
      (put_run env k i c3 w3)) (put_run env k i c4 w4))"
    by (intro keeps_bind keeps_put_run assms(1))
  from keeps_unit [OF assms this] show ?thesis by (simp add: det_bind_assoc)
qed

lemma keeps_arith16: "i + 2 \<le> length buf \<Longrightarrow> restores buf (arith16_at env i)"
  unfolding arith16_at_def [abs_def] Let_def
  by (rule keepsI, simp, rule keepsD [OF keeps_each]) (auto intro!: keeps_four)

lemma keeps_arith32: "i + 4 \<le> length buf \<Longrightarrow> restores buf (arith32_at env i)"
  unfolding arith32_at_def [abs_def] Let_def
  by (rule keepsI, simp, rule keepsD [OF keeps_each]) (auto intro!: keeps_four)

lemma keeps_interest8: "i + 1 \<le> length buf \<Longrightarrow> restores buf (interest8_at env i)"
  unfolding interest8_at_def [abs_def] Let_def
  by (rule keepsI, simp, rule keepsD [OF keeps_each]) (auto intro!: keeps_if keeps_Inr keeps_unit keeps_put_run)

lemma keeps_interest16:
  assumes "i + 2 \<le> length buf"
  shows "restores buf (interest16_at env i)"
proof (rule keepsI)
  fix s :: "'a det_state"
  assume "out_buf s = buf"
  then show "ends_in buf (\<lambda>b. b = buf) (interest16_at env i s)"
    unfolding interest16_at_def Let_def using assms
    by (simp only:) (intro keepsD [OF keeps_unit [OF _ _ keeps_each]] ballI keeps_bind keeps_put_run; simp)
qed

lemma keeps_interest32:
  assumes "i + 4 \<le> length buf"
  shows "restores buf (interest32_at env i)"
proof (rule keepsI)
  fix s :: "'a det_state"
  assume "out_buf s = buf"
  then show "ends_in buf (\<lambda>b. b = buf) (interest32_at env i s)"
    unfolding interest32_at_def Let_def using assms
    by (simp only:) (intro keepsD [OF keeps_unit [OF _ _ keeps_each]] ballI keeps_bind keeps_put_run; simp)
qed

lemma keeps_unit_stage:
  assumes "\<And>i. i + k \<le> length buf \<Longrightarrow> restores buf (body env i)" "0 < k"
  shows "restores buf (unit_stage env k body)"
proof (rule keepsI)
  fix s :: "'a det_state"
  assume s: "out_buf s = buf"
  have "restores buf (det_each (\<lambda>i. det_visit env i (body env i)) [0..<length buf - (k - 1)])"
    using assms by (intro keeps_each ballI keeps_visit) simp
  then show "ends_in buf (\<lambda>b. b = buf) (unit_stage env k body s)" using s by (simp add: unit_stage_def keepsD)
qed

lemma keeps_arith: "restores buf (arith_stages env)"
  unfolding arith_stages_def [abs_def]
  by (intro keeps_if keeps_Inr keeps_bind keeps_unit_stage keeps_arith8 keeps_arith16 keeps_arith32) simp_all

lemma keeps_interest: "restores buf (interest_stages env)"
  unfolding interest_stages_def [abs_def]
  by (intro keeps_if keeps_Inr keeps_bind keeps_unit_stage keeps_interest8 keeps_interest16 keeps_interest32) simp_all

lemma keeps_det: "restores buf (det_stages env)"
  unfolding det_stages_def [abs_def] by (intro keeps_bind keeps_bitflips keeps_arith keeps_interest)

section \<open>What is tested\<close>

text \<open>The fuzzer with a list of the test cases it executed, the last one first, and a fuzzer that is never interrupted.\<close>

definition with_log :: "'x det_env \<Rightarrow> ('x \<times> bytes list) det_env" where
  "with_log env = \<lparr>common_fuzz_stuff = (\<lambda>b (x, l). case common_fuzz_stuff env b x of (bail, x) \<Rightarrow> (bail, x, b # l)),
     trace_cksum = (\<lambda>(x, l). trace_cksum env x), maybe_add_auto = (\<lambda>t (x, l). (maybe_add_auto env t x, l)),
     det_timeout = (\<lambda>(x, l). det_timeout env x), skip_eff_map = skip_eff_map env, no_arith = no_arith env,
     det_non_instrumented = det_non_instrumented env\<rparr>"

definition tireless :: "'x det_env \<Rightarrow> bool" where
  "tireless env \<longleftrightarrow> (\<forall>b x. \<not> fst (common_fuzz_stuff env b x)) \<and> (\<forall>x. \<not> det_timeout env x)"

abbreviation executed :: "('x \<times> bytes list) det_state \<Rightarrow> bytes list" where
  "executed s \<equiv> snd (fuzzer s)"

abbreviation effective :: "'x det_env \<Rightarrow> nat \<Rightarrow> bool" where
  "effective env i \<equiv> bitmap_read (skip_eff_map env) i"

text \<open>The test cases of each stage, as pure functions of the buffer.\<close>

definition flip_cases :: "'x det_env \<Rightarrow> nat \<Rightarrow> bytes \<Rightarrow> bytes list" where
  "flip_cases env n buf = map (\<lambda>c. flip_bits n c buf) (filter (\<lambda>c. effective env (c div 8)) [0..<8 * length buf - (n - 1)])"

definition invert_cases :: "'x det_env \<Rightarrow> nat \<Rightarrow> bytes \<Rightarrow> bytes list" where
  "invert_cases env n buf = map (\<lambda>i. invert_bytes n i buf) (filter (effective env) [0..<length buf - (n - 1)])"

definition unit_cases :: "'x det_env \<Rightarrow> nat \<Rightarrow> ('w::len word \<Rightarrow> 'w word list) \<Rightarrow> bytes \<Rightarrow> bytes list" where
  "unit_cases env k vals buf =
     concat (map (\<lambda>i. map (\<lambda>w. wr k i w buf) (vals (rd k i buf))) (filter (effective env) [0..<length buf - (k - 1)]))"

definition arith8_vals :: "u8 \<Rightarrow> u8 list" where
  "arith8_vals orig = filter (\<lambda>w. \<not> could_be_bitflip (ucast (orig XOR w)))
     (concat (map (\<lambda>j. [orig + of_nat j, orig - of_nat j]) [1..<ARITH_MAX + 1]))"

definition guarded :: "bool \<Rightarrow> 'a \<Rightarrow> 'a list" where
  "guarded c w = (if c then [w] else [])"

definition arith16_vals :: "u16 \<Rightarrow> u16 list" where
  "arith16_vals orig = filter (\<lambda>w. \<not> could_be_bitflip (ucast (orig XOR w))) (concat (map (\<lambda>j.
     guarded (0xff < unat (orig AND 0xff) + j) (orig + of_nat j) @ guarded (unat (orig AND 0xff) < j) (orig - of_nat j) @
     guarded (0xff < unat (drop_bit 8 orig) + j) (SWAP16 (SWAP16 orig + of_nat j)) @
     guarded (unat (drop_bit 8 orig) < j) (SWAP16 (SWAP16 orig - of_nat j))) [1..<ARITH_MAX + 1]))"

definition arith32_vals :: "u32 \<Rightarrow> u32 list" where
  "arith32_vals orig = filter (\<lambda>w. \<not> could_be_bitflip (orig XOR w)) (concat (map (\<lambda>j.
     guarded (0xffff < unat (orig AND 0xffff) + j) (orig + of_nat j) @ guarded (unat (orig AND 0xffff) < j) (orig - of_nat j) @
     guarded (0xffff < unat (SWAP32 orig AND 0xffff) + j) (SWAP32 (SWAP32 orig + of_nat j)) @
     guarded (unat (SWAP32 orig AND 0xffff) < j) (SWAP32 (SWAP32 orig - of_nat j))) [1..<ARITH_MAX + 1]))"

definition interest8_vals :: "u8 \<Rightarrow> u8 list" where
  "interest8_vals orig = filter (\<lambda>w. \<not> could_be_bitflip (ucast (orig XOR w)) \<and> \<not> could_be_arith (ucast orig) (ucast w) 1)
     (map of_int interesting_8)"

definition fresh16 :: "u16 \<Rightarrow> bool \<Rightarrow> u16 \<Rightarrow> bool" where
  "fresh16 orig check_le w \<longleftrightarrow> \<not> could_be_bitflip (ucast (orig XOR w)) \<and> \<not> could_be_arith (ucast orig) (ucast w) 2 \<and>
     \<not> could_be_interest (ucast orig) (ucast w) 2 check_le"

definition interest16_vals :: "u16 \<Rightarrow> u16 list" where
  "interest16_vals orig = concat (map (\<lambda>v. let le = of_int v; be = SWAP16 le
     in guarded (fresh16 orig False le) le @ guarded (le \<noteq> be \<and> fresh16 orig True be) be) interesting_16)"

definition fresh32 :: "u32 \<Rightarrow> bool \<Rightarrow> u32 \<Rightarrow> bool" where
  "fresh32 orig check_le w \<longleftrightarrow> \<not> could_be_bitflip (orig XOR w) \<and> \<not> could_be_arith orig w 4 \<and> \<not> could_be_interest orig w 4 check_le"

definition interest32_vals :: "u32 \<Rightarrow> u32 list" where
  "interest32_vals orig = concat (map (\<lambda>v. let le = of_int v; be = SWAP32 le
     in guarded (fresh32 orig False le) le @ guarded (le \<noteq> be \<and> fresh32 orig True be) be) interesting_32)"

definition det_cases :: "'x det_env \<Rightarrow> bytes \<Rightarrow> bytes list" where
  "det_cases env buf =
     buf # flip_cases env 1 buf @ flip_cases env 2 buf @ flip_cases env 4 buf @
     invert_cases env 1 buf @ invert_cases env 2 buf @ invert_cases env 4 buf @
     (if no_arith env then []
      else unit_cases env 1 arith8_vals buf @ unit_cases env 2 arith16_vals buf @ unit_cases env 4 arith32_vals buf) @
     unit_cases env 1 interest8_vals buf @
     (if no_arith env then [] else unit_cases env 2 interest16_vals buf @ unit_cases env 4 interest32_vals buf)"

text \<open>A step that goes on, keeps a property of the buffer and tests exactly the given cases in their order.\<close>

definition tries :: "(bytes \<Rightarrow> bool) \<Rightarrow> bytes list \<Rightarrow> (('x \<times> bytes list) det_state \<Rightarrow> ('x \<times> bytes list) det_result) \<Rightarrow> bool" where
  "tries P C f \<longleftrightarrow> (\<forall>s. P (out_buf s) \<longrightarrow> (\<exists>s'. f s = Inr s' \<and> P (out_buf s') \<and> executed s' = rev C @ executed s))"

lemma triesE:
  assumes "tries P C f" "P (out_buf s)"
  obtains s' where "f s = Inr s'" "P (out_buf s')" "executed s' = rev C @ executed s"
  using assms by (auto simp: tries_def)

lemma triesI: "(\<And>s. P (out_buf s) \<Longrightarrow> \<exists>s'. f s = Inr s' \<and> P (out_buf s') \<and> executed s' = rev C @ executed s) \<Longrightarrow> tries P C f"
  by (simp add: tries_def)

lemma tries_bind:
  assumes "tries P C f" "tries P D g"
  shows "tries P (C @ D) (\<lambda>s. det_bind (f s) g)"
proof (rule triesI)
  fix s :: "('a \<times> bytes list) det_state"
  assume "P (out_buf s)"
  then obtain u where u: "f s = Inr u" "P (out_buf u)" "executed u = rev C @ executed s" by (rule triesE [OF assms(1)])
  obtain v where v: "g u = Inr v" "P (out_buf v)" "executed v = rev D @ executed u" by (rule triesE [OF assms(2) u(2)])
  show "\<exists>s'. det_bind (f s) g = Inr s' \<and> P (out_buf s') \<and> executed s' = rev (C @ D) @ executed s"
    using u v by (auto simp: det_bind_def)
qed

lemma tries_Inr: "tries P [] Inr"
  by (simp add: tries_def)

lemma tries_each: "\<forall>p\<in>set ps. tries P (C p) (f p) \<Longrightarrow> tries P (concat (map C ps)) (det_each f ps)"
proof (induction ps)
  case Nil
  then show ?case by (simp add: tries_def)
next
  case (Cons p ps)
  then have "tries P (C p @ concat (map C ps)) (\<lambda>s. det_bind (f p s) (det_each f ps))" by (intro tries_bind) simp_all
  then show ?case by (simp add: tries_def)
qed

lemma tries_visit:
  assumes "tireless env" "tries P C body"
  shows "tries P (if effective env i then C else []) (det_visit (with_log env) i body)"
  using assms by (auto simp: tries_def det_visit_def with_log_def tireless_def split: prod.splits)

lemma tries_run:
  assumes "tireless env"
  obtains s' where "det_run (with_log env) s = Inr s'" "out_buf s' = out_buf s" "executed s' = out_buf s # executed s"
proof -
  obtain x l where f: "fuzzer s = (x, l)" by fastforce
  obtain y where y: "common_fuzz_stuff env (out_buf s) x = (False, y)"
    using assms by (metis (full_types) prod.collapse tireless_def)
  show thesis by (rule that [of "s\<lparr>fuzzer := (y, out_buf s # l)\<rparr>"]) (auto simp: det_run_def with_log_def f y)
qed

text \<open>Steps may be replaced, and given a state that differs in the checksums only.\<close>

lemma tries_cong:
  assumes "tries P C h" "\<And>s. P (out_buf s) \<Longrightarrow> f s = h (s\<lparr>prev_cksum := c s, first_cksum := d s\<rparr>)"
  shows "tries P C f"
proof (rule triesI)
  fix s :: "('a \<times> bytes list) det_state"
  assume P: "P (out_buf s)"
  then obtain u where "h (s\<lparr>prev_cksum := c s, first_cksum := d s\<rparr>) = Inr u" "P (out_buf u)" "executed u = rev C @ executed s"
    using assms(1) [unfolded tries_def, THEN spec, of "s\<lparr>prev_cksum := c s, first_cksum := d s\<rparr>"] by auto
  then show "\<exists>s'. f s = Inr s' \<and> P (out_buf s') \<and> executed s' = rev C @ executed s" using assms(2) [OF P] by auto
qed

lemma tries_same: "tries P C h \<Longrightarrow> (\<And>s. P (out_buf s) \<Longrightarrow> f s = h s) \<Longrightarrow> tries P C f"
  by (rule tries_cong [where c = prev_cksum and d = first_cksum]) simp_all

lemma tries_clean: "tireless env \<Longrightarrow> tries (\<lambda>b. b = buf) [buf] (det_run (with_log env))"
  by (rule triesI) (erule tries_run; auto)

lemma tries_flip_run:
  assumes "tireless env" "masks f m"
  shows "tries (\<lambda>b. b = buf) [f buf] (flip_run (with_log env) f)"
proof (rule triesI)
  fix s :: "('a \<times> bytes list) det_state"
  assume s: "out_buf s = buf"
  obtain u where "det_run (with_log env) (s\<lparr>out_buf := f buf\<rparr>) = Inr u" "out_buf u = f buf" "executed u = f buf # executed s"
    by (rule tries_run [OF assms(1), of "s\<lparr>out_buf := f buf\<rparr>"]) simp
  then show "\<exists>s'. flip_run (with_log env) f s = Inr s' \<and> out_buf s' = buf \<and> executed s' = rev [f buf] @ executed s"
    by (simp add: flip_run_def s det_bind_def masks_twice [OF assms(2)])
qed

lemma collect_token_log [simp]: "executed (collect_token (with_log env) c s) = executed s"
  by (simp add: collect_token_def collect_byte_def offer_token_def Let_def with_log_def split: prod.split)

text \<open>A stage tests the cases of the units it visits.\<close>

lemma tries_steps:
  assumes "tireless env" "\<And>i. i \<in> set us \<Longrightarrow> tries (\<lambda>b. b = buf) (C i) (body i)"
  shows "tries (\<lambda>b. b = buf) (concat (map C (filter (\<lambda>i. effective env (g i)) us)))
    (det_each (\<lambda>i. det_visit (with_log env) (g i) (body i)) us)"
proof -
  have "tries (\<lambda>b. b = buf) (concat (map (\<lambda>i. if effective env (g i) then C i else []) us))
      (det_each (\<lambda>i. det_visit (with_log env) (g i) (body i)) us)"
    by (intro tries_each ballI tries_visit assms)
  moreover have "concat (map (\<lambda>i. if effective env (g i) then C i else []) us) = concat (map C (filter (\<lambda>i. effective env (g i)) us))"
    by (induction us) simp_all
  ultimately show ?thesis by simp
qed

lemma concat_singles: "concat (map (\<lambda>i. [f i]) xs) = map f xs"
  by (induction xs) simp_all

lemma flip_bits_one: "flip_bits 1 c buf = FLIP_BIT c buf"
  by (simp add: flip_bits_def)

lemma tries_flip1:
  assumes "tireless env"
  shows "tries (\<lambda>b. b = buf) (buf # flip_cases env 1 buf) (flip1_stage (with_log env))"
proof -
  let ?body = "\<lambda>c s. det_bind (flip_run (with_log env) (FLIP_BIT c) s) (\<lambda>s. Inr (collect_token (with_log env) c s))"
  let ?h = "det_each (\<lambda>c. det_visit (with_log env) (c div 8) (?body c)) [0..<8 * length buf]"
  have "tries (\<lambda>b. b = buf) ([FLIP_BIT c buf] @ []) (?body c)" for c
    by (rule tries_bind [OF tries_flip_run [OF assms masks_FLIP_BIT]]) (simp add: tries_def)
  then have "tries (\<lambda>b. b = buf) [FLIP_BIT c buf] (?body c)" for c by simp
  from tries_steps [OF assms this, where us = "[0..<8 * length buf]" and g = "\<lambda>c. c div 8"]
  have "tries (\<lambda>b. b = buf) (flip_cases env 1 buf) ?h"
    by (simp only: flip_cases_def flip_bits_one concat_singles) simp
  then have "tries (\<lambda>b. b = buf) (flip_cases env 1 buf)
      (\<lambda>s. det_each (\<lambda>c. det_visit (with_log env) (c div 8) (?body c)) [0..<8 * length (out_buf s)]
        (s\<lparr>prev_cksum := trace_cksum (with_log env) (fuzzer s), first_cksum := trace_cksum (with_log env) (fuzzer s)\<rparr>))"
    by (rule tries_cong) (simp only:)
  from tries_bind [OF tries_clean [OF assms] this] show ?thesis
    unfolding flip1_stage_def [abs_def] Let_def by simp
qed

lemma tries_flip_stage:
  assumes "tireless env"
  shows "tries (\<lambda>b. b = buf) (flip_cases env n buf) (flip_stage (with_log env) n)"
  unfolding flip_cases_def
  by (rule tries_same [OF tries_steps [OF assms tries_flip_run [OF assms masks_flip_bits], unfolded concat_singles]])
    (simp only: flip_stage_def)

lemma tries_invert_stage:
  assumes "tireless env"
  shows "tries (\<lambda>b. b = buf) (invert_cases env n buf) (invert_stage (with_log env) n)"
  unfolding invert_cases_def
  by (rule tries_same [OF tries_steps [OF assms tries_flip_run [OF assms masks_invert], unfolded concat_singles]])
    (simp only: invert_stage_def)

text \<open>A stage for longer units does nothing on a buffer that is too short for one.\<close>

lemma tries_long:
  assumes "tries (\<lambda>b. b = buf) C f" "length buf < k \<Longrightarrow> C = []"
  shows "tries (\<lambda>b. b = buf) C (\<lambda>s. if length (out_buf s) < k then Inr s else f s)"
proof (cases "length buf < k")
  case True
  then show ?thesis using assms(2) by (simp add: tries_def)
qed (rule tries_same [OF assms(1)], simp)

lemma tries_bitflips:
  assumes t: "tireless env"
  shows "tries (\<lambda>b. b = buf) ((buf # flip_cases env 1 buf) @ flip_cases env 2 buf @ flip_cases env 4 buf @
    invert_cases env 1 buf @ invert_cases env 2 buf @ invert_cases env 4 buf) (bitflip_stages (with_log env))"
proof -
  have "tries (\<lambda>b. b = buf) (invert_cases env 1 buf) (\<lambda>s. invert_stage (with_log env) 1 (s\<lparr>prev_cksum := first_cksum s\<rparr>))"
    by (rule tries_cong [OF tries_invert_stage [OF t], where d = first_cksum]) simp
  then show ?thesis
    unfolding bitflip_stages_def [abs_def]
    by (intro tries_bind tries_flip1 tries_flip_stage tries_long tries_invert_stage t) (auto simp: invert_cases_def)
qed

text \<open>Writes to a unit, from any buffer that differs from the original there only.\<close>

lemma dirty_wr: "i + k \<le> length buf \<Longrightarrow> dirty k i buf b \<Longrightarrow> wr k i w b = wr k i w buf"
  by (simp add: dirty_def wr_def)

lemma tries_put_run:
  assumes "tireless env" "i + k \<le> length buf"
  shows "tries (dirty k i buf) (guarded cond (wr k i w buf)) (put_run (with_log env) k i cond w)"
proof (rule triesI)
  fix s :: "('a \<times> bytes list) det_state"
  assume d: "dirty k i buf (out_buf s)"
  obtain u where u: "det_run (with_log env) (s\<lparr>out_buf := wr k i w buf\<rparr>) = Inr u" "out_buf u = wr k i w buf"
      "executed u = wr k i w buf # executed s"
    by (rule tries_run [OF assms(1), of "s\<lparr>out_buf := wr k i w buf\<rparr>"]) simp
  show "\<exists>s'. put_run (with_log env) k i cond w s = Inr s' \<and> dirty k i buf (out_buf s') \<and>
      executed s' = rev (guarded cond (wr k i w buf)) @ executed s"
    using u d wr_dirty [OF assms(2) d, of w] by (simp add: put_run_def guarded_def dirty_wr [OF assms(2) d])
qed

lemma tries_unit:
  assumes "i + k \<le> length buf" "LENGTH('w::len) = 8 * k" "tries (dirty k i buf) C f"
  shows "tries (\<lambda>b. b = buf) C (\<lambda>s. det_bind (f s) (put_back k i (rd k i buf :: 'w word)))"
proof (rule triesI)
  fix s :: "('a \<times> bytes list) det_state"
  assume "out_buf s = buf"
  then have "dirty k i buf (out_buf s)" by (simp add: dirty_self)
  then obtain u where "f s = Inr u" "dirty k i buf (out_buf u)" "executed u = rev C @ executed s" by (rule triesE [OF assms(3)])
  then show "\<exists>s'. det_bind (f s) (put_back k i (rd k i buf :: 'w word)) = Inr s' \<and> out_buf s' = buf \<and> executed s' = rev C @ executed s"
    using wr_clean [OF assms(1) _ assms(2), of "out_buf u"] by (simp add: det_bind_def put_back_def)
qed

lemma guarded_simps [simp]:
  "map f (guarded c w) = guarded c (f w)" "filter Q (guarded c w) = guarded (c \<and> Q w) w"
  by (simp_all add: guarded_def)

text \<open>The body of a stage at one unit: the cases it tests are those of its values.\<close>

lemma tries_two:
  assumes "tireless env" "i + k \<le> length buf" "LENGTH('w::len) = 8 * k"
  shows "tries (\<lambda>b. b = buf) (guarded c1 (wr k i w1 buf) @ guarded c2 (wr k i w2 buf))
    (\<lambda>s. det_bind (put_run (with_log env) k i c1 (w1 :: 'w word) s) (\<lambda>s. det_bind (put_run (with_log env) k i c2 (w2 :: 'w word) s)
      (put_back k i (rd k i buf :: 'w word))))"
proof -
  have "tries (dirty k i buf) (guarded c1 (wr k i w1 buf) @ guarded c2 (wr k i w2 buf))
      (\<lambda>s. det_bind (put_run (with_log env) k i c1 w1 s) (put_run (with_log env) k i c2 w2))"
    by (intro tries_bind tries_put_run assms(1,2))
  from tries_unit [OF assms(2,3) this] show ?thesis by (simp add: det_bind_assoc)
qed

lemma tries_four:
  assumes "tireless env" "i + k \<le> length buf" "LENGTH('w::len) = 8 * k"
  shows "tries (\<lambda>b. b = buf) (guarded c1 (wr k i w1 buf) @ guarded c2 (wr k i w2 buf) @ guarded c3 (wr k i w3 buf) @ guarded c4 (wr k i w4 buf))
    (\<lambda>s. det_bind (put_run (with_log env) k i c1 (w1 :: 'w word) s) (\<lambda>s. det_bind (put_run (with_log env) k i c2 (w2 :: 'w word) s) (\<lambda>s.
      det_bind (put_run (with_log env) k i c3 (w3 :: 'w word) s) (\<lambda>s. det_bind (put_run (with_log env) k i c4 (w4 :: 'w word) s)
      (put_back k i (rd k i buf :: 'w word))))))"
proof -
  have "tries (dirty k i buf) (((guarded c1 (wr k i w1 buf) @ guarded c2 (wr k i w2 buf)) @ guarded c3 (wr k i w3 buf)) @ guarded c4 (wr k i w4 buf))
      (\<lambda>s. det_bind (det_bind (det_bind (put_run (with_log env) k i c1 w1 s) (put_run (with_log env) k i c2 w2))
        (put_run (with_log env) k i c3 w3)) (put_run (with_log env) k i c4 w4))"
    by (intro tries_bind tries_put_run assms(1,2))
  from tries_unit [OF assms(2,3) this] show ?thesis by (simp add: det_bind_assoc)
qed

lemma tries_arith8:
  assumes "tireless env" "i + 1 \<le> length buf"
  shows "tries (\<lambda>b. b = buf) (map (\<lambda>w. wr 1 i w buf) (arith8_vals (rd 1 i buf))) (arith8_at (with_log env) i)"
proof -
  define orig :: u8 where "orig = rd 1 i buf"
  have "map (\<lambda>w. wr 1 i w buf) (arith8_vals orig) = concat (map (\<lambda>j.
      guarded (\<not> could_be_bitflip (ucast (orig XOR (orig + of_nat j)))) (wr 1 i (orig + of_nat j) buf) @
      guarded (\<not> could_be_bitflip (ucast (orig XOR (orig - of_nat j)))) (wr 1 i (orig - of_nat j) buf)) [1..<ARITH_MAX + 1])"
    unfolding arith8_vals_def filter_concat map_concat map_map comp_def
    by (intro arg_cong [where f = concat] map_cong refl) (simp add: guarded_def)
  then show ?thesis
    unfolding orig_def [symmetric]
    by (simp only:) (rule tries_same [OF tries_each],
        rule ballI, rule tries_two [OF assms, where 'w = 8, folded orig_def], simp, simp only: arith8_at_def Let_def orig_def)
qed

lemma map_filter_guarded: "map f (filter Q (map g vs)) = concat (map (\<lambda>v. guarded (Q (g v)) (f (g v))) vs)"
  by (induction vs) (simp_all add: guarded_def)

lemma map_filter_each: "map f (filter Q (concat (map g js))) = concat (map (\<lambda>j. map f (filter Q (g j))) js)"
  by (simp add: filter_concat map_concat comp_def)

lemma tries_arith16:
  assumes "tireless env" "i + 2 \<le> length buf"
  shows "tries (\<lambda>b. b = buf) (map (\<lambda>w. wr 2 i w buf) (arith16_vals (rd 2 i buf))) (arith16_at (with_log env) i)"
proof -
  define orig :: u16 where "orig = rd 2 i buf"
  show ?thesis
    unfolding orig_def [symmetric] arith16_vals_def map_filter_each filter_append map_append guarded_simps
    by (rule tries_same [OF tries_each], rule ballI, rule tries_four [OF assms, where 'w = 16, folded orig_def], simp,
        simp only: arith16_at_def Let_def orig_def)
qed

lemma tries_arith32:
  assumes "tireless env" "i + 4 \<le> length buf"
  shows "tries (\<lambda>b. b = buf) (map (\<lambda>w. wr 4 i w buf) (arith32_vals (rd 4 i buf))) (arith32_at (with_log env) i)"
proof -
  define orig :: u32 where "orig = rd 4 i buf"
  show ?thesis
    unfolding orig_def [symmetric] arith32_vals_def map_filter_each filter_append map_append guarded_simps
    by (rule tries_same [OF tries_each], rule ballI, rule tries_four [OF assms, where 'w = 32, folded orig_def], simp,
        simp only: arith32_at_def Let_def orig_def)
qed

lemma tries_interest8:
  assumes "tireless env" "i + 1 \<le> length buf"
  shows "tries (\<lambda>b. b = buf) (map (\<lambda>w. wr 1 i w buf) (interest8_vals (rd 1 i buf))) (interest8_at (with_log env) i)"
proof -
  define orig :: u8 where "orig = rd 1 i buf"
  let ?skip = "\<lambda>v. could_be_bitflip (ucast (orig XOR of_int v)) \<or> could_be_arith (ucast orig) (ucast (of_int v :: u8)) 1"
  have put: "tries (\<lambda>b. b = buf) (guarded True (wr 1 i w buf)) (\<lambda>s. det_bind (put_run (with_log env) 1 i True w s) (put_back 1 i orig))" for w :: u8
    unfolding orig_def by (rule tries_unit [OF assms(2) _ tries_put_run [OF assms]]) simp
  have step: "tries (\<lambda>b. b = buf) (guarded (\<not> ?skip v) (wr 1 i (of_int v :: u8) buf))
      (\<lambda>s. if ?skip v then Inr s else det_bind (put_run (with_log env) 1 i True (of_int v :: u8) s) (put_back 1 i orig))" for v
    by (cases "?skip v") (use put [of "of_int v"] tries_Inr [of "\<lambda>b. b = buf"] in \<open>auto simp: guarded_def eta_contract_eq\<close>)
  have eq: "map (\<lambda>w. wr 1 i w buf) (interest8_vals orig) = concat (map (\<lambda>v. guarded (\<not> ?skip v) (wr 1 i (of_int v :: u8) buf)) interesting_8)"
    unfolding interest8_vals_def by (simp add: map_filter_guarded)
  show ?thesis unfolding orig_def [symmetric] eq
    by (rule tries_same [OF tries_each], rule ballI, rule step) (simp only: interest8_at_def Let_def orig_def)
qed

lemma tries_interest16:
  assumes "tireless env" "i + 2 \<le> length buf"
  shows "tries (\<lambda>b. b = buf) (map (\<lambda>w. wr 2 i w buf) (interest16_vals (rd 2 i buf))) (interest16_at (with_log env) i)"
proof -
  define orig :: u16 where "orig = rd 2 i buf"
  let ?step = "\<lambda>v s. det_bind (put_run (with_log env) 2 i (fresh16 orig False (of_int v)) (of_int v :: u16) s)
    (put_run (with_log env) 2 i (of_int v \<noteq> SWAP16 (of_int v) \<and> fresh16 orig True (SWAP16 (of_int v))) (SWAP16 (of_int v)))"
  have "tries (dirty 2 i buf) (concat (map (\<lambda>v. guarded (fresh16 orig False (of_int v)) (wr 2 i (of_int v :: u16) buf) @
      guarded (of_int v \<noteq> SWAP16 (of_int v) \<and> fresh16 orig True (SWAP16 (of_int v))) (wr 2 i (SWAP16 (of_int v)) buf)) interesting_16))
    (det_each ?step interesting_16)"
    by (intro tries_each ballI tries_bind tries_put_run assms)
  from tries_unit [OF assms(2) _ this, where 'w = 16]
  show ?thesis
    unfolding orig_def [symmetric] interest16_vals_def map_concat map_map comp_def Let_def map_append guarded_simps
    by (rule tries_same) (simp_all only: interest16_at_def Let_def orig_def fresh16_def, simp)
qed

lemma tries_interest32:
  assumes "tireless env" "i + 4 \<le> length buf"
  shows "tries (\<lambda>b. b = buf) (map (\<lambda>w. wr 4 i w buf) (interest32_vals (rd 4 i buf))) (interest32_at (with_log env) i)"
proof -
  define orig :: u32 where "orig = rd 4 i buf"
  let ?step = "\<lambda>v s. det_bind (put_run (with_log env) 4 i (fresh32 orig False (of_int v)) (of_int v :: u32) s)
    (put_run (with_log env) 4 i (of_int v \<noteq> SWAP32 (of_int v) \<and> fresh32 orig True (SWAP32 (of_int v))) (SWAP32 (of_int v)))"
  have "tries (dirty 4 i buf) (concat (map (\<lambda>v. guarded (fresh32 orig False (of_int v)) (wr 4 i (of_int v :: u32) buf) @
      guarded (of_int v \<noteq> SWAP32 (of_int v) \<and> fresh32 orig True (SWAP32 (of_int v))) (wr 4 i (SWAP32 (of_int v)) buf)) interesting_32))
    (det_each ?step interesting_32)"
    by (intro tries_each ballI tries_bind tries_put_run assms)
  from tries_unit [OF assms(2) _ this, where 'w = 32]
  show ?thesis
    unfolding orig_def [symmetric] interest32_vals_def map_concat map_map comp_def Let_def map_append guarded_simps
    by (rule tries_same) (simp_all only: interest32_at_def Let_def orig_def fresh32_def, simp)
qed

lemma tries_unit_stage:
  assumes "tireless env" "0 < k"
    "\<And>i. i + k \<le> length buf \<Longrightarrow> tries (\<lambda>b. b = buf) (map (\<lambda>w. wr k i w buf) (vals (rd k i buf))) (body (with_log env) i)"
  shows "tries (\<lambda>b. b = buf) (unit_cases env k vals buf) (unit_stage (with_log env) k body)"
  unfolding unit_cases_def
proof (rule tries_same [OF tries_steps [OF assms(1)]])
  show "tries (\<lambda>b. b = buf) (map (\<lambda>w. wr k i w buf) (vals (rd k i buf))) (body (with_log env) i)"
    if "i \<in> set [0..<length buf - (k - 1)]" for i
    using that assms(2) by (intro assms(3)) auto
qed (simp only: unit_stage_def)

lemma unit_cases_short: "length buf < k \<Longrightarrow> 0 < k \<Longrightarrow> unit_cases env k vals buf = []"
  by (simp add: unit_cases_def)

lemma with_log_flags [simp]: "no_arith (with_log env) = no_arith env"
  by (simp add: with_log_def)

lemma tries_arith:
  assumes "tireless env"
  shows "tries (\<lambda>b. b = buf) (if no_arith env then [] else unit_cases env 1 arith8_vals buf @
    unit_cases env 2 arith16_vals buf @ unit_cases env 4 arith32_vals buf) (arith_stages (with_log env))"
proof -
  have "tries (\<lambda>b. b = buf) (unit_cases env 1 arith8_vals buf @ unit_cases env 2 arith16_vals buf @ unit_cases env 4 arith32_vals buf)
     (\<lambda>s. det_bind (unit_stage (with_log env) 1 arith8_at s) (\<lambda>s.
        if length (out_buf s) < 2 then Inr s
        else det_bind (unit_stage (with_log env) 2 arith16_at s) (\<lambda>s.
          if length (out_buf s) < 4 then Inr s else unit_stage (with_log env) 4 arith32_at s)))"
    by (intro tries_bind tries_long tries_unit_stage tries_arith8 tries_arith16 tries_arith32 assms) (simp_all add: unit_cases_short)
  then show ?thesis unfolding arith_stages_def [abs_def] by (simp add: tries_Inr)
qed

lemma tries_interest:
  assumes "tireless env"
  shows "tries (\<lambda>b. b = buf) (unit_cases env 1 interest8_vals buf @ (if no_arith env then [] else
    unit_cases env 2 interest16_vals buf @ unit_cases env 4 interest32_vals buf)) (interest_stages (with_log env))"
proof -
  have "tries (\<lambda>b. b = buf) (unit_cases env 2 interest16_vals buf @ unit_cases env 4 interest32_vals buf)
     (\<lambda>s. if length (out_buf s) < 2 then Inr s
        else det_bind (unit_stage (with_log env) 2 interest16_at s) (\<lambda>s.
          if length (out_buf s) < 4 then Inr s else unit_stage (with_log env) 4 interest32_at s))"
    by (intro tries_bind tries_long tries_unit_stage tries_interest16 tries_interest32 assms) (simp_all add: unit_cases_short)
  then have "tries (\<lambda>b. b = buf) (if no_arith env then [] else unit_cases env 2 interest16_vals buf @ unit_cases env 4 interest32_vals buf)
     (\<lambda>s. if no_arith (with_log env) \<or> length (out_buf s) < 2 then Inr s
        else det_bind (unit_stage (with_log env) 2 interest16_at s) (\<lambda>s.
          if length (out_buf s) < 4 then Inr s else unit_stage (with_log env) 4 interest32_at s))"
    by (simp add: tries_Inr)
  then show ?thesis unfolding interest_stages_def [abs_def]
    by (intro tries_bind tries_unit_stage tries_interest8 assms) simp_all
qed

lemma tries_det:
  assumes "tireless env"
  shows "tries (\<lambda>b. b = buf) (det_cases env buf) (det_stages (with_log env))"
  using tries_bind [OF tries_bitflips [OF assms] tries_bind [OF tries_arith [OF assms] tries_interest [OF assms]], of buf]
  unfolding det_stages_def [abs_def] det_cases_def by simp

section \<open>Properties\<close>

definition intact :: "bytes \<Rightarrow> 'x det_result \<Rightarrow> bool" where
  "intact buf r = (case r of Inl (e, s) \<Rightarrow> (e = Custom_Mutator_Stage \<longrightarrow> out_buf s = buf)
     | Inr s \<Rightarrow> out_buf s = buf)"

text \<open>
  Whatever the target does and whenever time runs out, the deterministic stages (\<^verbatim>\<open>fuzz_one_original\<close>) hand
  \<^verbatim>\<open>out_buf\<close> to the next stage exactly as they received it: every flip, addition and overwritten unit has been undone. Only an entry that is
  abandoned leaves a changed buffer behind.
\<close>
lemma det_stages_restore: "intact (out_buf s) (det_stages env s)"
  using keepsD [OF keeps_det [of "out_buf s" env], of s] by (simp add: intact_def ends_in_def)

text \<open>
  Property C0. A run of the deterministic stages that is never interrupted executes exactly the test cases of a pure
  enumeration of the original buffer, each once and in that order: the clean run, the flips, the inversions, then for every effective
  offset the values of the arithmetic and of the interesting-value stages. In-place changes and restoring writes never mix two mutations.
\<close>
theorem det_stages_enumerate:
  assumes "tireless env"
  shows "\<exists>s'. det_stages (with_log env) s = Inr s' \<and> out_buf s' = out_buf s \<and>
    executed s' = rev (det_cases env (out_buf s)) @ executed s"
  using tries_det [OF assms, of "out_buf s"] by (simp add: tries_def)

definition idle_env :: "bytes \<Rightarrow> unit det_env" where
  "idle_env eff = \<lparr>common_fuzz_stuff = (\<lambda>b x. (False, x)), trace_cksum = (\<lambda>x. 0), maybe_add_auto = (\<lambda>t x. x),
     det_timeout = (\<lambda>x. False), skip_eff_map = eff, no_arith = False, det_non_instrumented = False\<rparr>"

lemma tireless_idle: "tireless (idle_env eff)"
  by (simp add: tireless_def idle_env_def)

definition idle_start :: "bytes \<Rightarrow> (unit \<times> bytes list) det_state" where
  "idle_start buf = \<lparr>out_buf = buf, fuzzer = ((), []), a_collect = replicate 32 0, a_len = 0, prev_cksum = 0, first_cksum = 0\<rparr>"

lemma idle_cases: "det_cases (idle_env [0]) [0x41] = [[0x41]]"
  by code_simp

theorem det_stages_enumerate_witness:
  "\<exists>s'. det_stages (with_log (idle_env [0])) (idle_start [0x41]) = Inr s' \<and> out_buf s' = [0x41] \<and> executed s' = [[0x41]]"
  using det_stages_enumerate [OF tireless_idle, of "[0]" "idle_start [0x41]"] idle_cases by (simp add: idle_start_def)

end
