(* ===== verification/Det_Values.thy ===== *)
theory Det_Values
  imports Det_Props
begin

text \<open>
  Which values the deterministic stages test at a byte and at a pair of bytes: skipping what earlier stages are taken to have tried loses no value
  of a single byte, but loses values of two bytes.
\<close>

section \<open>No value of a byte is lost\<close>

text \<open>The masks of one, two and four bits inside a byte, and what the flips test at a byte.\<close>

definition byte_mask :: "nat \<Rightarrow> nat \<Rightarrow> u8" where
  "byte_mask n c = fold (\<lambda>k x. x XOR drop_bit (c + k) 128) [0..<n] 0"

lemma flip_bits_byte:
  assumes "c + n \<le> 8" "i < length buf"
  shows "flip_bits n (8 * i + c) buf = buf[i := buf ! i XOR byte_mask n c]"
proof (rule nth_equalityI)
  show "length (flip_bits n (8 * i + c) buf) = length (buf[i := buf ! i XOR byte_mask n c])"
    using masks_flip_bits [of n] by (simp add: masks_def)
  fix j assume "j < length (flip_bits n (8 * i + c) buf)"
  then have j: "j < length buf" using masks_flip_bits [of n] by (simp add: masks_def)
  have "fold (\<lambda>k x. x XOR (if j = (8 * i + c + k) div 8 then drop_bit ((8 * i + c + k) mod 8) 128 else 0)) [0..<n] (0 :: u8) =
      fold (\<lambda>k x. x XOR (if j = i then drop_bit (c + k) 128 else 0)) [0..<n] 0"
    using assms(1) by (intro fold_cong refl) (auto simp: add.assoc)
  also have "\<dots> = (if j = i then byte_mask n c else 0)"
    by (simp add: byte_mask_def) (induction n; simp)
  finally show "flip_bits n (8 * i + c) buf ! j = (buf[i := buf ! i XOR byte_mask n c]) ! j"
    using masks_flip_bits [of n "8 * i + c"] j assms(2) by (simp add: masks_def nth_list_update)
qed

lemma bitflip_byte:
  assumes "could_be_bitflip (ucast r)"
  obtains "r = 0" | n c where "n \<in> {1, 2, 4}" "c + n \<le> 8" "r = byte_mask n c" | "r = 0xFF"
proof -
  have "list_all (\<lambda>k. could_be_bitflip (ucast (of_nat k :: u8)) \<longrightarrow> k = 0 \<or> k = 0xFF \<or>
      (\<exists>n\<in>set [1, 2, 4]. list_ex (\<lambda>c. of_nat k = byte_mask n c) [0..<9 - n])) [0..<256]"
    by code_simp
  then have "\<forall>k<256. could_be_bitflip (ucast (of_nat k :: u8)) \<longrightarrow> k = 0 \<or> k = 0xFF \<or>
      (\<exists>n\<in>{1, 2, 4}. \<exists>c<9 - n. of_nat k = byte_mask n c)"
    by (simp add: list_all_iff list_ex_iff Bex_def) 
  moreover obtain k where k: "r = of_nat k" "k < 256" by (cases r rule: word_nat_cases) simp
  ultimately have "k = 0 \<or> k = 0xFF \<or> (\<exists>n\<in>{1, 2, 4}. \<exists>c<9 - n. r = byte_mask n c)"
    using assms unfolding k(1) by blast
  then have "r = 0 \<or> r = 0xFF \<or> (\<exists>n\<in>{1, 2, 4}. \<exists>c<9 - n. r = byte_mask n c)" using k(1) by auto
  then consider "r = 0" | "r = 0xFF" | n c where "n \<in> {1, 2, 4}" "c < 9 - n" "r = byte_mask n c" by blast
  then show thesis
  proof cases
    case (3 n c)
    then show ?thesis by (intro that(2) [of n c]) auto
  qed (use that in auto)
qed

lemma wr_byte: "i < length buf \<Longrightarrow> wr 1 i (w :: u8) buf = buf[i := w]"
  by (simp add: wr_def le_bytes_def upd_conv_take_nth_drop)

lemma rd_byte: "i < length buf \<Longrightarrow> (rd 1 i buf :: u8) = buf ! i"
  by (simp add: rd_def le_word_def take_Suc_conv_app_nth hd_drop_conv_nth take_Suc)

text \<open>Every change of a byte that the helper takes for a bit flip is tested by the flip stages.\<close>

lemma mask_tested:
  assumes i: "i < length buf" "effective env i" and r: "could_be_bitflip (ucast r)"
  shows "buf[i := buf ! i XOR r] \<in> set (det_cases env buf)"
proof -
  have bits: "buf[i := buf ! i XOR byte_mask n c] \<in> set (flip_cases env n buf)" if "c + n \<le> 8" "0 < n" for n c
    using that i flip_bits_byte [OF that(1) i(1), symmetric] by (simp add: flip_cases_def)
  have inv: "buf[i := buf ! i XOR 0xFF] \<in> set (invert_cases env 1 buf)"
    using i by (auto simp: invert_cases_def invert_bytes_def)
  from r show ?thesis
  proof (cases rule: bitflip_byte)
    case (2 n c)
    then show ?thesis using bits [of c n] by (auto simp: det_cases_def)
  qed (use inv in \<open>auto simp: det_cases_def\<close>)
qed

lemma bitflip_tested:
  assumes "i < length buf" "effective env i" "could_be_bitflip (ucast (buf ! i XOR w))"
  shows "buf[i := w] \<in> set (det_cases env buf)"
  using mask_tested [OF assms] by (simp add: xor.assoc [symmetric])

lemma unit_tested:
  assumes "i < length buf" "effective env i" "w \<in> set (vals (buf ! i))"
  shows "buf[i := w] \<in> set (unit_cases env 1 vals buf)"
  using assms by (auto simp: unit_cases_def rd_byte [simplified] wr_byte [simplified] intro!: bexI [of _ i] image_eqI [of _ _ w])

lemma arith_tested:
  assumes "i < length buf" "effective env i" "\<not> no_arith env" "j \<le> ARITH_MAX" "w = buf ! i + of_nat j \<or> w = buf ! i - of_nat j"
  shows "buf[i := w] \<in> set (det_cases env buf)"
proof (cases "could_be_bitflip (ucast (buf ! i XOR w))")
  case True
  then show ?thesis by (rule bitflip_tested [OF assms(1,2)])
next
  case False
  have "j \<noteq> 0" by (rule notI) (use False assms(5) in \<open>auto simp: could_be_bitflip_def\<close>)
  then have "w \<in> set (arith8_vals (buf ! i))" using False assms(4,5) by (auto simp: arith8_vals_def)
  then show ?thesis using unit_tested [OF assms(1,2), of w arith8_vals] assms(3) by (simp add: det_cases_def)
qed

lemma widen_byte [simp]:
  "(ucast (a :: u8) = (ucast (b :: u8) :: u32)) \<longleftrightarrow> a = b" "take_bit 8 (ucast (a :: u8) :: u32) = ucast a"
  by (transfer; simp)+

lemma unat_widen: "unat (ucast (a :: u8) :: u32) = unat a"
  by transfer simp

lemma near_byte:
  fixes a b :: u8
  assumes "near 8 (ucast a) (ucast b)"
  obtains j where "j \<le> ARITH_MAX" "b = a + of_nat j \<or> b = a - of_nat j"
proof -
  have "take_bit 8 (ucast x - ucast y :: u32) = ucast (x - y)" for x y :: u8
    by transfer (simp add: take_bit_diff)
  then have eq: "unat (take_bit 8 (ucast x - ucast y :: u32)) = unat (x - y)" for x y :: u8
    by (simp add: unat_widen)
  from assms consider "unat (a - b) \<le> ARITH_MAX" | "unat (b - a) \<le> ARITH_MAX" by (auto simp: near_def eq)
  then show thesis
    by cases (rule that [of "unat (a - b)"], simp, simp, rule that [of "unat (b - a)"], simp, simp)
qed

lemma arith_byte:
  fixes a b :: u8
  assumes "could_be_arith (ucast a) (ucast b) 1"
  obtains j where "j \<le> ARITH_MAX" "b = a + of_nat j \<or> b = a - of_nat j"
proof (cases "a = b")
  case True
  then show ?thesis using that [of 0] by simp
next
  case False
  then have "near 8 (ucast a) (ucast b)" using assms
    by (auto simp: could_be_arith_def diff_units_def Let_def split: if_splits)
  then show ?thesis by (rule near_byte) (rule that)
qed

lemma interest_tested:
  assumes "i < length buf" "effective env i" "\<not> no_arith env" "v \<in> set interesting_8"
  shows "buf[i := of_int v] \<in> set (det_cases env buf)"
proof (cases "could_be_bitflip (ucast (buf ! i XOR of_int v)) \<or> could_be_arith (ucast (buf ! i)) (ucast (of_int v :: u8)) 1")
  case True
  then show ?thesis using bitflip_tested [OF assms(1,2)] arith_tested [OF assms(1-3)] by (blast elim: arith_byte)
next
  case False
  then have "of_int v \<in> set (interest8_vals (buf ! i))" using assms(4) by (simp add: interest8_vals_def)
  then show ?thesis using unit_tested [OF assms(1,2), of "of_int v" interest8_vals] by (simp add: det_cases_def)
qed

section \<open>Values that are lost\<close>

text \<open>
  On a buffer of two bytes, the exclusive or of the two little-endian values decides what the later stages skip as a
  bit flip; the flips themselves number the bits of a byte from the highest, so they cross a byte boundary differently.
\<close>

abbreviation change16 :: "bytes \<Rightarrow> bytes \<Rightarrow> u16" where
  "change16 buf x \<equiv> rd 2 0 buf XOR rd 2 0 x"

definition mixed :: "bytes \<Rightarrow> bytes \<Rightarrow> bool" where
  "mixed buf x \<longleftrightarrow> could_be_bitflip (ucast (change16 buf x)) \<and> x ! 0 \<noteq> buf ! 0 \<and> x ! 1 \<noteq> buf ! 1 \<and> change16 buf x \<noteq> 0xFFFF"

lemma two_bytes: "length buf = 2 \<longleftrightarrow> (\<exists>a b. buf = [a, b])"
  by (auto simp: numeral_2_eq_2 length_Suc_conv)

lemma masks_pair:
  assumes "masks f m"
  shows "f [a, b] = [a XOR m 0, b XOR m 1]"
  using assms [unfolded masks_def, THEN spec, of "[a, b]"] by (intro nth_equalityI) (auto simp: less_Suc_eq)

lemma change16_pair: "change16 [a, b] [a XOR c, b XOR d] = le_word [c, d]"
  by (rule bit_word_eqI) (auto simp: rd_def bit_le_word bit_xor_iff nth_Cons' less_2_cases_iff)

lemma xor_same: "a XOR b = a \<longleftrightarrow> b = 0" for a b :: u8
proof
  assume "a XOR b = a"
  then have "a XOR (a XOR b) = a XOR a" by simp
  then show "b = 0" by (simp add: xor.assoc [symmetric])
qed simp

lemma mixed_masks: "masks f m \<Longrightarrow> mixed [a, b] (f [a, b]) \<longleftrightarrow> mixed [0, 0] (f [0, 0])"
  using change16_pair [of 0 0] by (simp add: mixed_def masks_pair change16_pair xor_same)

lemma mixed_flips: "list_all (\<lambda>n. list_all (\<lambda>c. \<not> mixed [0, 0] (flip_bits n c [0, 0])) [0..<16 - (n - 1)]) [1, 2, 4]"
  by code_simp

lemma mixed_inverts: "list_all (\<lambda>n. list_all (\<lambda>c. \<not> mixed [0, 0] (invert_bytes n c [0, 0])) [0..<2 - (n - 1)]) [1, 2, 4]"
  by code_simp

lemma unmixed_flip:
  assumes "x \<in> set (flip_cases env n [a, b])" "n \<in> set [1, 2, 4]"
  shows "\<not> mixed [a, b] x"
proof -
  obtain c where c: "x = flip_bits n c [a, b]" "c < 16 - (n - 1)" using assms(1) by (auto simp: flip_cases_def)
  then have "\<not> mixed [0, 0] (flip_bits n c [0, 0])" using mixed_flips assms(2) by (auto simp: list_all_iff)
  then show ?thesis using mixed_masks [OF masks_flip_bits, of a b n c] by (simp add: c(1))
qed

lemma unmixed_invert:
  assumes "x \<in> set (invert_cases env n [a, b])" "n \<in> set [1, 2, 4]"
  shows "\<not> mixed [a, b] x"
proof -
  obtain c where c: "x = invert_bytes n c [a, b]" "c < 2 - (n - 1)" using assms(1) by (auto simp: invert_cases_def simp del: upt.simps)
  then have "\<not> mixed [0, 0] (invert_bytes n c [0, 0])" using mixed_inverts assms(2) by (auto simp: list_all_iff simp del: upt.simps)
  then show ?thesis using mixed_masks [OF masks_invert, of a b n c] by (simp add: c(1))
qed

lemma unit_casesE:
  assumes "x \<in> set (unit_cases env k vals buf)"
  obtains i w where "i < length buf - (k - 1)" "w \<in> set (vals (rd k i buf))" "x = wr k i w buf"
  using assms unfolding unit_cases_def set_concat set_map set_filter set_upt by (auto simp del: One_nat_def)

lemma unmixed_byte:
  assumes "x \<in> set (unit_cases env 1 (vals :: u8 \<Rightarrow> u8 list) [a, b])"
  shows "\<not> mixed [a, b] x"
proof -
  obtain i w where "i < 2" "x = [a, b][i := w]" using assms by (elim unit_casesE) (simp add: wr_byte [simplified] numeral_2_eq_2)
  then show ?thesis by (auto simp: mixed_def less_2_cases_iff)
qed

lemma unmixed_unit:
  assumes "\<And>orig w. w \<in> set (vals orig) \<Longrightarrow> \<not> could_be_bitflip (ucast (orig XOR w :: u16))"
    and "x \<in> set (unit_cases env 2 vals [a, b])"
  shows "\<not> mixed [a, b] x"
proof -
  obtain w where w: "w \<in> set (vals (rd 2 0 [a, b]))" "x = wr 2 0 w [a, b]" using assms(2) by (elim unit_casesE) simp
  have "rd 2 0 x = w" using le_word_le_bytes [of 2 w] by (simp add: rd_def w wr_def)
  then show ?thesis using assms(1) [OF w(1)] by (simp add: mixed_def)
qed

lemma det_unmixed:
  assumes "x \<in> set (det_cases env [a, b])"
  shows "\<not> mixed [a, b] x"
proof -
  have "\<not> could_be_bitflip (ucast (orig XOR w))" if "w \<in> set (arith16_vals orig)" for orig w
    using that by (simp add: arith16_vals_def)
  then have a16: "x \<in> set (unit_cases env 2 arith16_vals [a, b]) \<Longrightarrow> \<not> mixed [a, b] x" by (rule unmixed_unit)
  have "\<not> could_be_bitflip (ucast (orig XOR w))" if "w \<in> set (interest16_vals orig)" for orig w
    using that by (auto simp: interest16_vals_def fresh16_def guarded_def Let_def split: if_splits)
  then have i16: "x \<in> set (unit_cases env 2 interest16_vals [a, b]) \<Longrightarrow> \<not> mixed [a, b] x" by (rule unmixed_unit)
  have "\<not> mixed [a, b] [a, b]" by (simp add: mixed_def)
  then show ?thesis using assms unfolding det_cases_def
    by (auto simp: unit_cases_short dest: a16 i16 unmixed_flip unmixed_invert unmixed_byte split: if_splits simp del: One_nat_def)
qed
section \<open>Properties\<close>

text \<open>
  Property C0. At every effective byte, every value up to \<^verbatim>\<open>ARITH_MAX\<close> away from the original and every value of \<^verbatim>\<open>interesting_8\<close> is
  tested when arithmetic is enabled, although the arithmetic and interesting-value stages skip the values that \<^verbatim>\<open>could_be_bitflip\<close> and
  \<^verbatim>\<open>could_be_arith\<close> report: on single bytes these helpers only ever report a value that some earlier stage did execute.
\<close>
theorem det_bytes_complete:
  assumes "i < length buf" "effective env i" "\<not> no_arith env"
    and "(\<exists>j\<le>ARITH_MAX. w = buf ! i + of_nat j \<or> w = buf ! i - of_nat j) \<or> (\<exists>v\<in>set interesting_8. w = of_int v)"
  shows "buf[i := w] \<in> set (det_cases env buf)"
  using assms(4) arith_tested [OF assms(1-3)] interest_tested [OF assms(1-3)] by blast

theorem det_bytes_complete_witness: "[0x41, 0x62 :: u8] \<in> set (det_cases (idle_env [2]) [0x41, 0x42])"
proof -
  have "effective (idle_env [2]) 1 \<and> \<not> no_arith (idle_env [2])" by (simp add: idle_env_def bitmap_read_def bit_iff_odd)
  moreover have "\<exists>j\<le>ARITH_MAX. (0x62 :: u8) = 0x42 + of_nat j" by (intro exI [of _ 32]) simp
  ultimately show ?thesis using det_bytes_complete [of 1 "[0x41, 0x42]" "idle_env [2]" "0x62"] by auto
qed

lemma lost_mixed:
  assumes r: "rd 2 0 [a, b] XOR w \<in> {0x0180, 0x01E0, 0x03C0, 0x0780 :: u16}"
  shows "could_be_bitflip (ucast (rd 2 0 [a, b] XOR w)) \<and> mixed [a, b] (wr 2 0 w [a, b])"
proof -
  define m where "m = rd 2 0 [a, b] XOR w"
  have w: "w = rd 2 0 [a, b] XOR m" by (simp add: m_def xor.assoc [symmetric])
  have "list_all (\<lambda>m. could_be_bitflip (ucast (m :: u16)) \<and> m \<noteq> 0xFFFF \<and> le_bytes 2 m ! 0 \<noteq> 0 \<and> le_bytes 2 m ! 1 \<noteq> 0)
      [0x0180, 0x01E0, 0x03C0, 0x0780]" by code_simp
  then have m: "could_be_bitflip (ucast m)" "m \<noteq> 0xFFFF" "le_bytes 2 m ! 0 \<noteq> 0" "le_bytes 2 m ! 1 \<noteq> 0"
    using r unfolding m_def [symmetric] list_all_iff by auto
  have high: "(8 + n) div 8 = Suc 0" if "n < 8" for n :: nat using that by simp
  have x: "wr 2 0 w [a, b] = [a XOR le_bytes 2 m ! 0, b XOR le_bytes 2 m ! 1]"
  proof (rule nth_equalityI)
    fix i assume "i < length (wr 2 0 w [a, b])"
    then have "i = 0 \<or> i = 1" by (auto simp: wr_def less_2_cases_iff)
    then show "wr 2 0 w [a, b] ! i = [a XOR le_bytes 2 m ! 0, b XOR le_bytes 2 m ! 1] ! i"
      by (auto simp: wr_def w rd_def intro!: bit_word_eqI)
        (auto simp: bit_xor_iff bit_unsigned_iff bit_drop_bit_eq bit_le_word nth_Cons' high)
  qed (simp add: wr_def)
  have "rd 2 0 (wr 2 0 w [a, b]) = w" using le_word_le_bytes [of 2 w] by (simp add: rd_def wr_def)
  then show ?thesis using m by (simp add: mixed_def m_def [symmetric] x xor_same)
qed

text \<open>With arithmetic disabled the skipped values of \<^verbatim>\<open>interesting_8\<close> are tested by no stage: 16 in place of 10, for instance.\<close>

lemma no_arith_lost: "[0x10] \<notin> set (det_cases ((idle_env [1])\<lparr>no_arith := True\<rparr>) [0x0A])"
proof -
  have "list_all (\<lambda>x. x \<noteq> [0x10]) (det_cases ((idle_env [1])\<lparr>no_arith := True\<rparr>) [0x0A])" by code_simp
  then show ?thesis by (auto simp: list_all_iff)
qed

text \<open>
  On two bytes the same helper does lose values: the changes 0x0180, 0x01E0, 0x03C0 and 0x0780 of a 16-bit value pass for bit
  flips in \<^verbatim>\<open>could_be_bitflip\<close>, so the arithmetic and interesting-value stages skip them, yet no stage executes them for any effector map,
  because the walking bits cross from the lowest bit of one byte to the highest bit of the next and not the other way.
\<close>
theorem det_pairs_lost:
  assumes "rd 2 0 [a, b] XOR w \<in> {0x0180, 0x01E0, 0x03C0, 0x0780 :: u16}"
  shows "could_be_bitflip (ucast (rd 2 0 [a, b] XOR w)) \<and> wr 2 0 w [a, b] \<notin> set (det_cases env [a, b])"
  using lost_mixed [OF assms] det_unmixed by blast

theorem det_pairs_lost_witness:
  "(rd 2 0 [0xE0, 0x00] :: u16) + 32 = 0x0100 \<and> wr 2 0 (0x0100 :: u16) [0xE0, 0x00] \<notin> set (det_cases (idle_env [3]) [0xE0, 0x00])"
proof -
  have "(rd 2 0 [0xE0, 0x00] :: u16) = 0xE0" by code_simp
  moreover have "(0xE0 :: u16) XOR 0x0100 = 0x01E0" by simp
  ultimately show ?thesis using det_pairs_lost [of "0xE0" "0x00" "0x0100" "idle_env [3]"] by simp
qed

end
