(* ===== verification/Det_Dict.thy ===== *)
theory Det_Dict
  imports Det_Props
begin

text \<open>
  The dictionary stages that follow the interesting values in \<^verbatim>\<open>AFLplusplus/src/afl-fuzz-one.c\<close>: user and automatic tokens are
  written over the test case and inserted into it. Overwriting works in \<^verbatim>\<open>out_buf\<close> and restores it from \<^verbatim>\<open>in_buf\<close>; insertion builds the
  test case in the scratch buffer \<^verbatim>\<open>ex_tmp\<close>, which keeps whatever an earlier use left in it.
\<close>

section \<open>Model\<close>

text \<open>
  The fuzzer has the dictionaries, the generator, \<^verbatim>\<open>afl_realloc\<close> on the scratch buffer (\<open>None\<close> without memory, the old contents
  otherwise) and \<^verbatim>\<open>mark_as_det_done\<close>. Executing a test case does not change the dictionaries.
\<close>

record 'x dict_env =
  stages :: "'x det_env"
  extras :: "bytes list"
  a_extras :: "'x \<Rightarrow> bytes list"
  max_det_extras :: nat
  draw_below :: "nat \<Rightarrow> 'x \<Rightarrow> nat \<times> 'x"
  ex_realloc :: "nat \<Rightarrow> 'x \<Rightarrow> bytes option"
  passed_det :: "'x \<Rightarrow> bool"
  mark_as_det_done :: "'x \<Rightarrow> 'x"

abbreviation (input) MAX_FILE :: nat where "MAX_FILE \<equiv> 1048576"
abbreviation (input) MAX_DICT_FILE :: nat where "MAX_DICT_FILE \<equiv> 128"
abbreviation (input) USE_AUTO_EXTRAS :: nat where "USE_AUTO_EXTRAS \<equiv> 4096"

text \<open>\<^verbatim>\<open>memcpy(b + i, t, |t|)\<close>.\<close>

definition overwrite :: "nat \<Rightarrow> bytes \<Rightarrow> bytes \<Rightarrow> bytes" where
  "overwrite i t b = take i b @ t @ drop (i + length t) b"

text \<open>Overwriting at one offset, with \<^verbatim>\<open>last_len\<close>; the first test may draw a random number.\<close>

fun over_tokens :: "'x det_env \<Rightarrow> ('x \<Rightarrow> bool \<times> 'x) \<Rightarrow> nat \<Rightarrow> bytes list \<Rightarrow> nat \<Rightarrow> 'x det_state \<Rightarrow> det_exit \<times> 'x det_state + nat \<times> 'x det_state" where
  "over_tokens env skip i [] last_len s = Inr (last_len, s)"
| "over_tokens env skip i (t # ts) last_len s =
     (case skip (fuzzer s) of (unlucky, x) \<Rightarrow>
        let s = s\<lparr>fuzzer := x\<rparr>
        in if unlucky \<or> length (out_buf s) - i < length t \<or> take (length t) (drop i (out_buf s)) = t
           then over_tokens env skip i ts last_len s
           else case det_run env (s\<lparr>out_buf := overwrite i t (out_buf s)\<rparr>) of
             Inl e \<Rightarrow> Inl e
           | Inr s \<Rightarrow> over_tokens env skip i ts (length t) s)"

definition over_at :: "'x det_env \<Rightarrow> ('x \<Rightarrow> bool \<times> 'x) \<Rightarrow> bytes list \<Rightarrow> bytes \<Rightarrow> nat \<Rightarrow> 'x det_state \<Rightarrow> 'x det_result" where
  "over_at env skip ts in_buf i s =
     (case over_tokens env skip i ts 0 s of
        Inl e \<Rightarrow> Inl e
      | Inr (last_len, s) \<Rightarrow> Inr (s\<lparr>out_buf := overwrite i (take last_len (drop i in_buf)) (out_buf s)\<rparr>))"

definition over_stage :: "'x det_env \<Rightarrow> ('x \<Rightarrow> bool \<times> 'x) \<Rightarrow> bytes list \<Rightarrow> bytes \<Rightarrow> 'x det_state \<Rightarrow> 'x det_result" where
  "over_stage env skip ts in_buf s =
     det_each (\<lambda>i. det_visit env i (over_at env skip ts in_buf i)) [0..<length (out_buf s)] s"

text \<open>Insertion at one offset, with the scratch buffer.\<close>

fun insert_tokens :: "'x det_env \<Rightarrow> nat \<Rightarrow> bytes list \<Rightarrow> bytes \<Rightarrow> 'x det_state \<Rightarrow> det_exit \<times> 'x det_state + bytes \<times> 'x det_state" where
  "insert_tokens env i [] ex_tmp s = Inr (ex_tmp, s)"
| "insert_tokens env i (t # ts) ex_tmp s =
     (let len = length (out_buf s)
      in if MAX_FILE < len + length t then insert_tokens env i ts ex_tmp s
         else let ex_tmp = overwrite (i + length t) (drop i (out_buf s)) (overwrite i t ex_tmp)
              in case common_fuzz_stuff env (take (len + length t) ex_tmp) (fuzzer s) of (bail, x) \<Rightarrow>
                   if bail then Inl (Abandon_Entry, s\<lparr>fuzzer := x\<rparr>)
                   else insert_tokens env i ts ex_tmp (s\<lparr>fuzzer := x\<rparr>))"

text \<open>
  The loop over the offsets; a byte is copied to the head only after tokens were inserted before it. At the last offset the source reads one byte beyond
  the test case, which is not used any more.
\<close>

fun insert_from :: "'x det_env \<Rightarrow> bytes list \<Rightarrow> nat list \<Rightarrow> bytes \<Rightarrow> 'x det_state \<Rightarrow> 'x det_result" where
  "insert_from env ts [] ex_tmp s = Inr s"
| "insert_from env ts (i # is) ex_tmp s =
     (if \<not> bitmap_read (skip_eff_map env) (i mod length (out_buf s)) then insert_from env ts is ex_tmp s
      else if det_timeout env (fuzzer s) then Inl (Custom_Mutator_Stage, s)
      else case insert_tokens env i ts ex_tmp s of
        Inl e \<Rightarrow> Inl e
      | Inr (ex_tmp, s) \<Rightarrow>
          insert_from env ts is (if i < length (out_buf s) then ex_tmp[i := out_buf s ! i] else ex_tmp) s)"

definition insert_stage :: "'x det_env \<Rightarrow> (nat \<Rightarrow> 'x \<Rightarrow> bytes option) \<Rightarrow> bytes list \<Rightarrow> 'x det_state \<Rightarrow> 'x det_result" where
  "insert_stage env alloc ts s =
     (case alloc (length (out_buf s) + MAX_DICT_FILE) (fuzzer s) of
        None \<Rightarrow> Inl (Out_Of_Memory, s)
      | Some ex_tmp \<Rightarrow> insert_from env ts [0..<length (out_buf s) + 1] ex_tmp s)"

text \<open>Too many user tokens are thinned out at random.\<close>

definition skip_extra :: "'x dict_env \<Rightarrow> 'x \<Rightarrow> bool \<times> 'x" where
  "skip_extra env x =
     (if max_det_extras env < length (extras env)
      then (case draw_below env (length (extras env)) x of (r, x) \<Rightarrow> (max_det_extras env \<le> r, x))
      else (False, x))"

definition user_extras :: "'x dict_env \<Rightarrow> bytes \<Rightarrow> 'x det_state \<Rightarrow> 'x det_result" where
  "user_extras env in_buf s =
     (if extras env = [] then Inr s
      else det_bind (over_stage (stages env) (skip_extra env) (extras env) in_buf s)
             (insert_stage (stages env) (ex_realloc env) (extras env)))"

definition auto_extras :: "'x dict_env \<Rightarrow> bytes \<Rightarrow> 'x det_state \<Rightarrow> 'x det_result" where
  "auto_extras env in_buf s =
     (let ts = a_extras env (fuzzer s)
      in if ts = [] then Inr s
         else det_bind (over_stage (stages env) (\<lambda>x. (False, x)) (take (min (length ts) USE_AUTO_EXTRAS) ts) in_buf s)
                (insert_stage (stages env) (ex_realloc env) ts))"

definition dict_stages :: "'x dict_env \<Rightarrow> bytes \<Rightarrow> 'x det_state \<Rightarrow> 'x det_result" where
  "dict_stages env in_buf s =
     det_bind (user_extras env in_buf s) (\<lambda>s. det_bind (auto_extras env in_buf s) (\<lambda>s.
       Inr (if passed_det env (fuzzer s) then s else s\<lparr>fuzzer := mark_as_det_done env (fuzzer s)\<rparr>)))"

definition deterministic :: "'x dict_env \<Rightarrow> bytes \<Rightarrow> 'x det_state \<Rightarrow> 'x det_result" where
  "deterministic env in_buf s = det_bind (det_stages (stages env) s) (dict_stages env in_buf)"

end
