(* ===== verification/Dict_Props.thy ===== *)
theory Dict_Props
  imports Det_Dict
begin

text \<open>
  What the dictionary stages promise: the buffer is restored if the tokens come in the order of their lengths; overwriting then tests
  every token at every effective offset; insertion tests every token too, but the part of the test case before an insertion point is only right
  at effective bytes.
\<close>

section \<open>Overwriting\<close>

lemma dirty_mono: "dirty k i buf b \<Longrightarrow> k \<le> m \<Longrightarrow> dirty m i buf b"
proof -
  assume d: "dirty k i buf b" and m: "k \<le> m"
  have e: "m - k + (i + k) = i + m" using m by simp
  have "drop (m - k) (drop (i + k) b) = drop (m - k) (drop (i + k) buf)" using d by (simp only: dirty_def)
  then show "dirty m i buf b" using d by (simp add: dirty_def e)
qed

lemma overwrite_dirty:
  assumes "dirty (length t) i buf b" "i + length t \<le> length buf"
  shows "overwrite i t b = overwrite i t buf" "dirty (length t) i buf (overwrite i t b)"
  using assms by (simp_all add: dirty_def overwrite_def)

lemma overwrite_back:
  assumes "dirty k i buf b" "i + k \<le> length buf"
  shows "overwrite i (take k (drop i buf)) b = buf"
proof -
  have "overwrite i (take k (drop i buf)) b = take i buf @ take k (drop i buf) @ drop (i + k) buf"
    using assms by (simp add: overwrite_def dirty_def)
  also have "\<dots> = buf" by (metis append_take_drop_id drop_drop add.commute)
  finally show ?thesis .
qed

text \<open>The part of the buffer that differs grows with the tokens.\<close>

definition clobbered :: "bytes \<Rightarrow> nat \<Rightarrow> det_exit \<times> 'x det_state + nat \<times> 'x det_state \<Rightarrow> bool" where
  "clobbered buf i r = (case r of Inl (e, s) \<Rightarrow> e = Abandon_Entry
     | Inr (last_len, s) \<Rightarrow> dirty last_len i buf (out_buf s) \<and> i + last_len \<le> length buf)"

lemma det_run_cases:
  obtains x where "det_run env s = Inl (Abandon_Entry, s\<lparr>fuzzer := x\<rparr>)" | x where "det_run env s = Inr (s\<lparr>fuzzer := x\<rparr>)"
proof (cases "common_fuzz_stuff env (out_buf s) (fuzzer s)")
  case (Pair bail x)
  then show ?thesis using that by (cases bail) (auto simp: det_run_def)
qed

lemma over_tokens_clobbered:
  assumes "sorted (map length ts)" "\<forall>t\<in>set ts. last_len \<le> length t" "dirty last_len i buf (out_buf s)" "i + last_len \<le> length buf"
  shows "clobbered buf i (over_tokens env skip i ts last_len s)"
  using assms
proof (induction ts arbitrary: last_len s)
  case (Cons t ts)
  obtain unlucky x where sk: "skip (fuzzer s) = (unlucky, x)" by fastforce
  let ?s = "s\<lparr>fuzzer := x\<rparr>"
  have len: "length (out_buf s) = length buf" using Cons.prems(3) by (simp add: dirty_def)
  show ?case
  proof (cases "unlucky \<or> length (out_buf s) - i < length t \<or> take (length t) (drop i (out_buf s)) = t")
    case True
    then show ?thesis using Cons.IH [of last_len ?s] Cons.prems sk by (auto simp: Let_def)
  next
    case False
    then have fit: "i + length t \<le> length buf" using Cons.prems(4) len by auto
    have d: "dirty (length t) i buf (out_buf s)" using dirty_mono [OF Cons.prems(3)] Cons.prems(2) by simp
    let ?u = "?s\<lparr>out_buf := overwrite i t (out_buf s)\<rparr>"
    show ?thesis
    proof (cases rule: det_run_cases [of env ?u])
      case (1 y)
      then show ?thesis using False sk by (simp add: clobbered_def Let_def)
    next
      case (2 y)
      have "clobbered buf i (over_tokens env skip i ts (length t) (?u\<lparr>fuzzer := y\<rparr>))"
        using Cons.prems(1) overwrite_dirty(2) [OF d fit] fit by (intro Cons.IH) simp_all
      then show ?thesis using False sk 2 by (simp add: Let_def)
    qed
  qed
qed (simp add: clobbered_def)

lemma keeps_over_at:
  assumes "sorted (map length ts)" "i < length buf"
  shows "restores buf (over_at env skip ts buf i)"
proof (rule keepsI)
  fix s :: "'a det_state"
  assume "out_buf s = buf"
  then have "clobbered buf i (over_tokens env skip i ts 0 s)"
    using assms by (intro over_tokens_clobbered) (simp_all add: dirty_self)
  then show "ends_in buf (\<lambda>b. b = buf) (over_at env skip ts buf i s)"
    by (auto simp: clobbered_def over_at_def overwrite_back split: sum.splits prod.splits)
qed

lemma keeps_over_stage:
  assumes "sorted (map length ts)"
  shows "restores buf (over_stage env skip ts buf)"
proof (rule keepsI)
  fix s :: "'a det_state"
  assume s: "out_buf s = buf"
  have "restores buf (det_each (\<lambda>i. det_visit env i (over_at env skip ts buf i)) [0..<length buf])"
    using assms by (intro keeps_each ballI keeps_visit keeps_over_at) simp_all
  then show "ends_in buf (\<lambda>b. b = buf) (over_stage env skip ts buf s)" using s by (simp add: over_stage_def keepsD)
qed

section \<open>Insertion\<close>

text \<open>Insertion works in the scratch buffer and never changes the test case.\<close>

definition untouched :: "bytes \<Rightarrow> det_exit \<times> 'x det_state + 'c \<times> 'x det_state \<Rightarrow> bool" where
  "untouched buf r = (case r of Inl (e, s) \<Rightarrow> e = Abandon_Entry | Inr (c, s) \<Rightarrow> out_buf s = buf)"

lemma insert_tokens_buf: "out_buf s = buf \<Longrightarrow> untouched buf (insert_tokens env i ts ex s)"
proof (induction ts arbitrary: ex s)
  case (Cons t ts)
  let ?ex = "overwrite (i + length t) (drop i (out_buf s)) (overwrite i t ex)"
  obtain bail x where r: "common_fuzz_stuff env (take (length (out_buf s) + length t) ?ex) (fuzzer s) = (bail, x)" by fastforce
  have "untouched buf (insert_tokens env i ts ?ex (s\<lparr>fuzzer := x\<rparr>))" "untouched buf (insert_tokens env i ts ex s)"
    using Cons.prems by (simp_all add: Cons.IH)
  then show ?case by (simp add: Let_def r) (simp add: untouched_def)
qed (simp add: untouched_def)

lemma keeps_insert_from: "restores buf (insert_from env ts js ex)"
proof (induction js arbitrary: ex)
  case Nil
  then show ?case by (simp add: keeps_def)
next
  case (Cons i js)
  show ?case
  proof (rule keepsI)
    fix s :: "'a det_state"
    assume s: "out_buf s = buf"
    then have "untouched buf (insert_tokens env i ts ex s)" by (rule insert_tokens_buf)
    then show "ends_in buf (\<lambda>b. b = buf) (insert_from env ts (i # js) ex s)"
      using keepsD [OF Cons.IH] s by (auto simp: untouched_def split: sum.splits prod.splits)
  qed
qed

lemma keeps_insert_stage: "restores buf (insert_stage env alloc ts)"
  by (rule keepsI) (auto simp: insert_stage_def keepsD [OF keeps_insert_from] split: option.split)

text \<open>The test cases, as a function of the scratch buffer.\<close>

definition fitting :: "bytes \<Rightarrow> bytes list \<Rightarrow> bytes list" where
  "fitting buf ts = filter (\<lambda>t. length buf + length t \<le> MAX_FILE) ts"

definition scratch :: "bytes \<Rightarrow> nat \<Rightarrow> bytes \<Rightarrow> bytes \<Rightarrow> bytes" where
  "scratch buf i t ex = overwrite (i + length t) (drop i buf) (overwrite i t ex)"

fun insert_cases :: "'x det_env \<Rightarrow> bytes \<Rightarrow> bytes list \<Rightarrow> nat list \<Rightarrow> bytes \<Rightarrow> bytes list" where
  "insert_cases env buf ts [] ex = []"
| "insert_cases env buf ts (i # js) ex =
     (if effective env (i mod length buf)
      then map (\<lambda>t. take i ex @ t @ drop i buf) (fitting buf ts) @
        insert_cases env buf ts js (let ex = fold (scratch buf i) (fitting buf ts) ex in if i < length buf then ex[i := buf ! i] else ex)
      else insert_cases env buf ts js ex)"

definition roomy :: "bytes \<Rightarrow> bytes list \<Rightarrow> bytes \<Rightarrow> bool" where
  "roomy buf ts ex \<longleftrightarrow> (\<forall>t\<in>set ts. length buf + length t \<le> length ex)"

lemma scratch_keeps:
  assumes "i \<le> length buf" "length buf + length t \<le> length ex"
  shows "length (scratch buf i t ex) = length ex" "take i (scratch buf i t ex) = take i ex"
    "take (length buf + length t) (scratch buf i t ex) = take i ex @ t @ drop i buf"
  using assms by (simp_all add: scratch_def overwrite_def)

lemma insert_tokens_log:
  assumes "tireless env" "i \<le> length (out_buf s)" "roomy (out_buf s) ts ex"
  shows "\<exists>s'. insert_tokens (with_log env) i ts ex s = Inr (fold (scratch (out_buf s) i) (fitting (out_buf s) ts) ex, s') \<and> out_buf s' = out_buf s \<and>
    executed s' = rev (map (\<lambda>t. take i ex @ t @ drop i (out_buf s)) (fitting (out_buf s) ts)) @ executed s"
  using assms(2,3)
proof (induction ts arbitrary: ex s)
  case (Cons t ts)
  let ?buf = "out_buf s" and ?ex = "scratch (out_buf s) i t ex"
  show ?case
  proof (cases "MAX_FILE < length ?buf + length t")
    case True
    then show ?thesis using Cons.IH [of s ex] Cons.prems by (simp add: fitting_def roomy_def)
  next
    case False
    note k = scratch_keeps [of i ?buf t ex]
    obtain x l where f: "fuzzer s = (x, l)" by fastforce
    obtain y where y: "common_fuzz_stuff env (take (length ?buf + length t) ?ex) x = (False, y)"
      using assms(1) by (metis (full_types) prod.collapse tireless_def)
    let ?u = "s\<lparr>fuzzer := (y, take (length ?buf + length t) ?ex # l)\<rparr>"
    have step: "insert_tokens (with_log env) i (t # ts) ex s = insert_tokens (with_log env) i ts ?ex ?u"
      using False y by (simp add: Let_def scratch_def [symmetric] with_log_def f)
    show ?thesis unfolding step
      using Cons.IH [of ?u ?ex] Cons.prems k False by (simp add: fitting_def roomy_def f)
  qed
qed (simp add: fitting_def)

lemma fold_scratch:
  assumes "i \<le> length buf" "\<forall>t\<in>set ts. length buf + length t \<le> length ex"
  shows "length (fold (scratch buf i) ts ex) = length ex \<and> take i (fold (scratch buf i) ts ex) = take i ex"
  using assms(2) by (induction ts arbitrary: ex) (simp_all add: scratch_keeps assms(1))

lemma roomy_next:
  assumes "i \<le> length buf" "roomy buf ts ex"
  shows "roomy buf ts (let ex = fold (scratch buf i) (fitting buf ts) ex in if i < length buf then ex[i := buf ! i] else ex)"
  using fold_scratch [OF assms(1), of "fitting buf ts" ex] assms(2) by (simp add: roomy_def fitting_def Let_def)

lemma insert_from_log:
  assumes "tireless env" "\<forall>i\<in>set js. i \<le> length buf" "roomy buf ts ex" "out_buf s = buf"
  shows "\<exists>s'. insert_from (with_log env) ts js ex s = Inr s' \<and> out_buf s' = buf \<and>
    executed s' = rev (insert_cases env buf ts js ex) @ executed s"
  using assms(2-)
proof (induction js arbitrary: ex s)
  case (Cons i js)
  have eff: "bitmap_read (skip_eff_map (with_log env)) k = effective env k" "\<not> det_timeout (with_log env) z" for k z
    using assms(1) by (cases z; simp add: with_log_def tireless_def)+
  show ?case
  proof (cases "effective env (i mod length buf)")
    case False
    then show ?thesis using Cons.IH [of ex s] Cons.prems by (simp add: eff)
  next
    case True
    obtain u where u: "insert_tokens (with_log env) i ts ex s = Inr (fold (scratch buf i) (fitting buf ts) ex, u)" "out_buf u = buf"
        "executed u = rev (map (\<lambda>t. take i ex @ t @ drop i buf) (fitting buf ts)) @ executed s"
      using insert_tokens_log [OF assms(1), of i s ts ex] Cons.prems by auto
    show ?thesis
      using Cons.IH [of "let ex = fold (scratch buf i) (fitting buf ts) ex in if i < length buf then ex[i := buf ! i] else ex" u]
        Cons.prems True u roomy_next [of i buf ts ex] by (cases "i < length buf") (simp_all add: eff Let_def)
  qed
qed simp

lemma insert_stage_log:
  assumes "tireless env" "roomy (out_buf s) ts ex" "alloc (length (out_buf s) + MAX_DICT_FILE) (fuzzer s) = Some ex"
  shows "\<exists>s'. insert_stage (with_log env) alloc ts s = Inr s' \<and> out_buf s' = out_buf s \<and>
    executed s' = rev (insert_cases env (out_buf s) ts [0..<length (out_buf s) + 1] ex) @ executed s"
  using insert_from_log [OF assms(1) _ assms(2) refl, of "[0..<length (out_buf s) + 1]"] assms(3)
  by (auto simp: insert_stage_def)

text \<open>If every byte is effective, the head of the scratch buffer is the head of the test case.\<close>

definition insertions :: "bytes \<Rightarrow> bytes list \<Rightarrow> nat list \<Rightarrow> bytes list" where
  "insertions buf ts js = concat (map (\<lambda>i. map (\<lambda>t. take i buf @ t @ drop i buf) (fitting buf ts)) js)"

lemma insert_cases_effective:
  assumes "\<forall>i<length buf. effective env i" "0 < length buf" "m \<le> length buf + 1" "roomy buf ts ex" "length buf \<le> length ex"
    "take m ex = take m buf \<or> length buf < m"
  shows "insert_cases env buf ts [m..<length buf + 1] ex = insertions buf ts [m..<length buf + 1]"
  using assms(3-)
proof (induction "length buf + 1 - m" arbitrary: m ex)
  case 0
  then show ?case by (simp add: insertions_def)
next
  case (Suc n)
  then have m: "m \<le> length buf" and upt: "[m..<length buf + 1] = m # [m + 1..<length buf + 1]" by (simp_all add: upt_rec)
  let ?ex = "fold (scratch buf m) (fitting buf ts) ex"
  let ?ex' = "if m < length buf then ?ex[m := buf ! m] else ?ex"
  have f: "length ?ex = length ex" "take m ?ex = take m ex"
    using fold_scratch [OF m, of "fitting buf ts" ex] Suc.prems(2) by (simp_all add: roomy_def fitting_def)
  have head: "take m ex = take m buf" using Suc.prems(4) m by simp
  have "take (m + 1) ?ex' = take (m + 1) buf" if "m < length buf"
    using that f head Suc.prems(3) by (simp add: take_Suc_conv_app_nth)
  moreover have "roomy buf ts ?ex'" using roomy_next [OF m Suc.prems(2)] by (simp add: Let_def)
  ultimately have "insert_cases env buf ts [m + 1..<length buf + 1] ?ex' = insertions buf ts [m + 1..<length buf + 1]"
    using Suc.hyps(2) m f Suc.prems(3) by (intro Suc.hyps(1)) auto
  moreover have "effective env (m mod length buf)" using assms(1,2) by simp
  ultimately show ?case unfolding upt by (simp add: insertions_def head Let_def)
qed

text \<open>If the first byte is not effective, the head starts with what the scratch buffer held.\<close>

lemma insert_cases_stale:
  assumes "\<not> effective env 0" "0 < length buf" "\<forall>i\<in>set js. i \<le> length buf" "roomy buf ts ex" "ex \<noteq> []" "x \<in> set (insert_cases env buf ts js ex)"
  shows "hd x = hd ex"
  using assms(3-)
proof (induction js arbitrary: ex)
  case (Cons i js)
  show ?case
  proof (cases "effective env (i mod length buf)")
    case True
    then have i: "0 < i" "i < length buf" using assms(1,2) Cons.prems(1) by (auto simp: le_less intro!: Nat.gr0I)
    let ?ex = "(fold (scratch buf i) (fitting buf ts) ex)[i := buf ! i]"
    have f: "length ?ex = length ex" "take i (fold (scratch buf i) (fitting buf ts) ex) = take i ex"
      using fold_scratch [of i buf "fitting buf ts" ex] Cons.prems(2) i by (simp_all add: roomy_def fitting_def)
    then have ne: "?ex \<noteq> []" "hd ?ex = hd ex"
      using Cons.prems(3) i by (metis length_0_conv, metis hd_take take_update_cancel order_refl)
    from Cons.prems(4) True i consider t where "x = take i ex @ t @ drop i buf" | "x \<in> set (insert_cases env buf ts js ?ex)"
      by (auto simp: Let_def)
    then show ?thesis
    proof cases
      case 1
      then show ?thesis using Cons.prems(3) i by (simp add: hd_append)
    next
      case 2
      then show ?thesis using Cons.IH [of ?ex] ne roomy_next [of i buf ts ex] Cons.prems i by (simp add: Let_def)
    qed
  next
    case False
    then show ?thesis using Cons.IH [of ex] Cons.prems by simp
  qed
qed simp

section \<open>What overwriting tests\<close>

lemma overwrite_same: "take (length t) (drop i b) = t \<Longrightarrow> overwrite i t b = b"
  unfolding overwrite_def by (metis append_take_drop_id drop_drop add.commute)

definition over_all :: "bytes list \<Rightarrow> nat \<Rightarrow> bytes \<Rightarrow> bytes set" where
  "over_all ts i buf = {overwrite i t buf | t. t \<in> set ts \<and> i + length t \<le> length buf}"

lemma over_all_simps: "over_all [] i buf = {}"
  "over_all (t # ts) i buf = (if i + length t \<le> length buf then insert (overwrite i t buf) (over_all ts i buf) else over_all ts i buf)"
  by (auto simp: over_all_def)

lemma over_tokens_log:
  assumes "tireless env" "sorted (map length ts)" "\<forall>t\<in>set ts. last_len \<le> length t" "dirty last_len i buf (out_buf s)" "i + last_len \<le> length buf"
  shows "\<exists>r s' L. over_tokens (with_log env) (\<lambda>x. (False, x)) i ts last_len s = Inr (r, s') \<and> executed s' = L @ executed s \<and>
    insert (out_buf s) (set L) = insert (out_buf s) (over_all ts i buf)"
  using assms(2-)
proof (induction ts arbitrary: last_len s)
  case Nil
  then show ?case by (simp add: over_all_simps)
next
  case (Cons t ts)
  have len: "length (out_buf s) = length buf" using Cons.prems(3) by (simp add: dirty_def)
  have d: "dirty (length t) i buf (out_buf s)" using dirty_mono [OF Cons.prems(3)] Cons.prems(2) by simp
  let ?go = "over_tokens (with_log env) (\<lambda>x. (False, x)) i"
  show ?case
  proof (cases "length buf - i < length t \<or> take (length t) (drop i (out_buf s)) = t")
    case True
    have "insert (out_buf s) (over_all (t # ts) i buf) = insert (out_buf s) (over_all ts i buf)"
    proof (cases "length buf - i < length t")
      case False
      then have "overwrite i t buf = out_buf s"
        using True overwrite_dirty(1) [OF d] overwrite_same [of t i "out_buf s"] Cons.prems(4) by auto
      then show ?thesis by (auto simp: over_all_simps)
    qed (auto simp: over_all_simps)
    moreover have "?go (t # ts) last_len s = ?go ts last_len s" using True len by (simp add: Let_def)
    ultimately show ?thesis using Cons.IH [of last_len s] Cons.prems by simp
  next
    case False
    then have fit: "i + length t \<le> length buf" using Cons.prems(4) by auto
    let ?b = "overwrite i t (out_buf s)"
    obtain u where u: "det_run (with_log env) (s\<lparr>out_buf := ?b\<rparr>) = Inr u" "out_buf u = ?b" "executed u = ?b # executed s"
      by (rule tries_run [OF assms(1), of "s\<lparr>out_buf := ?b\<rparr>"]) simp
    have b: "?b = overwrite i t buf" by (rule overwrite_dirty(1) [OF d fit])
    obtain r v L where L: "?go ts (length t) u = Inr (r, v)" "executed v = L @ executed u"
        "insert (out_buf u) (set L) = insert (out_buf u) (over_all ts i buf)"
      using Cons.IH [of "length t" u] Cons.prems(1) overwrite_dirty(2) [OF d fit] fit u(2) by auto
    have "?go (t # ts) last_len s = Inr (r, v)" using False len u(1) L(1) by (simp add: Let_def)
    moreover have "insert (out_buf s) (set (L @ [?b])) = insert (out_buf s) (over_all (t # ts) i buf)"
      using L(3) fit unfolding u(2) b by (simp add: over_all_simps)
    ultimately show ?thesis using L(2) u(3) by (intro exI [of _ r] exI [of _ v] exI [of _ "L @ [?b]"]) simp
  qed
qed

text \<open>A step that tests the given cases, up to the original itself.\<close>

definition tests :: "bytes \<Rightarrow> bytes set \<Rightarrow> (('x \<times> bytes list) det_state \<Rightarrow> ('x \<times> bytes list) det_result) \<Rightarrow> bool" where
  "tests buf A f \<longleftrightarrow> (\<forall>s. out_buf s = buf \<longrightarrow> (\<exists>s' L. f s = Inr s' \<and> out_buf s' = buf \<and> executed s' = L @ executed s \<and>
     insert buf (set L) = insert buf A))"

lemma tests_each:
  assumes "\<forall>p\<in>set ps. tests buf (A p) (f p)"
  shows "tests buf (\<Union>p\<in>set ps. A p) (det_each f ps)"
  using assms
proof (induction ps)
  case Nil
  then show ?case by (simp add: tests_def)
next
  case (Cons p ps)
  show ?case unfolding tests_def
  proof (intro allI impI)
    fix s :: "('b \<times> bytes list) det_state"
    assume "out_buf s = buf"
    then obtain u L where u: "f p s = Inr u" "out_buf u = buf" "executed u = L @ executed s" "insert buf (set L) = insert buf (A p)"
      using Cons.prems [rule_format, of p] by (auto simp: tests_def)
    then obtain v M where v: "det_each f ps u = Inr v" "out_buf v = buf" "executed v = M @ executed u"
        "insert buf (set M) = insert buf (\<Union>p\<in>set ps. A p)"
      using Cons.IH Cons.prems by (auto simp: tests_def)
    have "insert buf (set (M @ L)) = insert buf (\<Union>p\<in>set (p # ps). A p)" using u(4) v(4) by auto
    then show "\<exists>s' L. det_each f (p # ps) s = Inr s' \<and> out_buf s' = buf \<and> executed s' = L @ executed s \<and>
        insert buf (set L) = insert buf (\<Union>p\<in>set (p # ps). A p)"
      using u v by (intro exI [of _ v] exI [of _ "M @ L"]) (simp add: det_bind_def)
  qed
qed

lemma tests_visit:
  assumes "tireless env" "tests buf A body"
  shows "tests buf (if effective env i then A else {}) (det_visit (with_log env) i body)"
  using assms by (auto simp: tests_def det_visit_def with_log_def tireless_def split: prod.splits)

lemma tests_over_at:
  assumes "tireless env" "sorted (map length ts)" "i < length buf"
  shows "tests buf (over_all ts i buf) (over_at (with_log env) (\<lambda>x. (False, x)) ts buf i)"
  unfolding tests_def
proof (intro allI impI)
  fix s :: "('a \<times> bytes list) det_state"
  assume s: "out_buf s = buf"
  obtain r u L where u: "over_tokens (with_log env) (\<lambda>x. (False, x)) i ts 0 s = Inr (r, u)" "executed u = L @ executed s"
      "insert buf (set L) = insert buf (over_all ts i buf)"
    using over_tokens_log [OF assms(1,2), of 0 i buf s] assms(3) s by (auto simp: dirty_self)
  have "clobbered buf i (over_tokens (with_log env) (\<lambda>x. (False, x)) i ts 0 s)"
    using assms(2,3) s by (intro over_tokens_clobbered) (simp_all add: dirty_self)
  then have "overwrite i (take r (drop i buf)) (out_buf u) = buf" using u(1) by (simp add: clobbered_def overwrite_back)
  then show "\<exists>s' L. over_at (with_log env) (\<lambda>x. (False, x)) ts buf i s = Inr s' \<and> out_buf s' = buf \<and> executed s' = L @ executed s \<and>
      insert buf (set L) = insert buf (over_all ts i buf)"
    using u by (auto simp: over_at_def)
qed

lemma tests_over_stage:
  assumes "tireless env" "sorted (map length ts)"
  shows "tests buf (\<Union>i\<in>set [0..<length buf]. if effective env i then over_all ts i buf else {})
    (over_stage (with_log env) (\<lambda>x. (False, x)) ts buf)"
proof -
  have "tests buf (\<Union>i\<in>set [0..<length buf]. if effective env i then over_all ts i buf else {})
      (det_each (\<lambda>i. det_visit (with_log env) i (over_at (with_log env) (\<lambda>x. (False, x)) ts buf i)) [0..<length buf])"
    using assms by (intro tests_each ballI tests_visit tests_over_at) simp_all
  then show ?thesis by (simp add: tests_def over_stage_def)
qed

section \<open>The whole sequence\<close>

definition by_length :: "'x dict_env \<Rightarrow> bool" where
  "by_length env \<longleftrightarrow> sorted (map length (extras env)) \<and> (\<forall>x. sorted (map length (take USE_AUTO_EXTRAS (a_extras env x))))"

lemma keeps_user: "by_length env \<Longrightarrow> restores buf (user_extras env buf)"
  unfolding user_extras_def [abs_def] by_length_def
  by (intro keeps_if keeps_Inr keeps_bind keeps_over_stage keeps_insert_stage) simp

lemma keeps_auto:
  assumes "by_length env"
  shows "restores buf (auto_extras env buf)"
proof (rule keepsI)
  fix s :: "'a det_state"
  assume s: "out_buf s = buf"
  let ?ts = "a_extras env (fuzzer s)"
  have t: "take (min (length ?ts) USE_AUTO_EXTRAS) ?ts = take USE_AUTO_EXTRAS ?ts" by (simp add: min_def)
  have "restores buf (\<lambda>s. det_bind (over_stage (stages env) (\<lambda>x. (False, x)) (take (min (length ?ts) USE_AUTO_EXTRAS) ?ts) buf s)
      (insert_stage (stages env) (ex_realloc env) ?ts))"
    using assms unfolding t by_length_def by (intro keeps_bind keeps_over_stage keeps_insert_stage) simp
  from keepsD [OF this, of s] s show "ends_in buf (\<lambda>b. b = buf) (auto_extras env buf s)" by (simp add: auto_extras_def Let_def)
qed

lemma keeps_deterministic: "by_length env \<Longrightarrow> restores buf (deterministic env buf)"
  unfolding deterministic_def [abs_def] dict_stages_def [abs_def]
  by (intro keeps_bind keeps_det keeps_user keeps_auto) (simp_all add: keeps_def)

section \<open>Properties\<close>

text \<open>
  If the dictionaries are sorted by length, the whole sequence of deterministic stages of \<^verbatim>\<open>fuzz_one_original\<close>, from the walking bits to the
  automatic tokens, hands \<^verbatim>\<open>out_buf\<close> to the next stage exactly as it was, whatever the target does and whenever time runs out: every flip,
  addition, overwritten unit and token has been undone. Only an entry that is abandoned leaves a changed buffer behind.
\<close>
lemma deterministic_intact:
  assumes "by_length env"
  shows "intact (out_buf s) (deterministic env (out_buf s) s)"
  using keepsD [OF keeps_deterministic [OF assms, of "out_buf s"], of s] by (simp add: intact_def ends_in_def)

definition idle_dict :: "bytes \<Rightarrow> bytes list \<Rightarrow> unit dict_env" where
  "idle_dict eff ts = \<lparr>stages = idle_env eff, extras = ts, a_extras = (\<lambda>x. []), max_det_extras = 200, draw_below = (\<lambda>n x. (0, x)),
     ex_realloc = (\<lambda>n x. Some (replicate n 0xAA)), passed_det = (\<lambda>x. True), mark_as_det_done = (\<lambda>x. x)\<rparr>"

text \<open>
  Property C0. With tokens sorted by length, overwriting without restoring between the tokens of one offset is sound: apart from the
  original itself, the executed test cases are exactly the original with one token written over it at an effective offset where it fits.
\<close>
theorem over_stage_exact:
  assumes "tireless env" "sorted (map length ts)"
  shows "\<exists>s' L. over_stage (with_log env) (\<lambda>x. (False, x)) ts (out_buf s) s = Inr s' \<and> out_buf s' = out_buf s \<and>
    executed s' = L @ executed s \<and>
    insert (out_buf s) (set L) = insert (out_buf s) {overwrite i t (out_buf s) | i t.
      effective env i \<and> i < length (out_buf s) \<and> t \<in> set ts \<and> i + length t \<le> length (out_buf s)}"
proof -
  have "(\<Union>i\<in>set [0..<length (out_buf s)]. if effective env i then over_all ts i (out_buf s) else {}) =
      {overwrite i t (out_buf s) | i t. effective env i \<and> i < length (out_buf s) \<and> t \<in> set ts \<and> i + length t \<le> length (out_buf s)}"
    by (auto simp: over_all_def, blast)
  with tests_over_stage [OF assms, of "out_buf s"] show ?thesis by (simp add: tests_def)
qed

theorem over_stage_exact_witness:
  "\<exists>s' L. over_stage (with_log (idle_env [1])) (\<lambda>x. (False, x)) [[7], [8, 9]] [0x41, 0x42] (idle_start [0x41, 0x42]) = Inr s' \<and>
    executed s' = L \<and> [8, 9] \<in> set L"
proof -
  let ?A = "{overwrite i t [0x41, 0x42] | i t. effective (idle_env [1]) i \<and> i < length [0x41, 0x42 :: u8] \<and> t \<in> set [[7], [8, 9]] \<and> i + length t \<le> length [0x41, 0x42 :: u8]}"
  have start: "out_buf (idle_start b) = b" "executed (idle_start b) = []" for b by (simp_all add: idle_start_def)
  have "effective (idle_env [1]) 0 \<and> overwrite 0 [8, 9] [0x41, 0x42] = [8, 9]" by (simp add: idle_env_def bitmap_read_def overwrite_def)
  then have "[8, 9] \<in> ?A" by (intro CollectI exI [of _ 0] exI [of _ "[8, 9 :: u8]"]) simp
  moreover obtain s' L where "over_stage (with_log (idle_env [1])) (\<lambda>x. (False, x)) [[7], [8, 9]] [0x41, 0x42] (idle_start [0x41, 0x42]) = Inr s'"
      "executed s' = L" "insert [0x41, 0x42] (set L) = insert [0x41, 0x42] ?A"
    using over_stage_exact [OF tireless_idle, of "[[7], [8, 9]]" "[1]" "idle_start [0x41, 0x42]", unfolded start] by auto
  moreover have "[8, 9 :: u8] \<noteq> [0x41, 0x42]" by simp
  ultimately show ?thesis by blast
qed

text \<open>
  Property C0. If every byte is effective and the scratch buffer is as large as requested, insertion executes exactly the test case with each token
  that keeps it within \<^verbatim>\<open>MAX_FILE\<close> inserted before every byte and at the end, in this order, and leaves \<^verbatim>\<open>out_buf\<close> alone.
\<close>
theorem insert_stage_exact:
  assumes "tireless env" "\<forall>i<length (out_buf s). effective env i" "out_buf s \<noteq> []"
    and "alloc (length (out_buf s) + MAX_DICT_FILE) (fuzzer s) = Some ex" "length ex = length (out_buf s) + MAX_DICT_FILE"
    and "\<forall>t\<in>set ts. length t \<le> MAX_DICT_FILE"
  shows "\<exists>s'. insert_stage (with_log env) alloc ts s = Inr s' \<and> out_buf s' = out_buf s \<and>
    executed s' = rev (insertions (out_buf s) ts [0..<length (out_buf s) + 1]) @ executed s"
proof -
  have r: "roomy (out_buf s) ts ex" using assms(5,6) by (simp add: roomy_def)
  have "insert_cases env (out_buf s) ts [0..<length (out_buf s) + 1] ex = insertions (out_buf s) ts [0..<length (out_buf s) + 1]"
    using assms(2,3,5) r by (intro insert_cases_effective) simp_all
  with insert_stage_log [where alloc = alloc and ex = ex, OF assms(1) r assms(4)] show ?thesis by simp
qed

theorem insert_stage_exact_witness:
  "\<exists>s'. insert_stage (with_log (idle_env [1])) (\<lambda>n x. Some (replicate n 0xAA)) [[7], [8, 9]] (idle_start [0x41]) = Inr s' \<and>
    executed s' = rev [[7, 0x41], [8, 9, 0x41], [0x41, 7], [0x41, 8, 9]]"
proof -
  have "\<forall>i<length (out_buf (idle_start [0x41])). effective (idle_env [1]) i"
    by (simp add: idle_start_def idle_env_def bitmap_read_def)
  moreover have "insertions [0x41] [[7], [8, 9]] [0..<2] = [[7, 0x41], [8, 9, 0x41], [0x41, 7], [0x41, 8, 9 :: u8]]"
    by (simp add: insertions_def fitting_def upt_rec)
  ultimately show ?thesis
    using insert_stage_exact [OF tireless_idle, of "idle_start [0x41]" "[1]" "\<lambda>n x. Some (replicate n 0xAA)" "replicate 129 0xAA" "[[7], [8, 9]]"]
    by (auto simp: idle_start_def numeral_2_eq_2)
qed

text \<open>
  If the first byte is not effective, every test case that insertion executes starts with the byte the scratch buffer happened to hold,
  not with the first byte of the test case: the head is copied byte by byte at the end of the loop body, which is skipped for bytes that are not
  effective.
\<close>
theorem insert_stage_stale:
  assumes "tireless env" "\<not> effective env 0" "out_buf s \<noteq> []"
    and "alloc (length (out_buf s) + MAX_DICT_FILE) (fuzzer s) = Some ex" "length ex = length (out_buf s) + MAX_DICT_FILE"
    and "\<forall>t\<in>set ts. length t \<le> MAX_DICT_FILE"
  shows "\<exists>s' L. insert_stage (with_log env) alloc ts s = Inr s' \<and> executed s' = L @ executed s \<and> (\<forall>x\<in>set L. hd x = hd ex)"
proof -
  have r: "roomy (out_buf s) ts ex" using assms(5,6) by (simp add: roomy_def)
  have "hd x = hd ex" if "x \<in> set (insert_cases env (out_buf s) ts [0..<length (out_buf s) + 1] ex)" for x
    using assms(3,5) that by (intro insert_cases_stale [OF assms(2) _ _ r]) auto
  with insert_stage_log [where alloc = alloc and ex = ex, OF assms(1) r assms(4)] show ?thesis by fastforce
qed

theorem insert_stage_stale_witness:
  "\<exists>s' L. insert_stage (with_log (idle_env [2])) (\<lambda>n x. Some (replicate n 0xAA)) [[7]] (idle_start [0x41, 0x42]) = Inr s' \<and>
    executed s' = L \<and> (\<forall>x\<in>set L. hd x = 0xAA)"
proof -
  have "\<not> effective (idle_env [2]) 0" by (simp add: idle_env_def bitmap_read_def bit_iff_odd)
  then show ?thesis
    using insert_stage_stale [OF tireless_idle, of "[2]" "idle_start [0x41, 0x42]" "\<lambda>n x. Some (replicate n 0xAA)" "replicate 130 0xAA" "[[7]]"]
    by (simp add: idle_start_def)
qed

end
