(* ===== verification/Extras.thy ===== *)
theory Extras
  imports Det "HOL-Library.Multiset"
begin

text \<open>
  Dictionaries, \<^verbatim>\<open>AFLplusplus/src/afl-fuzz-extras.c\<close>: reading token files, decoding UTF-16 and UTF-32 tokens, removing duplicates, adding user
  tokens and the table of automatic tokens with its use counts, and saving and loading the latter. \<^verbatim>\<open>qsort\<close> is a parameter, since it may order equal
  elements as it likes; warnings are left out; memory is taken to suffice.
\<close>

section \<open>State\<close>

record auto_extra =
  data :: bytes
  hit_cnt :: u32

record extras_state =
  user_tokens :: "bytes list"
  auto_tokens :: "auto_extra list"
  auto_changed :: bool

text \<open>\<^verbatim>\<open>qsort\<close> with the three comparisons of the source.\<close>

record sorting =
  by_len :: "bytes list \<Rightarrow> bytes list"
  by_use :: "auto_extra list \<Rightarrow> auto_extra list"
  by_auto_len :: "auto_extra list \<Rightarrow> auto_extra list"

text \<open>Its contract: a permutation in the order of the comparison.\<close>

definition sorts :: "('a \<Rightarrow> 'k::linorder) \<Rightarrow> ('a list \<Rightarrow> 'a list) \<Rightarrow> bool" where
  "sorts key q \<longleftrightarrow> (\<forall>xs. mset (q xs) = mset xs \<and> sorted (map key (q xs)))"

definition sorting_ok :: "sorting \<Rightarrow> bool" where
  "sorting_ok q \<longleftrightarrow> sorts length (by_len q) \<and> sorts (\<lambda>a. - int (unat (hit_cnt a))) (by_use q) \<and>
     sorts (\<lambda>a. length (data a)) (by_auto_len q)"

section \<open>Characters\<close>

text \<open>The functions of \<^verbatim>\<open>ctype.h\<close> in the C locale.\<close>

definition isspace :: "u8 \<Rightarrow> bool" where
  "isspace c \<longleftrightarrow> c = 32 \<or> 9 \<le> c \<and> c \<le> 13"

definition isdigit :: "u8 \<Rightarrow> bool" where
  "isdigit c \<longleftrightarrow> 48 \<le> c \<and> c \<le> 57"

definition isalnum :: "u8 \<Rightarrow> bool" where
  "isalnum c \<longleftrightarrow> isdigit c \<or> 65 \<le> c \<and> c \<le> 90 \<or> 97 \<le> c \<and> c \<le> 122"

definition isxdigit :: "u8 \<Rightarrow> bool" where
  "isxdigit c \<longleftrightarrow> isdigit c \<or> 65 \<le> c \<and> c \<le> 70 \<or> 97 \<le> c \<and> c \<le> 102"

definition tolower :: "u8 \<Rightarrow> u8" where
  "tolower c = (if 65 \<le> c \<and> c \<le> 90 then c + 32 else c)"

definition memcmp_nocase :: "bytes \<Rightarrow> bytes \<Rightarrow> bool" where
  "memcmp_nocase m1 m2 \<longleftrightarrow> map tolower m1 \<noteq> map tolower m2"

section \<open>Token files\<close>

text \<open>\<^verbatim>\<open>fgets\<close> with a buffer of \<^verbatim>\<open>MAX_LINE\<close> bytes, and the string it leaves, which ends at the first zero byte.\<close>

abbreviation (input) MAX_LINE :: nat where "MAX_LINE \<equiv> 8192"

definition line_length :: "bytes \<Rightarrow> nat" where
  "line_length bs = min (MAX_LINE - 1) (let n = length (takeWhile (\<lambda>c. c \<noteq> 10) bs) in if n < length bs then n + 1 else n)"

lemma line_length_pos: "bs \<noteq> [] \<Longrightarrow> 0 < line_length bs"
  by (cases bs) (auto simp: line_length_def Let_def)

function fgets_lines :: "bytes \<Rightarrow> bytes list" where
  "fgets_lines bs = (if bs = [] then [] else take (line_length bs) bs # fgets_lines (drop (line_length bs) bs))"
  by pat_completeness auto
termination
  by (relation "measure length") (simp_all add: line_length_pos)

declare fgets_lines.simps [simp del]

definition c_string :: "bytes \<Rightarrow> bytes" where
  "c_string bs = takeWhile (\<lambda>c. c \<noteq> 0) bs"

definition strip :: "bytes \<Rightarrow> bytes" where
  "strip bs = rev (dropWhile isspace (rev (dropWhile isspace bs)))"

text \<open>\<^verbatim>\<open>atoi\<close>: white space, a sign, digits.\<close>

definition digits_value :: "bytes \<Rightarrow> int" where
  "digits_value bs = foldl (\<lambda>n c. 10 * n + (int (unat c) - 48)) 0 (takeWhile isdigit bs)"

definition atoi :: "bytes \<Rightarrow> int" where
  "atoi bs = (case dropWhile isspace bs of
     [] \<Rightarrow> 0
   | c # cs \<Rightarrow> if c = 45 then - digits_value cs else if c = 43 then digits_value cs else digits_value (c # cs))"

definition hex_value :: "u8 \<Rightarrow> u8" where
  "hex_value c = (let d = tolower c in if isdigit d then d - 48 else d - 87)"

text \<open>The keyword between the quotes: raw characters, \<^verbatim>\<open>\\\<close>, \<^verbatim>\<open>\"\<close> and \<^verbatim>\<open>\xNN\<close>; other control characters, and the backslash of any other escape, are dropped.\<close>

fun unescape :: "bytes \<Rightarrow> bytes" where
  "unescape [] = []"
| "unescape (c # cs) =
     (if c < 32 \<or> 128 \<le> c then unescape cs
      else if c = 92 then
        (case cs of
           [] \<Rightarrow> []
         | d # ds \<Rightarrow>
             if d = 92 \<or> d = 34 then d # unescape ds
             else (case ds of
                 x # y # rest \<Rightarrow>
                   if d = 120 \<and> isxdigit x \<and> isxdigit y then (push_bit 4 (hex_value x) OR hex_value y) # unescape rest
                   else unescape cs
               | _ \<Rightarrow> unescape cs))
      else c # unescape cs)"

text \<open>One line. The level after \<^verbatim>\<open>@\<close> and the number in brackets are optional.\<close>

datatype dict_line = Ignored | Malformed | Above_Level | Empty_Keyword | Keyword bytes

definition skip_label :: "bytes \<Rightarrow> bytes" where
  "skip_label bs = dropWhile (\<lambda>c. isalnum c \<or> c = 95) bs"

definition skip_bracket :: "bytes \<Rightarrow> bytes" where
  "skip_bracket bs = (case bs of
     c # cs \<Rightarrow> if c = 91 then (case dropWhile isdigit cs of d # ds \<Rightarrow> if d = 93 then ds else d # ds | [] \<Rightarrow> []) else bs
   | [] \<Rightarrow> [])"

definition parse_value :: "bytes \<Rightarrow> dict_line" where
  "parse_value bs = (case dropWhile (\<lambda>c. isspace c \<or> c = 61) (skip_bracket bs) of
     c # cs \<Rightarrow> if c \<noteq> 34 then Malformed else if cs = [] then Empty_Keyword else Keyword (unescape cs)
   | [] \<Rightarrow> Malformed)"

definition parse_line :: "int \<Rightarrow> bytes \<Rightarrow> dict_line" where
  "parse_line dict_level line =
     (let s = strip (c_string line)
      in if s = [] \<or> hd s = 35 then Ignored
         else if last s \<noteq> 34 then Malformed
         else (case skip_label (butlast s) of
             c # cs \<Rightarrow> if c = 64 then (if atoi cs > dict_level then Above_Level else parse_value (dropWhile isdigit cs))
                        else parse_value (c # cs)
           | [] \<Rightarrow> parse_value []))"

definition keep_line :: "int \<Rightarrow> bytes \<Rightarrow> bytes list" where
  "keep_line dict_level line = (case parse_line dict_level line of
     Keyword t \<Rightarrow> if 128 < length t then [] else [t]
   | _ \<Rightarrow> [])"

definition load_extras_file :: "int \<Rightarrow> bytes \<Rightarrow> extras_state \<Rightarrow> extras_state" where
  "load_extras_file dict_level contents st =
     st\<lparr>user_tokens := user_tokens st @ concat (map (keep_line dict_level) (fgets_lines contents))\<rparr>"

definition extras_check_and_sort :: "sorting \<Rightarrow> extras_state \<Rightarrow> extras_state" where
  "extras_check_and_sort q st = (if user_tokens st = [] then st else st\<lparr>user_tokens := by_len q (user_tokens st)\<rparr>)"

text \<open>
  \<^verbatim>\<open>load_extras\<close>: a file, with a level after an \<^verbatim>\<open>@\<close> in its name, or a directory with one token per regular file. The file system
  tells what a name stands for; the entries of a directory are taken to be readable.
\<close>

datatype dict_source = Not_A_Directory | Directory "(bool \<times> bytes) list" | Opendir_Failed

datatype extras_error = Unable_To_Open | Levels_Not_Supported

record files =
  opendir :: "string \<Rightarrow> dict_source"
  fopen :: "string \<Rightarrow> bytes option"

definition add_file :: "extras_state \<Rightarrow> bool \<times> bytes \<Rightarrow> extras_state" where
  "add_file st f = (case f of (regular, contents) \<Rightarrow>
     if \<not> regular \<or> contents = [] \<or> 128 < length contents then st
     else st\<lparr>user_tokens := user_tokens st @ [contents]\<rparr>)"

definition load_extras :: "sorting \<Rightarrow> files \<Rightarrow> string \<Rightarrow> extras_state \<Rightarrow> extras_error + extras_state" where
  "load_extras q fs dir st =
     (let name = takeWhile (\<lambda>c. c \<noteq> CHR ''@'') dir;
          level = (if CHR ''@'' \<in> set dir then atoi (map of_char (tl (dropWhile (\<lambda>c. c \<noteq> CHR ''@'') dir))) else 0)
      in case opendir fs name of
           Not_A_Directory \<Rightarrow>
             (case fopen fs name of
                None \<Rightarrow> Inl Unable_To_Open
              | Some contents \<Rightarrow> Inr (extras_check_and_sort q (load_extras_file level contents st)))
         | Opendir_Failed \<Rightarrow> Inl Unable_To_Open
         | Directory entries \<Rightarrow>
             if CHR ''@'' \<in> set dir then Inl Levels_Not_Supported
             else Inr (extras_check_and_sort q (foldl add_file st entries)))"

section \<open>User tokens\<close>

definition add_extra_nocheck :: "bytes \<Rightarrow> extras_state \<Rightarrow> extras_state" where
  "add_extra_nocheck mem st = st\<lparr>user_tokens := user_tokens st @ [mem]\<rparr>"

text \<open>\<^verbatim>\<open>deunicode_extras\<close>: zero bytes are counted by their position modulo four, and the bytes of one position are kept.\<close>

definition zeros_at :: "nat \<Rightarrow> bytes \<Rightarrow> nat" where
  "zeros_at r t = length (filter (\<lambda>j. j mod 4 = r \<and> t ! j = 0) [0..<length t])"

definition every_nth :: "nat \<Rightarrow> nat \<Rightarrow> bytes \<Rightarrow> bytes" where
  "every_nth n r t = map ((!) t) (filter (\<lambda>j. j mod n = r) [0..<length t])"

definition decoded :: "bytes \<Rightarrow> bytes list" where
  "decoded t =
     (if length t < 6 \<or> 64 < length t \<or> odd (length t) then []
      else let z3 = zeros_at 2 t; z1 = zeros_at 0 t + z3; z4 = zeros_at 3 t; z2 = zeros_at 1 t + z4;
               half = length t div 2; quarter = half div 2
           in if (z1 < half \<and> z2 < half) \<or> z1 + z2 = length t then []
              else (if length t mod 4 = 0 \<and> 12 \<le> length t \<and> (z3 = quarter \<or> z4 = quarter) \<and> z1 + z2 = quarter * 3
                    then [every_nth 4 (if z4 < quarter then 3 else if z3 < quarter then 2 else if z2 < half then 1 else 0) t] else []) @
                   [every_nth 2 (if z1 < half then 0 else 1) t])"

definition deunicode_extras :: "sorting \<Rightarrow> extras_state \<Rightarrow> extras_state" where
  "deunicode_extras q st =
     (if user_tokens st = [] then st
      else let st = fold add_extra_nocheck (concat (map decoded (user_tokens st))) st
           in st\<lparr>user_tokens := by_len q (user_tokens st)\<rparr>)"

text \<open>\<^verbatim>\<open>dedup_extras\<close>: behind each token, equal ones are removed up to the first one of another length.\<close>

fun drop_equal :: "bytes \<Rightarrow> bytes list \<Rightarrow> bytes list" where
  "drop_equal t [] = []"
| "drop_equal t (u # us) =
     (if length u \<noteq> length t then u # us else if u = t then drop_equal t us else u # drop_equal t us)"

lemma length_drop_equal: "length (drop_equal t us) \<le> length us"
  by (induction us) auto

function dedup :: "bytes list \<Rightarrow> bytes list" where
  "dedup [] = []"
| "dedup (t # ts) = t # dedup (drop_equal t ts)"
  by pat_completeness auto
termination by (relation "measure length") (simp_all add: le_imp_less_Suc length_drop_equal)

definition dedup_extras :: "extras_state \<Rightarrow> extras_state" where
  "dedup_extras st = st\<lparr>user_tokens := dedup (user_tokens st)\<rparr>"

text \<open>\<^verbatim>\<open>add_extra\<close>: the search stops behind the tokens of the same length.\<close>

fun has_extra :: "bytes \<Rightarrow> bool \<Rightarrow> bytes list \<Rightarrow> bool" where
  "has_extra mem found [] = False"
| "has_extra mem found (t # ts) =
     (if length t = length mem then t = mem \<or> has_extra mem True ts else \<not> found \<and> has_extra mem found ts)"

definition add_extra :: "sorting \<Rightarrow> bytes \<Rightarrow> extras_state \<Rightarrow> extras_state" where
  "add_extra q mem st =
     (if has_extra mem False (user_tokens st) \<or> 128 < length mem then st
      else let st = add_extra_nocheck mem st in st\<lparr>user_tokens := by_len q (user_tokens st)\<rparr>)"

section \<open>Automatic tokens\<close>

abbreviation (input) MAX_AUTO_EXTRAS :: nat where "MAX_AUTO_EXTRAS \<equiv> 32768"
abbreviation (input) USE_AUTO_EXTRAS :: nat where "USE_AUTO_EXTRAS \<equiv> 4096"

text \<open>The comparison with the built-in values; a 16-bit value is compared with a sign-extended one first.\<close>

definition builtin :: "bytes \<Rightarrow> bool" where
  "builtin mem \<longleftrightarrow>
     length mem = 2 \<and> list_ex (\<lambda>v. int (unat (le_word mem :: u16)) = v \<or> (le_word mem :: u16) = SWAP16 (of_int v)) interesting_16 \<or>
     length mem = 4 \<and> list_ex (\<lambda>v. (le_word mem :: u32) = of_int v \<or> (le_word mem :: u32) = SWAP32 (of_int v)) interesting_32"

text \<open>The user tokens of the same length, found by their order.\<close>

definition matches_extra :: "bytes \<Rightarrow> bytes list \<Rightarrow> bool" where
  "matches_extra mem ts \<longleftrightarrow>
     list_ex (\<lambda>t. \<not> memcmp_nocase t mem)
       (takeWhile (\<lambda>t. length t = length mem) (dropWhile (\<lambda>t. length t < length mem) ts))"

fun hit :: "bytes \<Rightarrow> auto_extra list \<Rightarrow> auto_extra list option" where
  "hit mem [] = None"
| "hit mem (a # as) =
     (if length (data a) = length mem \<and> \<not> memcmp_nocase (data a) mem then Some (a\<lparr>hit_cnt := hit_cnt a + 1\<rparr> # as)
      else map_option ((#) a) (hit mem as))"

definition sort_auto :: "sorting \<Rightarrow> auto_extra list \<Rightarrow> auto_extra list" where
  "sort_auto q as =
     (let as = by_use q as; n = min USE_AUTO_EXTRAS (length as)
      in by_auto_len q (take n as) @ drop n as)"

text \<open>\<open>r\<close> is the result of \<^verbatim>\<open>rand_below\<close> that chooses the token to evict from a full table.\<close>

definition maybe_add_auto :: "sorting \<Rightarrow> nat \<Rightarrow> bytes \<Rightarrow> extras_state \<Rightarrow> extras_state" where
  "maybe_add_auto q r mem st =
     (if mem \<noteq> [] \<and> list_all (\<lambda>c. c = hd mem) (tl mem) \<or> 32 < length mem \<or> builtin mem \<or> matches_extra mem (user_tokens st) then st
      else let as = auto_tokens st;
               as = (case hit mem as of
                       Some as \<Rightarrow> as
                     | None \<Rightarrow>
                         if length as < MAX_AUTO_EXTRAS then as @ [\<lparr>data = mem, hit_cnt = 0\<rparr>]
                         else as[MAX_AUTO_EXTRAS div 2 + r := \<lparr>data = mem, hit_cnt = 0\<rparr>])
           in st\<lparr>auto_tokens := sort_auto q as, auto_changed := True\<rparr>)"

text \<open>Saving and loading. The files \<^verbatim>\<open>auto_000000\<close>, \<^verbatim>\<open>auto_000001\<close>, ... are a list; loading stops at the first one that is missing and skips those of unusual length.\<close>

definition save_auto :: "extras_state \<Rightarrow> bytes list \<Rightarrow> extras_state \<times> bytes list" where
  "save_auto st fs =
     (if auto_changed st
      then let out = map data (take USE_AUTO_EXTRAS (auto_tokens st))
           in (st\<lparr>auto_changed := False\<rparr>, out @ drop (length out) fs)
      else (st, fs))"

definition load_auto_file :: "sorting \<Rightarrow> nat \<times> bytes \<Rightarrow> extras_state \<Rightarrow> extras_state" where
  "load_auto_file q rf st = (case rf of (r, f) \<Rightarrow>
     let tmp = take 33 f in if 3 \<le> length tmp \<and> length tmp \<le> 32 then maybe_add_auto q r tmp st else st)"

definition load_auto :: "sorting \<Rightarrow> (nat \<times> bytes) list \<Rightarrow> extras_state \<Rightarrow> extras_state" where
  "load_auto q fs st = fold (load_auto_file q) (take USE_AUTO_EXTRAS fs) st"

end
