(* ===== verification/Extras_Props.thy ===== *)
theory Extras_Props
  imports Extras
begin

text \<open>
  What the dictionaries promise: along every sequence of operations the user tokens are sorted by length and short enough, and the table of
  automatic tokens has the most used ones first, these sorted by length, and no two equal up to case; token files can be written and read back;
  UTF-16 and UTF-32 tokens are decoded; saved automatic tokens are loaded again.
\<close>

section \<open>User tokens\<close>

definition short_tokens :: "extras_state \<Rightarrow> bool" where
  "short_tokens st \<longleftrightarrow> (\<forall>t\<in>set (user_tokens st). length t \<le> 128)"

definition user_ok :: "extras_state \<Rightarrow> bool" where
  "user_ok st \<longleftrightarrow> sorted (map length (user_tokens st)) \<and> short_tokens st"

lemma sortsD: "sorts key q \<Longrightarrow> mset (q xs) = mset xs" "sorts key q \<Longrightarrow> sorted (map key (q xs))"
  by (simp_all add: sorts_def)

lemma sorts_set: "sorts key q \<Longrightarrow> set (q xs) = set xs"
  using mset_eq_setD sortsD(1) by blast

lemma sorts_length: "sorts key q \<Longrightarrow> length (q xs) = length xs"
  using mset_eq_length sortsD(1) by blast

lemma by_len_ok: "sorting_ok q \<Longrightarrow> sorts length (by_len q)"
  by (simp add: sorting_ok_def)

lemma by_auto_len_ok: "sorting_ok q \<Longrightarrow> sorts (\<lambda>a. length (data a)) (by_auto_len q)"
  by (simp add: sorting_ok_def)

lemma user_ok_sorted:
  assumes "sorting_ok q" "\<forall>t\<in>set ts. length t \<le> 128"
  shows "user_ok (st\<lparr>user_tokens := by_len q ts\<rparr>)"
  using assms sortsD(2) [OF by_len_ok [OF assms(1)]] sorts_set [OF by_len_ok [OF assms(1)]]
  by (simp add: user_ok_def short_tokens_def)

lemma keep_line_short: "t \<in> set (keep_line level line) \<Longrightarrow> length t \<le> 128"
  by (auto simp: keep_line_def split: dict_line.splits if_splits)

lemma load_extras_file_short: "short_tokens st \<Longrightarrow> short_tokens (load_extras_file level contents st)"
  by (auto simp: load_extras_file_def short_tokens_def dest: keep_line_short)

lemma add_file_short: "short_tokens st \<Longrightarrow> short_tokens (add_file st f)"
  by (cases f) (auto simp: add_file_def short_tokens_def)

lemma add_files_short: "short_tokens st \<Longrightarrow> short_tokens (foldl add_file st fs)"
  by (induction fs arbitrary: st) (simp_all add: add_file_short)

lemma check_and_sort_ok: "sorting_ok q \<Longrightarrow> short_tokens st \<Longrightarrow> user_ok (extras_check_and_sort q st)"
  using user_ok_sorted [of q "user_tokens st" st]
  by (cases "user_tokens st = []") (simp_all add: extras_check_and_sort_def short_tokens_def, simp add: user_ok_def short_tokens_def)

lemma load_extras_ok:
  assumes "sorting_ok q" "user_ok st" "load_extras q fs dir st = Inr st'"
  shows "user_ok st'"
proof -
  have s: "short_tokens st" using assms(2) by (simp add: user_ok_def)
  from assms(3) consider level contents where "st' = extras_check_and_sort q (load_extras_file level contents st)"
    | entries where "st' = extras_check_and_sort q (foldl add_file st entries)"
    by (auto simp: load_extras_def Let_def split: dict_source.splits option.splits if_splits)
  then show ?thesis by cases (simp_all add: check_and_sort_ok assms(1) load_extras_file_short add_files_short s)
qed

lemma length_every_nth: "length (every_nth n r t) \<le> length t"
  unfolding every_nth_def using length_filter_le [of "\<lambda>j. j mod n = r" "[0..<length t]"] by simp

lemma decoded_short: "u \<in> set (decoded t) \<Longrightarrow> length u \<le> 64"
proof (cases "length t < 6 \<or> 64 < length t \<or> odd (length t)")
  case False
  assume "u \<in> set (decoded t)"
  then obtain n r where "u = every_nth n r t" using False by (auto simp: decoded_def Let_def split: if_splits)
  then show ?thesis using False length_every_nth [of n r t] by simp
qed (simp add: decoded_def)

lemma fold_nocheck: "user_tokens (fold add_extra_nocheck ts st) = user_tokens st @ ts"
  by (induction ts arbitrary: st) (simp_all add: add_extra_nocheck_def)

lemma deunicode_ok:
  assumes "sorting_ok q" "user_ok st"
  shows "user_ok (deunicode_extras q st)"
proof (cases "user_tokens st = []")
  case True
  then show ?thesis using assms(2) by (simp add: deunicode_extras_def)
next
  case False
  have "length t \<le> 128" if "t \<in> set (user_tokens st @ concat (map decoded (user_tokens st)))" for t
    using that assms(2) decoded_short [of t] by (fastforce simp: user_ok_def short_tokens_def)
  then show ?thesis using False user_ok_sorted [OF assms(1)] by (simp add: deunicode_extras_def Let_def fold_nocheck)
qed

text \<open>On tokens sorted by length, the scans that stop early see everything they have to.\<close>

lemma drop_equal_eq: "sorted (map length (t # us)) \<Longrightarrow> drop_equal t us = filter (\<lambda>u. u \<noteq> t) us"
proof (induction us)
  case (Cons u us)
  show ?case
  proof (cases "length u = length t")
    case True
    then show ?thesis using Cons by auto
  next
    case False
    then have "\<forall>v\<in>set (u # us). v \<noteq> t" using Cons.prems by fastforce
    then have "filter (\<lambda>u. u \<noteq> t) (u # us) = u # us" by (simp only: filter_id_conv)
    then show ?thesis using False by simp
  qed
qed simp

lemma dedup_eq:
  assumes "sorted (map length ts)"
  shows "set (dedup ts) = set ts \<and> distinct (dedup ts) \<and> sorted (map length (dedup ts))"
  using assms
proof (induction ts rule: dedup.induct)
  case (2 t ts)
  have f: "drop_equal t ts = filter (\<lambda>u. u \<noteq> t) ts" by (rule drop_equal_eq [OF 2(2)])
  have "sorted (map length (filter (\<lambda>u. u \<noteq> t) ts))" using 2(2) by (simp add: sorted_filter)
  with 2(1) show ?case using 2(2) by (auto simp: f)
qed simp

lemma dedup_ok: "user_ok st \<Longrightarrow> user_ok (dedup_extras st)"
  using dedup_eq [of "user_tokens st"] by (simp add: user_ok_def dedup_extras_def short_tokens_def)

lemma has_extra_found: "sorted (map length ts) \<Longrightarrow> \<forall>t\<in>set ts. length mem \<le> length t \<Longrightarrow> has_extra mem True ts = (mem \<in> set ts)"
proof (induction ts)
  case (Cons t ts)
  show ?case
  proof (cases "length t = length mem")
    case True
    then show ?thesis using Cons by auto
  next
    case False
    then have "length mem < length t" using Cons.prems(2) by simp
    then have "mem \<notin> set (t # ts)" using Cons.prems(1) by auto
    then show ?thesis using False by simp
  qed
qed simp

lemma has_extra_eq: "sorted (map length ts) \<Longrightarrow> has_extra mem False ts = (mem \<in> set ts)"
proof (induction ts)
  case (Cons t ts)
  then show ?case using has_extra_found [of ts mem] by auto
qed simp

lemma add_extra_ok:
  assumes "sorting_ok q" "user_ok st"
  shows "user_ok (add_extra q mem st)"
proof (cases "has_extra mem False (user_tokens st) \<or> 128 < length mem")
  case False
  then have "\<forall>t\<in>set (user_tokens st @ [mem]). length t \<le> 128" using assms(2) by (auto simp: user_ok_def short_tokens_def)
  then show ?thesis using False user_ok_sorted [OF assms(1)] by (simp add: add_extra_def Let_def add_extra_nocheck_def)
qed (simp add: add_extra_def assms(2))

section \<open>Automatic tokens\<close>

abbreviation folded :: "auto_extra \<Rightarrow> bytes" where
  "folded a \<equiv> map tolower (data a)"

definition accepted :: "bytes \<Rightarrow> bool" where
  "accepted mem \<longleftrightarrow> \<not> (mem \<noteq> [] \<and> list_all (\<lambda>c. c = hd mem) (tl mem)) \<and> length mem \<le> 32 \<and> \<not> builtin mem"

definition auto_ok :: "extras_state \<Rightarrow> bool" where
  "auto_ok st \<longleftrightarrow> length (auto_tokens st) \<le> MAX_AUTO_EXTRAS \<and> (\<forall>a\<in>set (auto_tokens st). accepted (data a)) \<and>
     distinct (map folded (auto_tokens st)) \<and>
     sorted (map (\<lambda>a. length (data a)) (take USE_AUTO_EXTRAS (auto_tokens st))) \<and>
     (\<forall>a\<in>set (take USE_AUTO_EXTRAS (auto_tokens st)). \<forall>b\<in>set (drop USE_AUTO_EXTRAS (auto_tokens st)). hit_cnt b \<le> hit_cnt a)"

lemma sort_auto_mset: "sorting_ok q \<Longrightarrow> mset (sort_auto q as) = mset as"
  using sortsD(1) [of _ "by_use q"] sortsD(1) [of _ "by_auto_len q"]
  by (metis (no_types, lifting) append_take_drop_id mset_append sort_auto_def sorting_ok_def)

lemma sort_auto_parts:
  assumes "sorting_ok q"
  shows "take USE_AUTO_EXTRAS (sort_auto q as) = by_auto_len q (take USE_AUTO_EXTRAS (by_use q as))"
    "drop USE_AUTO_EXTRAS (sort_auto q as) = drop USE_AUTO_EXTRAS (by_use q as)"
proof -
  let ?bs = "by_use q as" and ?n = "min USE_AUTO_EXTRAS (length (by_use q as))"
  have l: "length (by_auto_len q (take ?n ?bs)) = ?n"
    using sorts_length [OF by_auto_len_ok [OF assms]] by simp
  have "take ?n ?bs = take USE_AUTO_EXTRAS ?bs" "drop ?n ?bs = drop USE_AUTO_EXTRAS ?bs" by (simp_all add: min_def)
  then show "take USE_AUTO_EXTRAS (sort_auto q as) = by_auto_len q (take USE_AUTO_EXTRAS ?bs)"
    "drop USE_AUTO_EXTRAS (sort_auto q as) = drop USE_AUTO_EXTRAS ?bs"
    using l by (simp_all add: sort_auto_def Let_def min_def)
qed

lemma sort_auto_sorted:
  "sorting_ok q \<Longrightarrow> sorted (map (\<lambda>a. length (data a)) (take USE_AUTO_EXTRAS (sort_auto q as)))"
  by (simp add: sort_auto_parts(1)) (simp add: sorting_ok_def sorts_def)

lemma sort_auto_ranked:
  assumes "sorting_ok q" "a \<in> set (take USE_AUTO_EXTRAS (sort_auto q as))" "b \<in> set (drop USE_AUTO_EXTRAS (sort_auto q as))"
  shows "hit_cnt b \<le> hit_cnt a"
proof -
  let ?bs = "by_use q as" and ?key = "\<lambda>a. - int (unat (hit_cnt a))"
  have "a \<in> set (take USE_AUTO_EXTRAS ?bs)"
    using assms(2) by (simp add: sort_auto_parts [OF assms(1)] sorts_set [OF by_auto_len_ok [OF assms(1)]])
  moreover have "b \<in> set (drop USE_AUTO_EXTRAS ?bs)" using assms(1,3) by (simp add: sort_auto_parts)
  moreover have "sorted (map ?key (take USE_AUTO_EXTRAS ?bs @ drop USE_AUTO_EXTRAS ?bs))"
    using assms(1) unfolding append_take_drop_id by (simp add: sorting_ok_def sorts_def)
  ultimately have "?key a \<le> ?key b" unfolding map_append sorted_append by auto
  then show ?thesis by (simp add: word_le_def)
qed

text \<open>Any change that keeps the size, the lengths and the distinctness is put in order by sorting.\<close>

lemma auto_ok_sorted:
  assumes "sorting_ok q" "length as \<le> MAX_AUTO_EXTRAS" "\<forall>a\<in>set as. accepted (data a)" "distinct (map folded as)"
  shows "auto_ok (st\<lparr>auto_tokens := sort_auto q as, auto_changed := c\<rparr>)"
proof -
  have m: "mset (sort_auto q as) = mset as" by (rule sort_auto_mset [OF assms(1)])
  then have "set (sort_auto q as) = set as" "length (sort_auto q as) = length as" by (auto dest: mset_eq_setD mset_eq_length)
  moreover have "distinct (map folded (sort_auto q as))"
    using m assms(4) by (metis mset_eq_imp_distinct_iff mset_map)
  ultimately show ?thesis
    using assms(2,3) sort_auto_sorted [OF assms(1)] sort_auto_ranked [OF assms(1)] by (simp add: auto_ok_def)
qed

lemma hit_None: "hit mem as = None \<longleftrightarrow> (\<forall>a\<in>set as. folded a \<noteq> map tolower mem)"
  by (induction as) (auto simp: memcmp_nocase_def dest: map_eq_imp_length_eq)

lemma hit_Some:
  assumes "hit mem as = Some bs"
  shows "map data bs = map data as"
  using assms by (induction as arbitrary: bs) (auto split: if_splits)

lemma maybe_add_auto_ok:
  assumes "sorting_ok q" "auto_ok st" "r < MAX_AUTO_EXTRAS div 2"
  shows "auto_ok (maybe_add_auto q r mem st)"
proof -
  let ?as = "auto_tokens st"
  define bs where "bs = (case hit mem ?as of Some as \<Rightarrow> as
    | None \<Rightarrow> if length ?as < MAX_AUTO_EXTRAS then ?as @ [\<lparr>data = mem, hit_cnt = 0\<rparr>]
        else ?as[MAX_AUTO_EXTRAS div 2 + r := \<lparr>data = mem, hit_cnt = 0\<rparr>])"
  have st: "length ?as \<le> MAX_AUTO_EXTRAS" "\<forall>a\<in>set ?as. accepted (data a)" "distinct (map folded ?as)"
    using assms(2) by (simp_all add: auto_ok_def)
  have "length bs \<le> MAX_AUTO_EXTRAS \<and> (\<forall>a\<in>set bs. accepted (data a)) \<and> distinct (map folded bs)" if "accepted mem"
  proof (cases "hit mem ?as")
    case None
    then have new: "map tolower mem \<notin> set (map folded ?as)" by (auto simp: hit_None)
    show ?thesis
    proof (cases "length ?as < MAX_AUTO_EXTRAS")
      case True
      then show ?thesis using None st that new by (simp add: bs_def)
    next
      case False
      let ?bs = "?as[MAX_AUTO_EXTRAS div 2 + r := \<lparr>data = mem, hit_cnt = 0\<rparr>]"
      have "bs = ?bs" using None False by (simp add: bs_def)
      moreover have "distinct (map folded ?bs)"
        unfolding map_update using st(3) new by (intro distinct_list_update) auto
      moreover have "set ?bs \<subseteq> insert \<lparr>data = mem, hit_cnt = 0\<rparr> (set ?as)" by (rule set_update_subset_insert)
      ultimately show ?thesis using st(1,2) that by auto
    qed
  next
    case (Some as)
    have d: "map data as = map data ?as" by (rule hit_Some [OF Some])
    have "map folded xs = map (map tolower) (map data xs)" for xs by simp
    then have "map folded as = map folded ?as" by (simp only: d)
    moreover have "(\<forall>a\<in>set as. accepted (data a)) \<longleftrightarrow> (\<forall>t\<in>set (map data as). accepted t)" by simp
    ultimately show ?thesis using st Some d map_eq_imp_length_eq [OF d] by (simp add: bs_def)
  qed
  then show ?thesis
    using assms(1,2) auto_ok_sorted [OF assms(1), of bs]
    by (auto simp: maybe_add_auto_def Let_def bs_def [symmetric] accepted_def not_less)
qed

lemma maybe_add_auto_user [simp]: "user_tokens (maybe_add_auto q r mem st) = user_tokens st"
  by (simp add: maybe_add_auto_def Let_def)

section \<open>Every sequence of operations\<close>

text \<open>The operations in any order, as the set-up of the fuzzer and the stages that find tokens call them.\<close>

inductive dictionaries :: "sorting \<Rightarrow> extras_state \<Rightarrow> bool" for q where
  start: "dictionaries q \<lparr>user_tokens = [], auto_tokens = [], auto_changed = False\<rparr>"
| load: "dictionaries q st \<Longrightarrow> load_extras q fs dir st = Inr st' \<Longrightarrow> dictionaries q st'"
| deunicode: "dictionaries q st \<Longrightarrow> dictionaries q (deunicode_extras q st)"
| unique: "dictionaries q st \<Longrightarrow> dictionaries q (dedup_extras st)"
| add: "dictionaries q st \<Longrightarrow> dictionaries q (add_extra q mem st)"
| auto: "dictionaries q st \<Longrightarrow> r < MAX_AUTO_EXTRAS div 2 \<Longrightarrow> dictionaries q (maybe_add_auto q r mem st)"
| save: "dictionaries q st \<Longrightarrow> dictionaries q (fst (save_auto st fs))"

lemma load_extras_auto: "load_extras q fs dir st = Inr st' \<Longrightarrow> auto_tokens st' = auto_tokens st"
proof -
  have "auto_tokens (foldl add_file st entries) = auto_tokens st" for entries
    by (induction entries arbitrary: st) (auto simp: add_file_def split: prod.split)
  then show "load_extras q fs dir st = Inr st' \<Longrightarrow> auto_tokens st' = auto_tokens st"
    by (auto simp: load_extras_def Let_def extras_check_and_sort_def load_extras_file_def split: dict_source.splits option.splits if_splits)
qed

lemma fold_nocheck_auto: "auto_tokens (fold add_extra_nocheck ts st) = auto_tokens st"
  by (induction ts arbitrary: st) (simp_all add: add_extra_nocheck_def)

lemma auto_ok_cong: "auto_tokens st' = auto_tokens st \<Longrightarrow> auto_ok st' = auto_ok st"
  by (simp add: auto_ok_def)

lemma user_ok_cong: "user_tokens st' = user_tokens st \<Longrightarrow> user_ok st' = user_ok st"
  by (simp add: user_ok_def short_tokens_def)

lemma dictionaries_ok:
  assumes "sorting_ok q" "dictionaries q st"
  shows "user_ok st \<and> auto_ok st"
  using assms(2)
proof induction
  case start
  then show ?case by (simp add: user_ok_def short_tokens_def auto_ok_def)
next
  case (load st fs dir st')
  then show ?case using load_extras_ok [OF assms(1)] auto_ok_cong [OF load_extras_auto] by blast
next
  case (deunicode st)
  have "auto_tokens (deunicode_extras q st) = auto_tokens st" by (simp add: deunicode_extras_def Let_def fold_nocheck_auto)
  then show ?case using deunicode deunicode_ok [OF assms(1)] auto_ok_cong by blast
next
  case (unique st)
  then show ?case using dedup_ok [of st] auto_ok_cong [of "dedup_extras st" st] by (simp add: dedup_extras_def)
next
  case (add st mem)
  have "auto_tokens (add_extra q mem st) = auto_tokens st" by (simp add: add_extra_def Let_def add_extra_nocheck_def)
  then show ?case using add add_extra_ok [OF assms(1)] auto_ok_cong by blast
next
  case (auto st r mem)
  then show ?case using maybe_add_auto_ok [OF assms(1)] user_ok_cong [OF maybe_add_auto_user] by blast
next
  case (save st fs)
  then show ?case using user_ok_cong [of "fst (save_auto st fs)" st] auto_ok_cong [of "fst (save_auto st fs)" st]
    by (simp add: save_auto_def Let_def)
qed

lemma dictionaries_auto_file: "dictionaries q st \<Longrightarrow> fst rf < MAX_AUTO_EXTRAS div 2 \<Longrightarrow> dictionaries q (load_auto_file q rf st)"
  by (cases rf) (simp add: load_auto_file_def Let_def dictionaries.auto)

lemma dictionaries_load_auto:
  assumes "dictionaries q st" "\<forall>rf\<in>set fs. fst rf < MAX_AUTO_EXTRAS div 2"
  shows "dictionaries q (load_auto q fs st)"
proof -
  have "dictionaries q (fold (load_auto_file q) gs st)" if "\<forall>rf\<in>set gs. fst rf < MAX_AUTO_EXTRAS div 2" for gs
    using that assms(1) by (induction gs arbitrary: st) (simp_all add: dictionaries_auto_file)
  moreover have "\<forall>rf\<in>set (take USE_AUTO_EXTRAS fs). fst rf < MAX_AUTO_EXTRAS div 2" using assms(2) by (meson in_set_takeD)
  ultimately show ?thesis by (simp add: load_auto_def)
qed

section \<open>Token files can be written\<close>

text \<open>A printer for tokens: printable characters as they are, quotes and backslashes escaped, other bytes in hexadecimal.\<close>

definition hex_digit :: "nat \<Rightarrow> u8" where
  "hex_digit n = (if n < 10 then of_nat (48 + n) else of_nat (87 + n))"

definition print_byte :: "u8 \<Rightarrow> bytes" where
  "print_byte c = (if c = 34 \<or> c = 92 then [92, c] else if 32 \<le> c \<and> c < 128 then [c]
     else [92, 120, hex_digit (unat c div 16), hex_digit (unat c mod 16)])"

definition body :: "bytes \<Rightarrow> bytes" where
  "body t = concat (map print_byte t)"

definition print_token :: "bytes \<Rightarrow> bytes" where
  "print_token t = 34 # body t @ [34, 10]"

lemma unescape_byte: "unescape (print_byte c @ cs) = c # unescape cs"
proof -
  have "list_all (\<lambda>n. let c = of_nat n :: u8 in c = 34 \<or> c = 92 \<or> 32 \<le> c \<and> c < 128 \<or>
      (let x = hex_digit (unat c div 16); y = hex_digit (unat c mod 16) in
        isxdigit x \<and> isxdigit y \<and> push_bit 4 (hex_value x) OR hex_value y = c)) [0..<256]"
    by code_simp
  then have "\<forall>n<256. let c = of_nat n :: u8 in c = 34 \<or> c = 92 \<or> 32 \<le> c \<and> c < 128 \<or>
      (let x = hex_digit (unat c div 16); y = hex_digit (unat c mod 16) in
        isxdigit x \<and> isxdigit y \<and> push_bit 4 (hex_value x) OR hex_value y = c)"
    by (simp add: list_all_iff)
  moreover obtain n where "c = of_nat n" "n < 256" by (cases c rule: word_nat_cases) simp
  ultimately have hex: "c = 34 \<or> c = 92 \<or> 32 \<le> c \<and> c < 128 \<or>
      isxdigit (hex_digit (unat c div 16)) \<and> isxdigit (hex_digit (unat c mod 16)) \<and>
      push_bit 4 (hex_value (hex_digit (unat c div 16))) OR hex_value (hex_digit (unat c mod 16)) = c"
    by (metis (no_types))
  show ?thesis
  proof (cases "c = 34 \<or> c = 92 \<or> 32 \<le> c \<and> c < 128")
    case True
    then show ?thesis by (auto simp: print_byte_def not_less)
  next
    case False
    then have "isxdigit (hex_digit (unat c div 16))" "isxdigit (hex_digit (unat c mod 16))"
      "push_bit 4 (hex_value (hex_digit (unat c div 16))) OR hex_value (hex_digit (unat c mod 16)) = c" using hex by blast+
    then show ?thesis using False by (auto simp: print_byte_def)
  qed
qed

lemma print_byte_range: "x \<in> set (print_byte c) \<Longrightarrow> 32 \<le> x" "length (print_byte c) \<le> 4"
proof -
  have "list_all (\<lambda>n. list_all (\<lambda>x. 32 \<le> x) (print_byte (of_nat n))) [0..<256]" by code_simp
  moreover obtain n where "c = of_nat n" "n < 256" by (cases c rule: word_nat_cases) simp
  ultimately show "x \<in> set (print_byte c) \<Longrightarrow> 32 \<le> x" unfolding list_all_iff by auto
qed (simp add: print_byte_def)

lemma body_range: "x \<in> set (body t) \<Longrightarrow> 32 \<le> x"
  using print_byte_range(1) by (auto simp: body_def)

lemma unescape_body: "unescape (body t) = t"
  by (induction t) (simp_all add: body_def unescape_byte)

lemma body_empty: "body t = [] \<longleftrightarrow> t = []"
  by (cases t) (simp_all add: body_def print_byte_def)

lemma length_body: "length (body t) \<le> 4 * length t"
  using print_byte_range(2) by (induction t) (simp_all add: body_def add_le_mono)

lemma strip_print: "strip (c_string (print_token t)) = 34 # body t @ [34]"
proof -
  have "x \<noteq> 0" if "x \<in> set (print_token t)" for x using that body_range [of 0 t] by (auto simp: print_token_def)
  then have "c_string (print_token t) = print_token t" unfolding c_string_def by (simp add: takeWhile_eq_all_conv)
  then show ?thesis by (simp add: strip_def print_token_def isspace_def)
qed

lemma parse_print: "t \<noteq> [] \<Longrightarrow> parse_line level (print_token t) = Keyword t"
  unfolding parse_line_def strip_print
  by (simp add: Let_def butlast_append skip_label_def isalnum_def isdigit_def parse_value_def skip_bracket_def isspace_def
      unescape_body body_empty)

lemma line_length_print:
  assumes "length t \<le> 128"
  shows "line_length (print_token t @ rest) = length (print_token t)"
proof -
  have nonl: "\<And>x. x \<in> set (body t) \<Longrightarrow> x \<noteq> 10" using body_range [of 10] by fastforce
  have "takeWhile (\<lambda>c. c \<noteq> 10) (print_token t @ rest) = 34 # body t @ [34]"
    using takeWhile_append2 [of "body t" "\<lambda>c. c \<noteq> 10" "34 # 10 # rest", OF nonl] by (simp add: print_token_def)
  then show ?thesis using length_body [of t] assms by (simp add: line_length_def print_token_def)
qed

lemma fgets_print: "\<forall>t\<in>set ts. length t \<le> 128 \<Longrightarrow> fgets_lines (concat (map print_token ts)) = map print_token ts"
proof (induction ts)
  case (Cons t ts)
  then have "line_length (print_token t @ concat (map print_token ts)) = length (print_token t)" by (simp add: line_length_print)
  moreover have "print_token t @ concat (map print_token ts) \<noteq> []" by (simp add: print_token_def)
  ultimately show ?case using Cons by (simp add: fgets_lines.simps [of "print_token t @ _"])
qed (simp add: fgets_lines.simps)

lemma load_printed:
  assumes "\<forall>t\<in>set ts. 0 < length t \<and> length t \<le> 128"
  shows "load_extras_file level (concat (map print_token ts)) st = st\<lparr>user_tokens := user_tokens st @ ts\<rparr>"
proof -
  have "keep_line level (print_token t) = [t]" if "t \<in> set ts" for t
    using assms that by (auto simp: keep_line_def parse_print)
  then have "map (keep_line level \<circ> print_token) ts = map (\<lambda>t. [t]) ts" by simp
  then have "concat (map (keep_line level) (map print_token ts)) = ts"
    by (simp only: map_map concat_map_singleton list.map_ident)
  then show ?thesis using assms by (simp add: load_extras_file_def fgets_print)
qed

section \<open>Decoding\<close>

text \<open>A text stored in units of \<open>n\<close> bytes with the character at position \<open>r\<close> of the unit: UTF-16 and UTF-32 in either byte order.\<close>

definition spread :: "nat \<Rightarrow> nat \<Rightarrow> bytes \<Rightarrow> bytes" where
  "spread n r t = map (\<lambda>j. if j mod n = r then t ! (j div n) else 0) [0..<n * length t]"

lemma length_spread [simp]: "length (spread n r t) = n * length t"
  by (simp add: spread_def)

lemma filter_single: "r < n \<Longrightarrow> filter (\<lambda>i. i = r) [0..<n] = [r]"
  by (induction n) (auto simp: less_Suc_eq)

lemma filter_positions: "r < n \<Longrightarrow> filter (\<lambda>j. j mod n = r) [0..<n * k] = map (\<lambda>i. n * i + r) [0..<k]"
proof (induction k)
  case (Suc k)
  have "[0..<n * Suc k] = [0..<n * k] @ map (\<lambda>i. n * k + i) [0..<n]"
    using upt_add_eq_append [of 0 "n * k" n] by (simp add: map_add_upt add.commute)
  moreover have "filter (\<lambda>j. j mod n = r) (map (\<lambda>i. n * k + i) [0..<n]) = map (\<lambda>i. n * k + i) (filter (\<lambda>i. i = r) [0..<n])"
    unfolding filter_map comp_def by (intro arg_cong2 [where f = map] filter_cong refl) simp
  ultimately show ?case using Suc by (simp add: filter_single)
qed simp

lemma every_nth_spread: "r < n \<Longrightarrow> every_nth n r (spread n r t) = t"
proof -
  assume r: "r < n"
  have "spread n r t ! (n * i + r) = t ! i" if "i < length t" for i
  proof -
    have "n * i + r < n * length t" using that r by (metis add.commute add_less_mono1 less_le_trans mult.commute mult_Suc_right Suc_leI mult_le_mono2 nat_add_left_cancel_less)
    then show ?thesis using r by (simp add: spread_def)
  qed
  then show ?thesis using r by (simp add: every_nth_def filter_positions comp_def) (rule nth_equalityI; simp)
qed

text \<open>Counting the zero bytes of a text without zero characters.\<close>

lemma filter_disjoint:
  assumes "\<And>x. \<not> (P x \<and> Q x)"
  shows "length (filter P xs) + length (filter Q xs) = length (filter (\<lambda>x. P x \<or> Q x) xs)"
  using assms by (induction xs) auto

lemma zeros_spread:
  assumes "0 \<notin> set t" "i < n * length t"
  shows "spread n r t ! i = 0 \<longleftrightarrow> i mod n \<noteq> r"
proof -
  have "i div n < length t" using assms(2) by (simp add: less_mult_imp_div_less mult.commute)
  then have "t ! (i div n) \<noteq> 0" using assms(1) by (metis nth_mem)
  then show ?thesis using assms(2) by (simp add: spread_def)
qed

lemma zeros_at_spread4:
  assumes "0 \<notin> set t" "p < 4"
  shows "zeros_at p (spread 4 r t) = (if p = r then 0 else length t)"
proof -
  have "filter (\<lambda>j. j mod 4 = p \<and> spread 4 r t ! j = 0) [0..<4 * length t] = filter (\<lambda>j. j mod 4 = p \<and> p \<noteq> r) [0..<4 * length t]"
    using zeros_spread [OF assms(1), of _ 4 r] by (intro filter_cong) auto
  then show ?thesis using filter_positions [OF assms(2), of "length t"] by (simp add: zeros_at_def)
qed

lemma zeros_at_spread2:
  assumes "0 \<notin> set t" "p < 2"
  shows "zeros_at p (spread 2 r t) + zeros_at (p + 2) (spread 2 r t) = (if p = r then 0 else length t)"
proof -
  have "zeros_at p (spread 2 r t) + zeros_at (p + 2) (spread 2 r t) =
      length (filter (\<lambda>j. j mod 4 = p \<and> spread 2 r t ! j = 0 \<or> j mod 4 = p + 2 \<and> spread 2 r t ! j = 0) [0..<2 * length t])"
    using filter_disjoint [of "\<lambda>j. j mod 4 = p \<and> spread 2 r t ! j = 0" "\<lambda>j. j mod 4 = p + 2 \<and> spread 2 r t ! j = 0"]
    by (simp add: zeros_at_def)
  also have "filter (\<lambda>j. j mod 4 = p \<and> spread 2 r t ! j = 0 \<or> j mod 4 = p + 2 \<and> spread 2 r t ! j = 0) [0..<2 * length t] =
      filter (\<lambda>j. j mod 2 = p \<and> p \<noteq> r) [0..<2 * length t]"
  proof (intro filter_cong refl)
    fix j assume "j \<in> set [0..<2 * length t]"
    then have "spread 2 r t ! j = 0 \<longleftrightarrow> j mod 2 \<noteq> r" using zeros_spread [OF assms(1), of j 2 r] by simp
    moreover have "j mod 4 = 0 \<or> j mod 4 = 2 \<longleftrightarrow> j mod 2 = 0" "j mod 4 = 1 \<or> j mod 4 = 3 \<longleftrightarrow> j mod 2 = 1" by presburger+
    moreover have "p = 0 \<or> p = 1" using assms(2) by auto
    ultimately show "(j mod 4 = p \<and> spread 2 r t ! j = 0 \<or> j mod 4 = p + 2 \<and> spread 2 r t ! j = 0) = (j mod 2 = p \<and> p \<noteq> r)"
      by (elim disjE) (auto simp: numeral_2_eq_2 numeral_3_eq_3)
  qed
  finally show ?thesis using filter_positions [OF assms(2), of "length t"] by simp
qed

lemma decoded_utf16:
  assumes "0 \<notin> set t" "3 \<le> length t" "length t \<le> 32" "r < 2"
  shows "t \<in> set (decoded (spread 2 r t))"
proof -
  have "zeros_at 0 (spread 2 r t) + zeros_at 2 (spread 2 r t) = (if r = 0 then 0 else length t)"
    "zeros_at (Suc 0) (spread 2 r t) + zeros_at 3 (spread 2 r t) = (if r = 1 then 0 else length t)"
    using zeros_at_spread2 [OF assms(1), of 0 r] zeros_at_spread2 [OF assms(1), of 1 r] by (simp_all add: numeral_3_eq_3 numeral_2_eq_2)
  moreover have r: "r = 0 \<or> r = 1" using assms(4) by auto
  ultimately have "every_nth 2 r (spread 2 r t) \<in> set (decoded (spread 2 r t))"
    using assms(2,3) r by (elim disjE) (auto simp: decoded_def Let_def)
  then show ?thesis using every_nth_spread [OF assms(4)] by simp
qed

lemma decoded_utf32:
  assumes "0 \<notin> set t" "3 \<le> length t" "length t \<le> 16" "r = 0 \<or> r = 3"
  shows "t \<in> set (decoded (spread 4 r t))"
proof -
  note z = zeros_at_spread4 [OF assms(1), of _ r]
  have "every_nth 4 r (spread 4 r t) \<in> set (decoded (spread 4 r t))"
    using assms(2-4) by (auto simp: decoded_def Let_def z)
  moreover have "r < 4" using assms(4) by auto
  ultimately show ?thesis using every_nth_spread [of r 4 t] by simp
qed

lemma deunicode_set: "sorting_ok q \<Longrightarrow> set (user_tokens (deunicode_extras q st)) = set (user_tokens st) \<union> (\<Union>t\<in>set (user_tokens st). set (decoded t))"
  using sorts_set [OF by_len_ok, of q] by (simp add: deunicode_extras_def Let_def fold_nocheck)

section \<open>Saved tokens come back\<close>

text \<open>Without user tokens, a token that passes the tests and is new is appended, and sorting keeps the multiset.\<close>

lemma add_new:
  assumes "sorting_ok q" "user_tokens st = []" "accepted mem" "map tolower mem \<notin> set (map folded (auto_tokens st))"
    "length (auto_tokens st) < MAX_AUTO_EXTRAS"
  shows "mset (map data (auto_tokens (maybe_add_auto q r mem st))) = add_mset mem (mset (map data (auto_tokens st)))"
proof -
  have "hit mem (auto_tokens st) = None" using assms(4) by (force simp: hit_None)
  then have "auto_tokens (maybe_add_auto q r mem st) = sort_auto q (auto_tokens st @ [\<lparr>data = mem, hit_cnt = 0\<rparr>])"
    using assms(2,3,5) by (auto simp: maybe_add_auto_def Let_def accepted_def matches_extra_def)
  then show ?thesis using sort_auto_mset [OF assms(1)] by simp
qed

lemma load_new:
  assumes "sorting_ok q"
  shows "user_tokens st = [] \<Longrightarrow> \<forall>rf\<in>set gs. accepted (snd rf) \<Longrightarrow>
    distinct (map folded (auto_tokens st) @ map (map tolower \<circ> snd) gs) \<Longrightarrow> length (auto_tokens st) + length gs \<le> MAX_AUTO_EXTRAS \<Longrightarrow>
    mset (map data (auto_tokens (fold (load_auto_file q) gs st))) = mset (map data (auto_tokens st)) + mset (filter (\<lambda>t. 3 \<le> length t) (map snd gs))"
proof (induction gs arbitrary: st)
  case (Cons rf gs)
  obtain r f where rf: "rf = (r, f)" by fastforce
  have len: "length f \<le> 32" using Cons.prems(2) rf by (simp add: accepted_def)
  show ?case
  proof (cases "3 \<le> length f")
    case False
    then have "load_auto_file q rf st = st" by (simp add: load_auto_file_def rf Let_def)
    then show ?thesis using Cons.IH [of st] Cons.prems False by (simp add: rf)
  next
    case True
    let ?st = "maybe_add_auto q r f st"
    have step: "load_auto_file q (r, f) st = ?st" using True len by (simp add: load_auto_file_def rf Let_def)
    have m: "mset (map data (auto_tokens ?st)) = add_mset f (mset (map data (auto_tokens st)))"
      using Cons.prems rf by (intro add_new [OF assms]) auto
    have "mset (map folded xs) = image_mset (map tolower) (mset (map data xs))" for xs by (induction xs) simp_all
    then have fm: "mset (map folded (auto_tokens ?st)) = add_mset (map tolower f) (mset (map folded (auto_tokens st)))"
      by (simp only: m image_mset_add_mset)
    have "distinct (map folded (auto_tokens ?st) @ map (map tolower \<circ> snd) gs)"
      using Cons.prems(3) mset_eq_imp_distinct_iff [of "map folded (auto_tokens ?st)" "map tolower f # map folded (auto_tokens st)"]
        mset_eq_setD [of "map folded (auto_tokens ?st)" "map tolower f # map folded (auto_tokens st)"] fm rf by (auto simp: comp_def)
    moreover have "length (auto_tokens ?st) = Suc (length (auto_tokens st))"
      using arg_cong [OF m, of size] by simp
    ultimately show ?thesis using Cons.IH [of ?st] Cons.prems True m by (simp add: step rf)
  qed
qed simp

lemma take_all_auto: "auto_ok st \<Longrightarrow> distinct (map folded (take n (auto_tokens st)))"
  by (simp add: auto_ok_def distinct_take flip: take_map)

lemma load_saved:
  assumes "sorting_ok q" "auto_ok st" "auto_changed st" "map snd gs = snd (save_auto st [])"
  shows "mset (map data (auto_tokens (load_auto q gs \<lparr>user_tokens = [], auto_tokens = [], auto_changed = False\<rparr>))) =
    mset (filter (\<lambda>t. 3 \<le> length t) (map data (take USE_AUTO_EXTRAS (auto_tokens st))))"
proof -
  have gs: "map snd gs = map data (take USE_AUTO_EXTRAS (auto_tokens st))" using assms(3,4) by (simp add: save_auto_def Let_def)
  then have len: "length gs \<le> USE_AUTO_EXTRAS" by (metis length_map length_take min.cobounded2)
  have "map (map tolower \<circ> snd) gs = map (map tolower) (map snd gs)" by simp
  also have "\<dots> = map folded (take USE_AUTO_EXTRAS (auto_tokens st))" unfolding gs by simp
  finally have d: "distinct (map (map tolower \<circ> snd) gs)" using take_all_auto [OF assms(2)] by simp
  have "set (map snd gs) \<subseteq> data ` set (auto_tokens st)" unfolding gs using set_take_subset by fastforce
  then have "\<forall>rf\<in>set gs. accepted (snd rf)" using assms(2) by (fastforce simp: auto_ok_def)
  then have "mset (map data (auto_tokens (fold (load_auto_file q) gs \<lparr>user_tokens = [], auto_tokens = [], auto_changed = False\<rparr>))) =
      mset (map data []) + mset (filter (\<lambda>t. 3 \<le> length t) (map snd gs))"
    using load_new [OF assms(1), of "\<lparr>user_tokens = [], auto_tokens = [], auto_changed = False\<rparr>" gs] d len by simp
  then show ?thesis using len by (simp add: load_auto_def gs)
qed

section \<open>Properties\<close>

text \<open>\<^verbatim>\<open>qsort\<close> as a stable sort, for the examples.\<close>

definition stable :: sorting where
  "stable = \<lparr>by_len = sort_key length, by_use = sort_key (\<lambda>a. - int (unat (hit_cnt a))), by_auto_len = sort_key (\<lambda>a. length (data a))\<rparr>"

lemma sorting_ok_stable: "sorting_ok stable"
  by (simp add: sorting_ok_def sorts_def stable_def)

definition no_tokens :: extras_state where
  "no_tokens = \<lparr>user_tokens = [], auto_tokens = [], auto_changed = False\<rparr>"

text \<open>
  Property C0. Whatever order \<^verbatim>\<open>qsort\<close> gives to equal elements and whichever tokens are evicted, along every sequence of \<^verbatim>\<open>load_extras\<close>,
  \<^verbatim>\<open>deunicode_extras\<close>, \<^verbatim>\<open>dedup_extras\<close>, \<^verbatim>\<open>add_extra\<close>, \<^verbatim>\<open>maybe_add_auto\<close> and \<^verbatim>\<open>save_auto\<close> the user tokens are sorted by length and at most 128 bytes long; and
  the automatic tokens fit their table, passed all tests of \<^verbatim>\<open>maybe_add_auto\<close>, are different even up to case, and have the most used ones first, these
  sorted by length, as the stages that use them rely on.
\<close>
theorem dictionaries_well_formed:
  assumes "sorting_ok q" "dictionaries q st"
  shows "user_ok st \<and> auto_ok st"
  by (rule dictionaries_ok [OF assms])

theorem dictionaries_well_formed_witness:
  "let st = maybe_add_auto stable 0 [1, 2, 3] (add_extra stable [65] no_tokens) in user_ok st \<and> auto_ok st"
  unfolding Let_def
  by (rule dictionaries_well_formed [OF sorting_ok_stable]) (auto simp: no_tokens_def intro!: dictionaries.intros)

text \<open>
  Property C0. Token files read back: if tokens of 1 to 128 arbitrary bytes are written one per line between quotes, with quotes and backslashes escaped and other
  unprintable bytes as \<^verbatim>\<open>\xNN\<close>, then \<^verbatim>\<open>load_extras_file\<close> appends exactly these tokens, at every dictionary level.
\<close>
theorem token_file_reads_back:
  assumes "\<forall>t\<in>set ts. 0 < length t \<and> length t \<le> 128"
  shows "load_extras_file level (concat (map print_token ts)) st = st\<lparr>user_tokens := user_tokens st @ ts\<rparr>"
  by (rule load_printed [OF assms])

theorem token_file_reads_back_witness:
  "load_extras_file 0 (concat (map print_token [[65, 0, 255], [34, 92]])) no_tokens = no_tokens\<lparr>user_tokens := [[65, 0, 255], [34, 92]]\<rparr>"
  using token_file_reads_back [of "[[65, 0, 255], [34, 92]]" 0 no_tokens] by (simp add: no_tokens_def)

text \<open>
  \<^verbatim>\<open>deunicode_extras\<close> recovers text: if a user token is a text of 3 to 32 non-zero characters in UTF-16, or of up to 16 in UTF-32, in
  either byte order, then the text itself is a user token afterwards, and no token is lost.
\<close>
theorem deunicode_recovers:
  assumes "sorting_ok q" "0 \<notin> set t" "3 \<le> length t" "spread n r t \<in> set (user_tokens st)"
    and "n = 2 \<and> r < 2 \<and> length t \<le> 32 \<or> n = 4 \<and> (r = 0 \<or> r = 3) \<and> length t \<le> 16"
  shows "t \<in> set (user_tokens (deunicode_extras q st)) \<and> set (user_tokens st) \<subseteq> set (user_tokens (deunicode_extras q st))"
proof -
  have "t \<in> set (decoded (spread n r t))" using assms(2,3,5) decoded_utf16 decoded_utf32 by blast
  then show ?thesis using assms(4) by (auto simp: deunicode_set [OF assms(1)])
qed

theorem deunicode_recovers_witness:
  "spread 2 0 [65, 66, 67] = [65, 0, 66, 0, 67, 0] \<and>
   [65, 66, 67] \<in> set (user_tokens (deunicode_extras stable (no_tokens\<lparr>user_tokens := [[65, 0, 66, 0, 67, 0]]\<rparr>)))"
proof -
  have s: "spread 2 0 [65, 66, 67] = [65, 0, 66, 0, 67, 0 :: u8]" by (simp add: spread_def upt_rec)
  then show ?thesis
    using deunicode_recovers [OF sorting_ok_stable, of "[65, 66, 67]" 2 0 "no_tokens\<lparr>user_tokens := [[65, 0, 66, 0, 67, 0]]\<rparr>"] by simp
qed



text \<open>
  \<^verbatim>\<open>dedup_extras\<close> on sorted tokens keeps each token exactly once.
\<close>
lemma dedup_extras_exact:
  "user_ok st \<Longrightarrow> distinct (user_tokens (dedup_extras st)) \<and> set (user_tokens (dedup_extras st)) = set (user_tokens st)"
  using dedup_eq [of "user_tokens st"] by (simp add: user_ok_def dedup_extras_def)

text \<open>The comparison with built-in values promotes them with their sign, so the little-endian form of -128 is not recognised, as it should be.\<close>

lemma builtin_misses_negative: "(-128) \<in> set interesting_16 \<and> le_word [0x80, 0xFF] = (of_int (-128) :: u16) \<and> \<not> builtin [0x80, 0xFF]"
proof (intro conjI)
  show "(-128) \<in> set interesting_16" by (simp add: interesting_16_def INTERESTING_8_def)
  show "le_word [0x80, 0xFF] = (of_int (-128) :: u16)" by code_simp
  show "\<not> builtin [0x80, 0xFF]"
    unfolding builtin_def interesting_16_def INTERESTING_8_def INTERESTING_16_def by (simp add: le_word_def SWAP16_def)
qed

text \<open>A keyword of unprintable characters only becomes an empty token.\<close>

lemma unprintable_keyword_empty: "keep_line 0 [34, 0xC3, 0xA9, 34, 10] = [[]]"
  by (simp add: keep_line_def parse_line_def strip_def c_string_def isspace_def skip_label_def isalnum_def isdigit_def
      parse_value_def skip_bracket_def)

end
