(* ===== verification/Gen.thy ===== *)
theory Gen
  imports Det_Dict Rand
begin

text \<open>
  Random choices and buffer accesses of the mutation code. A generator reads the accepted outputs of the random number generator from a list, so that
  \<^verbatim>\<open>rand_below\<close> is a remainder, and fails with an error if they are used up, if an access leaves its buffer or if a length would become negative.
  \<open>yields Q m\<close> is a logic for generators: for every list of draws \<open>m\<close> accesses no byte outside a buffer, subtracts no greater number and returns only values that
  satisfy \<open>Q\<close>.
\<close>

section \<open>Generators\<close>

datatype gen_error = Out_Of_Draws | Out_Of_Bounds | Custom_Failed | Out_Of_Fuel

type_synonym 'a gen = "nat list \<Rightarrow> gen_error + 'a \<times> nat list"

definition ret :: "'a \<Rightarrow> 'a gen" where
  "ret x = (\<lambda>ds. Inr (x, ds))"

definition andthen :: "'a gen \<Rightarrow> ('a \<Rightarrow> 'b gen) \<Rightarrow> 'b gen" where
  "andthen m f = (\<lambda>ds. case m ds of Inl e \<Rightarrow> Inl e | Inr (x, ds) \<Rightarrow> f x ds)"

definition check :: "bool \<Rightarrow> 'a \<Rightarrow> 'a gen" where
  "check c x = (\<lambda>ds. if c then Inr (x, ds) else Inl Out_Of_Bounds)"

text \<open>\<^verbatim>\<open>rand_below\<close> and \<^verbatim>\<open>rand_next\<close>.\<close>

definition below :: "nat \<Rightarrow> nat gen" where
  "below n = (\<lambda>ds. if n \<le> 1 then Inr (0, ds) else case ds of [] \<Rightarrow> Inl Out_Of_Draws | d # ds \<Rightarrow> Inr (d mod n, ds))"

definition next64 :: "nat gen" where
  "next64 = (\<lambda>ds. case ds of [] \<Rightarrow> Inl Out_Of_Draws | d # ds \<Rightarrow> Inr (d mod 2 ^ 64, ds))"

text \<open>A choice of code outside the program.\<close>

definition anything :: "nat gen" where
  "anything = (\<lambda>ds. case ds of [] \<Rightarrow> Inl Out_Of_Draws | d # ds \<Rightarrow> Inr (d, ds))"

text \<open>Loops that draw until a condition holds, and until two draws differ. One that cannot succeed uses up all draws.\<close>

definition draw_until :: "(nat \<Rightarrow> bool) \<Rightarrow> nat \<Rightarrow> nat gen" where
  "draw_until P n = (\<lambda>ds. if n \<le> 1 then (if P 0 then Inr (0, ds) else Inl Out_Of_Draws)
     else case dropWhile (\<lambda>d. \<not> P (d mod n)) ds of [] \<Rightarrow> Inl Out_Of_Draws | d # ds \<Rightarrow> Inr (d mod n, ds))"

fun differing_pair :: "nat \<Rightarrow> (nat \<times> nat) gen" where
  "differing_pair n (d # e # ds) =
     (if n \<le> 1 then Inl Out_Of_Draws
      else if d mod n = e mod n then differing_pair n ds else Inr ((d mod n, e mod n), ds))"
| "differing_pair n _ = Inl Out_Of_Draws"

section \<open>Buffers\<close>

definition minus :: "nat \<Rightarrow> nat \<Rightarrow> nat gen" where
  "minus a b = check (b \<le> a) (a - b)"

definition load :: "nat \<Rightarrow> bytes \<Rightarrow> u8 gen" where
  "load i b = check (i < length b) (b ! i)"

definition at_byte :: "nat \<Rightarrow> (u8 \<Rightarrow> u8) \<Rightarrow> bytes \<Rightarrow> bytes gen" where
  "at_byte i f b = check (i < length b) (b[i := f (b ! i)])"

definition at_unit :: "nat \<Rightarrow> nat \<Rightarrow> ('w::len word \<Rightarrow> 'w word) \<Rightarrow> bytes \<Rightarrow> bytes gen" where
  "at_unit k i f b = check (i + k \<le> length b) (wr k i (f (rd k i b)) b)"

definition slice :: "nat \<Rightarrow> nat \<Rightarrow> bytes \<Rightarrow> bytes gen" where
  "slice i n b = check (i + n \<le> length b) (take n (drop i b))"

definition paste :: "nat \<Rightarrow> bytes \<Rightarrow> bytes \<Rightarrow> bytes gen" where
  "paste i t b = check (i + length t \<le> length b) (overwrite i t b)"

text \<open>Replace the bytes from \<open>i\<close> to \<open>j\<close>: head, inserted part and tail copied to a new buffer. Insertion and deletion are special cases.\<close>

definition replace :: "nat \<Rightarrow> nat \<Rightarrow> bytes \<Rightarrow> bytes \<Rightarrow> bytes gen" where
  "replace i j t b = check (i \<le> j \<and> j \<le> length b) (take i b @ t @ drop j b)"

definition pick :: "'a list \<Rightarrow> 'a gen" where
  "pick xs = andthen (below (length xs)) (\<lambda>i. check (i < length xs) (xs ! i))"

section \<open>Logic\<close>

definition yields :: "('a \<Rightarrow> bool) \<Rightarrow> 'a gen \<Rightarrow> bool" where
  "yields Q m \<longleftrightarrow> (\<forall>ds. case m ds of Inl e \<Rightarrow> e = Out_Of_Draws | Inr (x, ds') \<Rightarrow> Q x \<and> length ds' \<le> length ds)"

named_theorems gen_intros

lemma yieldsI:
  assumes "\<And>ds e. m ds = Inl e \<Longrightarrow> e = Out_Of_Draws" "\<And>ds x ds'. m ds = Inr (x, ds') \<Longrightarrow> Q x \<and> length ds' \<le> length ds"
  shows "yields Q m"
  using assms by (auto simp: yields_def split: sum.split)

lemma yields_Inl: "yields Q m \<Longrightarrow> m ds = Inl e \<Longrightarrow> e = Out_Of_Draws"
  by (auto simp: yields_def split: sum.splits dest!: spec [of _ ds])

lemma yields_Inr: "yields Q m \<Longrightarrow> m ds = Inr (x, ds') \<Longrightarrow> Q x \<and> length ds' \<le> length ds"
  by (auto simp: yields_def split: sum.splits dest!: spec [of _ ds])

lemma yields_ret [gen_intros]: "Q x \<Longrightarrow> yields Q (ret x)"
  by (simp add: yields_def ret_def)

lemma yields_check [gen_intros]: "c \<Longrightarrow> Q x \<Longrightarrow> yields Q (check c x)"
  by (simp add: yields_def check_def)

lemma yields_andthen:
  assumes "yields P m" "\<And>x. P x \<Longrightarrow> yields Q (f x)"
  shows "yields Q (andthen m f)"
proof (rule yieldsI)
  fix ds e
  assume "andthen m f ds = Inl e"
  then consider "m ds = Inl e" | y es where "m ds = Inr (y, es)" "f y es = Inl e"
    by (auto simp: andthen_def split: sum.splits prod.splits)
  then show "e = Out_Of_Draws"
  proof cases
    case 2
    then have "P y" using yields_Inr [OF assms(1)] by blast
    then show ?thesis using yields_Inl [OF assms(2)] 2(2) by blast
  qed (rule yields_Inl [OF assms(1)])
next
  fix ds x ds'
  assume "andthen m f ds = Inr (x, ds')"
  then obtain y es where "m ds = Inr (y, es)" "f y es = Inr (x, ds')"
    by (auto simp: andthen_def split: sum.splits prod.splits)
  then show "Q x \<and> length ds' \<le> length ds"
    using yields_Inr [OF assms(1)] yields_Inr [OF assms(2)] by (meson le_trans)
qed

lemma yields_weaken: "yields P m \<Longrightarrow> (\<And>x. P x \<Longrightarrow> Q x) \<Longrightarrow> yields Q m"
  by (auto simp: yields_def split: sum.splits)

lemma yields_if [gen_intros]: "(c \<Longrightarrow> yields Q m) \<Longrightarrow> (\<not> c \<Longrightarrow> yields Q n) \<Longrightarrow> yields Q (if c then m else n)"
  by simp

lemma yields_below: "0 < n \<Longrightarrow> yields (\<lambda>x. x < n) (below n)"
  by (auto simp: yields_def below_def split: list.split)

lemma yields_next64: "yields (\<lambda>x. x < 2 ^ 64) next64"
  by (auto simp: yields_def next64_def split: list.split)

lemma yields_draw_until:
  assumes "0 < n"
  shows "yields (\<lambda>x. x < n \<and> P x) (draw_until P n)"
proof (rule yieldsI)
  fix ds x ds'
  assume "draw_until P n ds = Inr (x, ds')"
  then consider "x = 0" "P 0" "ds' = ds" | d where "dropWhile (\<lambda>d. \<not> P (d mod n)) ds = d # ds'" "x = d mod n"
    by (auto simp: draw_until_def split: if_splits list.splits)
  then show "(x < n \<and> P x) \<and> length ds' \<le> length ds"
  proof cases
    case 2
    have "P (d mod n)" using 2(1) by (metis (full_types) hd_dropWhile list.distinct(1) list.sel(1))
    moreover have "length (dropWhile (\<lambda>d. \<not> P (d mod n)) ds) \<le> length ds" by (rule length_dropWhile_le)
    ultimately show ?thesis using 2 assms by simp
  qed (use assms in auto)
qed (auto simp: draw_until_def split: if_splits list.splits)

lemma differing_pair_range:
  "differing_pair n ds = Inr ((a, b), es) \<Longrightarrow> a < n \<and> b < n \<and> a \<noteq> b \<and> length es \<le> length ds"
  by (induction n ds rule: differing_pair.induct) (auto split: if_splits)

lemma differing_pair_error: "differing_pair n ds = Inl e \<Longrightarrow> e = Out_Of_Draws"
  by (induction n ds rule: differing_pair.induct) (auto split: if_splits)

lemma yields_differing_pair: "yields (\<lambda>(a, b). a < n \<and> b < n \<and> a \<noteq> b) (differing_pair n)"
  by (rule yieldsI) (auto dest: differing_pair_range differing_pair_error)

lemma yields_pick: "xs \<noteq> [] \<Longrightarrow> yields (\<lambda>x. x \<in> set xs) (pick xs)"
  unfolding pick_def by (rule yields_andthen [OF yields_below]) (auto intro!: yields_check)

text \<open>Accesses, with the length of what they return.\<close>

lemma length_wr [simp]: "i + k \<le> length b \<Longrightarrow> length (wr k i w b) = length b"
  by (simp add: wr_def)

lemma length_overwrite [simp]: "i + length t \<le> length b \<Longrightarrow> length (overwrite i t b) = length b"
  by (simp add: overwrite_def)

text \<open>
  Rules that step through a sequence. Each asks that the access is within its buffer and continues with what is known of the value.
\<close>

lemma andthen_check: "c \<Longrightarrow> yields Q (f x) \<Longrightarrow> yields Q (andthen (check c x) f)"
  by (simp add: andthen_def check_def)

lemma step_ret [gen_intros]: "yields Q (f x) \<Longrightarrow> yields Q (andthen (ret x) f)"
  by (simp add: andthen_def ret_def)

lemma step_below [gen_intros]: "0 < n \<Longrightarrow> (\<And>x. x < n \<Longrightarrow> yields Q (f x)) \<Longrightarrow> yields Q (andthen (below n) f)"
  by (rule yields_andthen [OF yields_below])

lemma step_next64 [gen_intros]: "(\<And>x. x < 2 ^ 64 \<Longrightarrow> yields Q (f x)) \<Longrightarrow> yields Q (andthen next64 f)"
  by (rule yields_andthen [OF yields_next64])

lemma step_anything [gen_intros]: "(\<And>x. yields Q (f x)) \<Longrightarrow> yields Q (andthen anything f)"
  by (rule yields_andthen [where P = "\<lambda>_. True"]) (auto simp: yields_def anything_def split: list.split)

lemma step_draw_until [gen_intros]:
  "0 < n \<Longrightarrow> (\<And>x. x < n \<Longrightarrow> P x \<Longrightarrow> yields Q (f x)) \<Longrightarrow> yields Q (andthen (draw_until P n) f)"
  by (rule yields_andthen [OF yields_draw_until]) auto

lemma step_differing_pair [gen_intros]:
  "(\<And>a b. a < n \<Longrightarrow> b < n \<Longrightarrow> a \<noteq> b \<Longrightarrow> yields Q (f (a, b))) \<Longrightarrow> yields Q (andthen (differing_pair n) f)"
  by (rule yields_andthen [OF yields_differing_pair]) auto

lemma step_pick [gen_intros]:
  "xs \<noteq> [] \<Longrightarrow> (\<And>x. x \<in> set xs \<Longrightarrow> yields Q (f x)) \<Longrightarrow> yields Q (andthen (pick xs) f)"
  by (rule yields_andthen [OF yields_pick])

lemma step_minus [gen_intros]: "b \<le> a \<Longrightarrow> yields Q (f (a - b)) \<Longrightarrow> yields Q (andthen (minus a b) f)"
  unfolding minus_def by (rule andthen_check)

lemma step_load [gen_intros]: "i < length b \<Longrightarrow> yields Q (f (b ! i)) \<Longrightarrow> yields Q (andthen (load i b) f)"
  unfolding load_def by (rule andthen_check)

lemma step_at_byte [gen_intros]:
  "i < length b \<Longrightarrow> yields Q (f (b[i := g (b ! i)])) \<Longrightarrow> yields Q (andthen (at_byte i g b) f)"
  unfolding at_byte_def by (rule andthen_check)

lemma step_at_unit [gen_intros]:
  "i + k \<le> length b \<Longrightarrow> yields Q (f (wr k i (g (rd k i b)) b)) \<Longrightarrow> yields Q (andthen (at_unit k i g b) f)"
  unfolding at_unit_def by (rule andthen_check)

lemma step_slice [gen_intros]:
  "i + n \<le> length b \<Longrightarrow> yields Q (f (take n (drop i b))) \<Longrightarrow> yields Q (andthen (slice i n b) f)"
  unfolding slice_def by (rule andthen_check)

lemma step_paste [gen_intros]:
  "i + length t \<le> length b \<Longrightarrow> yields Q (f (overwrite i t b)) \<Longrightarrow> yields Q (andthen (paste i t b) f)"
  unfolding paste_def by (rule andthen_check)

lemma step_replace [gen_intros]:
  "i \<le> j \<Longrightarrow> j \<le> length b \<Longrightarrow> yields Q (f (take i b @ t @ drop j b)) \<Longrightarrow> yields Q (andthen (replace i j t b) f)"
  unfolding replace_def by (rule andthen_check) simp

text \<open>The draws are what the generator of the fuzzer returns: \<^verbatim>\<open>rand_below\<close> reduces one accepted output.\<close>

lemma rand_below_draw:
  assumes "rand_below urandom limit s = Some (x, s')"
  shows "\<exists>d. below (unat limit) (d # ds) = Inr (unat x, if limit \<le> 1 then d # ds else ds)"
proof (cases "limit \<le> 1")
  case True
  then have "unat limit \<le> 1" using word_le_nat_alt [of limit 1] by simp
  then show ?thesis using True assms by (simp add: rand_below_def below_def)
next
  case False
  then have lim: "1 < unat limit" using word_less_nat_alt [of 1 limit] by (simp add: not_le)
  obtain r :: u64 where x: "x = ucast (r mod ucast limit)"
    using assms False by (auto simp: rand_below_def split: option.splits)
  have small: "unat limit < 2 ^ 32" using unsigned_less [of limit] by simp
  then have "unat (r mod ucast limit) = unat r mod unat limit" by (simp add: unat_mod_distrib unsigned_ucast_eq take_bit_nat_eq_self)
  moreover have "unat r mod unat limit < unat limit" using lim by simp
  ultimately have "unat x = unat r mod unat limit" using small by (simp add: x unsigned_ucast_eq take_bit_nat_eq_self)
  then show ?thesis using False lim by (intro exI [of _ "unat r"]) (simp add: below_def)
qed

text \<open>\<open>ends m x\<close>: some draws, and no others, make \<open>m\<close> return \<open>x\<close>.\<close>

definition ends :: "'a gen \<Rightarrow> 'a \<Rightarrow> bool" where
  "ends m x \<longleftrightarrow> (\<exists>ds. \<forall>es. m (ds @ es) = Inr (x, es))"

lemma ends_ret: "ends (ret x) x"
  unfolding ends_def ret_def by (intro exI [of _ "[]"]) simp

lemma ends_andthen:
  assumes "ends m x" "ends (f x) y"
  shows "ends (andthen m f) y"
proof -
  obtain ds ds' where "\<forall>es. m (ds @ es) = Inr (x, es)" "\<forall>es. f x (ds' @ es) = Inr (y, es)"
    using assms by (auto simp: ends_def)
  then have "\<forall>es. andthen m f ((ds @ ds') @ es) = Inr (y, es)" by (simp add: andthen_def)
  then show ?thesis unfolding ends_def by blast
qed

lemma ends_below: "k < n \<Longrightarrow> ends (below n) k"
  unfolding ends_def below_def by (cases "n = 1") (auto intro: exI [of _ "[]"] exI [of _ "[k]"])

lemma ends_below_0: "ends (below n) 0"
  unfolding ends_def below_def by (cases "n \<le> 1") (auto intro: exI [of _ "[]"] exI [of _ "[0]"])

lemma ends_anything: "ends anything d"
  unfolding ends_def anything_def by (intro exI [of _ "[d]"]) simp

lemma ends_check: "c \<Longrightarrow> ends (check c x) x"
  unfolding ends_def check_def by (intro exI [of _ "[]"]) simp

lemma ends_draw_until: "k < n \<Longrightarrow> P k \<Longrightarrow> ends (draw_until P n) k"
  unfolding ends_def draw_until_def by (cases "n = 1") (auto intro: exI [of _ "[]"] exI [of _ "[k]"])

lemma ends_pick: "x \<in> set xs \<Longrightarrow> ends (pick xs) x"
  unfolding pick_def by (auto simp: in_set_conv_nth intro!: ends_andthen [OF ends_below] ends_check)

lemma ends_returns: "ends m x \<Longrightarrow> \<exists>ds. m ds = Inr (x, [])"
  unfolding ends_def by (metis append_Nil2)

lemma ends_yields: "ends m x \<Longrightarrow> yields Q m \<Longrightarrow> Q x"
  by (meson ends_def yields_Inr)

end
