(* ===== verification/Mutations.thy ===== *)
theory Mutations
  imports Main
begin

text \<open>
  The mutations of \<^verbatim>\<open>AFLplusplus/include/afl-mutations.h\<close> and the tables from which the havoc stage draws them, entry by entry. A trailing underscore of the
  source, which marks a subtraction, is written \<open>SUB\<close>.
\<close>

datatype mutation =
  MUT_FLIPBIT | MUT_INTERESTING8 | MUT_INTERESTING16 | MUT_INTERESTING16BE |
  MUT_INTERESTING32 | MUT_INTERESTING32BE | MUT_ARITH8_SUB | MUT_ARITH8 |
  MUT_ARITH16_SUB | MUT_ARITH16BE_SUB | MUT_ARITH16 | MUT_ARITH16BE |
  MUT_ARITH32_SUB | MUT_ARITH32BE_SUB | MUT_ARITH32 | MUT_ARITH32BE |
  MUT_RAND8 | MUT_CLONE_COPY | MUT_CLONE_FIXED | MUT_OVERWRITE_COPY |
  MUT_OVERWRITE_FIXED | MUT_BYTEADD | MUT_BYTESUB | MUT_FLIP8 |
  MUT_SWITCH | MUT_DEL | MUT_SHUFFLE | MUT_DELONE |
  MUT_INSERTONE | MUT_ASCIINUM | MUT_INSERTASCIINUM | MUT_EXTRA_OVERWRITE |
  MUT_EXTRA_INSERT | MUT_AUTO_EXTRA_OVERWRITE | MUT_AUTO_EXTRA_INSERT | MUT_SPLICE_OVERWRITE |
  MUT_SPLICE_INSERT

definition text_array :: "mutation list" where
  "text_array = [
     MUT_FLIPBIT, MUT_FLIPBIT, MUT_FLIPBIT, MUT_FLIPBIT, MUT_FLIPBIT, MUT_FLIPBIT,
     MUT_FLIPBIT, MUT_FLIPBIT, MUT_INTERESTING8, MUT_INTERESTING8, MUT_INTERESTING8, MUT_INTERESTING8,
     MUT_INTERESTING16, MUT_INTERESTING16, MUT_INTERESTING16BE, MUT_INTERESTING16BE, MUT_INTERESTING32, MUT_INTERESTING32,
     MUT_INTERESTING32BE, MUT_INTERESTING32BE, MUT_ARITH8_SUB, MUT_ARITH8_SUB, MUT_ARITH8_SUB, MUT_ARITH8_SUB,
     MUT_ARITH8_SUB, MUT_ARITH8_SUB, MUT_ARITH8, MUT_ARITH8, MUT_ARITH8, MUT_ARITH8,
     MUT_ARITH8, MUT_ARITH8, MUT_ARITH16_SUB, MUT_ARITH16_SUB, MUT_ARITH16_SUB, MUT_ARITH16_SUB,
     MUT_ARITH16_SUB, MUT_ARITH16BE_SUB, MUT_ARITH16BE_SUB, MUT_ARITH16BE_SUB, MUT_ARITH16BE_SUB, MUT_ARITH16BE_SUB,
     MUT_ARITH16, MUT_ARITH16, MUT_ARITH16, MUT_ARITH16, MUT_ARITH16, MUT_ARITH16BE,
     MUT_ARITH16BE, MUT_ARITH16BE, MUT_ARITH16BE, MUT_ARITH16BE, MUT_ARITH32_SUB, MUT_ARITH32_SUB,
     MUT_ARITH32_SUB, MUT_ARITH32_SUB, MUT_ARITH32_SUB, MUT_ARITH32BE_SUB, MUT_ARITH32BE_SUB, MUT_ARITH32BE_SUB,
     MUT_ARITH32BE_SUB, MUT_ARITH32BE_SUB, MUT_ARITH32, MUT_ARITH32, MUT_ARITH32, MUT_ARITH32,
     MUT_ARITH32, MUT_ARITH32BE, MUT_ARITH32BE, MUT_ARITH32BE, MUT_ARITH32BE, MUT_ARITH32BE,
     MUT_RAND8, MUT_RAND8, MUT_RAND8, MUT_RAND8, MUT_RAND8, MUT_RAND8,
     MUT_RAND8, MUT_RAND8, MUT_CLONE_COPY, MUT_CLONE_COPY, MUT_CLONE_COPY, MUT_CLONE_COPY,
     MUT_CLONE_COPY, MUT_CLONE_COPY, MUT_CLONE_COPY, MUT_CLONE_COPY, MUT_CLONE_COPY, MUT_CLONE_COPY,
     MUT_CLONE_COPY, MUT_CLONE_COPY, MUT_CLONE_COPY, MUT_CLONE_COPY, MUT_CLONE_COPY, MUT_CLONE_COPY,
     MUT_CLONE_FIXED, MUT_CLONE_FIXED, MUT_CLONE_FIXED, MUT_CLONE_FIXED, MUT_CLONE_FIXED, MUT_CLONE_FIXED,
     MUT_CLONE_FIXED, MUT_CLONE_FIXED, MUT_OVERWRITE_COPY, MUT_OVERWRITE_COPY, MUT_OVERWRITE_COPY, MUT_OVERWRITE_COPY,
     MUT_OVERWRITE_COPY, MUT_OVERWRITE_COPY, MUT_OVERWRITE_COPY, MUT_OVERWRITE_COPY, MUT_OVERWRITE_COPY, MUT_OVERWRITE_COPY,
     MUT_OVERWRITE_FIXED, MUT_OVERWRITE_FIXED, MUT_OVERWRITE_FIXED, MUT_OVERWRITE_FIXED, MUT_OVERWRITE_FIXED, MUT_BYTEADD,
     MUT_BYTEADD, MUT_BYTEADD, MUT_BYTEADD, MUT_BYTEADD, MUT_BYTESUB, MUT_BYTESUB,
     MUT_BYTESUB, MUT_BYTESUB, MUT_BYTESUB, MUT_FLIP8, MUT_FLIP8, MUT_FLIP8,
     MUT_FLIP8, MUT_SWITCH, MUT_SWITCH, MUT_SWITCH, MUT_SWITCH, MUT_SWITCH,
     MUT_SWITCH, MUT_SWITCH, MUT_DEL, MUT_DEL, MUT_DEL, MUT_DEL,
     MUT_DEL, MUT_DEL, MUT_DEL, MUT_DEL, MUT_DEL, MUT_DEL,
     MUT_EXTRA_OVERWRITE, MUT_EXTRA_OVERWRITE, MUT_EXTRA_OVERWRITE, MUT_EXTRA_OVERWRITE, MUT_EXTRA_OVERWRITE, MUT_EXTRA_OVERWRITE,
     MUT_EXTRA_OVERWRITE, MUT_EXTRA_INSERT, MUT_EXTRA_INSERT, MUT_EXTRA_INSERT, MUT_EXTRA_INSERT, MUT_EXTRA_INSERT,
     MUT_EXTRA_INSERT, MUT_EXTRA_INSERT, MUT_EXTRA_INSERT, MUT_EXTRA_INSERT, MUT_AUTO_EXTRA_OVERWRITE, MUT_AUTO_EXTRA_OVERWRITE,
     MUT_AUTO_EXTRA_OVERWRITE, MUT_AUTO_EXTRA_OVERWRITE, MUT_AUTO_EXTRA_INSERT, MUT_AUTO_EXTRA_INSERT, MUT_AUTO_EXTRA_INSERT, MUT_AUTO_EXTRA_INSERT,
     MUT_AUTO_EXTRA_INSERT, MUT_SPLICE_OVERWRITE, MUT_SPLICE_OVERWRITE, MUT_SPLICE_OVERWRITE, MUT_SPLICE_OVERWRITE, MUT_SPLICE_OVERWRITE,
     MUT_SPLICE_OVERWRITE, MUT_SPLICE_OVERWRITE, MUT_SPLICE_OVERWRITE, MUT_SPLICE_OVERWRITE, MUT_SPLICE_OVERWRITE, MUT_SPLICE_OVERWRITE,
     MUT_SPLICE_OVERWRITE, MUT_SPLICE_INSERT, MUT_SPLICE_INSERT, MUT_SPLICE_INSERT, MUT_SPLICE_INSERT, MUT_SPLICE_INSERT,
     MUT_SPLICE_INSERT, MUT_SPLICE_INSERT, MUT_SPLICE_INSERT, MUT_SPLICE_INSERT, MUT_SPLICE_INSERT, MUT_SPLICE_INSERT,
     MUT_SPLICE_INSERT, MUT_SPLICE_INSERT]"

definition binary_array :: "mutation list" where
  "binary_array = [
     MUT_FLIPBIT, MUT_FLIPBIT, MUT_FLIPBIT, MUT_FLIPBIT, MUT_FLIPBIT, MUT_FLIPBIT,
     MUT_FLIPBIT, MUT_FLIPBIT, MUT_FLIPBIT, MUT_FLIPBIT, MUT_FLIPBIT, MUT_INTERESTING8,
     MUT_INTERESTING8, MUT_INTERESTING8, MUT_INTERESTING8, MUT_INTERESTING8, MUT_INTERESTING8, MUT_INTERESTING8,
     MUT_INTERESTING8, MUT_INTERESTING8, MUT_INTERESTING16, MUT_INTERESTING16, MUT_INTERESTING16, MUT_INTERESTING16,
     MUT_INTERESTING16, MUT_INTERESTING16, MUT_INTERESTING16BE, MUT_INTERESTING16BE, MUT_INTERESTING16BE, MUT_INTERESTING16BE,
     MUT_INTERESTING16BE, MUT_INTERESTING16BE, MUT_INTERESTING32, MUT_INTERESTING32, MUT_INTERESTING32, MUT_INTERESTING32,
     MUT_INTERESTING32, MUT_INTERESTING32, MUT_INTERESTING32BE, MUT_INTERESTING32BE, MUT_INTERESTING32BE, MUT_INTERESTING32BE,
     MUT_INTERESTING32BE, MUT_INTERESTING32BE, MUT_ARITH8_SUB, MUT_ARITH8_SUB, MUT_ARITH8_SUB, MUT_ARITH8_SUB,
     MUT_ARITH8_SUB, MUT_ARITH8_SUB, MUT_ARITH8_SUB, MUT_ARITH8_SUB, MUT_ARITH8_SUB, MUT_ARITH8,
     MUT_ARITH8, MUT_ARITH8, MUT_ARITH8, MUT_ARITH8, MUT_ARITH8, MUT_ARITH8,
     MUT_ARITH8, MUT_ARITH8, MUT_ARITH8, MUT_ARITH16_SUB, MUT_ARITH16_SUB, MUT_ARITH16_SUB,
     MUT_ARITH16_SUB, MUT_ARITH16_SUB, MUT_ARITH16_SUB, MUT_ARITH16BE_SUB, MUT_ARITH16BE_SUB, MUT_ARITH16BE_SUB,
     MUT_ARITH16BE_SUB, MUT_ARITH16BE_SUB, MUT_ARITH16BE_SUB, MUT_ARITH16, MUT_ARITH16, MUT_ARITH16,
     MUT_ARITH16, MUT_ARITH16, MUT_ARITH16, MUT_ARITH16BE, MUT_ARITH16BE, MUT_ARITH16BE,
     MUT_ARITH16BE, MUT_ARITH16BE, MUT_ARITH16BE, MUT_ARITH32_SUB, MUT_ARITH32_SUB, MUT_ARITH32_SUB,
     MUT_ARITH32_SUB, MUT_ARITH32_SUB, MUT_ARITH32_SUB, MUT_ARITH32BE_SUB, MUT_ARITH32BE_SUB, MUT_ARITH32BE_SUB,
     MUT_ARITH32BE_SUB, MUT_ARITH32BE_SUB, MUT_ARITH32BE_SUB, MUT_ARITH32, MUT_ARITH32, MUT_ARITH32,
     MUT_ARITH32, MUT_ARITH32, MUT_ARITH32, MUT_ARITH32BE, MUT_ARITH32BE, MUT_ARITH32BE,
     MUT_ARITH32BE, MUT_ARITH32BE, MUT_ARITH32BE, MUT_RAND8, MUT_RAND8, MUT_RAND8,
     MUT_RAND8, MUT_RAND8, MUT_RAND8, MUT_RAND8, MUT_RAND8, MUT_RAND8,
     MUT_CLONE_COPY, MUT_CLONE_COPY, MUT_CLONE_COPY, MUT_CLONE_COPY, MUT_CLONE_COPY, MUT_CLONE_COPY,
     MUT_CLONE_COPY, MUT_CLONE_COPY, MUT_CLONE_COPY, MUT_CLONE_COPY, MUT_CLONE_COPY, MUT_CLONE_COPY,
     MUT_CLONE_COPY, MUT_CLONE_COPY, MUT_CLONE_FIXED, MUT_CLONE_FIXED, MUT_CLONE_FIXED, MUT_CLONE_FIXED,
     MUT_CLONE_FIXED, MUT_CLONE_FIXED, MUT_CLONE_FIXED, MUT_OVERWRITE_COPY, MUT_OVERWRITE_COPY, MUT_OVERWRITE_COPY,
     MUT_OVERWRITE_COPY, MUT_OVERWRITE_COPY, MUT_OVERWRITE_COPY, MUT_OVERWRITE_COPY, MUT_OVERWRITE_COPY, MUT_OVERWRITE_COPY,
     MUT_OVERWRITE_COPY, MUT_OVERWRITE_FIXED, MUT_OVERWRITE_FIXED, MUT_OVERWRITE_FIXED, MUT_OVERWRITE_FIXED, MUT_OVERWRITE_FIXED,
     MUT_BYTEADD, MUT_BYTEADD, MUT_BYTEADD, MUT_BYTEADD, MUT_BYTEADD, MUT_BYTEADD,
     MUT_BYTESUB, MUT_BYTESUB, MUT_BYTESUB, MUT_BYTESUB, MUT_BYTESUB, MUT_BYTESUB,
     MUT_FLIP8, MUT_FLIP8, MUT_FLIP8, MUT_FLIP8, MUT_SWITCH, MUT_SWITCH,
     MUT_SWITCH, MUT_SWITCH, MUT_SWITCH, MUT_SWITCH, MUT_DEL, MUT_DEL,
     MUT_DEL, MUT_DEL, MUT_DEL, MUT_DEL, MUT_DEL, MUT_DEL,
     MUT_DEL, MUT_EXTRA_OVERWRITE, MUT_EXTRA_OVERWRITE, MUT_EXTRA_OVERWRITE, MUT_EXTRA_OVERWRITE, MUT_EXTRA_OVERWRITE,
     MUT_EXTRA_OVERWRITE, MUT_EXTRA_OVERWRITE, MUT_EXTRA_OVERWRITE, MUT_EXTRA_OVERWRITE, MUT_EXTRA_OVERWRITE, MUT_EXTRA_INSERT,
     MUT_EXTRA_INSERT, MUT_EXTRA_INSERT, MUT_EXTRA_INSERT, MUT_EXTRA_INSERT, MUT_EXTRA_INSERT, MUT_EXTRA_INSERT,
     MUT_EXTRA_INSERT, MUT_EXTRA_INSERT, MUT_EXTRA_INSERT, MUT_EXTRA_INSERT, MUT_EXTRA_INSERT, MUT_AUTO_EXTRA_OVERWRITE,
     MUT_AUTO_EXTRA_OVERWRITE, MUT_AUTO_EXTRA_OVERWRITE, MUT_AUTO_EXTRA_OVERWRITE, MUT_AUTO_EXTRA_OVERWRITE, MUT_AUTO_EXTRA_OVERWRITE, MUT_AUTO_EXTRA_OVERWRITE,
     MUT_AUTO_EXTRA_OVERWRITE, MUT_AUTO_EXTRA_OVERWRITE, MUT_AUTO_EXTRA_INSERT, MUT_AUTO_EXTRA_INSERT, MUT_AUTO_EXTRA_INSERT, MUT_AUTO_EXTRA_INSERT,
     MUT_AUTO_EXTRA_INSERT, MUT_AUTO_EXTRA_INSERT, MUT_AUTO_EXTRA_INSERT, MUT_AUTO_EXTRA_INSERT, MUT_AUTO_EXTRA_INSERT, MUT_AUTO_EXTRA_INSERT,
     MUT_AUTO_EXTRA_INSERT, MUT_SPLICE_OVERWRITE, MUT_SPLICE_OVERWRITE, MUT_SPLICE_OVERWRITE, MUT_SPLICE_OVERWRITE, MUT_SPLICE_OVERWRITE,
     MUT_SPLICE_OVERWRITE, MUT_SPLICE_OVERWRITE, MUT_SPLICE_OVERWRITE, MUT_SPLICE_OVERWRITE, MUT_SPLICE_OVERWRITE, MUT_SPLICE_OVERWRITE,
     MUT_SPLICE_OVERWRITE, MUT_SPLICE_OVERWRITE, MUT_SPLICE_INSERT, MUT_SPLICE_INSERT, MUT_SPLICE_INSERT, MUT_SPLICE_INSERT,
     MUT_SPLICE_INSERT, MUT_SPLICE_INSERT, MUT_SPLICE_INSERT, MUT_SPLICE_INSERT, MUT_SPLICE_INSERT, MUT_SPLICE_INSERT,
     MUT_SPLICE_INSERT, MUT_SPLICE_INSERT, MUT_SPLICE_INSERT, MUT_SPLICE_INSERT]"

definition normal_splice_array :: "mutation list" where
  "normal_splice_array = [
     MUT_FLIPBIT, MUT_FLIPBIT, MUT_FLIPBIT, MUT_FLIPBIT, MUT_INTERESTING8, MUT_INTERESTING8,
     MUT_INTERESTING8, MUT_INTERESTING8, MUT_INTERESTING16, MUT_INTERESTING16, MUT_INTERESTING16BE, MUT_INTERESTING16BE,
     MUT_INTERESTING32, MUT_INTERESTING32, MUT_INTERESTING32BE, MUT_INTERESTING32BE, MUT_ARITH8_SUB, MUT_ARITH8_SUB,
     MUT_ARITH8_SUB, MUT_ARITH8_SUB, MUT_ARITH8, MUT_ARITH8, MUT_ARITH8, MUT_ARITH8,
     MUT_ARITH16_SUB, MUT_ARITH16_SUB, MUT_ARITH16BE_SUB, MUT_ARITH16BE_SUB, MUT_ARITH16, MUT_ARITH16,
     MUT_ARITH16BE, MUT_ARITH16BE, MUT_ARITH32_SUB, MUT_ARITH32_SUB, MUT_ARITH32BE_SUB, MUT_ARITH32BE_SUB,
     MUT_ARITH32, MUT_ARITH32, MUT_ARITH32BE, MUT_ARITH32BE, MUT_RAND8, MUT_RAND8,
     MUT_RAND8, MUT_RAND8, MUT_CLONE_COPY, MUT_CLONE_COPY, MUT_CLONE_COPY, MUT_CLONE_FIXED,
     MUT_OVERWRITE_COPY, MUT_OVERWRITE_COPY, MUT_OVERWRITE_COPY, MUT_OVERWRITE_FIXED, MUT_BYTEADD, MUT_BYTESUB,
     MUT_FLIP8, MUT_SWITCH, MUT_SWITCH, MUT_DEL, MUT_DEL, MUT_DEL,
     MUT_DEL, MUT_DEL, MUT_DEL, MUT_DEL, MUT_DEL, MUT_EXTRA_OVERWRITE,
     MUT_EXTRA_OVERWRITE, MUT_EXTRA_INSERT, MUT_EXTRA_INSERT, MUT_AUTO_EXTRA_OVERWRITE, MUT_AUTO_EXTRA_OVERWRITE, MUT_AUTO_EXTRA_INSERT,
     MUT_AUTO_EXTRA_INSERT, MUT_SPLICE_OVERWRITE, MUT_SPLICE_OVERWRITE, MUT_SPLICE_INSERT, MUT_SPLICE_INSERT]"

definition full_splice_array :: "mutation list" where
  "full_splice_array = [
     MUT_FLIPBIT, MUT_FLIPBIT, MUT_FLIPBIT, MUT_FLIPBIT, MUT_INTERESTING8, MUT_INTERESTING8,
     MUT_INTERESTING8, MUT_INTERESTING8, MUT_INTERESTING16, MUT_INTERESTING16, MUT_INTERESTING16BE, MUT_INTERESTING16BE,
     MUT_INTERESTING32, MUT_INTERESTING32, MUT_INTERESTING32BE, MUT_INTERESTING32BE, MUT_ARITH8_SUB, MUT_ARITH8_SUB,
     MUT_ARITH8_SUB, MUT_ARITH8_SUB, MUT_ARITH8, MUT_ARITH8, MUT_ARITH8, MUT_ARITH8,
     MUT_ARITH16_SUB, MUT_ARITH16_SUB, MUT_ARITH16BE_SUB, MUT_ARITH16BE_SUB, MUT_ARITH16, MUT_ARITH16,
     MUT_ARITH16BE, MUT_ARITH16BE, MUT_ARITH32_SUB, MUT_ARITH32_SUB, MUT_ARITH32BE_SUB, MUT_ARITH32BE_SUB,
     MUT_ARITH32, MUT_ARITH32, MUT_ARITH32BE, MUT_ARITH32BE, MUT_RAND8, MUT_RAND8,
     MUT_RAND8, MUT_RAND8, MUT_CLONE_COPY, MUT_CLONE_COPY, MUT_CLONE_COPY, MUT_CLONE_FIXED,
     MUT_OVERWRITE_COPY, MUT_OVERWRITE_COPY, MUT_OVERWRITE_COPY, MUT_OVERWRITE_FIXED, MUT_BYTEADD, MUT_BYTESUB,
     MUT_FLIP8, MUT_SWITCH, MUT_SWITCH, MUT_DEL, MUT_DEL, MUT_DEL,
     MUT_DEL, MUT_DEL, MUT_DEL, MUT_DEL, MUT_DEL, MUT_EXTRA_OVERWRITE,
     MUT_EXTRA_OVERWRITE, MUT_EXTRA_INSERT, MUT_EXTRA_INSERT, MUT_AUTO_EXTRA_OVERWRITE, MUT_AUTO_EXTRA_OVERWRITE, MUT_AUTO_EXTRA_INSERT,
     MUT_AUTO_EXTRA_INSERT, MUT_SPLICE_OVERWRITE, MUT_SPLICE_OVERWRITE, MUT_SPLICE_OVERWRITE, MUT_SPLICE_OVERWRITE, MUT_SPLICE_INSERT,
     MUT_SPLICE_INSERT, MUT_SPLICE_INSERT, MUT_SPLICE_INSERT]"

definition mutation_strategy_exploration_text :: "mutation list" where
  "mutation_strategy_exploration_text = [
     MUT_FLIPBIT, MUT_FLIPBIT, MUT_FLIPBIT, MUT_FLIPBIT, MUT_FLIPBIT, MUT_FLIPBIT,
     MUT_INTERESTING8, MUT_INTERESTING8, MUT_INTERESTING8, MUT_INTERESTING8, MUT_INTERESTING8, MUT_INTERESTING16,
     MUT_INTERESTING16, MUT_INTERESTING16, MUT_INTERESTING16, MUT_INTERESTING16, MUT_INTERESTING16BE, MUT_INTERESTING16BE,
     MUT_INTERESTING16BE, MUT_INTERESTING16BE, MUT_INTERESTING16BE, MUT_INTERESTING32, MUT_INTERESTING32, MUT_INTERESTING32,
     MUT_INTERESTING32, MUT_INTERESTING32, MUT_INTERESTING32BE, MUT_INTERESTING32BE, MUT_INTERESTING32BE, MUT_INTERESTING32BE,
     MUT_INTERESTING32BE, MUT_ARITH8_SUB, MUT_ARITH8_SUB, MUT_ARITH8_SUB, MUT_ARITH8_SUB, MUT_ARITH8_SUB,
     MUT_ARITH8_SUB, MUT_ARITH8, MUT_ARITH8, MUT_ARITH8, MUT_ARITH8, MUT_ARITH8,
     MUT_ARITH8, MUT_ARITH16_SUB, MUT_ARITH16_SUB, MUT_ARITH16_SUB, MUT_ARITH16_SUB, MUT_ARITH16_SUB,
     MUT_ARITH16_SUB, MUT_ARITH16BE_SUB, MUT_ARITH16BE_SUB, MUT_ARITH16BE_SUB, MUT_ARITH16BE_SUB, MUT_ARITH16BE_SUB,
     MUT_ARITH16BE_SUB, MUT_ARITH16, MUT_ARITH16, MUT_ARITH16, MUT_ARITH16, MUT_ARITH16,
     MUT_ARITH16, MUT_ARITH16BE, MUT_ARITH16BE, MUT_ARITH16BE, MUT_ARITH16BE, MUT_ARITH16BE,
     MUT_ARITH16BE, MUT_ARITH32_SUB, MUT_ARITH32_SUB, MUT_ARITH32_SUB, MUT_ARITH32_SUB, MUT_ARITH32_SUB,
     MUT_ARITH32_SUB, MUT_ARITH32BE_SUB, MUT_ARITH32BE_SUB, MUT_ARITH32BE_SUB, MUT_ARITH32BE_SUB, MUT_ARITH32BE_SUB,
     MUT_ARITH32BE_SUB, MUT_ARITH32, MUT_ARITH32, MUT_ARITH32, MUT_ARITH32, MUT_ARITH32,
     MUT_ARITH32, MUT_ARITH32BE, MUT_ARITH32BE, MUT_ARITH32BE, MUT_ARITH32BE, MUT_ARITH32BE,
     MUT_ARITH32BE, MUT_RAND8, MUT_RAND8, MUT_RAND8, MUT_RAND8, MUT_RAND8,
     MUT_RAND8, MUT_CLONE_COPY, MUT_CLONE_COPY, MUT_CLONE_COPY, MUT_CLONE_COPY, MUT_CLONE_COPY,
     MUT_CLONE_COPY, MUT_CLONE_COPY, MUT_CLONE_COPY, MUT_CLONE_COPY, MUT_CLONE_COPY, MUT_CLONE_COPY,
     MUT_CLONE_COPY, MUT_CLONE_COPY, MUT_CLONE_FIXED, MUT_CLONE_FIXED, MUT_CLONE_FIXED, MUT_CLONE_FIXED,
     MUT_CLONE_FIXED, MUT_CLONE_FIXED, MUT_CLONE_FIXED, MUT_CLONE_FIXED, MUT_CLONE_FIXED, MUT_CLONE_FIXED,
     MUT_OVERWRITE_COPY, MUT_OVERWRITE_COPY, MUT_OVERWRITE_COPY, MUT_OVERWRITE_COPY, MUT_OVERWRITE_COPY, MUT_OVERWRITE_COPY,
     MUT_OVERWRITE_COPY, MUT_OVERWRITE_COPY, MUT_OVERWRITE_COPY, MUT_OVERWRITE_FIXED, MUT_OVERWRITE_FIXED, MUT_OVERWRITE_FIXED,
     MUT_OVERWRITE_FIXED, MUT_OVERWRITE_FIXED, MUT_OVERWRITE_FIXED, MUT_OVERWRITE_FIXED, MUT_OVERWRITE_FIXED, MUT_BYTEADD,
     MUT_BYTEADD, MUT_BYTEADD, MUT_BYTEADD, MUT_BYTEADD, MUT_BYTEADD, MUT_BYTESUB,
     MUT_BYTESUB, MUT_BYTESUB, MUT_BYTESUB, MUT_BYTESUB, MUT_BYTESUB, MUT_FLIP8,
     MUT_FLIP8, MUT_FLIP8, MUT_FLIP8, MUT_FLIP8, MUT_FLIP8, MUT_FLIP8,
     MUT_FLIP8, MUT_SWITCH, MUT_SWITCH, MUT_SWITCH, MUT_SWITCH, MUT_SWITCH,
     MUT_SWITCH, MUT_SWITCH, MUT_SWITCH, MUT_DEL, MUT_DEL, MUT_DEL,
     MUT_DEL, MUT_DEL, MUT_DEL, MUT_DEL, MUT_SHUFFLE, MUT_SHUFFLE,
     MUT_SHUFFLE, MUT_SHUFFLE, MUT_SHUFFLE, MUT_SHUFFLE, MUT_SHUFFLE, MUT_SHUFFLE,
     MUT_DELONE, MUT_DELONE, MUT_DELONE, MUT_DELONE, MUT_DELONE, MUT_DELONE,
     MUT_DELONE, MUT_INSERTONE, MUT_INSERTONE, MUT_INSERTONE, MUT_INSERTONE, MUT_INSERTONE,
     MUT_INSERTONE, MUT_ASCIINUM, MUT_ASCIINUM, MUT_ASCIINUM, MUT_ASCIINUM, MUT_ASCIINUM,
     MUT_ASCIINUM, MUT_ASCIINUM, MUT_ASCIINUM, MUT_INSERTASCIINUM, MUT_INSERTASCIINUM, MUT_INSERTASCIINUM,
     MUT_INSERTASCIINUM, MUT_INSERTASCIINUM, MUT_INSERTASCIINUM, MUT_INSERTASCIINUM, MUT_INSERTASCIINUM, MUT_EXTRA_OVERWRITE,
     MUT_EXTRA_OVERWRITE, MUT_EXTRA_OVERWRITE, MUT_EXTRA_OVERWRITE, MUT_EXTRA_OVERWRITE, MUT_EXTRA_OVERWRITE, MUT_EXTRA_OVERWRITE,
     MUT_EXTRA_OVERWRITE, MUT_EXTRA_INSERT, MUT_EXTRA_INSERT, MUT_EXTRA_INSERT, MUT_EXTRA_INSERT, MUT_EXTRA_INSERT,
     MUT_EXTRA_INSERT, MUT_EXTRA_INSERT, MUT_EXTRA_INSERT, MUT_AUTO_EXTRA_OVERWRITE, MUT_AUTO_EXTRA_OVERWRITE, MUT_AUTO_EXTRA_OVERWRITE,
     MUT_AUTO_EXTRA_OVERWRITE, MUT_AUTO_EXTRA_OVERWRITE, MUT_AUTO_EXTRA_OVERWRITE, MUT_AUTO_EXTRA_INSERT, MUT_AUTO_EXTRA_INSERT, MUT_AUTO_EXTRA_INSERT,
     MUT_AUTO_EXTRA_INSERT, MUT_AUTO_EXTRA_INSERT, MUT_AUTO_EXTRA_INSERT, MUT_SPLICE_OVERWRITE, MUT_SPLICE_OVERWRITE, MUT_SPLICE_OVERWRITE,
     MUT_SPLICE_OVERWRITE, MUT_SPLICE_OVERWRITE, MUT_SPLICE_OVERWRITE, MUT_SPLICE_OVERWRITE, MUT_SPLICE_OVERWRITE, MUT_SPLICE_OVERWRITE,
     MUT_SPLICE_INSERT, MUT_SPLICE_INSERT, MUT_SPLICE_INSERT, MUT_SPLICE_INSERT, MUT_SPLICE_INSERT, MUT_SPLICE_INSERT,
     MUT_SPLICE_INSERT, MUT_SPLICE_INSERT, MUT_SPLICE_INSERT, MUT_SPLICE_INSERT]"

definition mutation_strategy_exploration_binary :: "mutation list" where
  "mutation_strategy_exploration_binary = [
     MUT_FLIPBIT, MUT_FLIPBIT, MUT_FLIPBIT, MUT_FLIPBIT, MUT_FLIPBIT, MUT_FLIPBIT,
     MUT_FLIPBIT, MUT_INTERESTING8, MUT_INTERESTING8, MUT_INTERESTING8, MUT_INTERESTING8, MUT_INTERESTING8,
     MUT_INTERESTING8, MUT_INTERESTING16, MUT_INTERESTING16, MUT_INTERESTING16, MUT_INTERESTING16, MUT_INTERESTING16,
     MUT_INTERESTING16, MUT_INTERESTING16BE, MUT_INTERESTING16BE, MUT_INTERESTING16BE, MUT_INTERESTING16BE, MUT_INTERESTING16BE,
     MUT_INTERESTING16BE, MUT_INTERESTING32, MUT_INTERESTING32, MUT_INTERESTING32, MUT_INTERESTING32, MUT_INTERESTING32,
     MUT_INTERESTING32, MUT_INTERESTING32BE, MUT_INTERESTING32BE, MUT_INTERESTING32BE, MUT_INTERESTING32BE, MUT_INTERESTING32BE,
     MUT_INTERESTING32BE, MUT_ARITH8_SUB, MUT_ARITH8_SUB, MUT_ARITH8_SUB, MUT_ARITH8_SUB, MUT_ARITH8_SUB,
     MUT_ARITH8_SUB, MUT_ARITH8_SUB, MUT_ARITH8, MUT_ARITH8, MUT_ARITH8, MUT_ARITH8,
     MUT_ARITH8, MUT_ARITH8, MUT_ARITH8, MUT_ARITH16_SUB, MUT_ARITH16_SUB, MUT_ARITH16_SUB,
     MUT_ARITH16_SUB, MUT_ARITH16_SUB, MUT_ARITH16_SUB, MUT_ARITH16BE_SUB, MUT_ARITH16BE_SUB, MUT_ARITH16BE_SUB,
     MUT_ARITH16BE_SUB, MUT_ARITH16BE_SUB, MUT_ARITH16BE_SUB, MUT_ARITH16, MUT_ARITH16, MUT_ARITH16,
     MUT_ARITH16, MUT_ARITH16, MUT_ARITH16, MUT_ARITH16BE, MUT_ARITH16BE, MUT_ARITH16BE,
     MUT_ARITH16BE, MUT_ARITH16BE, MUT_ARITH16BE, MUT_ARITH32_SUB, MUT_ARITH32_SUB, MUT_ARITH32_SUB,
     MUT_ARITH32_SUB, MUT_ARITH32_SUB, MUT_ARITH32_SUB, MUT_ARITH32BE_SUB, MUT_ARITH32BE_SUB, MUT_ARITH32BE_SUB,
     MUT_ARITH32BE_SUB, MUT_ARITH32BE_SUB, MUT_ARITH32BE_SUB, MUT_ARITH32, MUT_ARITH32, MUT_ARITH32,
     MUT_ARITH32, MUT_ARITH32, MUT_ARITH32, MUT_ARITH32, MUT_ARITH32BE, MUT_ARITH32BE,
     MUT_ARITH32BE, MUT_ARITH32BE, MUT_ARITH32BE, MUT_ARITH32BE, MUT_RAND8, MUT_RAND8,
     MUT_RAND8, MUT_RAND8, MUT_RAND8, MUT_RAND8, MUT_CLONE_COPY, MUT_CLONE_COPY,
     MUT_CLONE_COPY, MUT_CLONE_COPY, MUT_CLONE_COPY, MUT_CLONE_COPY, MUT_CLONE_COPY, MUT_CLONE_COPY,
     MUT_CLONE_COPY, MUT_CLONE_COPY, MUT_CLONE_COPY, MUT_CLONE_COPY, MUT_CLONE_COPY, MUT_CLONE_COPY,
     MUT_CLONE_FIXED, MUT_CLONE_FIXED, MUT_CLONE_FIXED, MUT_CLONE_FIXED, MUT_CLONE_FIXED, MUT_CLONE_FIXED,
     MUT_CLONE_FIXED, MUT_CLONE_FIXED, MUT_CLONE_FIXED, MUT_OVERWRITE_COPY, MUT_OVERWRITE_COPY, MUT_OVERWRITE_COPY,
     MUT_OVERWRITE_COPY, MUT_OVERWRITE_COPY, MUT_OVERWRITE_COPY, MUT_OVERWRITE_COPY, MUT_OVERWRITE_COPY, MUT_OVERWRITE_COPY,
     MUT_OVERWRITE_FIXED, MUT_OVERWRITE_FIXED, MUT_OVERWRITE_FIXED, MUT_OVERWRITE_FIXED, MUT_OVERWRITE_FIXED, MUT_OVERWRITE_FIXED,
     MUT_OVERWRITE_FIXED, MUT_BYTEADD, MUT_BYTEADD, MUT_BYTEADD, MUT_BYTEADD, MUT_BYTEADD,
     MUT_BYTEADD, MUT_BYTEADD, MUT_BYTESUB, MUT_BYTESUB, MUT_BYTESUB, MUT_BYTESUB,
     MUT_BYTESUB, MUT_BYTESUB, MUT_BYTESUB, MUT_FLIP8, MUT_FLIP8, MUT_FLIP8,
     MUT_FLIP8, MUT_FLIP8, MUT_FLIP8, MUT_FLIP8, MUT_FLIP8, MUT_FLIP8,
     MUT_FLIP8, MUT_SWITCH, MUT_SWITCH, MUT_SWITCH, MUT_SWITCH, MUT_SWITCH,
     MUT_SWITCH, MUT_SWITCH, MUT_DEL, MUT_DEL, MUT_DEL, MUT_DEL,
     MUT_DEL, MUT_DEL, MUT_SHUFFLE, MUT_SHUFFLE, MUT_SHUFFLE, MUT_SHUFFLE,
     MUT_SHUFFLE, MUT_SHUFFLE, MUT_DELONE, MUT_DELONE, MUT_DELONE, MUT_DELONE,
     MUT_DELONE, MUT_DELONE, MUT_INSERTONE, MUT_INSERTONE, MUT_INSERTONE, MUT_INSERTONE,
     MUT_INSERTONE, MUT_INSERTONE, MUT_ASCIINUM, MUT_ASCIINUM, MUT_ASCIINUM, MUT_ASCIINUM,
     MUT_ASCIINUM, MUT_ASCIINUM, MUT_INSERTASCIINUM, MUT_INSERTASCIINUM, MUT_INSERTASCIINUM, MUT_INSERTASCIINUM,
     MUT_INSERTASCIINUM, MUT_INSERTASCIINUM, MUT_EXTRA_OVERWRITE, MUT_EXTRA_OVERWRITE, MUT_EXTRA_OVERWRITE, MUT_EXTRA_OVERWRITE,
     MUT_EXTRA_OVERWRITE, MUT_EXTRA_OVERWRITE, MUT_EXTRA_OVERWRITE, MUT_EXTRA_INSERT, MUT_EXTRA_INSERT, MUT_EXTRA_INSERT,
     MUT_EXTRA_INSERT, MUT_EXTRA_INSERT, MUT_EXTRA_INSERT, MUT_EXTRA_INSERT, MUT_AUTO_EXTRA_OVERWRITE, MUT_AUTO_EXTRA_OVERWRITE,
     MUT_AUTO_EXTRA_OVERWRITE, MUT_AUTO_EXTRA_OVERWRITE, MUT_AUTO_EXTRA_OVERWRITE, MUT_AUTO_EXTRA_OVERWRITE, MUT_AUTO_EXTRA_INSERT, MUT_AUTO_EXTRA_INSERT,
     MUT_AUTO_EXTRA_INSERT, MUT_AUTO_EXTRA_INSERT, MUT_AUTO_EXTRA_INSERT, MUT_AUTO_EXTRA_INSERT, MUT_SPLICE_OVERWRITE, MUT_SPLICE_OVERWRITE,
     MUT_SPLICE_OVERWRITE, MUT_SPLICE_OVERWRITE, MUT_SPLICE_OVERWRITE, MUT_SPLICE_OVERWRITE, MUT_SPLICE_OVERWRITE, MUT_SPLICE_OVERWRITE,
     MUT_SPLICE_INSERT, MUT_SPLICE_INSERT, MUT_SPLICE_INSERT, MUT_SPLICE_INSERT, MUT_SPLICE_INSERT, MUT_SPLICE_INSERT,
     MUT_SPLICE_INSERT, MUT_SPLICE_INSERT, MUT_SPLICE_INSERT, MUT_SPLICE_INSERT]"

definition mutation_strategy_exploitation_text :: "mutation list" where
  "mutation_strategy_exploitation_text = [
     MUT_FLIPBIT, MUT_FLIPBIT, MUT_FLIPBIT, MUT_FLIPBIT, MUT_FLIPBIT, MUT_FLIPBIT,
     MUT_FLIPBIT, MUT_INTERESTING8, MUT_INTERESTING8, MUT_INTERESTING8, MUT_INTERESTING8, MUT_INTERESTING8,
     MUT_INTERESTING8, MUT_INTERESTING8, MUT_INTERESTING16, MUT_INTERESTING16, MUT_INTERESTING16, MUT_INTERESTING16,
     MUT_INTERESTING16, MUT_INTERESTING16, MUT_INTERESTING16, MUT_INTERESTING16BE, MUT_INTERESTING16BE, MUT_INTERESTING16BE,
     MUT_INTERESTING16BE, MUT_INTERESTING16BE, MUT_INTERESTING16BE, MUT_INTERESTING16BE, MUT_INTERESTING32, MUT_INTERESTING32,
     MUT_INTERESTING32, MUT_INTERESTING32, MUT_INTERESTING32, MUT_INTERESTING32, MUT_INTERESTING32, MUT_INTERESTING32,
     MUT_INTERESTING32BE, MUT_INTERESTING32BE, MUT_INTERESTING32BE, MUT_INTERESTING32BE, MUT_INTERESTING32BE, MUT_INTERESTING32BE,
     MUT_INTERESTING32BE, MUT_INTERESTING32BE, MUT_ARITH8_SUB, MUT_ARITH8_SUB, MUT_ARITH8_SUB, MUT_ARITH8_SUB,
     MUT_ARITH8_SUB, MUT_ARITH8_SUB, MUT_ARITH8, MUT_ARITH8, MUT_ARITH8, MUT_ARITH8,
     MUT_ARITH8, MUT_ARITH8, MUT_ARITH8, MUT_ARITH16_SUB, MUT_ARITH16_SUB, MUT_ARITH16_SUB,
     MUT_ARITH16_SUB, MUT_ARITH16_SUB, MUT_ARITH16_SUB, MUT_ARITH16BE_SUB, MUT_ARITH16BE_SUB, MUT_ARITH16BE_SUB,
     MUT_ARITH16BE_SUB, MUT_ARITH16BE_SUB, MUT_ARITH16BE_SUB, MUT_ARITH16BE_SUB, MUT_ARITH16, MUT_ARITH16,
     MUT_ARITH16, MUT_ARITH16, MUT_ARITH16, MUT_ARITH16, MUT_ARITH16, MUT_ARITH16BE,
     MUT_ARITH16BE, MUT_ARITH16BE, MUT_ARITH16BE, MUT_ARITH16BE, MUT_ARITH16BE, MUT_ARITH16BE,
     MUT_ARITH32_SUB, MUT_ARITH32_SUB, MUT_ARITH32_SUB, MUT_ARITH32_SUB, MUT_ARITH32_SUB, MUT_ARITH32_SUB,
     MUT_ARITH32BE_SUB, MUT_ARITH32BE_SUB, MUT_ARITH32BE_SUB, MUT_ARITH32BE_SUB, MUT_ARITH32BE_SUB, MUT_ARITH32BE_SUB,
     MUT_ARITH32, MUT_ARITH32, MUT_ARITH32, MUT_ARITH32, MUT_ARITH32, MUT_ARITH32,
     MUT_ARITH32BE, MUT_ARITH32BE, MUT_ARITH32BE, MUT_ARITH32BE, MUT_ARITH32BE, MUT_ARITH32BE,
     MUT_ARITH32BE, MUT_RAND8, MUT_RAND8, MUT_RAND8, MUT_RAND8, MUT_RAND8,
     MUT_RAND8, MUT_RAND8, MUT_CLONE_COPY, MUT_CLONE_COPY, MUT_CLONE_COPY, MUT_CLONE_COPY,
     MUT_CLONE_COPY, MUT_CLONE_COPY, MUT_CLONE_COPY, MUT_CLONE_COPY, MUT_CLONE_COPY, MUT_CLONE_FIXED,
     MUT_CLONE_FIXED, MUT_CLONE_FIXED, MUT_CLONE_FIXED, MUT_CLONE_FIXED, MUT_CLONE_FIXED, MUT_CLONE_FIXED,
     MUT_CLONE_FIXED, MUT_OVERWRITE_COPY, MUT_OVERWRITE_COPY, MUT_OVERWRITE_COPY, MUT_OVERWRITE_COPY, MUT_OVERWRITE_COPY,
     MUT_OVERWRITE_COPY, MUT_OVERWRITE_FIXED, MUT_OVERWRITE_FIXED, MUT_OVERWRITE_FIXED, MUT_OVERWRITE_FIXED, MUT_OVERWRITE_FIXED,
     MUT_OVERWRITE_FIXED, MUT_BYTEADD, MUT_BYTEADD, MUT_BYTEADD, MUT_BYTEADD, MUT_BYTEADD,
     MUT_BYTEADD, MUT_BYTEADD, MUT_BYTESUB, MUT_BYTESUB, MUT_BYTESUB, MUT_BYTESUB,
     MUT_BYTESUB, MUT_BYTESUB, MUT_FLIP8, MUT_FLIP8, MUT_FLIP8, MUT_FLIP8,
     MUT_FLIP8, MUT_FLIP8, MUT_FLIP8, MUT_FLIP8, MUT_FLIP8, MUT_SWITCH,
     MUT_SWITCH, MUT_SWITCH, MUT_SWITCH, MUT_SWITCH, MUT_SWITCH, MUT_SWITCH,
     MUT_DEL, MUT_DEL, MUT_DEL, MUT_DEL, MUT_DEL, MUT_DEL,
     MUT_SHUFFLE, MUT_SHUFFLE, MUT_SHUFFLE, MUT_SHUFFLE, MUT_SHUFFLE, MUT_SHUFFLE,
     MUT_SHUFFLE, MUT_DELONE, MUT_DELONE, MUT_DELONE, MUT_DELONE, MUT_DELONE,
     MUT_INSERTONE, MUT_INSERTONE, MUT_INSERTONE, MUT_INSERTONE, MUT_INSERTONE, MUT_INSERTONE,
     MUT_ASCIINUM, MUT_ASCIINUM, MUT_ASCIINUM, MUT_ASCIINUM, MUT_ASCIINUM, MUT_ASCIINUM,
     MUT_INSERTASCIINUM, MUT_INSERTASCIINUM, MUT_INSERTASCIINUM, MUT_INSERTASCIINUM, MUT_INSERTASCIINUM, MUT_INSERTASCIINUM,
     MUT_INSERTASCIINUM, MUT_INSERTASCIINUM, MUT_EXTRA_OVERWRITE, MUT_EXTRA_OVERWRITE, MUT_EXTRA_OVERWRITE, MUT_EXTRA_OVERWRITE,
     MUT_EXTRA_OVERWRITE, MUT_EXTRA_OVERWRITE, MUT_EXTRA_OVERWRITE, MUT_EXTRA_INSERT, MUT_EXTRA_INSERT, MUT_EXTRA_INSERT,
     MUT_EXTRA_INSERT, MUT_EXTRA_INSERT, MUT_EXTRA_INSERT, MUT_EXTRA_INSERT, MUT_AUTO_EXTRA_OVERWRITE, MUT_AUTO_EXTRA_OVERWRITE,
     MUT_AUTO_EXTRA_OVERWRITE, MUT_AUTO_EXTRA_OVERWRITE, MUT_AUTO_EXTRA_OVERWRITE, MUT_AUTO_EXTRA_OVERWRITE, MUT_AUTO_EXTRA_OVERWRITE, MUT_AUTO_EXTRA_INSERT,
     MUT_AUTO_EXTRA_INSERT, MUT_AUTO_EXTRA_INSERT, MUT_AUTO_EXTRA_INSERT, MUT_AUTO_EXTRA_INSERT, MUT_AUTO_EXTRA_INSERT, MUT_AUTO_EXTRA_INSERT,
     MUT_SPLICE_OVERWRITE, MUT_SPLICE_OVERWRITE, MUT_SPLICE_OVERWRITE, MUT_SPLICE_OVERWRITE, MUT_SPLICE_OVERWRITE, MUT_SPLICE_OVERWRITE,
     MUT_SPLICE_OVERWRITE, MUT_SPLICE_INSERT, MUT_SPLICE_INSERT, MUT_SPLICE_INSERT, MUT_SPLICE_INSERT, MUT_SPLICE_INSERT,
     MUT_SPLICE_INSERT, MUT_SPLICE_INSERT, MUT_SPLICE_INSERT, MUT_SPLICE_INSERT]"

definition mutation_strategy_exploitation_binary :: "mutation list" where
  "mutation_strategy_exploitation_binary = [
     MUT_FLIPBIT, MUT_FLIPBIT, MUT_FLIPBIT, MUT_FLIPBIT, MUT_FLIPBIT, MUT_FLIPBIT,
     MUT_FLIPBIT, MUT_INTERESTING8, MUT_INTERESTING8, MUT_INTERESTING8, MUT_INTERESTING8, MUT_INTERESTING8,
     MUT_INTERESTING8, MUT_INTERESTING8, MUT_INTERESTING16, MUT_INTERESTING16, MUT_INTERESTING16, MUT_INTERESTING16,
     MUT_INTERESTING16, MUT_INTERESTING16, MUT_INTERESTING16, MUT_INTERESTING16BE, MUT_INTERESTING16BE, MUT_INTERESTING16BE,
     MUT_INTERESTING16BE, MUT_INTERESTING16BE, MUT_INTERESTING16BE, MUT_INTERESTING16BE, MUT_INTERESTING32, MUT_INTERESTING32,
     MUT_INTERESTING32, MUT_INTERESTING32, MUT_INTERESTING32, MUT_INTERESTING32, MUT_INTERESTING32, MUT_INTERESTING32,
     MUT_INTERESTING32BE, MUT_INTERESTING32BE, MUT_INTERESTING32BE, MUT_INTERESTING32BE, MUT_INTERESTING32BE, MUT_INTERESTING32BE,
     MUT_INTERESTING32BE, MUT_INTERESTING32BE, MUT_ARITH8_SUB, MUT_ARITH8_SUB, MUT_ARITH8_SUB, MUT_ARITH8_SUB,
     MUT_ARITH8_SUB, MUT_ARITH8_SUB, MUT_ARITH8, MUT_ARITH8, MUT_ARITH8, MUT_ARITH8,
     MUT_ARITH8, MUT_ARITH8, MUT_ARITH8, MUT_ARITH16_SUB, MUT_ARITH16_SUB, MUT_ARITH16_SUB,
     MUT_ARITH16_SUB, MUT_ARITH16_SUB, MUT_ARITH16_SUB, MUT_ARITH16BE_SUB, MUT_ARITH16BE_SUB, MUT_ARITH16BE_SUB,
     MUT_ARITH16BE_SUB, MUT_ARITH16BE_SUB, MUT_ARITH16BE_SUB, MUT_ARITH16BE_SUB, MUT_ARITH16, MUT_ARITH16,
     MUT_ARITH16, MUT_ARITH16, MUT_ARITH16, MUT_ARITH16, MUT_ARITH16, MUT_ARITH16BE,
     MUT_ARITH16BE, MUT_ARITH16BE, MUT_ARITH16BE, MUT_ARITH16BE, MUT_ARITH16BE, MUT_ARITH16BE,
     MUT_ARITH32_SUB, MUT_ARITH32_SUB, MUT_ARITH32_SUB, MUT_ARITH32_SUB, MUT_ARITH32_SUB, MUT_ARITH32_SUB,
     MUT_ARITH32BE_SUB, MUT_ARITH32BE_SUB, MUT_ARITH32BE_SUB, MUT_ARITH32BE_SUB, MUT_ARITH32BE_SUB, MUT_ARITH32BE_SUB,
     MUT_ARITH32BE_SUB, MUT_ARITH32, MUT_ARITH32, MUT_ARITH32, MUT_ARITH32, MUT_ARITH32,
     MUT_ARITH32, MUT_ARITH32, MUT_ARITH32BE, MUT_ARITH32BE, MUT_ARITH32BE, MUT_ARITH32BE,
     MUT_ARITH32BE, MUT_ARITH32BE, MUT_ARITH32BE, MUT_RAND8, MUT_RAND8, MUT_RAND8,
     MUT_RAND8, MUT_RAND8, MUT_RAND8, MUT_RAND8, MUT_CLONE_COPY, MUT_CLONE_COPY,
     MUT_CLONE_COPY, MUT_CLONE_COPY, MUT_CLONE_COPY, MUT_CLONE_COPY, MUT_CLONE_COPY, MUT_CLONE_COPY,
     MUT_CLONE_COPY, MUT_CLONE_FIXED, MUT_CLONE_FIXED, MUT_CLONE_FIXED, MUT_CLONE_FIXED, MUT_CLONE_FIXED,
     MUT_CLONE_FIXED, MUT_CLONE_FIXED, MUT_CLONE_FIXED, MUT_OVERWRITE_COPY, MUT_OVERWRITE_COPY, MUT_OVERWRITE_COPY,
     MUT_OVERWRITE_COPY, MUT_OVERWRITE_COPY, MUT_OVERWRITE_COPY, MUT_OVERWRITE_FIXED, MUT_OVERWRITE_FIXED, MUT_OVERWRITE_FIXED,
     MUT_OVERWRITE_FIXED, MUT_OVERWRITE_FIXED, MUT_OVERWRITE_FIXED, MUT_BYTEADD, MUT_BYTEADD, MUT_BYTEADD,
     MUT_BYTEADD, MUT_BYTEADD, MUT_BYTEADD, MUT_BYTEADD, MUT_BYTESUB, MUT_BYTESUB,
     MUT_BYTESUB, MUT_BYTESUB, MUT_BYTESUB, MUT_BYTESUB, MUT_FLIP8, MUT_FLIP8,
     MUT_FLIP8, MUT_FLIP8, MUT_FLIP8, MUT_FLIP8, MUT_FLIP8, MUT_FLIP8,
     MUT_FLIP8, MUT_FLIP8, MUT_SWITCH, MUT_SWITCH, MUT_SWITCH, MUT_SWITCH,
     MUT_SWITCH, MUT_SWITCH, MUT_SWITCH, MUT_DEL, MUT_DEL, MUT_DEL,
     MUT_DEL, MUT_DEL, MUT_DEL, MUT_SHUFFLE, MUT_SHUFFLE, MUT_SHUFFLE,
     MUT_SHUFFLE, MUT_SHUFFLE, MUT_SHUFFLE, MUT_DELONE, MUT_DELONE, MUT_DELONE,
     MUT_DELONE, MUT_DELONE, MUT_INSERTONE, MUT_INSERTONE, MUT_INSERTONE, MUT_INSERTONE,
     MUT_INSERTONE, MUT_INSERTONE, MUT_ASCIINUM, MUT_ASCIINUM, MUT_ASCIINUM, MUT_ASCIINUM,
     MUT_ASCIINUM, MUT_INSERTASCIINUM, MUT_INSERTASCIINUM, MUT_INSERTASCIINUM, MUT_INSERTASCIINUM, MUT_INSERTASCIINUM,
     MUT_INSERTASCIINUM, MUT_INSERTASCIINUM, MUT_EXTRA_OVERWRITE, MUT_EXTRA_OVERWRITE, MUT_EXTRA_OVERWRITE, MUT_EXTRA_OVERWRITE,
     MUT_EXTRA_OVERWRITE, MUT_EXTRA_OVERWRITE, MUT_EXTRA_OVERWRITE, MUT_EXTRA_INSERT, MUT_EXTRA_INSERT, MUT_EXTRA_INSERT,
     MUT_EXTRA_INSERT, MUT_EXTRA_INSERT, MUT_EXTRA_INSERT, MUT_EXTRA_INSERT, MUT_AUTO_EXTRA_OVERWRITE, MUT_AUTO_EXTRA_OVERWRITE,
     MUT_AUTO_EXTRA_OVERWRITE, MUT_AUTO_EXTRA_OVERWRITE, MUT_AUTO_EXTRA_OVERWRITE, MUT_AUTO_EXTRA_OVERWRITE, MUT_AUTO_EXTRA_OVERWRITE, MUT_AUTO_EXTRA_INSERT,
     MUT_AUTO_EXTRA_INSERT, MUT_AUTO_EXTRA_INSERT, MUT_AUTO_EXTRA_INSERT, MUT_AUTO_EXTRA_INSERT, MUT_AUTO_EXTRA_INSERT, MUT_AUTO_EXTRA_INSERT,
     MUT_SPLICE_OVERWRITE, MUT_SPLICE_OVERWRITE, MUT_SPLICE_OVERWRITE, MUT_SPLICE_OVERWRITE, MUT_SPLICE_OVERWRITE, MUT_SPLICE_OVERWRITE,
     MUT_SPLICE_OVERWRITE, MUT_SPLICE_INSERT, MUT_SPLICE_INSERT, MUT_SPLICE_INSERT, MUT_SPLICE_INSERT, MUT_SPLICE_INSERT,
     MUT_SPLICE_INSERT, MUT_SPLICE_INSERT, MUT_SPLICE_INSERT, MUT_SPLICE_INSERT]"

end
