(* ===== verification/Mutators.thy ===== *)
theory Mutators
  imports Gen Mutations Extras
begin

text \<open>
  The mutations of a stacked step, in the order in which the havoc stage of \<^verbatim>\<open>AFLplusplus/src/afl-fuzz-one.c\<close> lists them. \<^verbatim>\<open>afl_mutate\<close> in
  \<^verbatim>\<open>include/afl-mutations.h\<close> repeats most of them; where only the limit of the length or a test differs, the difference is a parameter. The buffer and
  \<^verbatim>\<open>temp_len\<close> are one list. A mutation returns a new buffer, or \<open>Again\<close> for \<^verbatim>\<open>goto retry_havoc_step\<close>. Conversions to a 64-bit signed number wrap around.
\<close>

unbundle bit_operations_syntax

section \<open>State and block lengths\<close>

record mut_env =
  queue_cycle :: nat
  run_over10m :: bool
  extra_tokens :: "bytes list"
  a_extra_tokens :: "bytes list"
  ready_for_splicing_count :: nat
  queue_data :: "bytes list"
  current_entry :: nat
  stack_bytes :: bytes

datatype outcome = Again | Done bytes

abbreviation (input) HAVOC_BLK_SMALL :: nat where "HAVOC_BLK_SMALL \<equiv> 32"
abbreviation (input) HAVOC_BLK_MEDIUM :: nat where "HAVOC_BLK_MEDIUM \<equiv> 128"
abbreviation (input) HAVOC_BLK_LARGE :: nat where "HAVOC_BLK_LARGE \<equiv> 1500"
abbreviation (input) HAVOC_BLK_XL :: nat where "HAVOC_BLK_XL \<equiv> 32768"

definition block_range :: "mut_env \<Rightarrow> (nat \<times> nat) gen" where
  "block_range env =
     andthen (below (if run_over10m env then min (queue_cycle env) 3 else 1)) (\<lambda>c.
       if c = 0 then ret (1, HAVOC_BLK_SMALL)
       else if c = 1 then ret (HAVOC_BLK_SMALL, HAVOC_BLK_MEDIUM)
       else andthen (below 10) (\<lambda>d.
         if d \<noteq> 0 then ret (HAVOC_BLK_MEDIUM, HAVOC_BLK_LARGE) else ret (HAVOC_BLK_LARGE, HAVOC_BLK_XL)))"

definition choose_block_len :: "mut_env \<Rightarrow> nat \<Rightarrow> nat gen" where
  "choose_block_len env limit =
     andthen (block_range env) (\<lambda>(min_value, max_value).
       let min_value = (if limit \<le> min_value then 1 else min_value)
       in andthen (minus (min max_value limit + 1) min_value) (\<lambda>n. andthen (below n) (\<lambda>r. ret (min_value + r))))"

section \<open>Bytes and units\<close>

definition commit :: "bytes gen \<Rightarrow> outcome gen" where
  "commit m = andthen m (\<lambda>b. ret (Done b))"

text \<open>Leave the buffer as it is if it is too short; draw another mutation, except for a short buffer.\<close>

definition at_least :: "nat \<Rightarrow> bytes \<Rightarrow> outcome gen \<Rightarrow> outcome gen" where
  "at_least n b m = (if length b < n then ret (Done b) else m)"

definition retry_if_long :: "bytes \<Rightarrow> outcome gen" where
  "retry_if_long b = (if length b < 8 then ret (Done b) else ret Again)"

definition flipbit :: "bytes \<Rightarrow> outcome gen" where
  "flipbit b = andthen (below 8) (\<lambda>bit. andthen (below (length b)) (\<lambda>off.
     commit (at_byte off (\<lambda>c. c XOR push_bit bit 1) b)))"

definition interesting8 :: "bytes \<Rightarrow> outcome gen" where
  "interesting8 b = andthen (pick interesting_8) (\<lambda>v. andthen (below (length b)) (\<lambda>off.
     commit (at_byte off (\<lambda>_. of_int v) b)))"

definition interesting16 :: "(u16 \<Rightarrow> u16) \<Rightarrow> bytes \<Rightarrow> outcome gen" where
  "interesting16 order b = at_least 2 b (andthen (pick interesting_16) (\<lambda>v. andthen (below (length b - 1)) (\<lambda>pos.
     commit (at_unit 2 pos (\<lambda>_. order (of_int v)) b))))"

definition interesting32 :: "(u32 \<Rightarrow> u32) \<Rightarrow> bytes \<Rightarrow> outcome gen" where
  "interesting32 order b = at_least 4 b (andthen (pick interesting_32) (\<lambda>v. andthen (below (length b - 3)) (\<lambda>pos.
     commit (at_unit 4 pos (\<lambda>_. order (of_int v)) b))))"

definition arith8 :: "(u8 \<Rightarrow> u8 \<Rightarrow> u8) \<Rightarrow> bytes \<Rightarrow> outcome gen" where
  "arith8 f b = andthen (below ARITH_MAX) (\<lambda>n. andthen (below (length b)) (\<lambda>off.
     commit (at_byte off (\<lambda>c. f c (of_nat (1 + n))) b)))"

definition arith16 :: "(u16 \<Rightarrow> u16 \<Rightarrow> u16) \<Rightarrow> bytes \<Rightarrow> outcome gen" where
  "arith16 f b = at_least 2 b (andthen (below (length b - 1)) (\<lambda>pos. andthen (below ARITH_MAX) (\<lambda>n.
     commit (at_unit 2 pos (\<lambda>w. f w (of_nat (1 + n))) b))))"

definition arith32 :: "(u32 \<Rightarrow> u32 \<Rightarrow> u32) \<Rightarrow> bytes \<Rightarrow> outcome gen" where
  "arith32 f b = at_least 4 b (andthen (below (length b - 3)) (\<lambda>pos. andthen (below ARITH_MAX) (\<lambda>n.
     commit (at_unit 4 pos (\<lambda>w. f w (of_nat (1 + n))) b))))"

definition be16 :: "(u16 \<Rightarrow> u16 \<Rightarrow> u16) \<Rightarrow> u16 \<Rightarrow> u16 \<Rightarrow> u16" where
  "be16 f w n = SWAP16 (f (SWAP16 w) n)"

definition be32 :: "(u32 \<Rightarrow> u32 \<Rightarrow> u32) \<Rightarrow> u32 \<Rightarrow> u32 \<Rightarrow> u32" where
  "be32 f w n = SWAP32 (f (SWAP32 w) n)"

definition rand8 :: "bytes \<Rightarrow> outcome gen" where
  "rand8 b = andthen (below (length b)) (\<lambda>pos. andthen (below 255) (\<lambda>n.
     commit (at_byte pos (\<lambda>c. c XOR of_nat (1 + n)) b)))"

definition byte_op :: "(u8 \<Rightarrow> u8) \<Rightarrow> bytes \<Rightarrow> outcome gen" where
  "byte_op f b = andthen (below (length b)) (\<lambda>off. commit (at_byte off f b))"

section \<open>Blocks\<close>

text \<open>The byte of a constant block: a random one or the one before the position.\<close>

definition fixed_byte :: "nat \<Rightarrow> bytes \<Rightarrow> u8 gen" where
  "fixed_byte pos b = andthen (below 2) (\<lambda>strat.
     if strat \<noteq> 0 then andthen (below 256) (\<lambda>c. ret (of_nat c)) else load (if pos = 0 then 0 else pos - 1) b)"

text \<open>An offset at which \<open>n\<close> of the bytes fit.\<close>

definition offset_for :: "nat \<Rightarrow> bytes \<Rightarrow> nat gen" where
  "offset_for n b = andthen (minus (length b) n) (\<lambda>m. below (m + 1))"

definition clone_copy :: "mut_env \<Rightarrow> nat \<Rightarrow> bytes \<Rightarrow> outcome gen" where
  "clone_copy env max_len b =
     (if length b + HAVOC_BLK_XL < max_len
      then andthen (choose_block_len env (length b)) (\<lambda>clone_len.
           andthen (offset_for clone_len b) (\<lambda>clone_from.
           andthen (below (length b)) (\<lambda>clone_to.
           andthen (slice clone_from clone_len b) (\<lambda>t. commit (replace clone_to clone_to t b)))))
      else retry_if_long b)"

definition clone_fixed :: "mut_env \<Rightarrow> nat \<Rightarrow> bytes \<Rightarrow> outcome gen" where
  "clone_fixed env max_len b =
     (if length b + HAVOC_BLK_XL < max_len
      then andthen (choose_block_len env HAVOC_BLK_XL) (\<lambda>clone_len.
           andthen (below (length b)) (\<lambda>clone_to.
           andthen (fixed_byte clone_to b) (\<lambda>item.
             commit (replace clone_to clone_to (replicate clone_len item) b))))
      else retry_if_long b)"

definition overwrite_copy :: "mut_env \<Rightarrow> bytes \<Rightarrow> outcome gen" where
  "overwrite_copy env b = at_least 2 b
     (andthen (choose_block_len env (length b - 1)) (\<lambda>copy_len.
      andthen (minus (length b) copy_len) (\<lambda>m.
      andthen (differing_pair (m + 1)) (\<lambda>(copy_from, copy_to).
      andthen (slice copy_from copy_len b) (\<lambda>t. commit (paste copy_to t b))))))"

definition overwrite_fixed :: "mut_env \<Rightarrow> bytes \<Rightarrow> outcome gen" where
  "overwrite_fixed env b = at_least 2 b
     (andthen (choose_block_len env (length b - 1)) (\<lambda>copy_len.
      andthen (offset_for copy_len b) (\<lambda>copy_to.
      andthen (fixed_byte copy_to b) (\<lambda>item. commit (paste copy_to (replicate copy_len item) b)))))"

text \<open>The blocks must not overlap, since they are copied with \<^verbatim>\<open>memcpy\<close>.\<close>

definition switch_blocks :: "nat \<Rightarrow> nat \<Rightarrow> nat \<Rightarrow> bytes \<Rightarrow> bytes gen" where
  "switch_blocks i j n b =
     andthen (slice i n b) (\<lambda>t.
     andthen (slice j n b) (\<lambda>u.
     andthen (check (i + n \<le> j \<or> j + n \<le> i) b) (\<lambda>b.
     andthen (paste i u b) (\<lambda>b. paste j t b))))"

definition switch_bytes :: "mut_env \<Rightarrow> bytes \<Rightarrow> outcome gen" where
  "switch_bytes env b = at_least 4 b
     (andthen (below (length b)) (\<lambda>switch_from.
      andthen (draw_until (\<lambda>t. switch_from \<noteq> t) (length b)) (\<lambda>switch_to.
        let switch_len = (if switch_from < switch_to then switch_to - switch_from else switch_from - switch_to);
            to_end = (if switch_from < switch_to then length b - switch_to else length b - switch_from)
        in andthen (choose_block_len env (min switch_len to_end)) (\<lambda>switch_len.
             commit (switch_blocks switch_from switch_to switch_len b)))))"

definition del_bytes :: "mut_env \<Rightarrow> bytes \<Rightarrow> outcome gen" where
  "del_bytes env b = at_least 2 b
     (andthen (choose_block_len env (length b - 1)) (\<lambda>del_len.
      andthen (offset_for del_len b) (\<lambda>del_from. commit (replace del_from (del_from + del_len) [] b))))"

fun shuffle_loop :: "nat \<Rightarrow> nat \<Rightarrow> bytes \<Rightarrow> bytes gen" where
  "shuffle_loop off 0 b = ret b"
| "shuffle_loop off (Suc i) b =
     andthen (draw_until (\<lambda>j. Suc i \<noteq> j) (Suc i + 1)) (\<lambda>j.
     andthen (load (off + Suc i) b) (\<lambda>temp.
     andthen (load (off + j) b) (\<lambda>c.
     andthen (at_byte (off + Suc i) (\<lambda>_. c) b) (\<lambda>b.
     andthen (at_byte (off + j) (\<lambda>_. temp) b) (\<lambda>b. shuffle_loop off i b)))))"

definition shuffle :: "mut_env \<Rightarrow> bytes \<Rightarrow> outcome gen" where
  "shuffle env b = at_least 4 b
     (andthen (choose_block_len env (length b - 1)) (\<lambda>n.
      andthen (offset_for n b) (\<lambda>off.
      andthen (minus n 1) (\<lambda>i. commit (shuffle_loop off i b)))))"

definition delone :: "bytes \<Rightarrow> outcome gen" where
  "delone b = at_least 2 b
     (andthen (offset_for 1 b) (\<lambda>del_from. commit (replace del_from (del_from + 1) [] b)))"

definition insertone :: "bytes \<Rightarrow> outcome gen" where
  "insertone b = andthen (below (length b)) (\<lambda>clone_to.
     andthen (fixed_byte clone_to b) (\<lambda>item. commit (replace clone_to clone_to [item] b)))"

section \<open>Numbers\<close>

definition wrap64 :: "int \<Rightarrow> int" where
  "wrap64 v = signed_take_bit 63 v"

definition c_div :: "int \<Rightarrow> int \<Rightarrow> int" where
  "c_div v n = (if v < 0 then - (- v div n) else v div n)"

function decimal :: "nat \<Rightarrow> bytes" where
  "decimal n = (if n < 10 then [48 + of_nat n] else decimal (n div 10) @ [48 + of_nat (n mod 10)])"
  by auto
termination by (relation "measure id") auto

declare decimal.simps [simp del]

text \<open>\<^verbatim>\<open>%lld\<close> and the characters that a \<^verbatim>\<open>snprintf\<close> into a buffer of a given size keeps.\<close>

definition print_int :: "int \<Rightarrow> bytes" where
  "print_int v = (if v < 0 then 45 # decimal (nat (- v)) else decimal (nat v))"

definition snprintf :: "nat \<Rightarrow> bytes \<Rightarrow> bytes" where
  "snprintf room t = take (room - 1) t"

text \<open>The first digit from an offset on, and from the beginning if there is none; the end of its number.\<close>

definition find_digit :: "nat \<Rightarrow> bytes \<Rightarrow> nat option" where
  "find_digit off b =
     (let cnt = length (takeWhile (\<lambda>c. \<not> isdigit c) (drop off b))
      in if off + cnt \<noteq> length b then Some (off + cnt)
         else let cnt = length (takeWhile (\<lambda>c. \<not> isdigit c) (take off b))
              in if cnt = off then None else Some cnt)"

definition number_end :: "nat \<Rightarrow> bytes \<Rightarrow> nat" where
  "number_end off b = off + 1 + length (takeWhile isdigit (drop (off + 1) b))"

definition digit :: "u8 \<Rightarrow> int" where
  "digit c = uint c - 48"

definition negated :: "nat \<Rightarrow> bytes \<Rightarrow> int \<Rightarrow> int" where
  "negated off b v = (if off \<noteq> 0 \<and> b ! (off - 1) = 45 then - v else v)"

definition number_at :: "nat \<Rightarrow> nat \<Rightarrow> bytes \<Rightarrow> int" where
  "number_at off off2 b =
     wrap64 (negated off b
       (foldl (\<lambda>v c. wrap64 (v * 10 + digit c)) (digit (b ! off)) (take (off2 - (off + 1)) (drop (off + 1) b))))"

text \<open>A random number with about as many digits, or a byte.\<close>

definition rescale :: "int \<Rightarrow> int gen" where
  "rescale v = (if v \<noteq> 0 \<and> uint (of_int v :: u64) < 0x19999999
     then andthen next64 (\<lambda>r. ret (int r mod (v * 10))) else andthen (below 256) (\<lambda>r. ret (int r)))"

definition change_number :: "int \<Rightarrow> int gen" where
  "change_number v = andthen (below 8) (\<lambda>strat.
     if strat = 0 then ret (wrap64 (v + 1))
     else if strat = 1 then ret (wrap64 (v - 1))
     else if strat = 2 then ret (wrap64 (v * 2))
     else if strat = 3 then ret (c_div v 2)
     else if strat = 4 then rescale v
     else if strat = 5 then andthen (below 256) (\<lambda>r. ret (wrap64 (v + int r)))
     else if strat = 6 then andthen (below 256) (\<lambda>r. ret (wrap64 (v - int r)))
     else ret (- v - 1))"

definition put_number :: "nat \<Rightarrow> nat \<Rightarrow> bytes \<Rightarrow> bytes \<Rightarrow> bytes gen" where
  "put_number off off2 t b = (if off2 - off = length t then paste off t b else replace off off2 t b)"

definition asciinum :: "bytes \<Rightarrow> outcome gen" where
  "asciinum b = at_least 4 b (andthen (below (length b)) (\<lambda>off. case find_digit off b of
     None \<Rightarrow> retry_if_long b
   | Some off \<Rightarrow> let off2 = number_end off b in
       andthen (change_number (number_at off off2 b)) (\<lambda>v. commit (put_number off off2 (snprintf 20 (print_int v)) b))))"

text \<open>As many bytes are copied as were asked for: after a shorter number its terminator and what the stack held.\<close>

definition insertasciinum :: "mut_env \<Rightarrow> bytes \<Rightarrow> outcome gen" where
  "insertasciinum env b = andthen (below 8) (\<lambda>n. andthen (below (length b)) (\<lambda>pos.
     if length b < pos + (1 + n) then retry_if_long b
     else andthen next64 (\<lambda>v. let t = snprintf 20 (decimal v)
       in andthen (slice 0 (1 + n) (overwrite 0 (t @ [0]) (stack_bytes env))) (\<lambda>t. commit (paste pos t b)))))"

section \<open>Tokens and other test cases\<close>

definition extra_overwrite :: "bytes list \<Rightarrow> bytes \<Rightarrow> outcome gen" where
  "extra_overwrite tokens b = (if tokens = [] then ret Again
     else andthen (pick tokens) (\<lambda>t. if length t > length b then ret Again
       else andthen (offset_for (length t) b) (\<lambda>i. commit (paste i t b))))"

definition extra_insert :: "nat \<Rightarrow> bytes list \<Rightarrow> bytes \<Rightarrow> outcome gen" where
  "extra_insert max_len tokens b = (if tokens = [] then ret Again
     else andthen (pick tokens) (\<lambda>t. if length b + length t > max_len then ret Again
       else andthen (below (length b + 1)) (\<lambda>i. commit (replace i i t b))))"

text \<open>Another entry of the queue with at least four bytes.\<close>

definition splice_target :: "mut_env \<Rightarrow> bytes gen" where
  "splice_target env =
     andthen (draw_until (\<lambda>tid. \<not> (tid = current_entry env \<or> length (queue_data env ! tid) < 4)) (length (queue_data env)))
       (\<lambda>tid. check (tid < length (queue_data env)) (queue_data env ! tid))"

definition splice_overwrite :: "mut_env \<Rightarrow> bytes \<Rightarrow> bytes \<Rightarrow> outcome gen" where
  "splice_overwrite env src b =
     andthen (choose_block_len env (length src - 1)) (\<lambda>n. let copy_len = (if n > length b then length b else n) in
     andthen (offset_for copy_len src) (\<lambda>copy_from.
     andthen (offset_for copy_len b) (\<lambda>copy_to.
     andthen (slice copy_from copy_len src) (\<lambda>t. commit (paste copy_to t b)))))"

definition splice_insert :: "mut_env \<Rightarrow> bytes \<Rightarrow> bytes \<Rightarrow> outcome gen" where
  "splice_insert env src b =
     andthen (choose_block_len env (length src)) (\<lambda>clone_len.
     andthen (offset_for clone_len src) (\<lambda>clone_from.
     andthen (below (length b + 1)) (\<lambda>clone_to.
     andthen (slice clone_from clone_len src) (\<lambda>t. commit (replace clone_to clone_to t b)))))"

end
