(* ===== verification/Mutator_Props.thy ===== *)
theory Mutator_Props
  imports Mutators
begin

text \<open>
  What the mutations guarantee for every choice: they stay within the buffers, never make the buffer empty, and let it grow by a limited number of bytes.
\<close>

section \<open>Lengths\<close>

definition sized :: "nat \<Rightarrow> bytes \<Rightarrow> outcome \<Rightarrow> bool" where
  "sized limit b oc = (case oc of Again \<Rightarrow> True | Done c \<Rightarrow> c \<noteq> [] \<and> length c \<le> max (length b) limit)"

lemma sized_simps [simp]:
  "sized limit b Again"
  "sized limit b (Done c) \<longleftrightarrow> c \<noteq> [] \<and> length c \<le> max (length b) limit"
  by (simp_all add: sized_def)

lemma sized_mono: "sized l b oc \<Longrightarrow> l \<le> k \<Longrightarrow> sized k b oc"
  by (cases oc) auto

lemma yields_sized_mono: "yields (sized l b) m \<Longrightarrow> l \<le> k \<Longrightarrow> yields (sized k b) m"
  by (erule yields_weaken) (rule sized_mono)

lemma yields_commit [gen_intros]: "yields Q (andthen m (\<lambda>b. ret (Done b))) \<Longrightarrow> yields Q (commit m)"
  by (simp add: commit_def)

lemma yields_at_least [gen_intros]: "Q (Done b) \<Longrightarrow> (n \<le> length b \<Longrightarrow> yields Q m) \<Longrightarrow> yields Q (at_least n b m)"
  by (auto simp: at_least_def intro: yields_ret)

lemma yields_retry_if_long [gen_intros]: "Q (Done b) \<Longrightarrow> Q Again \<Longrightarrow> yields Q (retry_if_long b)"
  by (auto simp: retry_if_long_def intro: yields_ret)

lemma yields_pair [gen_intros]: "yields Q (f a b) \<Longrightarrow> yields Q (case (a, b) of (x, y) \<Rightarrow> f x y)"
  by simp

lemma nonempty_wr [simp]: "b \<noteq> [] \<Longrightarrow> i + k \<le> length b \<Longrightarrow> wr k i w b \<noteq> []"
  by (metis length_0_conv length_wr)

lemma nonempty_overwrite [simp]: "b \<noteq> [] \<Longrightarrow> i + length t \<le> length b \<Longrightarrow> overwrite i t b \<noteq> []"
  by (metis length_0_conv length_overwrite)

text \<open>Block lengths.\<close>

lemma yields_below_Suc: "yields (\<lambda>x. x \<le> n - 1) (below n)"
proof (cases "n = 0")
  case True
  then show ?thesis by (simp add: below_def yields_def)
next
  case False
  then show ?thesis using yields_below [of n] by (auto elim!: yields_weaken)
qed

lemma yields_block_range: "yields (\<lambda>(lo, hi). 1 \<le> lo \<and> lo \<le> hi \<and> hi \<le> HAVOC_BLK_XL) (block_range env)"
  unfolding block_range_def
  by (rule yields_andthen [OF yields_below_Suc]) (intro gen_intros; simp)

lemma yields_choose_block_len:
  "yields (\<lambda>n. 1 \<le> n \<and> (limit = 0 \<or> n \<le> limit) \<and> (limit \<noteq> 0 \<or> n = 1) \<and> n \<le> HAVOC_BLK_XL) (choose_block_len env limit)"
  unfolding choose_block_len_def Let_def
  by (rule yields_andthen [OF yields_block_range], clarsimp split del: if_split)
     (rule gen_intros; (rule yields_andthen [OF yields_below_Suc])?; auto intro!: gen_intros)

lemma step_choose_block_len [gen_intros]:
  "(\<And>n. 1 \<le> n \<Longrightarrow> limit = 0 \<or> n \<le> limit \<Longrightarrow> limit \<noteq> 0 \<or> n = 1 \<Longrightarrow> n \<le> HAVOC_BLK_XL \<Longrightarrow> yields Q (f n)) \<Longrightarrow> yields Q (andthen (choose_block_len env limit) f)"
  by (rule yields_andthen [OF yields_choose_block_len]) simp

lemma step_offset_for [gen_intros]:
  "n \<le> length b \<Longrightarrow> (\<And>i. i + n \<le> length b \<Longrightarrow> yields Q (f i)) \<Longrightarrow> yields Q (andthen (offset_for n b) f)"
  unfolding offset_for_def
  by (rule yields_andthen [where P = "\<lambda>i. i + n \<le> length b"]) (auto intro!: gen_intros yields_below [THEN yields_weaken])

lemma step_fixed_byte [gen_intros]:
  "pos < length b \<Longrightarrow> (\<And>c. yields Q (f c)) \<Longrightarrow> yields Q (andthen (fixed_byte pos b) f)"
  unfolding fixed_byte_def
  by (rule yields_andthen [where P = "\<lambda>_. True"]) (auto intro!: gen_intros yields_check simp: load_def)

section \<open>Mutations\<close>

named_theorems mutation_ok

lemma flipbit_ok [mutation_ok]: "b \<noteq> [] \<Longrightarrow> yields (sized l b) (flipbit b)"
  unfolding flipbit_def by (intro gen_intros) auto

lemma interesting8_ok [mutation_ok]: "b \<noteq> [] \<Longrightarrow> yields (sized l b) (interesting8 b)"
  unfolding interesting8_def by (intro gen_intros) (auto simp: interesting_8_def INTERESTING_8_def)

lemma interesting16_ok [mutation_ok]: "b \<noteq> [] \<Longrightarrow> yields (sized l b) (interesting16 f b)"
  unfolding interesting16_def by (intro gen_intros) (simp_all add: interesting_16_def INTERESTING_8_def)

lemma interesting32_ok [mutation_ok]: "b \<noteq> [] \<Longrightarrow> yields (sized l b) (interesting32 f b)"
  unfolding interesting32_def by (intro gen_intros) (simp_all add: interesting_32_def INTERESTING_8_def)

lemma arith8_ok [mutation_ok]: "b \<noteq> [] \<Longrightarrow> yields (sized l b) (arith8 f b)"
  unfolding arith8_def by (intro gen_intros) auto

lemma arith16_ok [mutation_ok]: "b \<noteq> [] \<Longrightarrow> yields (sized l b) (arith16 f b)"
  unfolding arith16_def by (intro gen_intros) simp_all

lemma arith32_ok [mutation_ok]: "b \<noteq> [] \<Longrightarrow> yields (sized l b) (arith32 f b)"
  unfolding arith32_def by (intro gen_intros) simp_all

lemma rand8_ok [mutation_ok]: "b \<noteq> [] \<Longrightarrow> yields (sized l b) (rand8 b)"
  unfolding rand8_def by (intro gen_intros) auto

lemma byte_op_ok [mutation_ok]: "b \<noteq> [] \<Longrightarrow> yields (sized l b) (byte_op f b)"
  unfolding byte_op_def by (intro gen_intros) auto

lemma clone_copy_ok: "b \<noteq> [] \<Longrightarrow> yields (sized (max_len - 1) b) (clone_copy env max_len b)"
  unfolding clone_copy_def by (intro gen_intros) auto

lemma clone_fixed_ok: "b \<noteq> [] \<Longrightarrow> yields (sized (max_len - 1) b) (clone_fixed env max_len b)"
  unfolding clone_fixed_def by (intro gen_intros) auto

lemma overwrite_copy_ok [mutation_ok]: "b \<noteq> [] \<Longrightarrow> yields (sized l b) (overwrite_copy env b)"
  unfolding overwrite_copy_def by (intro gen_intros) auto

lemma overwrite_fixed_ok [mutation_ok]: "b \<noteq> [] \<Longrightarrow> yields (sized l b) (overwrite_fixed env b)"
  unfolding overwrite_fixed_def by (intro gen_intros) auto

text \<open>Blocks that change places: the bytes are the same, in another order.\<close>

lemma yields_check_step [gen_intros]: "c \<Longrightarrow> yields Q (f x) \<Longrightarrow> yields Q (andthen (check c x) f)"
  by (rule andthen_check)

lemma swap_split:
  assumes "i + n \<le> j" "j + n \<le> length b"
  shows "b = take i b @ take n (drop i b) @ take (j - (i + n)) (drop (i + n) b) @ take n (drop j b) @ drop (j + n) b"
proof -
  have "b = take i b @ drop i b" by simp
  also have "drop i b = take n (drop i b) @ drop (i + n) b" by (metis add.commute append_take_drop_id drop_drop)
  also have "drop (i + n) b = take (j - (i + n)) (drop (i + n) b) @ drop j b"
    using assms(1) by (metis append_take_drop_id drop_drop le_add_diff_inverse2)
  also have "drop j b = take n (drop j b) @ drop (j + n) b" by (metis add.commute append_take_drop_id drop_drop)
  finally show ?thesis by simp
qed

definition swapped :: "nat \<Rightarrow> nat \<Rightarrow> nat \<Rightarrow> bytes \<Rightarrow> bytes" where
  "swapped i j n b = take i b @ take n (drop j b) @ take (j - (i + n)) (drop (i + n) b) @ take n (drop i b) @ drop (j + n) b"

lemma length_swapped [simp]: "i + n \<le> j \<Longrightarrow> j + n \<le> length b \<Longrightarrow> length (swapped i j n b) = length b"
  by (simp add: swapped_def)

lemma mset_swapped: "i + n \<le> j \<Longrightarrow> j + n \<le> length b \<Longrightarrow> mset (swapped i j n b) = mset b"
  by (subst (2) swap_split [of i n j b]) (simp_all add: swapped_def)

lemma overwrite_append: "length t = length u \<Longrightarrow> overwrite (length xs) t (xs @ u @ ys) = xs @ t @ ys"
  by (simp add: overwrite_def)

lemma overwrite_swapped:
  assumes "i + n \<le> j" "j + n \<le> length b"
  shows "overwrite j (take n (drop i b)) (overwrite i (take n (drop j b)) b) = swapped i j n b"
    and "overwrite i (take n (drop j b)) (overwrite j (take n (drop i b)) b) = swapped i j n b"
proof -
  define A B C D E where parts: "A = take i b" "B = take n (drop i b)" "C = take (j - (i + n)) (drop (i + n) b)"
    "D = take n (drop j b)" "E = drop (j + n) b"
  have b: "b = A @ B @ C @ D @ E" unfolding parts by (rule swap_split [OF assms])
  have len: "length A = i" "length B = length D" "length (A @ B @ C) = j" "length (A @ D @ C) = j"
    using assms by (simp_all add: parts)
  have "overwrite i D b = A @ D @ C @ D @ E" "overwrite j B b = A @ B @ C @ B @ E"
    using overwrite_append [of D B A "C @ D @ E"] overwrite_append [of B D "A @ B @ C" E] len by (simp_all add: b)
  moreover have "overwrite j B (A @ D @ C @ D @ E) = A @ D @ C @ B @ E" "overwrite i D (A @ B @ C @ B @ E) = A @ D @ C @ B @ E"
    using overwrite_append [of D B A "C @ B @ E"] overwrite_append [of B D "A @ D @ C" E] len by simp_all
  ultimately show "overwrite j (take n (drop i b)) (overwrite i (take n (drop j b)) b) = swapped i j n b"
    and "overwrite i (take n (drop j b)) (overwrite j (take n (drop i b)) b) = swapped i j n b"
    by (simp_all add: swapped_def flip: parts)
qed

lemma swap_overwrites:
  assumes "i + n \<le> length b" "j + n \<le> length b" "i + n \<le> j \<or> j + n \<le> i"
  shows "overwrite j (take n (drop i b)) (overwrite i (take n (drop j b)) b) = swapped (min i j) (max i j) n b"
  using assms overwrite_swapped [of i n j b] overwrite_swapped [of j n i b] by (auto simp: min_def max_def)

definition rearranges :: "bytes \<Rightarrow> outcome \<Rightarrow> bool" where
  "rearranges b oc = (\<exists>c. oc = Done c \<and> mset c = mset b)"

lemma rearranges_simps [simp]: "rearranges b (Done c) \<longleftrightarrow> mset c = mset b"
  by (simp add: rearranges_def)

lemma rearranges_sized: "rearranges b oc \<Longrightarrow> b \<noteq> [] \<Longrightarrow> sized l b oc"
proof -
  assume "rearranges b oc" "b \<noteq> []"
  then obtain c where "oc = Done c" "mset c = mset b" by (auto simp: rearranges_def)
  moreover from this have "length c = length b" by (metis size_mset)
  ultimately show ?thesis using \<open>b \<noteq> []\<close> by auto
qed

lemma switch_blocks_ok:
  assumes "i + n \<le> length b" "j + n \<le> length b" "i + n \<le> j \<or> j + n \<le> i" "Q (swapped (min i j) (max i j) n b)"
  shows "yields Q (switch_blocks i j n b)"
  unfolding switch_blocks_def
  by (intro gen_intros) (use assms in \<open>auto simp: paste_def swap_overwrites intro!: yields_check\<close>)

lemma switch_bytes_rearranges: "yields (rearranges b) (switch_bytes env b)"
  unfolding switch_bytes_def Let_def commit_def
  by (intro gen_intros; (rule yields_andthen [OF switch_blocks_ok [where Q = "\<lambda>c. mset c = mset b"]])?)
     (auto intro!: mset_swapped gen_intros split: if_splits)

lemma shuffle_loop_ok:
  "off + i < length b \<Longrightarrow> yields (\<lambda>c. mset c = mset b) (shuffle_loop off i b)"
proof (induction off i b rule: shuffle_loop.induct)
  case (2 off i b)
  show ?case unfolding shuffle_loop.simps
  proof (intro gen_intros)
    fix j assume j: "j < Suc i + 1" "Suc i \<noteq> j"
    let ?c = "b[off + Suc i := b ! (off + j), off + j := b ! (off + Suc i)]"
    have "mset ?c = mset b" using j 2(2) by (simp add: mset_swap)
    moreover have "yields (\<lambda>d. mset d = mset ?c) (shuffle_loop off i ?c)"
      using j 2(2) by (intro 2(1)) auto
    ultimately show "yields (\<lambda>c. mset c = mset b) (shuffle_loop off i ?c)" by simp
  qed (use 2(2) in auto)
qed (auto intro: gen_intros)

lemma shuffle_rearranges: "yields (rearranges b) (shuffle env b)"
  unfolding shuffle_def commit_def
  by (intro gen_intros; (rule yields_andthen [OF shuffle_loop_ok])?) (auto intro!: gen_intros)

lemma switch_bytes_ok [mutation_ok]: "b \<noteq> [] \<Longrightarrow> yields (sized l b) (switch_bytes env b)"
  by (rule yields_weaken [OF switch_bytes_rearranges]) (rule rearranges_sized)

lemma shuffle_ok [mutation_ok]: "b \<noteq> [] \<Longrightarrow> yields (sized l b) (shuffle env b)"
  by (rule yields_weaken [OF shuffle_rearranges]) (rule rearranges_sized)

lemma del_bytes_ok [mutation_ok]: "b \<noteq> [] \<Longrightarrow> yields (sized l b) (del_bytes env b)"
  unfolding del_bytes_def by (intro gen_intros) auto

lemma delone_ok [mutation_ok]: "b \<noteq> [] \<Longrightarrow> yields (sized l b) (delone b)"
  unfolding delone_def by (intro gen_intros) auto

lemma insertone_ok: "b \<noteq> [] \<Longrightarrow> yields (sized (length b + 1) b) (insertone b)"
  unfolding insertone_def by (intro gen_intros) auto

text \<open>Numbers.\<close>

lemma decimal_nonempty [simp]: "decimal n \<noteq> []"
  by (subst decimal.simps) simp

lemma print_int_nonempty [simp]: "print_int v \<noteq> []"
  by (simp add: print_int_def)

lemma find_digit_Some:
  assumes "find_digit off b = Some i" and off: "off \<le> length b"
  shows "i < length b \<and> isdigit (b ! i)"
proof -
  let ?P = "\<lambda>c. \<not> isdigit c"
  consider "i = off + length (takeWhile ?P (drop off b))" "i \<noteq> length b" "off \<le> length b"
    | "i = length (takeWhile ?P (take off b))" "i \<noteq> off" "off \<le> length b"
    using assms off by (auto simp: find_digit_def Let_def split: if_splits)
  then show ?thesis
  proof cases
    case 1
    then have "length (takeWhile ?P (drop off b)) < length (drop off b)"
      using length_takeWhile_le [of ?P "drop off b"] by auto
    then show ?thesis using nth_length_takeWhile [of ?P "drop off b"] 1 by simp
  next
    case 2
    then have "length (takeWhile ?P (take off b)) < length (take off b)"
      using length_takeWhile_le [of ?P "take off b"] by auto
    then show ?thesis using nth_length_takeWhile [of ?P "take off b"] 2 by simp
  qed
qed

lemma number_end_range: "off < length b \<Longrightarrow> off < number_end off b \<and> number_end off b \<le> length b"
  using length_takeWhile_le [of isdigit "drop (off + 1) b"] by (simp add: number_end_def)

lemma yields_rescale: "yields (\<lambda>_. True) (rescale v)"
  unfolding rescale_def by (intro gen_intros) auto

lemma step_change_number [gen_intros]: "(\<And>v. yields Q (f v)) \<Longrightarrow> yields Q (andthen (change_number v) f)"
  unfolding change_number_def
  by (rule yields_andthen [where P = "\<lambda>_. True"]) (intro gen_intros yields_rescale, auto)

lemma put_number_ok:
  assumes "off \<le> off2" "off2 \<le> length b" "Q (take off b @ t @ drop off2 b)"
  shows "yields Q (put_number off off2 t b)"
proof (cases "off2 = off + length t")
  case True
  then show ?thesis using assms by (auto simp: put_number_def paste_def overwrite_def intro!: gen_intros)
next
  case False
  then have "off2 - off \<noteq> length t" using assms(1) by arith
  then show ?thesis using assms by (auto simp: put_number_def replace_def intro!: gen_intros)
qed

lemma put_number_sized:
  assumes "off < length b"
  shows "yields (\<lambda>c. c \<noteq> [] \<and> length c \<le> length b + 18) (put_number off (number_end off b) (snprintf 20 (print_int v)) b)"
  by (rule put_number_ok) (use number_end_range [OF assms] in \<open>auto simp: snprintf_def\<close>)

lemma asciinum_ok: "b \<noteq> [] \<Longrightarrow> yields (sized (length b + 18) b) (asciinum b)"
  unfolding asciinum_def Let_def commit_def
  by (intro gen_intros)
     (auto split: option.split dest!: find_digit_Some intro!: gen_intros yields_andthen [OF put_number_sized])

lemma insertasciinum_ok: "b \<noteq> [] \<Longrightarrow> length (stack_bytes env) = 20 \<Longrightarrow> yields (sized l b) (insertasciinum env b)"
  unfolding insertasciinum_def Let_def by (intro gen_intros) (auto simp: snprintf_def)

text \<open>Tokens and other test cases.\<close>

lemma extra_overwrite_ok [mutation_ok]: "b \<noteq> [] \<Longrightarrow> yields (sized l b) (extra_overwrite tokens b)"
  unfolding extra_overwrite_def by (intro gen_intros) auto

lemma extra_insert_ok: "b \<noteq> [] \<Longrightarrow> yields (sized l b) (extra_insert l tokens b)"
  unfolding extra_insert_def by (intro gen_intros) auto

lemma step_splice_target [gen_intros]:
  assumes "queue_data env \<noteq> []"
    and "\<And>i. i < length (queue_data env) \<Longrightarrow> i \<noteq> current_entry env \<Longrightarrow> 4 \<le> length (queue_data env ! i) \<Longrightarrow> yields Q (f (queue_data env ! i))"
  shows "yields Q (andthen (splice_target env) f)"
proof (rule yields_andthen)
  show "yields (\<lambda>t. \<exists>i < length (queue_data env). i \<noteq> current_entry env \<and> 4 \<le> length (queue_data env ! i) \<and> t = queue_data env ! i) (splice_target env)"
    unfolding splice_target_def using assms(1) by (intro gen_intros) auto
qed (use assms(2) in auto)

lemma splice_overwrite_ok: "b \<noteq> [] \<Longrightarrow> src \<noteq> [] \<Longrightarrow> yields (sized l b) (splice_overwrite env src b)"
  unfolding splice_overwrite_def Let_def by (intro gen_intros) (auto simp: Suc_le_eq)

lemma splice_insert_ok: "b \<noteq> [] \<Longrightarrow> src \<noteq> [] \<Longrightarrow> yields (sized (length b + HAVOC_BLK_XL) b) (splice_insert env src b)"
  unfolding splice_insert_def by (intro gen_intros) auto

end
