(* ===== verification/Havoc.thy ===== *)
theory Havoc
  imports Mutator_Props
begin

text \<open>
  The havoc stage and splicing, \<^verbatim>\<open>AFLplusplus/src/afl-fuzz-one.c\<close> from \<^verbatim>\<open>havoc_stage\<close> on: stacked random mutations of the test case, run again and
  again, and new test cases made of two halves when that finds nothing. \<open>hv_view\<close> reads the parts of the fuzzer's state the mutations look at, \<open>hv_run\<close> stands for
  \<^verbatim>\<open>common_fuzz_stuff\<close>. Plug-ins may mutate in a stack; those with a stage of their own, statistics and the display are left out.
\<close>

section \<open>One step of a stack\<close>

definition havoc_mutate :: "mut_env \<Rightarrow> mutation \<Rightarrow> bytes \<Rightarrow> outcome gen" where
  "havoc_mutate env m b = (case m of
     MUT_FLIPBIT \<Rightarrow> flipbit b
   | MUT_INTERESTING8 \<Rightarrow> interesting8 b
   | MUT_INTERESTING16 \<Rightarrow> interesting16 id b
   | MUT_INTERESTING16BE \<Rightarrow> interesting16 SWAP16 b
   | MUT_INTERESTING32 \<Rightarrow> interesting32 id b
   | MUT_INTERESTING32BE \<Rightarrow> interesting32 SWAP32 b
   | MUT_ARITH8_SUB \<Rightarrow> arith8 (-) b
   | MUT_ARITH8 \<Rightarrow> arith8 (+) b
   | MUT_ARITH16_SUB \<Rightarrow> arith16 (-) b
   | MUT_ARITH16BE_SUB \<Rightarrow> arith16 (be16 (-)) b
   | MUT_ARITH16 \<Rightarrow> arith16 (+) b
   | MUT_ARITH16BE \<Rightarrow> arith16 (be16 (+)) b
   | MUT_ARITH32_SUB \<Rightarrow> arith32 (-) b
   | MUT_ARITH32BE_SUB \<Rightarrow> arith32 (be32 (-)) b
   | MUT_ARITH32 \<Rightarrow> arith32 (+) b
   | MUT_ARITH32BE \<Rightarrow> arith32 (be32 (+)) b
   | MUT_RAND8 \<Rightarrow> rand8 b
   | MUT_CLONE_COPY \<Rightarrow> clone_copy env MAX_FILE b
   | MUT_CLONE_FIXED \<Rightarrow> clone_fixed env MAX_FILE b
   | MUT_OVERWRITE_COPY \<Rightarrow> overwrite_copy env b
   | MUT_OVERWRITE_FIXED \<Rightarrow> overwrite_fixed env b
   | MUT_BYTEADD \<Rightarrow> byte_op (\<lambda>c. c + 1) b
   | MUT_BYTESUB \<Rightarrow> byte_op (\<lambda>c. c - 1) b
   | MUT_FLIP8 \<Rightarrow> byte_op (\<lambda>c. c XOR 0xff) b
   | MUT_SWITCH \<Rightarrow> switch_bytes env b
   | MUT_DEL \<Rightarrow> del_bytes env b
   | MUT_SHUFFLE \<Rightarrow> shuffle env b
   | MUT_DELONE \<Rightarrow> delone b
   | MUT_INSERTONE \<Rightarrow> at_least 2 b (insertone b)
   | MUT_ASCIINUM \<Rightarrow> asciinum b
   | MUT_INSERTASCIINUM \<Rightarrow> insertasciinum env b
   | MUT_EXTRA_OVERWRITE \<Rightarrow> extra_overwrite (extra_tokens env) b
   | MUT_EXTRA_INSERT \<Rightarrow> extra_insert (MAX_FILE - 1) (extra_tokens env) b
   | MUT_AUTO_EXTRA_OVERWRITE \<Rightarrow> extra_overwrite (a_extra_tokens env) b
   | MUT_AUTO_EXTRA_INSERT \<Rightarrow> extra_insert (MAX_FILE - 1) (a_extra_tokens env) b
   | MUT_SPLICE_OVERWRITE \<Rightarrow>
       if ready_for_splicing_count env \<le> 1 then ret Again
       else andthen (splice_target env) (\<lambda>src. splice_overwrite env src b)
   | MUT_SPLICE_INSERT \<Rightarrow>
       if ready_for_splicing_count env \<le> 1 then ret Again
       else if MAX_FILE \<le> length b + HAVOC_BLK_XL then ret Again
       else andthen (splice_target env) (\<lambda>src. splice_insert env src b))"

text \<open>Draw a mutation until one does not ask for another. The comparison of lengths always holds, since the choice consumes a draw.\<close>

definition chosen :: "mutation list \<Rightarrow> (mutation \<Rightarrow> bytes \<Rightarrow> outcome gen) \<Rightarrow> bytes \<Rightarrow> outcome gen" where
  "chosen table mutate b = andthen (pick table) (\<lambda>m. mutate m b)"

function retry_step :: "mutation list \<Rightarrow> (mutation \<Rightarrow> bytes \<Rightarrow> outcome gen) \<Rightarrow> bytes \<Rightarrow> bytes gen" where
  "retry_step table mutate b ds = (case chosen table mutate b ds of
     Inl e \<Rightarrow> Inl e
   | Inr (Done c, es) \<Rightarrow> Inr (c, es)
   | Inr (Again, es) \<Rightarrow> if length es < length ds then retry_step table mutate b es else Inl Out_Of_Draws)"
  by pat_completeness auto
termination by (relation "measure (\<lambda>(_, _, _, ds). length ds)") auto

declare retry_step.simps [simp del]

primrec iterate :: "(bytes \<Rightarrow> bytes gen) \<Rightarrow> nat \<Rightarrow> bytes \<Rightarrow> bytes gen" where
  "iterate f 0 b = ret b"
| "iterate f (Suc n) b = andthen (f b) (iterate f n)"

text \<open>Plug-ins that take part in stacks. Their choices are their own; no buffer is a failure, an empty one is ignored.\<close>

record custom_mutator =
  stacked_custom :: bool
  stacked_custom_prob :: nat
  custom_havoc :: "nat \<Rightarrow> bytes \<Rightarrow> bytes option"

fun custom_havocs :: "custom_mutator list \<Rightarrow> bytes \<Rightarrow> bytes gen" where
  "custom_havocs [] b = ret b"
| "custom_havocs (el # els) b =
     (if \<not> stacked_custom el then custom_havocs els b
      else andthen (below 100) (\<lambda>r. if stacked_custom_prob el \<le> r then custom_havocs els b
        else andthen anything (\<lambda>d. case custom_havoc el d b of
          None \<Rightarrow> (\<lambda>_. Inl Custom_Failed)
        | Some c \<Rightarrow> custom_havocs els (if c = [] then b else c))))"

definition havoc_step :: "custom_mutator list \<Rightarrow> mutation list \<Rightarrow> mut_env \<Rightarrow> bytes \<Rightarrow> bytes gen" where
  "havoc_step els table env b = andthen (custom_havocs els b) (\<lambda>b. retry_step table (havoc_mutate env) b)"

section \<open>The stage\<close>

record 'x havoc_env =
  hv_run :: "bytes \<Rightarrow> 'x \<Rightarrow> bool \<times> 'x"
  hv_view :: "'x \<Rightarrow> mut_env"
  custom_mutators :: "custom_mutator list"
  custom_only :: bool
  input_mode :: nat
  fuzz_mode :: nat
  havoc_div :: nat
  havoc_max_mult :: nat
  havoc_stack_pow2 :: nat
  use_splicing :: bool

record 'x havoc_state =
  hv_fuzzer :: 'x
  hv_out_buf :: bytes
  hv_cur :: nat
  hv_max :: nat
  hv_perf :: nat
  hv_queued :: nat

definition queued_items :: "'x havoc_env \<Rightarrow> 'x \<Rightarrow> nat" where
  "queued_items env x = length (queue_data (hv_view env x))"

definition mutation_array :: "'x havoc_env \<Rightarrow> mutation list" where
  "mutation_array env =
     (if input_mode env = 1 then (if fuzz_mode env = 0 then binary_array else text_array)
      else if input_mode env = 2 then
        (if fuzz_mode env = 0 then mutation_strategy_exploration_binary else mutation_strategy_exploitation_binary)
      else (if fuzz_mode env = 0 then binary_array else text_array))"

abbreviation (input) HAVOC_CYCLES :: nat where "HAVOC_CYCLES \<equiv> 256"
abbreviation (input) HAVOC_CYCLES_INIT :: nat where "HAVOC_CYCLES_INIT \<equiv> 1024"
abbreviation (input) HAVOC_MIN :: nat where "HAVOC_MIN \<equiv> 12"
abbreviation (input) SPLICE_CYCLES :: nat where "SPLICE_CYCLES \<equiv> 15"
abbreviation (input) SPLICE_HAVOC :: nat where "SPLICE_HAVOC \<equiv> 32"

definition havoc_stage_max :: "'x havoc_env \<Rightarrow> bool \<Rightarrow> nat \<Rightarrow> nat \<Rightarrow> nat" where
  "havoc_stage_max env doing_det splice_cycle perf_score =
     max HAVOC_MIN
       ((if splice_cycle = 0 then (if doing_det then HAVOC_CYCLES_INIT else HAVOC_CYCLES) else SPLICE_HAVOC)
          * perf_score div havoc_div env div 2 ^ 8)"

text \<open>After a run the buffer is restored; a find doubles the stage, within the limit of the score.\<close>

definition after_run :: "'x havoc_env \<Rightarrow> bytes \<Rightarrow> 'x \<Rightarrow> 'x havoc_state \<Rightarrow> 'x havoc_state" where
  "after_run env in_buf x s =
     (let n = queued_items env x;
          more = (n \<noteq> hv_queued s \<and> hv_perf s \<le> havoc_max_mult env * 100)
      in s\<lparr>hv_fuzzer := x, hv_out_buf := in_buf, hv_cur := hv_cur s + 1,
           hv_max := (if more then hv_max s * 2 else hv_max s),
           hv_perf := (if more then hv_perf s * 2 else hv_perf s), hv_queued := n\<rparr>)"

fun havoc_loop :: "nat \<Rightarrow> 'x havoc_env \<Rightarrow> nat \<Rightarrow> bytes \<Rightarrow> 'x havoc_state \<Rightarrow> (bool \<times> 'x havoc_state) gen" where
  "havoc_loop 0 env stack_max in_buf s = (\<lambda>_. Inl Out_Of_Fuel)"
| "havoc_loop (Suc fuel) env stack_max in_buf s =
     (if hv_cur s < hv_max s
      then andthen (below stack_max) (\<lambda>r.
           andthen (iterate (havoc_step (custom_mutators env) (mutation_array env) (hv_view env (hv_fuzzer s))) (1 + r) (hv_out_buf s)) (\<lambda>b.
             case hv_run env b (hv_fuzzer s) of (quit, x) \<Rightarrow>
               if quit then ret (True, s\<lparr>hv_fuzzer := x, hv_out_buf := b\<rparr>)
               else havoc_loop fuel env stack_max in_buf (after_run env in_buf x s)))
      else ret (False, s))"

text \<open>Iterations that are enough: the length of the stage times the greatest growth of the score.\<close>

definition havoc_fuel :: "'x havoc_env \<Rightarrow> nat \<Rightarrow> nat \<Rightarrow> nat" where
  "havoc_fuel env stage_max perf_score = Suc (stage_max * max perf_score (200 * havoc_max_mult env))"

definition havoc_stage :: "'x havoc_env \<Rightarrow> bool \<Rightarrow> nat \<Rightarrow> nat \<Rightarrow> bytes \<Rightarrow> 'x \<Rightarrow> (bool \<times> 'x havoc_state) gen" where
  "havoc_stage env doing_det splice_cycle perf_score in_buf x =
     (let stage_max = havoc_stage_max env doing_det splice_cycle perf_score;
          s = \<lparr>hv_fuzzer = x, hv_out_buf = in_buf, hv_cur = 0, hv_max = stage_max, hv_perf = perf_score, hv_queued = queued_items env x\<rparr>
      in if custom_only env then ret (True, s)
         else andthen (below (havoc_stack_pow2 env)) (\<lambda>r.
           havoc_loop (havoc_fuel env stage_max perf_score) env (2 ^ (1 + r)) in_buf s))"

section \<open>Splicing\<close>

definition note_diff :: "bytes \<Rightarrow> bytes \<Rightarrow> nat \<Rightarrow> int \<times> int \<Rightarrow> int \<times> int" where
  "note_diff p q pos = (\<lambda>(f_loc, l_loc).
     if p ! pos \<noteq> q ! pos then (if f_loc = -1 then int pos else f_loc, int pos) else (f_loc, l_loc))"

definition locate_diffs :: "bytes \<Rightarrow> bytes \<Rightarrow> nat \<Rightarrow> int \<times> int" where
  "locate_diffs p q len = fold (note_diff p q) [0..<len] (-1, -1)"

text \<open>Split between the first and the last difference; the second part comes from the other test case.\<close>

definition splice_at :: "nat \<Rightarrow> bytes \<Rightarrow> bytes \<Rightarrow> bytes gen" where
  "splice_at split_at in_buf new_buf =
     andthen (slice 0 split_at in_buf) (\<lambda>t.
     andthen (minus (length new_buf) split_at) (\<lambda>n. ret (t @ take n new_buf)))"

function retry_splicing :: "'x havoc_env \<Rightarrow> nat \<Rightarrow> bytes \<Rightarrow> 'x \<Rightarrow> (nat \<times> bytes) option gen" where
  "retry_splicing env splice_cycle in_buf x =
     (if use_splicing env \<and> splice_cycle < SPLICE_CYCLES \<and> ready_for_splicing_count (hv_view env x) > 1 \<and> length in_buf \<ge> 4
      then andthen (splice_target (hv_view env x)) (\<lambda>new_buf.
        case locate_diffs in_buf new_buf (min (length in_buf) (length new_buf)) of (f_diff, l_diff) \<Rightarrow>
          if f_diff < 0 \<or> l_diff < 2 \<or> f_diff = l_diff then retry_splicing env (splice_cycle + 1) in_buf x
          else andthen (below (nat (l_diff - f_diff))) (\<lambda>r.
               andthen (splice_at (nat f_diff + r) in_buf new_buf) (\<lambda>b. ret (Some (splice_cycle + 1, b)))))
      else ret None)"
  by pat_completeness auto
termination by (relation "measure (\<lambda>(_, n, _, _). SPLICE_CYCLES - n)") auto

declare retry_splicing.simps [simp del]

text \<open>Havoc, splicing, havoc on the spliced test case, and so on. At most \<^verbatim>\<open>SPLICE_CYCLES\<close> test cases are spliced.\<close>

fun havoc_rounds :: "nat \<Rightarrow> 'x havoc_env \<Rightarrow> bool \<Rightarrow> nat \<Rightarrow> nat \<Rightarrow> bytes \<Rightarrow> bytes \<Rightarrow> 'x \<Rightarrow> (nat \<times> 'x) gen" where
  "havoc_rounds 0 env doing_det splice_cycle orig_perf orig_in in_buf x = (\<lambda>_. Inl Out_Of_Fuel)"
| "havoc_rounds (Suc fuel) env doing_det splice_cycle orig_perf orig_in in_buf x =
     andthen (havoc_stage env doing_det splice_cycle orig_perf in_buf x) (\<lambda>(quit, s).
       if quit then ret (if custom_only env then 0 else 1, hv_fuzzer s)
       else andthen (retry_splicing env splice_cycle orig_in (hv_fuzzer s)) (\<lambda>next.
         case next of
           None \<Rightarrow> ret (0, hv_fuzzer s)
         | Some (splice_cycle, in_buf) \<Rightarrow> havoc_rounds fuel env doing_det splice_cycle orig_perf orig_in in_buf (hv_fuzzer s)))"

definition havoc_and_splicing :: "'x havoc_env \<Rightarrow> bool \<Rightarrow> nat \<Rightarrow> bytes \<Rightarrow> 'x \<Rightarrow> (nat \<times> 'x) gen" where
  "havoc_and_splicing env doing_det orig_perf in_buf x =
     havoc_rounds (Suc SPLICE_CYCLES) env doing_det 0 orig_perf in_buf in_buf x"

section \<open>Leaving the entry\<close>

record entry_state =
  en_is_doing_ijon :: bool
  en_stop_soon :: bool
  en_splicing_with :: int
  en_pending_not_fuzzed :: u32
  en_pending_favored :: u32
  en_smallest_favored :: int
  en_reinit_table :: bool
  cur_cal_failed :: nat
  cur_was_fuzzed :: bool
  cur_disabled :: bool
  cur_favored :: bool
  cur_fuzz_level :: u32

definition abandon_entry :: "entry_state \<Rightarrow> entry_state" where
  "abandon_entry s =
     (let s = (if en_is_doing_ijon s then s\<lparr>en_is_doing_ijon := False\<rparr> else s);
          s = s\<lparr>en_splicing_with := - 1\<rparr>;
          s = (if \<not> en_is_doing_ijon s \<and> \<not> en_stop_soon s \<and> cur_cal_failed s = 0 \<and> \<not> cur_was_fuzzed s \<and> \<not> cur_disabled s
               then let s = s\<lparr>en_pending_not_fuzzed := en_pending_not_fuzzed s - 1, cur_was_fuzzed := True, en_reinit_table := True\<rparr>
                    in if cur_favored s then s\<lparr>en_pending_favored := en_pending_favored s - 1, en_smallest_favored := - 1\<rparr> else s
               else s)
      in if \<not> en_is_doing_ijon s then s\<lparr>cur_fuzz_level := cur_fuzz_level s + 1\<rparr> else s)"

end
