(* ===== verification/Havoc_Props.thy ===== *)
theory Havoc_Props
  imports Havoc
begin

unbundle bit_operations_syntax

text \<open>
  The havoc stage is safe for every sequence of random choices and ends; splicing keeps its promise about the two parts.
\<close>

section \<open>Stacks of mutations\<close>

text \<open>A step that keeps a property, which may depend on the number of steps done.\<close>

locale bounded_step =
  fixes step :: "bytes \<Rightarrow> bytes gen" and good :: "nat \<Rightarrow> bytes \<Rightarrow> bool"
  assumes step_good: "good n b \<Longrightarrow> yields (good (Suc n)) (step b)"
    and step_ends: "good n b \<Longrightarrow> \<exists>c. ends (step b) c"
begin

lemma iterate_good: "good n b \<Longrightarrow> yields (good (n + k)) (iterate step k b)"
proof (induction k arbitrary: n b)
  case (Suc k)
  show ?case unfolding iterate.simps
    by (rule yields_andthen [OF step_good [OF Suc.prems]]) (use Suc.IH in fastforce)
qed (simp add: yields_ret)

lemma iterate_ends: "good n b \<Longrightarrow> \<exists>c. ends (iterate step k b) c"
proof (induction k arbitrary: n b)
  case 0
  show ?case by (auto intro: ends_ret)
next
  case (Suc k)
  obtain c where c: "ends (step b) c" using step_ends [OF Suc.prems] by blast
  then have "good (Suc n) c" by (rule ends_yields [OF _ step_good [OF Suc.prems]])
  then show ?case using Suc.IH ends_andthen [OF c] by fastforce
qed

end

text \<open>Mutations each of which keeps such a property, drawn from a table until one succeeds.\<close>

definition result_good :: "(bytes \<Rightarrow> bool) \<Rightarrow> outcome \<Rightarrow> bool" where
  "result_good P oc = (case oc of Again \<Rightarrow> True | Done c \<Rightarrow> P c)"

lemma yields_retry_step:
  assumes "yields (result_good P) (chosen table mutate b)"
  shows "yields P (retry_step table mutate b)"
proof -
  have "case retry_step table mutate b ds of Inl e \<Rightarrow> e = Out_Of_Draws | Inr (c, es) \<Rightarrow> P c \<and> length es \<le> length ds" for ds
  proof (induction ds rule: length_induct)
    case (1 ds)
    consider "chosen table mutate b ds = Inl Out_Of_Draws"
      | c es where "chosen table mutate b ds = Inr (Done c, es)" "P c" "length es \<le> length ds"
      | es where "chosen table mutate b ds = Inr (Again, es)" "length es \<le> length ds"
      using assms by (auto simp: yields_def result_good_def split: sum.splits outcome.splits dest!: spec [of _ ds])
        (metis sum.exhaust surj_pair outcome.exhaust)
    then show ?case
    proof cases
      case (3 es)
      then show ?thesis using 1 [rule_format, of es]
        by (subst retry_step.simps) (auto split: sum.splits)
    qed (simp_all add: retry_step.simps)
  qed
  then show ?thesis by (simp add: yields_def)
qed

lemma ends_retry_step: "ends (chosen table mutate b) (Done c) \<Longrightarrow> ends (retry_step table mutate b) c"
proof -
  assume "ends (chosen table mutate b) (Done c)"
  then obtain ds where "\<And>es. chosen table mutate b (ds @ es) = Inr (Done c, es)" by (auto simp: ends_def)
  then have "\<forall>es. retry_step table mutate b (ds @ es) = Inr (c, es)" by (simp add: retry_step.simps)
  then show ?thesis unfolding ends_def by blast
qed

lemma ends_flipbit: "b \<noteq> [] \<Longrightarrow> \<exists>c. ends (flipbit b) (Done c)"
  unfolding flipbit_def commit_def at_byte_def
  by (intro exI [of _ "b[0 := b ! 0 XOR push_bit 0 1]"] ends_andthen [OF ends_below_0] ends_andthen [OF ends_check])
     (simp_all add: ends_ret)

locale bounded_mutation =
  fixes table :: "mutation list" and mutate :: "mutation \<Rightarrow> bytes \<Rightarrow> outcome gen" and good :: "nat \<Rightarrow> bytes \<Rightarrow> bool"
  assumes table: "MUT_FLIPBIT \<in> set table"
    and flip: "mutate MUT_FLIPBIT b = flipbit b"
    and nonempty: "good n b \<Longrightarrow> b \<noteq> []"
    and mutate_good: "good n b \<Longrightarrow> yields (result_good (good (Suc n))) (mutate m b)"

sublocale bounded_mutation \<subseteq> bounded_step "retry_step table mutate" good
proof
  fix n b
  assume "good n b"
  then have "yields (result_good (good (Suc n))) (chosen table mutate b)"
    unfolding chosen_def using table mutate_good by (intro step_pick) auto
  then show "yields (good (Suc n)) (retry_step table mutate b)" by (rule yields_retry_step)
next
  fix n b
  assume "good n b"
  then obtain c where "ends (flipbit b) (Done c)" using nonempty ends_flipbit by blast
  then have "ends (chosen table mutate b) (Done c)"
    unfolding chosen_def by (intro ends_andthen [OF ends_pick [OF table]]) (simp add: flip)
  then show "\<exists>c. ends (retry_step table mutate b) c" by (blast intro: ends_retry_step)
qed

section \<open>The havoc mutations\<close>

definition mut_env_ok :: "mut_env \<Rightarrow> bool" where
  "mut_env_ok env \<longleftrightarrow> length (stack_bytes env) = 20 \<and> 
     (ready_for_splicing_count env > 1 \<longrightarrow>
       list_ex (\<lambda>i. i \<noteq> current_entry env \<and> 4 \<le> length (queue_data env ! i)) [0..<length (queue_data env)])"

lemma mut_env_queue: "mut_env_ok env \<Longrightarrow> ready_for_splicing_count env > 1 \<Longrightarrow> queue_data env \<noteq> []"
  by (auto simp: mut_env_ok_def)

lemma havoc_mutate_sized:
  assumes "b \<noteq> []" "mut_env_ok env"
  shows "yields (sized (max (MAX_FILE - 1) (length b + 18)) b) (havoc_mutate env m b)"
proof -
  let ?S = "sized (max (MAX_FILE - 1) (length b + 18)) b"
  note grow = yields_sized_mono [OF clone_copy_ok] yields_sized_mono [OF clone_fixed_ok] yields_sized_mono [OF insertone_ok]
    yields_sized_mono [OF asciinum_ok] yields_sized_mono [OF extra_insert_ok]
  have "yields ?S (havoc_mutate env MUT_SPLICE_OVERWRITE b)"
    using assms by (auto simp: havoc_mutate_def mut_env_queue intro!: gen_intros splice_overwrite_ok)
  moreover have "yields ?S (havoc_mutate env MUT_SPLICE_INSERT b)"
    using assms by (auto simp: havoc_mutate_def mut_env_queue intro!: gen_intros yields_sized_mono [OF splice_insert_ok])
  ultimately show ?thesis
    using assms by (cases m)
      (auto simp: havoc_mutate_def mut_env_ok_def intro: mutation_ok grow insertasciinum_ok intro!: yields_at_least)
qed

text \<open>The contract of plug-ins: they return a buffer of at most \<^verbatim>\<open>MAX_FILE\<close> bytes, the limit they are given.\<close>

definition custom_ok :: "custom_mutator \<Rightarrow> bool" where
  "custom_ok el \<longleftrightarrow> (\<forall>d b. \<exists>c. custom_havoc el d b = Some c \<and> length c \<le> MAX_FILE)"

definition fits :: "nat \<Rightarrow> nat \<Rightarrow> bytes \<Rightarrow> bool" where
  "fits len n b \<longleftrightarrow> b \<noteq> [] \<and> length b \<le> max MAX_FILE len + 18 * n"

lemma fits_bounded: "c \<noteq> [] \<Longrightarrow> length c \<le> MAX_FILE \<Longrightarrow> fits len n c"
  by (simp add: fits_def)

lemma custom_havocs_fits:
  "list_all custom_ok els \<Longrightarrow> fits len n b \<Longrightarrow> yields (fits len n) (custom_havocs els b)"
proof (induction els arbitrary: b)
  case (Cons el els)
  have "yields (fits len n) (case custom_havoc el d b of None \<Rightarrow> \<lambda>_. Inl Custom_Failed | Some c \<Rightarrow> custom_havocs els (if c = [] then b else c))" for d
  proof -
    obtain c where c: "custom_havoc el d b = Some c" "length c \<le> MAX_FILE"
      using Cons.prems by (auto simp: custom_ok_def)
    then have "fits len n (if c = [] then b else c)" using Cons.prems by (simp add: fits_bounded)
    then show ?thesis using Cons c by simp
  qed
  then show ?case using Cons by (auto intro!: gen_intros)
qed (auto intro: gen_intros)

lemma custom_havocs_ends: "list_all custom_ok els \<Longrightarrow> \<exists>c. ends (custom_havocs els b) c"
proof (induction els arbitrary: b)
  case Nil
  show ?case by (auto intro: ends_ret)
next
  case (Cons el els)
  obtain c where c: "custom_havoc el 0 b = Some c" using Cons.prems by (auto simp: custom_ok_def)
  obtain d e where d: "ends (custom_havocs els b) d" "ends (custom_havocs els (if c = [] then b else c)) e"
    using Cons by fastforce
  show ?case
  proof (cases "stacked_custom el \<and> 0 < stacked_custom_prob el")
    case True
    then have "ends (custom_havocs (el # els) b) e"
      using c d by (auto intro!: ends_andthen [OF ends_below_0] ends_andthen [OF ends_anything [of 0]])
    then show ?thesis by blast
  next
    case False
    then have "ends (custom_havocs (el # els) b) d" using d by (auto intro!: ends_andthen [OF ends_below_0])
    then show ?thesis by blast
  qed
qed

lemma havoc_mutate_fits:
  assumes "mut_env_ok env" "fits len n b"
  shows "yields (result_good (fits len (Suc n))) (havoc_mutate env m b)"
proof (rule yields_weaken [OF havoc_mutate_sized])
  fix oc
  assume "sized (max (MAX_FILE - 1) (length b + 18)) b oc"
  then show "result_good (fits len (Suc n)) oc" using assms(2) by (cases oc) (auto simp: result_good_def fits_def)
qed (use assms in \<open>auto simp: fits_def\<close>)

lemmas table_defs = mutation_array_def binary_array_def text_array_def mutation_strategy_exploration_binary_def
  mutation_strategy_exploitation_binary_def

lemma flipbit_in_array: "MUT_FLIPBIT \<in> set (mutation_array env)"
  by (simp add: table_defs)

interpretation havoc: bounded_mutation "mutation_array henv" "havoc_mutate env" "\<lambda>n b. mut_env_ok env \<and> fits len n b"
  for henv :: "'x havoc_env" and env len
proof
  fix n b m
  assume "mut_env_ok env \<and> fits len n b"
  then show "yields (result_good (\<lambda>b. mut_env_ok env \<and> fits len (Suc n) b)) (havoc_mutate env m b)"
    using havoc_mutate_fits by simp
qed (auto simp: flipbit_in_array havoc_mutate_def fits_def)

text \<open>With the plug-ins a step is still bounded.\<close>

lemma customs_keep:
  "mut_env_ok env \<and> fits len n b \<Longrightarrow> yields (\<lambda>b. mut_env_ok env \<and> fits len n b) (custom_havocs (filter custom_ok els) b)"
  using custom_havocs_fits [of "filter custom_ok els"] by (simp add: list_all_iff)

interpretation stack: bounded_step "havoc_step (filter custom_ok els) (mutation_array henv) env" "\<lambda>n b. mut_env_ok env \<and> fits len n b"
  for henv :: "'x havoc_env" and env len els
proof
  fix n b
  assume b: "mut_env_ok env \<and> fits len n b"
  from customs_keep [OF b]
  show "yields (\<lambda>b. mut_env_ok env \<and> fits len (Suc n) b) (havoc_step (filter custom_ok els) (mutation_array henv) env b)"
    unfolding havoc_step_def by (rule yields_andthen) (rule havoc.step_good)
next
  fix n b
  assume b: "mut_env_ok env \<and> fits len n b"
  note keeps = customs_keep [OF b]
  obtain c where c: "ends (custom_havocs (filter custom_ok els) b) c"
    using custom_havocs_ends [of "filter custom_ok els"] by (auto simp: list_all_iff)
  then have "mut_env_ok env \<and> fits len n c" using keeps by (rule ends_yields)
  then obtain d where "ends (retry_step (mutation_array henv) (havoc_mutate env) c) d" using havoc.step_ends by blast
  then have "ends (havoc_step (filter custom_ok els) (mutation_array henv) env b) d"
    unfolding havoc_step_def by (rule ends_andthen [OF c])
  then show "\<exists>c. ends (havoc_step (filter custom_ok els) (mutation_array henv) env b) c" by blast
qed

lemma stack_fits:
  assumes "list_all custom_ok els" "mut_env_ok env" "fits len n b"
  shows "yields (fits len (n + k)) (iterate (havoc_step els (mutation_array henv) env) k b)"
proof -
  have "filter custom_ok els = els" using assms(1) by (simp add: list_all_iff)
  then show ?thesis using stack.iterate_good [of env len n b k els henv] assms(2,3) by simp
qed

lemma stack_ends:
  assumes "list_all custom_ok els" "mut_env_ok env" "fits len n b"
  shows "\<exists>c. ends (iterate (havoc_step els (mutation_array henv) env) k b) c"
proof -
  have "filter custom_ok els = els" using assms(1) by (simp add: list_all_iff)
  then show ?thesis using stack.iterate_ends [of env len n b els henv k] assms(2,3) by simp
qed

section \<open>The stage\<close>

text \<open>
  Between runs the buffer is the input, and the stage has grown exactly as the score has. \<open>keeps_state\<close> is what the stage relies on: a property of the fuzzer's
  state that the executions of the stage keep.
\<close>

definition stage_inv :: "bytes \<Rightarrow> nat \<Rightarrow> nat \<Rightarrow> nat \<Rightarrow> 'x havoc_state \<Rightarrow> bool" where
  "stage_inv in_buf stage_max perf most s \<longleftrightarrow>
     hv_out_buf s = in_buf \<and> hv_cur s \<le> hv_max s \<and> hv_max s * perf = stage_max * hv_perf s \<and> hv_perf s \<le> most"

definition keeps_state :: "'x havoc_env \<Rightarrow> nat \<Rightarrow> nat \<Rightarrow> ('x \<Rightarrow> bool) \<Rightarrow> bool" where
  "keeps_state env len stack I \<longleftrightarrow>
     list_all custom_ok (custom_mutators env) \<and>
     (\<forall>x. I x \<longrightarrow> mut_env_ok (hv_view env x)) \<and>
     (\<forall>x b. I x \<longrightarrow> fits len stack b \<longrightarrow> I (snd (hv_run env b x)))"

lemma after_run_inv:
  assumes "stage_inv in_buf m0 p0 most s" "hv_cur s < hv_max s" "200 * havoc_max_mult env \<le> most"
  shows "stage_inv in_buf m0 p0 most (after_run env in_buf x s)"
  using assms by (auto simp: stage_inv_def after_run_def Let_def)

lemma fits_mono: "fits len n b \<Longrightarrow> n \<le> k \<Longrightarrow> fits len k b"
  by (auto simp: fits_def)

lemma fits_start: "b \<noteq> [] \<Longrightarrow> fits (length b) 0 b"
  by (simp add: fits_def)

lemma stage_inv_bound:
  assumes "stage_inv in_buf m0 p0 most s" "0 < p0"
  shows "hv_max s \<le> m0 * most"
proof -
  have "hv_max s \<le> hv_max s * p0" using assms(2) by simp
  also have "\<dots> \<le> m0 * most" using assms(1) by (auto simp: stage_inv_def)
  finally show ?thesis .
qed

definition stage_done :: "('x \<Rightarrow> bool) \<Rightarrow> bytes \<Rightarrow> nat \<Rightarrow> nat \<Rightarrow> nat \<Rightarrow> bool \<times> 'x havoc_state \<Rightarrow> bool" where
  "stage_done I in_buf m0 p0 most = (\<lambda>(quit, s). I (hv_fuzzer s) \<and> (quit \<or> stage_inv in_buf m0 p0 most s \<and> hv_cur s = hv_max s))"

lemma havoc_loop_ok:
  assumes "keeps_state env (length in_buf) stack_max I" "in_buf \<noteq> []" "0 < stack_max" "0 < p0" "200 * havoc_max_mult env \<le> most"
    and "stage_inv in_buf m0 p0 most s" "I (hv_fuzzer s)" "m0 * most - hv_cur s < fuel"
  shows "yields (stage_done I in_buf m0 p0 most) (havoc_loop fuel env stack_max in_buf s)"
  using assms(6-)
proof (induction fuel arbitrary: s)
  case (Suc fuel)
  show ?case
  proof (cases "hv_cur s < hv_max s")
    case True
    have env: "mut_env_ok (hv_view env (hv_fuzzer s))" "list_all custom_ok (custom_mutators env)"
      using assms(1) Suc.prems(2) by (auto simp: keeps_state_def)
    have buf: "hv_out_buf s = in_buf" using Suc.prems(1) by (simp add: stage_inv_def)
    have go: "yields (stage_done I in_buf m0 p0 most)
        (case hv_run env b (hv_fuzzer s) of (quit, x) \<Rightarrow>
           if quit then ret (True, s\<lparr>hv_fuzzer := x, hv_out_buf := b\<rparr>) else havoc_loop fuel env stack_max in_buf (after_run env in_buf x s))"
      if b: "fits (length in_buf) stack_max b" for b
    proof -
      obtain quit x where run: "hv_run env b (hv_fuzzer s) = (quit, x)" by fastforce
      then have I: "I x" using assms(1) Suc.prems(2) b by (force simp: keeps_state_def)
      have "yields (stage_done I in_buf m0 p0 most) (havoc_loop fuel env stack_max in_buf (after_run env in_buf x s))"
      proof (rule Suc.IH)
        show "stage_inv in_buf m0 p0 most (after_run env in_buf x s)"
          by (rule after_run_inv [OF Suc.prems(1) True assms(5)])
        show "m0 * most - hv_cur (after_run env in_buf x s) < fuel"
          using Suc.prems(3) stage_inv_bound [OF Suc.prems(1) assms(4)] True by (simp add: after_run_def Let_def)
      qed (simp add: I after_run_def Let_def)
      then show ?thesis using I by (auto simp: run stage_done_def intro!: gen_intros)
    qed
    have "yields (stage_done I in_buf m0 p0 most) (andthen (iterate (havoc_step (custom_mutators env) (mutation_array env) (hv_view env (hv_fuzzer s))) (1 + r) in_buf) (\<lambda>b.
        case hv_run env b (hv_fuzzer s) of (quit, x) \<Rightarrow>
           if quit then ret (True, s\<lparr>hv_fuzzer := x, hv_out_buf := b\<rparr>) else havoc_loop fuel env stack_max in_buf (after_run env in_buf x s)))"
      if "r < stack_max" for r
      by (rule yields_andthen [OF stack_fits [OF env(2) env(1) fits_start [OF assms(2)]]])
         (rule go, erule fits_mono, use that in simp)
    then show ?thesis using True assms(3) buf by (auto intro!: gen_intros)
  next
    case False
    then show ?thesis using Suc.prems by (auto simp: stage_done_def stage_inv_def intro!: gen_intros)
  qed
qed simp

lemma havoc_loop_ends:
  assumes "keeps_state env (length in_buf) stack_max I" "in_buf \<noteq> []" "0 < stack_max" "0 < p0" "200 * havoc_max_mult env \<le> most"
    and "stage_inv in_buf m0 p0 most s" "I (hv_fuzzer s)" "m0 * most - hv_cur s < fuel"
  shows "\<exists>r. ends (havoc_loop fuel env stack_max in_buf s) r"
  using assms(6-)
proof (induction fuel arbitrary: s)
  case (Suc fuel)
  show ?case
  proof (cases "hv_cur s < hv_max s")
    case True
    let ?step = "havoc_step (custom_mutators env) (mutation_array env) (hv_view env (hv_fuzzer s))"
    have env: "list_all custom_ok (custom_mutators env)" "mut_env_ok (hv_view env (hv_fuzzer s))"
      using assms(1) Suc.prems(2) by (auto simp: keeps_state_def)
    have buf: "hv_out_buf s = in_buf" using Suc.prems(1) by (simp add: stage_inv_def)
    obtain b where b: "ends (iterate ?step 1 in_buf) b"
      using stack_ends [OF env fits_start [OF assms(2)]] by blast
    have "fits (length in_buf) stack_max b"
      using ends_yields [OF b stack_fits [OF env fits_start [OF assms(2)]]] assms(3) by (auto elim: fits_mono)
    moreover obtain quit x where run: "hv_run env b (hv_fuzzer s) = (quit, x)" by fastforce
    ultimately have I: "I x" using assms(1) Suc.prems(2) by (force simp: keeps_state_def)
    have "\<exists>r. ends (havoc_loop fuel env stack_max in_buf (after_run env in_buf x s)) r"
    proof (rule Suc.IH)
      show "stage_inv in_buf m0 p0 most (after_run env in_buf x s)"
        by (rule after_run_inv [OF Suc.prems(1) True assms(5)])
      show "m0 * most - hv_cur (after_run env in_buf x s) < fuel"
        using Suc.prems(3) stage_inv_bound [OF Suc.prems(1) assms(4)] True by (simp add: after_run_def Let_def)
    qed (simp add: I after_run_def Let_def)
    then obtain r where r: "ends (if quit then ret (True, s\<lparr>hv_fuzzer := x, hv_out_buf := b\<rparr>)
        else havoc_loop fuel env stack_max in_buf (after_run env in_buf x s)) r"
      using ends_ret by (cases quit) force+
    have "ends (havoc_loop (Suc fuel) env stack_max in_buf s) r"
      using True r b by (auto simp: run buf add_0_right simp del: iterate.simps One_nat_def intro!: ends_andthen [OF ends_below_0] ends_andthen [OF b])
    then show ?thesis by blast
  qed (auto intro: ends_ret)
qed simp

lemma keeps_state_mono:
  assumes "keeps_state env len n I" "l \<le> len" "k \<le> n"
  shows "keeps_state env l k I"
proof -
  have "fits l k b \<Longrightarrow> fits len n b" for b
    using assms(2,3) by (auto simp: fits_def intro: order_trans)
  then show ?thesis using assms(1) by (auto simp: keeps_state_def)
qed

abbreviation (input) most_steps :: "'x havoc_env \<Rightarrow> nat" where
  "most_steps env \<equiv> 2 ^ max 1 (havoc_stack_pow2 env)"

lemma havoc_stage_ok:
  assumes "keeps_state env (length in_buf) (most_steps env) I" "in_buf \<noteq> []" "0 < perf" "I x"
  shows "yields (stage_done I in_buf (havoc_stage_max env doing_det splice_cycle perf) perf (max perf (200 * havoc_max_mult env)))
    (havoc_stage env doing_det splice_cycle perf in_buf x)"
proof -
  have "yields (stage_done I in_buf m perf (max perf (200 * havoc_max_mult env)))
      (havoc_loop (havoc_fuel env m perf) env (2 ^ (1 + r)) in_buf
        \<lparr>hv_fuzzer = x, hv_out_buf = in_buf, hv_cur = 0, hv_max = m, hv_perf = perf, hv_queued = queued_items env x\<rparr>)"
    if r: "r \<le> havoc_stack_pow2 env - 1" for m r
  proof (rule havoc_loop_ok)
    have "(2::nat) ^ (1 + r) \<le> most_steps env" using r by (intro power_increasing) auto
    then show "keeps_state env (length in_buf) (2 ^ (1 + r)) I" by (rule keeps_state_mono [OF assms(1) order_refl])
  qed (use assms in \<open>auto simp: stage_inv_def havoc_fuel_def\<close>)
  then show ?thesis using assms(4)
    by (auto simp: havoc_stage_def Let_def stage_done_def intro!: gen_intros yields_andthen [OF yields_below_Suc])
qed

lemma havoc_stage_ends:
  assumes "keeps_state env (length in_buf) (most_steps env) I" "in_buf \<noteq> []" "0 < perf" "I x"
  shows "\<exists>r. ends (havoc_stage env doing_det splice_cycle perf in_buf x) r"
proof -
  define m where "m = havoc_stage_max env doing_det splice_cycle perf"
  have "keeps_state env (length in_buf) (2 ^ 1) I"
    by (rule keeps_state_mono [OF assms(1) order_refl]) (intro power_increasing, auto)
  then have "\<exists>r. ends (havoc_loop (havoc_fuel env m perf) env (2 ^ 1) in_buf
      \<lparr>hv_fuzzer = x, hv_out_buf = in_buf, hv_cur = 0, hv_max = m, hv_perf = perf, hv_queued = queued_items env x\<rparr>) r"
    by (rule havoc_loop_ends [where ?m0.0 = m and ?p0.0 = perf and most = "max perf (200 * havoc_max_mult env)"])
       (use assms in \<open>auto simp: stage_inv_def havoc_fuel_def\<close>)
  then obtain r where r: "ends (havoc_loop (havoc_fuel env m perf) env (2 ^ (1 + 0)) in_buf
      \<lparr>hv_fuzzer = x, hv_out_buf = in_buf, hv_cur = 0, hv_max = m, hv_perf = perf, hv_queued = queued_items env x\<rparr>) r" by auto
  have "ends (andthen (below (havoc_stack_pow2 env)) (\<lambda>k. havoc_loop (havoc_fuel env m perf) env (2 ^ (1 + k)) in_buf
      \<lparr>hv_fuzzer = x, hv_out_buf = in_buf, hv_cur = 0, hv_max = m, hv_perf = perf, hv_queued = queued_items env x\<rparr>)) r"
    by (rule ends_andthen [OF ends_below_0]) (rule r)
  then show ?thesis
    unfolding havoc_stage_def Let_def m_def by (cases "custom_only env") (auto simp only: if_True if_False intro: exI ends_ret)
qed

section \<open>Splicing\<close>

definition diffs :: "bytes \<Rightarrow> bytes \<Rightarrow> nat \<Rightarrow> nat list" where
  "diffs p q n = filter (\<lambda>i. p ! i \<noteq> q ! i) [0..<n]"

lemma locate_diffs_eq:
  "locate_diffs p q n = (if diffs p q n = [] then (-1, -1) else (int (hd (diffs p q n)), int (last (diffs p q n))))"
proof (induction n)
  case (Suc n)
  have "locate_diffs p q (Suc n) = note_diff p q n (locate_diffs p q n)" by (simp add: locate_diffs_def)
  then show ?case by (auto simp: Suc note_diff_def diffs_def)
qed (simp add: locate_diffs_def diffs_def)

lemma set_diffs [simp]: "set (diffs p q n) = {i. i < n \<and> p ! i \<noteq> q ! i}"
  by (auto simp: diffs_def)

lemma sorted_diffs: "sorted (diffs p q n)"
  by (simp add: diffs_def sorted_wrt_filter)

lemma sorted_ends: "sorted xs \<Longrightarrow> (i::nat) \<in> set xs \<Longrightarrow> hd xs \<le> i \<and> i \<le> last xs"
  by (induction xs) auto

lemmas diffs_between = sorted_ends [OF sorted_diffs]

lemma locate_diffs_found:
  assumes "locate_diffs p q n = (f, l)" "\<not> f < 0"
  obtains i j where "f = int i" "l = int j" "i \<le> j" "j < n" "p ! i \<noteq> q ! i" "p ! j \<noteq> q ! j"
    "\<And>k. k < n \<Longrightarrow> p ! k \<noteq> q ! k \<Longrightarrow> i \<le> k \<and> k \<le> j"
proof -
  have ne: "diffs p q n \<noteq> []" using assms by (auto simp: locate_diffs_eq split: if_splits)
  have "hd (diffs p q n) \<in> set (diffs p q n)" "last (diffs p q n) \<in> set (diffs p q n)" using ne hd_in_set last_in_set by blast+
  then show ?thesis using assms ne diffs_between [of _ p q n]
    by (intro that [of "hd (diffs p q n)" "last (diffs p q n)"]) (auto simp: locate_diffs_eq)
qed

text \<open>What a spliced test case is made of.\<close>

definition spliced :: "bytes \<Rightarrow> bytes \<Rightarrow> bytes \<Rightarrow> bool" where
  "spliced in_buf new_buf b \<longleftrightarrow> (\<exists>i j k. i \<le> k \<and> k < j \<and> j < min (length in_buf) (length new_buf) \<and>
     in_buf ! i \<noteq> new_buf ! i \<and> in_buf ! j \<noteq> new_buf ! j \<and>
     (\<forall>p < min (length in_buf) (length new_buf). in_buf ! p \<noteq> new_buf ! p \<longrightarrow> i \<le> p \<and> p \<le> j) \<and>
     b = take k in_buf @ take (length new_buf - k) new_buf)"

definition next_round :: "mut_env \<Rightarrow> nat \<Rightarrow> bytes \<Rightarrow> (nat \<times> bytes) option \<Rightarrow> bool" where
  "next_round env splice_cycle in_buf r = (case r of None \<Rightarrow> True
     | Some (c, b) \<Rightarrow> splice_cycle < c \<and> c \<le> SPLICE_CYCLES \<and> (\<exists>t \<in> set (queue_data env). 4 \<le> length t \<and> spliced in_buf t b))"

lemma next_round_Suc: "next_round env (Suc c) in_buf r \<Longrightarrow> next_round env c in_buf r"
  by (auto simp: next_round_def split: option.splits)

lemma splice_at_ok:
  assumes "locate_diffs in_buf t (min (length in_buf) (length t)) = (f, l)" "\<not> f < 0" "f \<noteq> l" "r < nat (l - f)"
    and "\<And>b. spliced in_buf t b \<Longrightarrow> yields Q (g b)"
  shows "yields Q (andthen (splice_at (nat f + r) in_buf t) g)"
proof -
  obtain i j where ij: "f = int i" "l = int j" "i \<le> j" "j < min (length in_buf) (length t)" "in_buf ! i \<noteq> t ! i" "in_buf ! j \<noteq> t ! j"
    "\<forall>p < min (length in_buf) (length t). in_buf ! p \<noteq> t ! p \<longrightarrow> i \<le> p \<and> p \<le> j"
    by (rule locate_diffs_found [OF assms(1,2)]) blast
  have "r < j - i" using assms(4) ij by simp
  then have "spliced in_buf t (take (i + r) in_buf @ take (length t - (i + r)) t)"
    using ij unfolding spliced_def by (intro exI [of _ i] exI [of _ j] exI [of _ "i + r"]) auto
  moreover have "splice_at (nat f + r) in_buf t = ret (take (i + r) in_buf @ take (length t - (i + r)) t)"
  proof -
    have "i + r \<le> length in_buf" "i + r \<le> length t" using \<open>r < j - i\<close> ij by auto
    then show ?thesis by (simp add: ij splice_at_def slice_def minus_def check_def andthen_def ret_def)
  qed
  ultimately show ?thesis using assms(5) by (simp add: step_ret)
qed

lemma retry_splicing_ok:
  assumes "mut_env_ok (hv_view env x)"
  shows "yields (next_round (hv_view env x) splice_cycle in_buf) (retry_splicing env splice_cycle in_buf x)"
  using assms
proof (induction env splice_cycle in_buf x rule: retry_splicing.induct)
  case (1 env splice_cycle in_buf x)
  let ?Q = "next_round (hv_view env x) splice_cycle in_buf"
  show ?case
  proof (cases "use_splicing env \<and> splice_cycle < SPLICE_CYCLES \<and> 1 < ready_for_splicing_count (hv_view env x) \<and> 4 \<le> length in_buf")
    case True
    have rest: "yields ?Q (case locate_diffs in_buf t (min (length in_buf) (length t)) of (f_diff, l_diff) \<Rightarrow>
          if f_diff < 0 \<or> l_diff < 2 \<or> f_diff = l_diff then retry_splicing env (splice_cycle + 1) in_buf x
          else andthen (below (nat (l_diff - f_diff))) (\<lambda>r.
               andthen (splice_at (nat f_diff + r) in_buf t) (\<lambda>b. ret (Some (splice_cycle + 1, b)))))"
      if t: "t \<in> set (queue_data (hv_view env x))" "4 \<le> length t" for t
    proof -
      obtain f l where fl: "locate_diffs in_buf t (min (length in_buf) (length t)) = (f, l)" by fastforce
      show ?thesis
      proof (cases "f < 0 \<or> l < 2 \<or> f = l")
        case retry: True
        have "yields (next_round (hv_view env x) (splice_cycle + 1) in_buf) (retry_splicing env (splice_cycle + 1) in_buf x)"
          by (rule 1(1) [OF True fl [symmetric] retry 1(2)])
        then show ?thesis using retry by (auto simp: fl elim!: yields_weaken intro: next_round_Suc)
      next
        case False
        then have "f < l" by (metis fl linorder_not_less locate_diffs_found of_nat_le_iff order_le_less)
        then show ?thesis using False t True
          by (auto simp: fl next_round_def intro!: gen_intros splice_at_ok [OF fl])
      qed
    qed
    show ?thesis unfolding retry_splicing.simps [of env splice_cycle in_buf x] if_P [OF True]
      by (rule step_splice_target) (use True 1(2) rest in \<open>auto simp: mut_env_queue\<close>)
  next
    case False
    then show ?thesis by (subst retry_splicing.simps) (auto simp: next_round_def intro!: gen_intros)
  qed
qed

lemma splice_target_ends:
  assumes "mut_env_ok env" "ready_for_splicing_count env > 1"
  obtains t where "ends (splice_target env) t" "t \<in> set (queue_data env)" "4 \<le> length t"
proof -
  obtain i where i: "i < length (queue_data env)" "i \<noteq> current_entry env" "4 \<le> length (queue_data env ! i)"
    using assms by (auto simp: mut_env_ok_def list_ex_iff)
  then have "ends (splice_target env) (queue_data env ! i)"
    unfolding splice_target_def by (intro ends_andthen [OF ends_draw_until]) (auto intro: ends_check)
  then show ?thesis using i that by simp
qed

lemma splice_at_ends:
  assumes "locate_diffs in_buf t (min (length in_buf) (length t)) = (f, l)" "\<not> f < 0"
  shows "\<exists>b. ends (splice_at (nat f) in_buf t) b"
proof -
  obtain i j where ij: "f = int i" "l = int j" "i \<le> j" "j < min (length in_buf) (length t)"
    by (rule locate_diffs_found [OF assms]) blast
  then show ?thesis unfolding splice_at_def slice_def minus_def
    by (intro exI [of _ "take i in_buf @ take (length t - i) t"] ends_andthen [OF ends_check]) (auto intro: ends_ret)
qed

lemma retry_splicing_ends:
  assumes "mut_env_ok (hv_view env x)"
  shows "\<exists>r. ends (retry_splicing env splice_cycle in_buf x) r"
  using assms
proof (induction env splice_cycle in_buf x rule: retry_splicing.induct)
  case (1 env splice_cycle in_buf x)
  show ?case
  proof (cases "use_splicing env \<and> splice_cycle < SPLICE_CYCLES \<and> 1 < ready_for_splicing_count (hv_view env x) \<and> 4 \<le> length in_buf")
    case True
    obtain t where t: "ends (splice_target (hv_view env x)) t" using splice_target_ends 1(2) True by blast
    obtain f l where fl: "locate_diffs in_buf t (min (length in_buf) (length t)) = (f, l)" by fastforce
    have "\<exists>r. ends (if f < 0 \<or> l < 2 \<or> f = l then retry_splicing env (splice_cycle + 1) in_buf x
        else andthen (below (nat (l - f))) (\<lambda>r.
             andthen (splice_at (nat f + r) in_buf t) (\<lambda>b. ret (Some (splice_cycle + 1, b))))) r"
    proof (cases "f < 0 \<or> l < 2 \<or> f = l")
      case retry: True
      then show ?thesis using 1(1) [OF True fl [symmetric] retry 1(2)] by simp
    next
      case False
      then obtain b where b: "ends (splice_at (nat f + 0) in_buf t) b" using splice_at_ends [OF fl] by auto
      have "ends (andthen (below (nat (l - f))) (\<lambda>r. andthen (splice_at (nat f + r) in_buf t) (\<lambda>b. ret (Some (splice_cycle + 1, b)))))
          (Some (splice_cycle + 1, b))"
        by (rule ends_andthen [OF ends_below_0], rule ends_andthen [OF b], rule ends_ret)
      then show ?thesis using False by auto
    qed
    then obtain r where r: "ends (case locate_diffs in_buf t (min (length in_buf) (length t)) of (f_diff, l_diff) \<Rightarrow>
        if f_diff < 0 \<or> l_diff < 2 \<or> f_diff = l_diff then retry_splicing env (splice_cycle + 1) in_buf x
        else andthen (below (nat (l_diff - f_diff))) (\<lambda>r.
             andthen (splice_at (nat f_diff + r) in_buf t) (\<lambda>b. ret (Some (splice_cycle + 1, b))))) r"
      by (auto simp: fl)
    show ?thesis unfolding retry_splicing.simps [of env splice_cycle in_buf x] if_P [OF True]
      by (rule exI, rule ends_andthen [OF t], rule r)
  next
    case False
    then show ?thesis by (subst retry_splicing.simps) (auto intro: ends_ret)
  qed
qed

section \<open>Rounds\<close>

lemma spliced_length: "spliced in_buf t b \<Longrightarrow> length b = length t"
  by (auto simp: spliced_def)

text \<open>What all rounds rely on: the state's property bounds the test cases of the queue, too.\<close>

definition keeps_rounds :: "'x havoc_env \<Rightarrow> nat \<Rightarrow> ('x \<Rightarrow> bool) \<Rightarrow> bool" where
  "keeps_rounds env len I \<longleftrightarrow> keeps_state env len (most_steps env) I \<and>
     (\<forall>x. I x \<longrightarrow> list_all (\<lambda>t. length t \<le> len) (queue_data (hv_view env x)))"

lemma keeps_rounds_env: "keeps_rounds env len I \<Longrightarrow> I x \<Longrightarrow> mut_env_ok (hv_view env x)"
  by (simp add: keeps_rounds_def keeps_state_def)

lemma keeps_rounds_next:
  assumes "keeps_rounds env len I" "I x" "next_round (hv_view env x) c orig (Some (c', b))" "c < SPLICE_CYCLES + 1"
  shows "c < c'" "c' \<le> SPLICE_CYCLES" "b \<noteq> []" "length b \<le> len"
proof -
  obtain t where t: "t \<in> set (queue_data (hv_view env x))" "4 \<le> length t" "spliced orig t b"
    using assms(3) by (auto simp: next_round_def)
  have "length t \<le> len" using assms(1,2) t(1) by (auto simp: keeps_rounds_def list_all_iff)
  then show "b \<noteq> []" "length b \<le> len" using t spliced_length [OF t(3)] by auto
  show "c < c'" "c' \<le> SPLICE_CYCLES" using assms(3) by (auto simp: next_round_def)
qed

lemma havoc_rounds_ok:
  assumes "keeps_rounds env len I" "0 < perf" "I x" "in_buf \<noteq> []" "length in_buf \<le> len" "SPLICE_CYCLES < cycle + fuel" "cycle \<le> SPLICE_CYCLES"
  shows "yields (\<lambda>(r, x). r \<le> 1 \<and> I x) (havoc_rounds fuel env doing_det cycle perf orig in_buf x)"
  using assms(3-)
proof (induction fuel arbitrary: cycle in_buf x)
  case (Suc fuel)
  have keeps: "keeps_state env (length in_buf) (most_steps env) I"
    using keeps_state_mono [of env len "most_steps env" I] assms(1) Suc.prems(3) by (simp add: keeps_rounds_def)
  show ?case unfolding havoc_rounds.simps
  proof (rule yields_andthen [OF havoc_stage_ok [OF keeps Suc.prems(2) assms(2) Suc.prems(1)]], clarify)
    fix quit s
    assume "stage_done I in_buf (havoc_stage_max env doing_det cycle perf) perf (max perf (200 * havoc_max_mult env)) (quit, s)"
    then have I: "I (hv_fuzzer s)" by (simp add: stage_done_def)
    have next_one: "yields (\<lambda>(r, x). r \<le> 1 \<and> I x) (case r of None \<Rightarrow> ret (0, hv_fuzzer s)
        | Some (c, b) \<Rightarrow> havoc_rounds fuel env doing_det c perf orig b (hv_fuzzer s))"
      if "next_round (hv_view env (hv_fuzzer s)) cycle orig r" for r
    proof (cases r)
      case (Some cb)
      then obtain c b where cb: "r = Some (c, b)" by (cases cb) auto
      note n = keeps_rounds_next [OF assms(1) I that [unfolded cb]]
      show ?thesis using Suc.IH [where x = "hv_fuzzer s" and in_buf = b and cycle = c] I n Suc.prems by (simp add: cb)
    qed (use I in \<open>simp add: yields_ret\<close>)
    show "yields (\<lambda>(r, x). r \<le> 1 \<and> I x) (if quit then ret (if custom_only env then 0 else 1, hv_fuzzer s)
        else andthen (retry_splicing env cycle orig (hv_fuzzer s)) (\<lambda>r. case r of None \<Rightarrow> ret (0, hv_fuzzer s)
          | Some (c, b) \<Rightarrow> havoc_rounds fuel env doing_det c perf orig b (hv_fuzzer s)))"
      using I by (intro yields_if yields_ret yields_andthen [OF retry_splicing_ok [OF keeps_rounds_env [OF assms(1) I]] next_one]) auto
  qed
qed simp

lemma havoc_rounds_ends:
  assumes "keeps_rounds env len I" "0 < perf" "I x" "in_buf \<noteq> []" "length in_buf \<le> len" "SPLICE_CYCLES < cycle + fuel" "cycle \<le> SPLICE_CYCLES"
  shows "\<exists>r. ends (havoc_rounds fuel env doing_det cycle perf orig in_buf x) r"
  using assms(3-)
proof (induction fuel arbitrary: cycle in_buf x)
  case (Suc fuel)
  have keeps: "keeps_state env (length in_buf) (most_steps env) I"
    using keeps_state_mono [of env len "most_steps env" I] assms(1) Suc.prems(3) by (simp add: keeps_rounds_def)
  obtain quit s where s: "ends (havoc_stage env doing_det cycle perf in_buf x) (quit, s)"
    using havoc_stage_ends [OF keeps Suc.prems(2) assms(2) Suc.prems(1)] by fastforce
  have I: "I (hv_fuzzer s)"
    using ends_yields [OF s havoc_stage_ok [OF keeps Suc.prems(2) assms(2) Suc.prems(1)]] by (simp add: stage_done_def)
  note env = keeps_rounds_env [OF assms(1) I]
  obtain r where r: "ends (retry_splicing env cycle orig (hv_fuzzer s)) r" using retry_splicing_ends [OF env] by blast
  have nr: "next_round (hv_view env (hv_fuzzer s)) cycle orig r" by (rule ends_yields [OF r retry_splicing_ok [OF env]])
  have "\<exists>v. ends (case r of None \<Rightarrow> ret (0, hv_fuzzer s) | Some (c, b) \<Rightarrow> havoc_rounds fuel env doing_det c perf orig b (hv_fuzzer s)) v"
  proof (cases r)
    case (Some cb)
    then obtain c b where cb: "r = Some (c, b)" by (cases cb) auto
    note n = keeps_rounds_next [OF assms(1) I nr [unfolded cb]]
    show ?thesis using Suc.IH [where x = "hv_fuzzer s" and in_buf = b and cycle = c] I n Suc.prems by (simp add: cb)
  qed (auto intro: ends_ret)
  then obtain v where "ends (if quit then ret (if custom_only env then 0 else 1, hv_fuzzer s)
      else andthen (retry_splicing env cycle orig (hv_fuzzer s)) (\<lambda>r. case r of None \<Rightarrow> ret (0, hv_fuzzer s)
        | Some (c, b) \<Rightarrow> havoc_rounds fuel env doing_det c perf orig b (hv_fuzzer s))) v"
    by (cases quit) (auto intro: ends_ret ends_andthen [OF r])
  then show ?case unfolding havoc_rounds.simps by (intro exI ends_andthen [OF s]) simp
qed simp

section \<open>Properties\<close>

text \<open>A small queue of two entries and a target that never stops the fuzzer.\<close>

definition ex_mut :: mut_env where
  "ex_mut = \<lparr>queue_cycle = 0, run_over10m = False, extra_tokens = [], a_extra_tokens = [], ready_for_splicing_count = 2,
     queue_data = [[1, 2, 3, 4, 5], [1, 9, 3, 8]], current_entry = 0, stack_bytes = replicate 20 0\<rparr>"

definition ex_havoc :: "nat havoc_env" where
  "ex_havoc = \<lparr>hv_run = \<lambda>b n. (False, Suc n), hv_view = \<lambda>_. ex_mut, custom_mutators = [], custom_only = False, input_mode = 0,
     fuzz_mode = 0, havoc_div = 1, havoc_max_mult = 64, havoc_stack_pow2 = 4, use_splicing = True\<rparr>"

lemma ex_havoc_ok: "mut_env_ok ex_mut" "keeps_rounds ex_havoc 5 (\<lambda>_. True)"
  by (simp_all add: keeps_rounds_def keeps_state_def ex_havoc_def mut_env_ok_def ex_mut_def)

text \<open>
  Property C0. For every sequence of random choices the havoc stage stays within its buffers, never subtracts beyond zero, never copies between overlapping blocks with memcpy and
  needs no more iterations than its fuel; every property of the fuzzer's state that executions of non-empty inputs of bounded length keep is kept. If the target does
  not stop it, the stage ends with out_buf restored to the input, after exactly stage_max executions, and stage_max has grown by the same factor as the score, which
  stays within its limit. Some finite sequence of choices makes the stage return.
\<close>

theorem havoc_stage_restores:
  assumes "keeps_state env (length in_buf) (2 ^ max 1 (havoc_stack_pow2 env)) I" "in_buf \<noteq> []" "0 < perf" "I x"
  shows "(case havoc_stage env doing_det splice_cycle perf in_buf x ds of
      Inl e \<Rightarrow> e = Out_Of_Draws
    | Inr ((quit, s), _) \<Rightarrow> I (hv_fuzzer s) \<and> (quit \<or> hv_out_buf s = in_buf \<and> hv_cur s = hv_max s \<and>
        hv_max s * perf = havoc_stage_max env doing_det splice_cycle perf * hv_perf s \<and>
        hv_perf s \<le> max perf (200 * havoc_max_mult env))) \<and>
    (\<exists>ds r. havoc_stage env doing_det splice_cycle perf in_buf x ds = Inr (r, []))"
proof
  show "case havoc_stage env doing_det splice_cycle perf in_buf x ds of
      Inl e \<Rightarrow> e = Out_Of_Draws
    | Inr ((quit, s), _) \<Rightarrow> I (hv_fuzzer s) \<and> (quit \<or> hv_out_buf s = in_buf \<and> hv_cur s = hv_max s \<and>
        hv_max s * perf = havoc_stage_max env doing_det splice_cycle perf * hv_perf s \<and>
        hv_perf s \<le> max perf (200 * havoc_max_mult env))"
    using havoc_stage_ok [OF assms, of doing_det splice_cycle, unfolded yields_def, rule_format, of ds]
    by (auto simp: stage_done_def stage_inv_def split: sum.splits)
  show "\<exists>ds r. havoc_stage env doing_det splice_cycle perf in_buf x ds = Inr (r, [])"
    using havoc_stage_ends [OF assms, of doing_det splice_cycle] unfolding ends_def by (metis append_Nil2)
qed

theorem havoc_stage_restores_witness:
  "keeps_state ex_havoc (length [7 :: u8, 8]) (2 ^ max 1 (havoc_stack_pow2 ex_havoc)) (\<lambda>_. True) \<and>
   (\<exists>ds r. havoc_stage ex_havoc False 0 100 [7, 8] 0 ds = Inr (r, []))"
proof -
  have k: "keeps_state ex_havoc (length [7 :: u8, 8]) (2 ^ max 1 (havoc_stack_pow2 ex_havoc)) (\<lambda>_. True)"
    by (simp add: keeps_state_def ex_havoc_def mut_env_ok_def ex_mut_def)
  have "\<exists>ds r. havoc_stage ex_havoc False 0 100 [7, 8] 0 ds = Inr (r, [])"
    using havoc_stage_restores [OF k, where perf = 100 and x = 0 and doing_det = False and splice_cycle = 0 and ds = "[]"] by simp
  with k show ?thesis by blast
qed

text \<open>
  Property C0. Havoc, splicing and havoc on the spliced test cases are safe for every sequence of random choices, use no more rounds than SPLICE_CYCLES
  allows, keep every property of the fuzzer's state that executions of bounded non-empty inputs keep, and return 0 or 1; some finite sequence of choices makes them return.
\<close>

theorem havoc_and_splicing_safe:
  assumes "keeps_rounds env len I" "0 < perf" "I x" "in_buf \<noteq> []" "length in_buf \<le> len"
  shows "(case havoc_and_splicing env doing_det perf in_buf x ds of
      Inl e \<Rightarrow> e = Out_Of_Draws | Inr ((ret_val, x'), _) \<Rightarrow> ret_val \<le> 1 \<and> I x') \<and>
    (\<exists>ds r. havoc_and_splicing env doing_det perf in_buf x ds = Inr (r, []))"
proof
  have fuel: "SPLICE_CYCLES < 0 + Suc SPLICE_CYCLES" "0 \<le> SPLICE_CYCLES" by simp_all
  note ok = havoc_rounds_ok [OF assms fuel, of doing_det in_buf] and returns = havoc_rounds_ends [OF assms fuel, of doing_det in_buf]
  show "case havoc_and_splicing env doing_det perf in_buf x ds of
      Inl e \<Rightarrow> e = Out_Of_Draws | Inr ((ret_val, x'), _) \<Rightarrow> ret_val \<le> 1 \<and> I x'"
    unfolding havoc_and_splicing_def using ok [unfolded yields_def, rule_format, of ds] by (auto split: sum.splits)
  show "\<exists>ds r. havoc_and_splicing env doing_det perf in_buf x ds = Inr (r, [])"
    unfolding havoc_and_splicing_def using returns unfolding ends_def by (metis append_Nil2)
qed

theorem havoc_and_splicing_safe_witness:
  "keeps_rounds ex_havoc 5 (\<lambda>_. True) \<and> (\<exists>ds r. havoc_and_splicing ex_havoc False 100 [1, 2, 3, 4, 5] 0 ds = Inr (r, []))"
  using havoc_and_splicing_safe [OF ex_havoc_ok(2), where perf = 100 and x = 0 and in_buf = "[1, 2, 3, 4, 5]" and doing_det = False and ds = "[]"] ex_havoc_ok(2) by simp

text \<open>
  Property C0. A spliced test case consists of the beginning of the current one, up to a position from the first to before the last byte in which the two test cases differ, and of
  the beginning of another entry of the queue, in the latter's length; every attempt uses up one of the cycles.
\<close>

theorem splicing_exact:
  assumes "mut_env_ok (hv_view env x)" "retry_splicing env splice_cycle in_buf x ds = Inr (Some (c, b), es)"
  shows "splice_cycle < c \<and> c \<le> SPLICE_CYCLES \<and>
    (\<exists>t \<in> set (queue_data (hv_view env x)). length b = length t \<and> spliced in_buf t b)"
proof -
  have "next_round (hv_view env x) splice_cycle in_buf (Some (c, b))"
    using yields_Inr [OF retry_splicing_ok [OF assms(1)] assms(2)] by simp
  then show ?thesis by (auto simp: next_round_def spliced_length)
qed

lemma ex_splice: "retry_splicing ex_havoc 0 [1, 2, 3, 4, 5] 0 [1, 1] = Inr (Some (1, [1, 2, 1, 9]), [])"
  by (simp add: retry_splicing.simps ex_havoc_def ex_mut_def andthen_def splice_target_def draw_until_def check_def locate_diffs_def
      note_diff_def below_def splice_at_def slice_def minus_def ret_def upt_rec)

theorem splicing_exact_witness:
  "mut_env_ok (hv_view ex_havoc 0) \<and> retry_splicing ex_havoc 0 [1, 2, 3, 4, 5] 0 [1, 1] = Inr (Some (1, [1, 2, 1, 9]), []) \<and>
   (\<exists>t \<in> set (queue_data ex_mut). spliced [1, 2, 3, 4, 5] t [1, 2, 1, 9])"
proof -
  have e: "mut_env_ok (hv_view ex_havoc 0)" "queue_data (hv_view ex_havoc 0) = queue_data ex_mut"
    using ex_havoc_ok(1) by (simp_all add: ex_havoc_def)
  from splicing_exact [OF e(1) ex_splice] e ex_splice show ?thesis by auto
qed

end
