(* ===== verification/Havoc_Effects.thy ===== *)
theory Havoc_Effects
  imports Havoc_Props
begin

unbundle bit_operations_syntax

text \<open>
  What single mutations do to the buffer: the arithmetic and bit mutations change one unit and always change it, blocks that change places keep all bytes, numbers are
  read and printed exactly, and a step can always end.
\<close>

section \<open>Mutations of one unit\<close>

definition changes_unit :: "nat \<Rightarrow> bytes \<Rightarrow> outcome \<Rightarrow> bool" where
  "changes_unit k b oc \<longleftrightarrow> (\<exists>c i. oc = Done c \<and> length c = length b \<and> c \<noteq> b \<and> i + k \<le> length b \<and>
     take i c = take i b \<and> drop (i + k) c = drop (i + k) b)"

lemma rd_wr: 
  assumes "i + k \<le> length b" "LENGTH('w) = 8 * k"
  shows "rd k i (wr k i (w :: 'w::len word) b) = w"
  using assms by (simp add: rd_def wr_def le_word_le_bytes)

lemma changes_byte: "i < length b \<Longrightarrow> v \<noteq> b ! i \<Longrightarrow> changes_unit 1 b (Done (b[i := v]))"
  unfolding changes_unit_def by (intro exI [of _ "b[i := v]"] exI [of _ i]) (auto simp: list_update_beyond dest: arg_cong [of _ _ "\<lambda>c. c ! i"])

lemma changes_wr:
  assumes "i + k \<le> length b" "LENGTH('w) = 8 * k" "f (rd k i b) \<noteq> (rd k i b :: 'w::len word)"
  shows "changes_unit k b (Done (wr k i (f (rd k i b)) b))"
proof -
  have "wr k i (f (rd k i b)) b \<noteq> b" using rd_wr [OF assms(1,2), of "f (rd k i b)"] assms(3) by metis
  then show ?thesis using assms(1)
    unfolding changes_unit_def by (intro exI [of _ "wr k i (f (rd k i b)) b"] exI [of _ i]) (auto simp: wr_def)
qed

lemma small_nonzero:
  assumes "n < 35" "6 \<le> LENGTH('w)"
  shows "(of_nat (1 + n) :: 'w::len word) \<noteq> 0"
proof -
  have "(2::nat) ^ 6 \<le> 2 ^ LENGTH('w)" using assms(2) by (intro power_increasing) auto
  then have "unat (of_nat (1 + n) :: 'w word) = 1 + n" using assms(1) by (simp add: unsigned_of_nat take_bit_nat_eq_self del: of_nat_Suc of_nat_add)
  then show ?thesis by (metis add_is_0 unsigned_0 zero_neq_one)
qed

lemma SWAP16_SWAP16 [simp]: "SWAP16 (SWAP16 w) = w"
  unfolding SWAP16_def by (rule bit_word_eqI) (auto simp: bit_simps)

lemma swap_masks: "(0x00FF0000 :: u32) = push_bit 16 (mask 8)" "(0x0000FF00 :: u32) = push_bit 8 (mask 8)"
  by code_simp+

lemma bit_SWAP32:
  "bit (SWAP32 w) n \<longleftrightarrow>
     (if n < 8 then bit w (n + 24) else if n < 16 then bit w (n + 8) else if n < 24 then bit w (n - 8) else n < 32 \<and> bit w (n - 24))"
proof -
  have "bit w m \<Longrightarrow> m < 32" for m using bit_imp_le_length [of w m] by simp
  then have far: "32 \<le> m \<Longrightarrow> \<not> bit w m" for m by (meson not_less)
  consider "n < 8" | "8 \<le> n" "n < 16" | "16 \<le> n" "n < 24" | "24 \<le> n" "n < 32" | "32 \<le> n" by linarith
  then show ?thesis unfolding SWAP32_def swap_masks by cases (auto simp: bit_simps far add.commute)
qed

lemma SWAP32_SWAP32 [simp]: "SWAP32 (SWAP32 w) = w"
  by (rule bit_word_eqI) (simp add: bit_SWAP32, arith)

lemma yields_changes_byte:
  assumes "b \<noteq> []" "\<And>c. f c \<noteq> c"
  shows "yields (changes_unit 1 b) (andthen (below (length b)) (\<lambda>off. commit (at_byte off f b)))"
  using assms changes_byte [of _ b] by (auto intro!: gen_intros)

lemma xor_changes:
  assumes "d \<noteq> 0"
  shows "c XOR d \<noteq> (c :: 'w::len word)"
proof
  assume "c XOR d = c"
  moreover have "c XOR (c XOR d) = d" by (simp flip: xor.assoc)
  ultimately show False using assms by simp
qed

lemma flipbit_changes: "b \<noteq> [] \<Longrightarrow> yields (changes_unit 1 b) (flipbit b)"
  unfolding flipbit_def
proof (rule step_below [OF _ yields_changes_byte])
  fix bit :: nat and c :: u8
  assume "bit < 8"
  then have "push_bit bit (1 :: u8) \<noteq> 0" by (simp add: push_bit_eq_0_iff)
  then show "c XOR push_bit bit 1 \<noteq> c" by (rule xor_changes)
qed simp_all

lemma arith8_changes: "b \<noteq> [] \<Longrightarrow> (\<And>c n. n \<noteq> 0 \<Longrightarrow> f c n \<noteq> c) \<Longrightarrow> yields (changes_unit 1 b) (arith8 f b)"
  unfolding arith8_def by (rule step_below [OF _ yields_changes_byte]) (use small_nonzero [where 'w = 8] in auto)

lemma arith16_changes:
  assumes "2 \<le> length b" "\<And>w n. n \<noteq> 0 \<Longrightarrow> f w n \<noteq> w"
  shows "yields (changes_unit 2 b) (arith16 f b)"
  using assms small_nonzero [where 'w = 16] unfolding arith16_def at_least_def
  by (auto intro!: gen_intros changes_wr)

lemma arith32_changes:
  assumes "4 \<le> length b" "\<And>w n. n \<noteq> 0 \<Longrightarrow> f w n \<noteq> w"
  shows "yields (changes_unit 4 b) (arith32 f b)"
  using assms small_nonzero [where 'w = 32] unfolding arith32_def at_least_def
  by (auto intro!: gen_intros changes_wr)

text \<open>The mutations that change one unit, and its size.\<close>

definition unit_of :: "mutation \<Rightarrow> nat" where
  "unit_of m =
     (if m \<in> {MUT_FLIPBIT, MUT_ARITH8, MUT_ARITH8_SUB, MUT_RAND8, MUT_BYTEADD, MUT_BYTESUB, MUT_FLIP8} then 1
      else if m \<in> {MUT_ARITH16, MUT_ARITH16_SUB, MUT_ARITH16BE, MUT_ARITH16BE_SUB} then 2
      else if m \<in> {MUT_ARITH32, MUT_ARITH32_SUB, MUT_ARITH32BE, MUT_ARITH32BE_SUB} then 4
      else 0)"

lemma be16_changes: "(\<And>w n. n \<noteq> 0 \<Longrightarrow> f w n \<noteq> w) \<Longrightarrow> n \<noteq> 0 \<Longrightarrow> be16 f w n \<noteq> w"
  unfolding be16_def by (metis SWAP16_SWAP16)

lemma be32_changes: "(\<And>w n. n \<noteq> 0 \<Longrightarrow> f w n \<noteq> w) \<Longrightarrow> n \<noteq> 0 \<Longrightarrow> be32 f w n \<noteq> w"
  unfolding be32_def by (metis SWAP32_SWAP32)

lemma be_neq:
  "n \<noteq> 0 \<Longrightarrow> be16 (+) w n \<noteq> w" "n \<noteq> 0 \<Longrightarrow> be16 (-) w n \<noteq> w"
  "n' \<noteq> 0 \<Longrightarrow> be32 (+) v n' \<noteq> v" "n' \<noteq> 0 \<Longrightarrow> be32 (-) v n' \<noteq> v"
  using be16_changes [of "(+)"] be16_changes [of "(-)"] be32_changes [of "(+)"] be32_changes [of "(-)"] by auto

lemma rand8_changes: "b \<noteq> [] \<Longrightarrow> yields (changes_unit 1 b) (rand8 b)"
proof -
  assume b: "b \<noteq> []"
  have "(of_nat (1 + n) :: u8) \<noteq> 0" if "n < 255" for n
  proof -
    have "unat (of_nat (1 + n) :: u8) = 1 + n" using that by (simp add: unsigned_of_nat take_bit_nat_eq_self del: of_nat_Suc of_nat_add)
    then show ?thesis by (metis add_is_0 unsigned_0 zero_neq_one)
  qed
  then show ?thesis using b unfolding rand8_def
    by (auto intro!: gen_intros changes_byte xor_changes simp del: One_nat_def of_nat_add)
qed

lemma unit_changes:
  assumes "0 < unit_of m" "unit_of m \<le> length b"
  shows "yields (changes_unit (unit_of m) b) (havoc_mutate env m b)"
proof -
  have b: "b \<noteq> []" using assms by auto
  note changes = flipbit_changes [OF b] arith8_changes [OF b] arith16_changes arith32_changes rand8_changes [OF b] yields_changes_byte [OF b]
  show ?thesis
    using assms b by (cases m) (auto simp: unit_of_def havoc_mutate_def byte_op_def be_neq intro!: changes xor_changes simp del: One_nat_def)
qed

section \<open>Numbers\<close>

text \<open>A printed number consists of digits, not more than needed, and is read back.\<close>

definition value_of :: "int \<Rightarrow> bytes \<Rightarrow> int" where
  "value_of v cs = foldl (\<lambda>v c. v * 10 + digit c) v cs"

lemma value_of_simps [simp]: "value_of v [] = v" "value_of v (cs @ ds) = value_of (value_of v cs) ds" "value_of v (c # cs) = value_of (v * 10 + digit c) cs"
  by (simp_all add: value_of_def)

lemma digit_print: "n < 10 \<Longrightarrow> digit (48 + of_nat n) = int n" 
proof -
  assume "n < 10"
  then have "list_all (\<lambda>n. digit (48 + of_nat n) = int n) [0..<10] \<Longrightarrow> ?thesis" by (simp add: list_all_iff)
  moreover have "list_all (\<lambda>n. digit (48 + of_nat n) = int n) [0..<10]" by code_simp
  ultimately show ?thesis by simp
qed

lemma isdigit_print: "n < 10 \<Longrightarrow> isdigit (48 + of_nat n)"
proof -
  assume "n < 10"
  then have "list_all (\<lambda>n. isdigit (48 + of_nat n)) [0..<10] \<Longrightarrow> ?thesis" by (simp add: list_all_iff)
  moreover have "list_all (\<lambda>n. isdigit (48 + of_nat n)) [0..<10]" by code_simp
  ultimately show ?thesis by simp
qed

lemma decimal_digits: "list_all isdigit (decimal n)"
  by (induction n rule: decimal.induct) (subst decimal.simps, simp add: isdigit_print)

lemma value_of_decimal: "value_of 0 (decimal n) = int n"
  by (induction n rule: decimal.induct) (subst decimal.simps, auto simp: digit_print zdiv_int zmod_int)

lemma length_decimal: "n < 10 ^ k \<Longrightarrow> 0 < k \<Longrightarrow> length (decimal n) \<le> k"
proof (induction n arbitrary: k rule: decimal.induct)
  case (1 n)
  show ?case
  proof (cases "n < 10")
    case False
    then obtain j where k: "k = Suc j" "0 < j" using 1(2,3) by (cases k; cases "k - 1") auto
    then have "n div 10 < 10 ^ j" using 1(2) by simp
    then have "length (decimal (n div 10)) \<le> j" using 1(1) False k by simp
    then show ?thesis using k False by (subst decimal.simps) simp
  qed (subst decimal.simps, use 1 in simp)
qed

text \<open>Without overflow the number of the code is the number of the text.\<close>

lemma value_of_mono: "0 \<le> v \<Longrightarrow> list_all isdigit cs \<Longrightarrow> v \<le> value_of v cs"
proof (induction cs arbitrary: v)
  case (Cons c cs)
  have "0 \<le> digit c" using Cons.prems by (simp add: isdigit_def digit_def word_le_def)
  then show ?case using Cons.IH [of "v * 10 + digit c"] Cons.prems by simp
qed simp

lemma wrap64_small: "0 \<le> v \<Longrightarrow> v < 2 ^ 63 \<Longrightarrow> wrap64 v = v"
  unfolding wrap64_def by (rule signed_take_bit_int_eq_self) auto

lemma wrapped_value:
  assumes "0 \<le> v" "list_all isdigit cs" "value_of v cs < 2 ^ 63"
  shows "foldl (\<lambda>v c. wrap64 (v * 10 + digit c)) v cs = value_of v cs"
  using assms
proof (induction cs arbitrary: v)
  case (Cons c cs)
  have d: "0 \<le> digit c" using Cons.prems by (simp add: isdigit_def digit_def word_le_def)
  moreover have "v * 10 + digit c \<le> value_of (v * 10 + digit c) cs" using Cons.prems d by (intro value_of_mono) auto
  ultimately have "wrap64 (v * 10 + digit c) = v * 10 + digit c" using Cons.prems by (intro wrap64_small) auto
  then show ?case using Cons d by simp
qed simp

text \<open>A text with one number: where the search ends and what is read.\<close>

lemma takeWhile_prefix: "list_all P xs \<Longrightarrow> (ys = [] \<or> \<not> P (hd ys)) \<Longrightarrow> takeWhile P (xs @ ys) = xs"
  by (induction xs) (auto simp: takeWhile_eq_Nil_iff)

lemma decimal_Cons: obtains d ds where "decimal n = d # ds" "isdigit d" "list_all isdigit ds"
  using decimal_digits [of n] by (cases "decimal n") auto

lemma number_found:
  assumes "list_all (\<lambda>c. \<not> isdigit c) pre" "post = [] \<or> \<not> isdigit (hd post)"
  shows "find_digit 0 (pre @ decimal n @ post) = Some (length pre)"
    and "number_end (length pre) (pre @ decimal n @ post) = length pre + length (decimal n)"
proof -
  obtain d ds where d: "decimal n = d # ds" "isdigit d" "list_all isdigit ds" by (rule decimal_Cons)
  have "takeWhile (\<lambda>c. \<not> isdigit c) (pre @ d # ds @ post) = pre" using assms(1) d by (intro takeWhile_prefix) auto
  then show "find_digit 0 (pre @ decimal n @ post) = Some (length pre)" by (simp add: find_digit_def d)
  have "takeWhile isdigit (ds @ post) = ds" using assms(2) d by (intro takeWhile_prefix) auto
  then show "number_end (length pre) (pre @ decimal n @ post) = length pre + length (decimal n)" by (simp add: number_end_def d)
qed

definition signed_number :: "bytes \<Rightarrow> nat \<Rightarrow> int" where
  "signed_number pre n = (if pre \<noteq> [] \<and> last pre = 45 then - int n else int n)"

lemma number_read:
  assumes "int n < 2 ^ 63"
  shows "number_at (length pre) (length pre + length (decimal n)) (pre @ decimal n @ post) = signed_number pre n"
proof -
  obtain d ds where d: "decimal n = d # ds" "isdigit d" "list_all isdigit ds" by (rule decimal_Cons)
  have v: "value_of (digit d) ds = int n" using value_of_decimal [of n] by (simp add: d)
  have "0 \<le> digit d" using d(2) by (simp add: isdigit_def digit_def word_le_def)
  then have "foldl (\<lambda>v c. wrap64 (v * 10 + digit c)) (digit d) ds = int n"
    using wrapped_value [of "digit d" ds] v d(3) assms by simp
  moreover have "wrap64 (- int n) = - int n" "wrap64 (int n) = int n"
    using assms by (auto simp: wrap64_def intro!: signed_take_bit_int_eq_self)
  moreover have "(pre \<noteq> [] \<and> (pre @ d # ds @ post) ! (length pre - 1) = 45) = (pre \<noteq> [] \<and> last pre = 45)"
    by (auto simp: last_conv_nth nth_append)
  ultimately show ?thesis
    by (auto simp: number_at_def d negated_def signed_number_def nth_append last_conv_nth)
qed

lemma asciinum_change:
  assumes "list_all (\<lambda>c. \<not> isdigit c) pre" "post = [] \<or> \<not> isdigit (hd post)" "int n < 2 ^ 63" "4 \<le> length (pre @ decimal n @ post)"
    and "change_number (signed_number pre n) ds = Inr (v, es)" "length (print_int v) \<le> 19"
  shows "asciinum (pre @ decimal n @ post) (0 # ds) = Inr (Done (pre @ print_int v @ post), es)"
proof -
  let ?b = "pre @ decimal n @ post"
  have "below (length ?b) (0 # ds) = Inr (0, ds)" using assms(4) by (simp add: below_def)
  moreover have "snprintf 20 (print_int v) = print_int v" using assms(6) by (simp add: snprintf_def)
  moreover have "put_number (length pre) (length pre + length (decimal n)) (print_int v) ?b es = Inr (pre @ print_int v @ post, es)"
    by (simp add: put_number_def paste_def replace_def check_def overwrite_def)
  moreover have "\<not> length ?b < 4" using assms(4) by simp
  ultimately show ?thesis
    using number_found [OF assms(1,2), of n] number_read [OF assms(3), of pre post] assms(5)
    by (simp add: asciinum_def at_least_def andthen_def commit_def ret_def Let_def)
qed

lemma print_int_short:
  assumes "- (10 ^ 18) < v" "v < 10 ^ 19"
  shows "length (print_int v) \<le> 19"
proof (cases "v < 0")
  case True
  then have "nat (- v) < 10 ^ 18" using assms(1) by (simp add: nat_less_iff)
  then have "length (decimal (nat (- v))) \<le> 18" by (rule length_decimal) simp
  then show ?thesis using True by (simp add: print_int_def)
next
  case False
  then have "nat v < 10 ^ 19" using assms(2) by (simp add: nat_less_iff)
  then have "length (decimal (nat v)) \<le> 19" by (rule length_decimal) simp
  then show ?thesis using False by (simp add: print_int_def)
qed

lemma asciinum_next:
  assumes "list_all (\<lambda>c. \<not> isdigit c) pre" "post = [] \<or> \<not> isdigit (hd post)" "n < 10 ^ 18" "4 \<le> length (pre @ decimal n @ post)"
  shows "asciinum (pre @ decimal n @ post) (0 # 0 # ds) = Inr (Done (pre @ print_int (signed_number pre n + 1) @ post), ds)"
proof (rule asciinum_change [OF assms(1,2)])
  have n: "int n < 10 ^ 18" using assms(3) by (metis of_nat_less_iff of_nat_numeral of_nat_power)
  then show "int n < 2 ^ 63" by simp
  have "wrap64 (signed_number pre n + 1) = signed_number pre n + 1"
    using n by (auto simp: wrap64_def signed_number_def intro!: signed_take_bit_int_eq_self)
  then show "change_number (signed_number pre n) (0 # ds) = Inr (signed_number pre n + 1, ds)"
    by (simp add: change_number_def andthen_def below_def ret_def)
  show "length (print_int (signed_number pre n + 1)) \<le> 19"
    using n by (intro print_int_short) (auto simp: signed_number_def)
qed (rule assms(4))

section \<open>A step can end\<close>

lemma flipbit_everywhere: "\<exists>i < length (mutation_array env). mutation_array env ! i = MUT_FLIPBIT"
proof -
  show ?thesis using flipbit_in_array [of env] by (auto simp: in_set_conv_nth)
qed

lemma mutation_array_length: "1 < length (mutation_array env)"
  by (simp add: table_defs)

lemma flip_any_bit:
  assumes "k < 8" "off < length b" "2 \<le> length b"
  shows "\<exists>i. retry_step (mutation_array henv) (havoc_mutate env) b (i # k # off # ds) = Inr (b[off := b ! off XOR push_bit k 1], ds)"
proof -
  obtain i where i: "i < length (mutation_array henv)" "mutation_array henv ! i = MUT_FLIPBIT" using flipbit_everywhere by blast
  have "chosen (mutation_array henv) (havoc_mutate env) b (i # k # off # ds) = Inr (Done (b[off := b ! off XOR push_bit k 1]), ds)"
    using i assms mutation_array_length [of henv]
    by (simp add: chosen_def pick_def andthen_def below_def check_def havoc_mutate_def flipbit_def commit_def ret_def at_byte_def)
  then show ?thesis by (intro exI [of _ i]) (simp add: retry_step.simps)
qed

section \<open>Properties\<close>

text \<open>
  Property C0. A bit flip, an addition or subtraction of either byte order, a random byte, an increment, a decrement or an inverted byte changes one unit of the buffer, within its
  bounds, and always changes it, whatever is drawn.
\<close>

theorem unit_mutations_change:
  assumes "0 < unit_of m" "unit_of m \<le> length b"
  shows "case havoc_mutate env m b ds of
      Inl e \<Rightarrow> e = Out_Of_Draws
    | Inr (oc, _) \<Rightarrow> \<exists>c i. oc = Done c \<and> length c = length b \<and> c \<noteq> b \<and> i + unit_of m \<le> length b \<and>
        take i c = take i b \<and> drop (i + unit_of m) c = drop (i + unit_of m) b"
  using unit_changes [OF assms, of env, unfolded yields_def, rule_format, of ds]
  by (auto simp: changes_unit_def split: sum.splits)

theorem unit_mutations_change_witness:
  "\<exists>c i. havoc_mutate ex_mut MUT_ARITH16BE [0, 255, 0] [0, 0] = Inr (Done c, []) \<and> c \<noteq> [0, 255, 0] \<and> i + 2 \<le> 3 \<and> take i c = take i [0, 255, 0]"
proof -
  have r: "havoc_mutate ex_mut MUT_ARITH16BE [0, 255, 0] [0, 0] = Inr (Done [1, 0, 0], [])"
    by code_simp
  have "0 < unit_of MUT_ARITH16BE" "unit_of MUT_ARITH16BE \<le> length [0 :: u8, 255, 0]" "unit_of MUT_ARITH16BE = 2"
    by (simp_all add: unit_of_def)
  then show ?thesis
    using unit_mutations_change [of MUT_ARITH16BE "[0, 255, 0]" ex_mut "[0, 0]"] r by auto
qed

text \<open>
  Property C0. Switching two blocks and shuffling a block never read or write outside the buffer, never copy overlapping blocks with memcpy, and only rearrange the bytes of the buffer.
\<close>

theorem rearranging_mutations:
  assumes "m \<in> {MUT_SWITCH, MUT_SHUFFLE}"
  shows "case havoc_mutate env m b ds of Inl e \<Rightarrow> e = Out_Of_Draws | Inr (oc, _) \<Rightarrow> \<exists>c. oc = Done c \<and> mset c = mset b"
proof -
  have "yields (rearranges b) (havoc_mutate env m b)"
    using assms switch_bytes_rearranges shuffle_rearranges by (auto simp: havoc_mutate_def)
  then show ?thesis unfolding yields_def rearranges_def by (auto split: sum.splits dest!: spec [of _ ds])
qed

theorem rearranging_mutations_witness:
  "\<exists>c. havoc_mutate ex_mut MUT_SWITCH [1, 2, 3, 4] [0, 2, 1] = Inr (Done c, []) \<and> mset c = mset [1, 2, 3, 4]"
proof -
  have r: "havoc_mutate ex_mut MUT_SWITCH [1, 2, 3, 4] [0, 2, 1] = Inr (Done [3, 4, 1, 2], [])" by code_simp
  show ?thesis using rearranging_mutations [where m = MUT_SWITCH and env = ex_mut and b = "[1, 2, 3, 4]" and ds = "[0, 2, 1]"] r by auto
qed

text \<open>
  Property C0. If the first number of a text stands alone and has at most 18 digits, the increment of MUT_ASCIINUM drawn at the beginning replaces exactly its digits by the
  decimal form of its successor, where the number counts as negative after a minus sign, which stays in place.
\<close>

theorem asciinum_successor:
  assumes "list_all (\<lambda>c. \<not> isdigit c) pre" "post = [] \<or> \<not> isdigit (hd post)" "n < 10 ^ 18" "4 \<le> length (pre @ decimal n @ post)"
  shows "asciinum (pre @ decimal n @ post) (0 # 0 # ds) =
    Inr (Done (pre @ print_int ((if pre \<noteq> [] \<and> last pre = 45 then - int n else int n) + 1) @ post), ds)"
  using asciinum_next [OF assms, of ds] by (simp add: signed_number_def)

theorem asciinum_successor_witness:
  "asciinum [120, 61, 57, 57, 59] [0, 0] = Inr (Done [120, 61, 49, 48, 48, 59], [])"
proof -
  have d: "decimal 99 = [57, 57]" "decimal 100 = [49, 48, 48]" by (simp_all add: decimal.simps)
  then show ?thesis
    using asciinum_successor [of "[120, 61]" "[59]" 99 "[]"] by (simp add: isdigit_def print_int_def)
qed

text \<open>The minus sign that stays in place is printed again.\<close>

lemma asciinum_doubles_minus: "asciinum [120, 45, 53, 59] [0, 0] = Inr (Done [120, 45, 45, 52, 59], [])"
proof -
  have d: "decimal 5 = [53]" "decimal 4 = [52]" by (simp_all add: decimal.simps)
  then show ?thesis
    using asciinum_next [of "[120, 45]" "[59]" 5 "[]"] by (simp add: isdigit_def print_int_def signed_number_def)
qed

section \<open>Divergences\<close>

text \<open>The input mode for text selects the same tables as the default.\<close>

lemma text_mode_generic: "mutation_array (env\<lparr>input_mode := 1\<rparr>) = mutation_array (env\<lparr>input_mode := 0\<rparr>)"
  by (simp add: mutation_array_def)

text \<open>A short number is followed by its terminator and by what the stack held.\<close>

lemma insertasciinum_leaks:
  "insertasciinum (ex_mut\<lparr>stack_bytes := [170, 170, 170, 170, 170, 170, 170, 170, 170, 170, 170, 170, 170, 170, 170, 170, 170, 170, 170, 170]\<rparr>)
     [65, 65, 65, 65, 65, 65, 65, 65] [7, 0, 5] =
     Inr (Done [53, 0, 170, 170, 170, 170, 170, 170], [])"
proof -
  have "decimal 5 = [53]" by (simp add: decimal.simps)
  then show ?thesis
    by (simp add: insertasciinum_def andthen_def below_def next64_def Let_def snprintf_def slice_def check_def overwrite_def
        commit_def paste_def ret_def)
qed

text \<open>The flag is reset before it is tested, so that its tests protect nothing.\<close>

lemma ijon_not_protected: "abandon_entry (s\<lparr>en_is_doing_ijon := True\<rparr>) = abandon_entry (s\<lparr>en_is_doing_ijon := False\<rparr>)"
  by (simp add: abandon_entry_def Let_def)

lemma abandon_entry_counts:
  "cur_fuzz_level (abandon_entry s) = cur_fuzz_level s + 1"
  "cur_was_fuzzed (abandon_entry s) \<longleftrightarrow> cur_was_fuzzed s \<or> \<not> en_stop_soon s \<and> cur_cal_failed s = 0 \<and> \<not> cur_disabled s"
  by (simp_all add: abandon_entry_def Let_def)

end
