(* ===== verification/Afl_Mutate.thy ===== *)
theory Afl_Mutate
  imports Havoc_Effects
begin

text \<open>
  \<^verbatim>\<open>afl_mutate\<close> of \<^verbatim>\<open>AFLplusplus/include/afl-mutations.h\<close>, the havoc mutations as a function for plug-ins and tools: a given number of steps on a buffer
  with room for \<^verbatim>\<open>max_len\<close> bytes. A missing or empty splice buffer is \<open>[]\<close>; memory is taken to suffice.
\<close>

section \<open>Mutations that differ from the havoc stage\<close>

definition overwrite_copy_once :: "mut_env \<Rightarrow> bytes \<Rightarrow> outcome gen" where
  "overwrite_copy_once env b = at_least 2 b
     (andthen (choose_block_len env (length b - 1)) (\<lambda>copy_len.
      andthen (offset_for copy_len b) (\<lambda>copy_from.
      andthen (offset_for copy_len b) (\<lambda>copy_to.
        if copy_from \<noteq> copy_to then andthen (slice copy_from copy_len b) (\<lambda>t. commit (paste copy_to t b))
        else ret (Done b)))))"

definition insertone_within :: "nat \<Rightarrow> bytes \<Rightarrow> outcome gen" where
  "insertone_within max_len b = at_least 2 b (if length b + 1 > max_len then ret Again else insertone b)"

abbreviation (input) INT64_MAX :: int where "INT64_MAX \<equiv> 2 ^ 63 - 1"
abbreviation (input) INT64_MIN :: int where "INT64_MIN \<equiv> - (2 ^ 63)"

text \<open>Digits are read as long as the number is in range; the end of what was read is returned too.\<close>

fun checked_number :: "int \<Rightarrow> nat \<Rightarrow> bytes \<Rightarrow> int \<times> nat" where
  "checked_number v i [] = (v, i)"
| "checked_number v i (c # cs) =
     (if v > INT64_MAX div 10 \<or> v * 10 > INT64_MAX - digit c then (v, i) else checked_number (v * 10 + digit c) (Suc i) cs)"

text \<open>
  The change, with the conversion to 64 bits as a parameter. A number too close to the limits loses its last digit first, and the text after it then begins one
  character earlier.
\<close>

definition spare :: "bool \<Rightarrow> int \<times> nat \<Rightarrow> int \<times> nat" where
  "spare close = (\<lambda>(v, off2). if close then (c_div v 10, off2 - 1) else (v, off2))"

definition change_checked :: "(int \<Rightarrow> int) \<Rightarrow> int \<Rightarrow> nat \<Rightarrow> (int \<times> nat) gen" where
  "change_checked conv v off2 = andthen (below 8) (\<lambda>strat.
     if strat = 0 then (case spare (v = INT64_MAX) (v, off2) of (v, off2) \<Rightarrow> ret (conv (v + 1), off2))
     else if strat = 1 then (case spare (v = INT64_MIN) (v, off2) of (v, off2) \<Rightarrow> ret (conv (v - 1), off2))
     else if strat = 2 then (case spare (v > c_div INT64_MAX 2 \<or> v < c_div INT64_MIN 2) (v, off2) of (v, off2) \<Rightarrow> ret (conv (v * 2), off2))
     else if strat = 3 then ret (c_div v 2, off2)
     else if strat = 4 then andthen (rescale v) (\<lambda>v. ret (v, off2))
     else if strat = 5 then (case spare (v > INT64_MAX - 256) (v, off2) of (v, off2) \<Rightarrow>
       andthen (below 256) (\<lambda>r. ret (conv (v + int r), off2)))
     else if strat = 6 then (case spare (v < INT64_MIN + 256) (v, off2) of (v, off2) \<Rightarrow>
       andthen (below 256) (\<lambda>r. ret (conv (v - int r), off2)))
     else ret (- v - 1, off2))"

definition put_within :: "nat \<Rightarrow> nat \<Rightarrow> nat \<Rightarrow> bytes \<Rightarrow> bytes \<Rightarrow> outcome gen" where
  "put_within max_len off off2 t b = andthen (minus off2 off) (\<lambda>old_len.
     if old_len = length t then commit (paste off t b)
     else if off + length t + length b - off2 > max_len then ret Again
     else commit (replace off off2 t b))"

text \<open>The number is printed into as many bytes as a pointer has.\<close>

definition asciinum_within :: "nat \<Rightarrow> bytes \<Rightarrow> outcome gen" where
  "asciinum_within max_len b = at_least 4 b (andthen (below (length b)) (\<lambda>off. case find_digit off b of
     None \<Rightarrow> retry_if_long b
   | Some off \<Rightarrow> (case checked_number (digit (b ! off)) (off + 1) (take (number_end off b - (off + 1)) (drop (off + 1) b)) of (v, off2) \<Rightarrow>
       andthen (change_checked wrap64 (negated off b v) off2) (\<lambda>(v, off2).
         put_within max_len off off2 (snprintf 8 (print_int v)) b))))"

definition insertasciinum_last :: "bytes \<Rightarrow> outcome gen" where
  "insertasciinum_last b = andthen (below 8) (\<lambda>n. andthen (below (length b)) (\<lambda>pos.
     if length b < pos + (1 + n) then retry_if_long b
     else andthen next64 (\<lambda>v. let t = snprintf 32 (decimal v);
                                  ins_len = (if 1 + n > length t then length t else 1 + n)
       in andthen (slice (if 1 + n > length t then 0 else length t - (1 + n)) ins_len t) (\<lambda>t. commit (paste pos t b)))))"

text \<open>\<^verbatim>\<open>SWAP32(SWAP32(EXTRACT32(buf, pos) + item))\<close>.\<close>

definition swap_swap_sum :: "u32 \<Rightarrow> u32 \<Rightarrow> u32" where
  "swap_swap_sum w n = SWAP32 (SWAP32 (w + n))"

section \<open>The function\<close>

definition mutate_step :: "mut_env \<Rightarrow> bytes \<Rightarrow> nat \<Rightarrow> mutation \<Rightarrow> bytes \<Rightarrow> outcome gen" where
  "mutate_step env splice_buf max_len m b = (case m of
     MUT_FLIPBIT \<Rightarrow> flipbit b
   | MUT_INTERESTING8 \<Rightarrow> interesting8 b
   | MUT_INTERESTING16 \<Rightarrow> interesting16 id b
   | MUT_INTERESTING16BE \<Rightarrow> interesting16 SWAP16 b
   | MUT_INTERESTING32 \<Rightarrow> interesting32 id b
   | MUT_INTERESTING32BE \<Rightarrow> interesting32 SWAP32 b
   | MUT_ARITH8_SUB \<Rightarrow> arith8 (-) b
   | MUT_ARITH8 \<Rightarrow> arith8 (+) b
   | MUT_ARITH16_SUB \<Rightarrow> arith16 (-) b
   | MUT_ARITH16BE_SUB \<Rightarrow> arith16 (be16 (-)) b
   | MUT_ARITH16 \<Rightarrow> arith16 (+) b
   | MUT_ARITH16BE \<Rightarrow> arith16 (be16 (+)) b
   | MUT_ARITH32_SUB \<Rightarrow> arith32 (-) b
   | MUT_ARITH32BE_SUB \<Rightarrow> arith32 (be32 (-)) b
   | MUT_ARITH32 \<Rightarrow> arith32 (+) b
   | MUT_ARITH32BE \<Rightarrow> arith32 swap_swap_sum b
   | MUT_RAND8 \<Rightarrow> rand8 b
   | MUT_CLONE_COPY \<Rightarrow> clone_copy env max_len b
   | MUT_CLONE_FIXED \<Rightarrow> clone_fixed env max_len b
   | MUT_OVERWRITE_COPY \<Rightarrow> overwrite_copy_once env b
   | MUT_OVERWRITE_FIXED \<Rightarrow> overwrite_fixed env b
   | MUT_BYTEADD \<Rightarrow> byte_op (\<lambda>c. c + 1) b
   | MUT_BYTESUB \<Rightarrow> byte_op (\<lambda>c. c - 1) b
   | MUT_FLIP8 \<Rightarrow> byte_op (\<lambda>c. c XOR 0xff) b
   | MUT_SWITCH \<Rightarrow> switch_bytes env b
   | MUT_DEL \<Rightarrow> del_bytes env b
   | MUT_SHUFFLE \<Rightarrow> shuffle env b
   | MUT_DELONE \<Rightarrow> delone b
   | MUT_INSERTONE \<Rightarrow> insertone_within max_len b
   | MUT_ASCIINUM \<Rightarrow> asciinum_within max_len b
   | MUT_INSERTASCIINUM \<Rightarrow> insertasciinum_last b
   | MUT_EXTRA_OVERWRITE \<Rightarrow> extra_overwrite (extra_tokens env) b
   | MUT_EXTRA_INSERT \<Rightarrow> extra_insert max_len (extra_tokens env) b
   | MUT_AUTO_EXTRA_OVERWRITE \<Rightarrow> extra_overwrite (a_extra_tokens env) b
   | MUT_AUTO_EXTRA_INSERT \<Rightarrow> extra_insert max_len (a_extra_tokens env) b
   | MUT_SPLICE_OVERWRITE \<Rightarrow> if splice_buf = [] then ret Again else splice_overwrite env splice_buf b
   | MUT_SPLICE_INSERT \<Rightarrow>
       if splice_buf = [] then ret Again
       else if length b + HAVOC_BLK_XL > max_len then ret Again
       else splice_insert env splice_buf b)"

definition strategy_array :: "bool \<Rightarrow> bool \<Rightarrow> mutation list" where
  "strategy_array is_text is_exploration =
     (if is_text
      then (if is_exploration then mutation_strategy_exploration_text else mutation_strategy_exploitation_text)
      else (if is_exploration then mutation_strategy_exploration_binary else mutation_strategy_exploitation_binary))"

definition afl_mutate :: "mut_env \<Rightarrow> bytes \<Rightarrow> nat \<Rightarrow> bool \<Rightarrow> bool \<Rightarrow> bytes \<Rightarrow> nat \<Rightarrow> bytes gen" where
  "afl_mutate env b n is_text is_exploration splice_buf max_len =
     (if b = [] then ret []
      else iterate (retry_step (strategy_array is_text is_exploration) (mutate_step env splice_buf max_len)) n b)"

section \<open>Arithmetic without overflow\<close>

definition s64 :: "int \<Rightarrow> bool" where
  "s64 v \<longleftrightarrow> INT64_MIN \<le> v \<and> v \<le> INT64_MAX"

lemma wrap64_id: "s64 v \<Longrightarrow> wrap64 v = v"
  unfolding wrap64_def s64_def by (rule signed_take_bit_int_eq_self) auto

lemma c_div_10: "s64 v \<Longrightarrow> - (2 ^ 60) \<le> c_div v 10 \<and> c_div v 10 \<le> 2 ^ 60"
  unfolding s64_def c_div_def by auto

lemma digit_range: "isdigit c \<Longrightarrow> 0 \<le> digit c \<and> digit c \<le> 9"
  by (simp add: isdigit_def digit_def word_le_def)

lemma checked_number_range:
  "0 \<le> v \<Longrightarrow> v \<le> INT64_MAX \<Longrightarrow> list_all isdigit cs \<Longrightarrow> checked_number v i cs = (w, j) \<Longrightarrow>
   0 \<le> w \<and> w \<le> INT64_MAX"
proof (induction v i cs rule: checked_number.induct)
  case (2 v i c cs)
  have "0 \<le> digit c" "digit c \<le> 9" using 2(4) by (auto simp: digit_range)
  then show ?case using 2 by (auto split: if_splits)
qed simp

lemma andthen_below_cong: "(\<And>x. x < n \<Longrightarrow> f x = g x) \<Longrightarrow> 0 < n \<Longrightarrow> andthen (below n) f = andthen (below n) g"
  by (rule ext) (auto simp: andthen_def below_def split: list.split)

lemma change_checked_exact:
  assumes "s64 v"
  shows "change_checked wrap64 v off2 = change_checked id v off2"
proof -
  have half: "c_div INT64_MAX 2 = 2 ^ 62 - 1" "c_div INT64_MIN 2 = - (2 ^ 62)" by (simp_all add: c_div_def)
  note v = assms [unfolded s64_def] c_div_10 [OF assms]
  show ?thesis unfolding change_checked_def
    by (rule andthen_below_cong) (use v half in \<open>auto simp: spare_def wrap64_id s64_def intro!: andthen_below_cong\<close>)
qed

lemma yields_change_checked: "yields (\<lambda>(v', e). e = off2 \<or> e = off2 - 1) (change_checked conv v off2)"
  unfolding change_checked_def spare_def
  by (intro gen_intros) (auto intro!: gen_intros yields_andthen [OF yields_rescale])

section \<open>Bounds\<close>

definition within :: "nat \<Rightarrow> nat \<Rightarrow> bytes \<Rightarrow> bool" where
  "within max_len n b \<longleftrightarrow> b \<noteq> [] \<and> length b \<le> max_len"

lemma overwrite_copy_once_ok [mutation_ok]: "b \<noteq> [] \<Longrightarrow> yields (sized l b) (overwrite_copy_once env b)"
  unfolding overwrite_copy_once_def by (intro gen_intros) auto

lemma insertone_within_ok: "b \<noteq> [] \<Longrightarrow> yields (sized max_len b) (insertone_within max_len b)"
  unfolding insertone_within_def by (intro gen_intros yields_sized_mono [OF insertone_ok]) auto

lemma insertasciinum_last_ok [mutation_ok]: "b \<noteq> [] \<Longrightarrow> yields (sized l b) (insertasciinum_last b)"
  unfolding insertasciinum_last_def Let_def by (intro gen_intros) (auto simp: snprintf_def)

lemma checked_number_end: "checked_number v i cs = (w, j) \<Longrightarrow> i \<le> j \<and> j \<le> i + length cs"
  by (induction v i cs rule: checked_number.induct) (auto split: if_splits)

lemma asciinum_within_ok: "b \<noteq> [] \<Longrightarrow> yields (sized max_len b) (asciinum_within max_len b)"
proof -
  assume b: "b \<noteq> []"
  have put: "yields (sized max_len b) (put_within max_len off off2 t b)"
    if "off \<le> off2" "off2 \<le> length b" "t \<noteq> []" for off off2 t
    unfolding put_within_def using that b by (auto intro!: gen_intros)
  have number: "yields (sized max_len b) (case checked_number (digit (b ! off)) (off + 1) (take (number_end off b - (off + 1)) (drop (off + 1) b)) of (v, off2) \<Rightarrow>
       andthen (change_checked wrap64 (negated off b v) off2) (\<lambda>(v, off2).
         put_within max_len off off2 (snprintf 8 (print_int v)) b))"
    if off: "off < length b" for off
  proof -
    obtain v off2 where n: "checked_number (digit (b ! off)) (off + 1) (take (number_end off b - (off + 1)) (drop (off + 1) b)) = (v, off2)"
      by fastforce
    have "off < off2" "off2 \<le> length b" using checked_number_end [OF n] number_end_range [OF off] by auto
    then show ?thesis unfolding n case_prod_conv
      by (intro yields_andthen [OF yields_change_checked]) (auto intro!: put simp: snprintf_def)
  qed
  show ?thesis unfolding asciinum_within_def
    by (intro gen_intros) (use b number in \<open>auto split: option.split dest!: find_digit_Some intro!: gen_intros\<close>)
qed

lemma mutate_step_sized:
  assumes "b \<noteq> []"
  shows "yields (sized max_len b) (mutate_step env splice_buf max_len m b)"
proof -
  note grow = yields_sized_mono [OF clone_copy_ok] yields_sized_mono [OF clone_fixed_ok] insertone_within_ok asciinum_within_ok extra_insert_ok
  have "yields (sized max_len b) (mutate_step env splice_buf max_len MUT_SPLICE_INSERT b)"
    using assms by (auto simp: mutate_step_def intro!: gen_intros yields_sized_mono [OF splice_insert_ok])
  then show ?thesis
    using assms by (cases m) (auto simp: mutate_step_def intro: mutation_ok grow splice_overwrite_ok yields_ret)
qed

lemma flipbit_in_strategy: "MUT_FLIPBIT \<in> set (strategy_array is_text is_exploration)"
  by (simp add: strategy_array_def mutation_strategy_exploration_text_def mutation_strategy_exploitation_text_def
      mutation_strategy_exploration_binary_def mutation_strategy_exploitation_binary_def)

interpretation mutate: bounded_mutation "strategy_array is_text is_exploration" "mutate_step env splice_buf max_len" "within max_len"
  for is_text is_exploration env splice_buf max_len
proof
  fix n b m
  assume "within max_len n b"
  then show "yields (result_good (within max_len (Suc n))) (mutate_step env splice_buf max_len m b)"
    by (auto simp: within_def result_good_def split: outcome.split elim!: yields_weaken [OF mutate_step_sized])
qed (auto simp: flipbit_in_strategy mutate_step_def within_def)

section \<open>Properties\<close>

text \<open>
  Property C0. For every sequence of random choices and every splice buffer, afl_mutate on a non-empty buffer with room for max_len bytes stays within its buffers, and the result has at
  least one and at most max_len bytes; some finite sequence of choices makes it return. An empty buffer is returned as it is.
\<close>

theorem afl_mutate_within:
  assumes "length b \<le> max_len"
  shows "(case afl_mutate env b n is_text is_exploration splice_buf max_len ds of
      Inl e \<Rightarrow> e = Out_Of_Draws
    | Inr (c, _) \<Rightarrow> length c \<le> max_len \<and> (c = [] \<longleftrightarrow> b = [])) \<and>
    (\<exists>ds c. afl_mutate env b n is_text is_exploration splice_buf max_len ds = Inr (c, []))"
proof (cases "b = []")
  case True
  then show ?thesis by (auto simp: afl_mutate_def ret_def)
next
  case False
  let ?m = "iterate (retry_step (strategy_array is_text is_exploration) (mutate_step env splice_buf max_len)) n b"
  have w: "within max_len 0 b" using False assms by (simp add: within_def)
  have "yields (within max_len (0 + n)) ?m" using w by (rule mutate.iterate_good)
  then have "case ?m ds of Inl e \<Rightarrow> e = Out_Of_Draws | Inr (c, _) \<Rightarrow> length c \<le> max_len \<and> (c = [] \<longleftrightarrow> b = [])"
    using False by (auto simp: yields_def within_def split: sum.splits dest!: spec [of _ ds])
  moreover have "\<exists>ds c. ?m ds = Inr (c, [])" using mutate.iterate_ends [OF w, of is_text is_exploration env splice_buf n] by (blast dest: ends_returns)
  ultimately show ?thesis using False by (simp add: afl_mutate_def)
qed

theorem afl_mutate_within_witness:
  "length [65 :: u8, 66] \<le> 2 \<and> (\<exists>ds c. afl_mutate ex_mut [65, 66] 3 True False [] 2 ds = Inr (c, []))"
  using afl_mutate_within [of "[65, 66]" 2 ex_mut 3 True False "[]" "[]"] by simp

text \<open>
  The checked arithmetic of afl_mutate never overflows: on a number read from at most all digits the change computes the same in 64 bits as in unbounded
  integers.
\<close>

theorem checked_numbers_exact:
  assumes "list_all isdigit (c # cs)" "checked_number (digit c) (off + 1) cs = (v, off2)" "w = v \<or> w = - v"
  shows "change_checked wrap64 w off2 = change_checked id w off2"
proof -
  have "0 \<le> digit c \<and> digit c \<le> 9" using assms(1) by (simp add: digit_range)
  then have "0 \<le> v \<and> v \<le> INT64_MAX" using checked_number_range [OF _ _ _ assms(2)] assms(1) by simp
  then show ?thesis using assms(3) by (intro change_checked_exact) (auto simp: s64_def)
qed

theorem checked_numbers_exact_witness:
  "checked_number (digit 57) 1 [57, 57] = (999, 3) \<and> change_checked wrap64 (- 999) 3 = change_checked id (- 999) 3"
proof -
  have c: "checked_number (digit 57) (0 + 1) [57, 57] = (999, 3)" by code_simp
  have "list_all isdigit [57, 57, 57]" by code_simp
  then show ?thesis using checked_numbers_exact [OF _ c, of "- 999"] c by simp
qed

section \<open>Differences that are mistakes\<close>

text \<open>The sum of \<^verbatim>\<open>MUT_ARITH32BE\<close> is little-endian: the two swaps undo each other.\<close>

lemma arith32be_little_endian: "mutate_step env splice_buf max_len MUT_ARITH32BE b = mutate_step env splice_buf max_len MUT_ARITH32 b"
  by (simp add: mutate_step_def swap_swap_sum_def [abs_def])

text \<open>Numbers of eight and more characters are cut to seven.\<close>

lemma asciinum_cut:
  "asciinum_within 100 [49, 50, 51, 52, 53, 54, 55, 56] [0, 0] = Inr (Done [49, 50, 51, 52, 53, 54, 55], [])"
proof -
  let ?b = "[49, 50, 51, 52, 53, 54, 55, 56] :: bytes"
  have "find_digit 0 ?b = Some 0" "number_end 0 ?b = 8" by code_simp+
  moreover have "checked_number (digit 49) 1 [50, 51, 52, 53, 54, 55, 56] = (12345678, 8)" by code_simp
  moreover have "change_checked wrap64 12345678 8 [0] = Inr ((12345679, 8), [])"
    by (simp add: change_checked_def andthen_def below_def spare_def ret_def wrap64_small)
  moreover have "print_int 12345679 = [49, 50, 51, 52, 53, 54, 55, 57]" by (simp add: print_int_def decimal.simps)
  ultimately show ?thesis
    by (simp add: asciinum_within_def at_least_def andthen_def below_def negated_def put_within_def minus_def check_def snprintf_def
        commit_def replace_def ret_def)
qed

text \<open>In the havoc stage a number beyond 64 bits becomes negative.\<close>

lemma number_at_overflow:
  "number_at 0 19 [57, 50, 50, 51, 51, 55, 50, 48, 51, 54, 56, 53, 52, 55, 55, 53, 56, 48, 56] = - (2 ^ 63)"
  by code_simp

end
