(* ===== verification/Spec2Isabelle.thy ===== *)
theory Spec2Isabelle
  imports Bitmap_Props Hashmap Sha1 Text_Check Queue_Cull Cache_Props Tmin_Props Alias_Props Rand Magma_Protocol Trim_Props Det_Values Dict_Props Extras_Props Afl_Mutate
begin

text \<open>
  The repository holds two programs in C. AFL++ (\<^verbatim>\<open>AFLplusplus/\<close>) is a coverage-guided fuzzer: it runs an instrumented
  target on test cases, reads the coverage map the target left, keeps the test cases that show something new, chooses
  which of them to mutate next, and comes with a test case minimizer. Magma (\<^verbatim>\<open>magma/\<close>) is a benchmark: targets with
  known bugs report when a bug is reached and triggered, and a monitor reads the reports. The development models the
  logic that decides what a campaign finds and reports. The theories, in the order in which they build on each other:

  \<^item> \<^verbatim>\<open>Afl_Prelude\<close>: fixed-width integers, byte buffers and their little-endian words, shared lemmas.
  \<^item> \<^verbatim>\<open>Bitmap\<close>, \<^verbatim>\<open>Bitmap_Props\<close> (\<^verbatim>\<open>src/afl-fuzz-bitmap.c\<close>, \<^verbatim>\<open>include/coverage-64.h\<close>): the coverage map. The state record has
    the map, the three virgin maps and the dirty flag. Shown: the answer and the update of \<^verbatim>\<open>has_new_bits\<close> bit by bit, that
    the fast path on unclassified traces agrees with it, that a campaign reports no trace twice, and what
    the classification, compaction and counting loops compute bytewise. The interface used by clients is the locale
    \<^verbatim>\<open>novelty_detector\<close>.
  \<^item> \<^verbatim>\<open>Queue\<close>, \<^verbatim>\<open>Queue_Slots\<close>, \<^verbatim>\<open>Queue_Cull\<close> (\<^verbatim>\<open>src/afl-fuzz-queue.c\<close>): queue entries, the \<^verbatim>\<open>top_rated\<close> slots and the favoured
    set, on top of the coverage state. Shown: reference counts and compact traces stay consistent along every
    interleaving of operations, which slots an entry wins, that re-scoring leaves minimal holders, and that culling favours
    a covering set with exact counters.
  \<^item> \<^verbatim>\<open>Doubles\<close>, \<^verbatim>\<open>Score\<close>, \<^verbatim>\<open>Alias\<close>, \<^verbatim>\<open>Alias_Props\<close> (same file): energy and choice of the next entry. \<^verbatim>\<open>double\<close> arithmetic is a record
    of operations, so that safety holds for every arithmetic and exactness for rational numbers.
  \<^item> \<^verbatim>\<open>Testcase_Cache\<close>, \<^verbatim>\<open>Cache_Props\<close> (same file): the cache of test case buffers; transparency, its books and
    that requests can always return. Reader interface: the locale \<^verbatim>\<open>transparent_reader\<close>.
  \<^item> \<^verbatim>\<open>Text_Check\<close> (same file): the text detection against the definition of UTF-8.
  \<^item> \<^verbatim>\<open>Hashmap\<close> (\<^verbatim>\<open>src/hashmap.c\<close>): the hash table of tried operands as a multiset; locale \<^verbatim>\<open>seen_set\<close>.
  \<^item> \<^verbatim>\<open>Sha1\<close> (\<^verbatim>\<open>src/afl-performance.c\<close>): SHA-1 and HMAC against FIPS 180 and RFC 2104.
  \<^item> \<^verbatim>\<open>Rand\<close> (\<^verbatim>\<open>src/afl-performance.c\<close>, \<^verbatim>\<open>include/afl-fuzz.h\<close>): the generator, unbiased and biased draws, \<^verbatim>\<open>next_p2\<close>.
  \<^item> \<^verbatim>\<open>Tmin\<close>, \<^verbatim>\<open>Tmin_Props\<close> (\<^verbatim>\<open>src/afl-tmin.c\<close>): the minimizer from input to output file; behaviour is kept, the output is
    1-minimal, every loop ends, and an interrupt leaves a good file. Its search is proved in the locales
    \<^verbatim>\<open>candidate_test\<close> and \<^verbatim>\<open>deciding_test\<close>.
  \<^item> \<^verbatim>\<open>Trim\<close>, \<^verbatim>\<open>Trim_Props\<close> (\<^verbatim>\<open>src/afl-fuzz-run.c\<close>, \<^verbatim>\<open>src/afl-fuzz-mutators.c\<close>): writing test cases and trimming queue entries, built-in
    and by plugins. Shown: the trimmed entry is a subsequence with the same trace, file and corpus agree, and a plugin can only
    put into the queue what was run with the right trace.
  \<^item> \<^verbatim>\<open>Det\<close>, \<^verbatim>\<open>Det_Props\<close>, \<^verbatim>\<open>Det_Values\<close>, \<^verbatim>\<open>Det_Dict\<close>, \<^verbatim>\<open>Dict_Props\<close> (\<^verbatim>\<open>src/afl-fuzz-one.c\<close>): the deterministic stages, from the walking bits to
    the automatic tokens. Shown: the buffer is always restored, the executed test cases are a pure enumeration, the skipping helpers lose
    no value of a byte, which values of two bytes they do lose, and what overwriting and inserting tokens executes.
  \<^item> \<^verbatim>\<open>Extras\<close>, \<^verbatim>\<open>Extras_Props\<close> (\<^verbatim>\<open>src/afl-fuzz-extras.c\<close>): the dictionaries. Shown: the order and the tests that the stages rely on hold along every
    sequence of operations, for every order \<^verbatim>\<open>qsort\<close> may give to equal elements; token files and saved tokens read back; UTF-16 and UTF-32 tokens are
    decoded.
  \<^item> \<^verbatim>\<open>Gen\<close>: generators, which read random choices from a list and fail on accesses outside a buffer, with a logic for what holds
    for every choice (\<open>yields\<close>) and what some choice reaches (\<open>ends\<close>).
  \<^item> \<^verbatim>\<open>Mutations\<close>, \<^verbatim>\<open>Mutators\<close>, \<^verbatim>\<open>Mutator_Props\<close>, \<^verbatim>\<open>Havoc\<close>, \<^verbatim>\<open>Havoc_Props\<close>, \<^verbatim>\<open>Havoc_Effects\<close>, \<^verbatim>\<open>Afl_Mutate\<close> (\<^verbatim>\<open>src/afl-fuzz-one.c\<close>,
    \<^verbatim>\<open>include/afl-mutations.h\<close>): the tables of mutations entry by entry, the 37 mutations, the havoc stage with plug-ins in its stacks, splicing, and
    \<^verbatim>\<open>afl_mutate\<close>. Shown: no access outside a buffer and no negative length for any choice, the buffer is restored, the length of the stage follows
    the score, the rounds end, \<^verbatim>\<open>afl_mutate\<close> keeps to \<^verbatim>\<open>max_len\<close>, what a spliced test case consists of, and what single mutations do. A stack of
    mutations is reasoned about in the locales \<^verbatim>\<open>bounded_step\<close> and \<^verbatim>\<open>bounded_mutation\<close>, interpreted for the havoc stage and for \<^verbatim>\<open>afl_mutate\<close>.
  \<^item> \<^verbatim>\<open>Magma\<close>, \<^verbatim>\<open>Magma_Props\<close>, \<^verbatim>\<open>Magma_Protocol\<close> (\<^verbatim>\<open>magma/magma/src\<close>): bug records, logging and the monitor. Shown: the counters are
    exact over a campaign (locale \<^verbatim>\<open>bug_counters\<close>), dumps can be read back, and no snapshot taken while the target writes
    mixes two states, by an invariant of a step relation that copies record by record.

  How C is read. Integers keep their width. Buffers are lists of bytes, words in them are little-endian, and the build
  is the 64-bit one. Operations pass their state explicitly; \<^verbatim>\<open>FATAL\<close>, division by zero, reads outside an array and missing
  memory are error values. Files are functions from names to contents. What is not code of the repository is a
  parameter: the run of a target, plugins, \<^verbatim>\<open>hash64\<close>, \<^verbatim>\<open>double\<close> arithmetic, the bytes of \<^verbatim>\<open>/dev/urandom\<close>, and random draws where only
  their range matters.

  Loops. Loops over a range are folds; other loops are functions with a termination proof, whose measures are remaining
  lengths or, in the minimizer, the weight of the data. Three loops of the source need not end: the redraws of \<^verbatim>\<open>rand_below\<close> and the shift
  of \<^verbatim>\<open>next_p2\<close> are partial functions, and the search for a victim in the cache consumes a list of draws; when they return
  is proved for each. The random choices of the mutations are a list, too; some list always lets them return. The havoc loop and its rounds carry fuel that is proved to be enough:
  the length of the stage times the greatest score, and one round more than \<^verbatim>\<open>SPLICE_CYCLES\<close>. The padding loop of SHA-1 and the custom trimmers of plugins carry fuel, the former with a proof that it is never used up.

  Not modelled, and why: disk I/O, screens, signals and process control (the fork server, \<^verbatim>\<open>afl-fuzz-stats.c\<close>, the synchronisation of
  instances) have no logic of their own worth a model; the compiler wrappers, the instrumentation passes and
  the binary-only modes work on programs of other tools; \<^verbatim>\<open>xxhash\<close>, \<^verbatim>\<open>radamsa\<close> and the other vendored libraries are third-party
  code; option parsing of the AFL++ tools only fills configurations. The custom mutator stage and MOpt in
  \<^verbatim>\<open>afl-fuzz-one.c\<close>, which repeats the havoc stage, and the comparison solving are logic that the development does not cover.
\<close>

text \<open>
  Property C0. Dictionaries and deterministic stages fit together: if the user tokens and, at every moment, the automatic tokens come from dictionaries
  that were built by the operations of \<^verbatim>\<open>afl-fuzz-extras.c\<close> with a correct \<^verbatim>\<open>qsort\<close>, then the deterministic stages hand on \<^verbatim>\<open>out_buf\<close> exactly as they received it,
  whatever the target does and whenever time runs out: every flip, addition, overwritten unit and token has been undone. The stages restore only as many bytes
  as the last token has, and rely on the order the dictionaries keep.
\<close>
theorem stages_with_dictionaries_restore:
  assumes "sorting_ok q" "dictionaries q st" "extras env = user_tokens st"
    and "\<forall>x. \<exists>st'. dictionaries q st' \<and> a_extras env x = map data (auto_tokens st')"
  shows "intact (out_buf s) (deterministic env (out_buf s) s)"
proof -
  have "sorted (map length (take 4096 (a_extras env x)))" for x
  proof -
    obtain st' where "dictionaries q st'" "a_extras env x = map data (auto_tokens st')" using assms(4) by blast
    then show ?thesis using dictionaries_ok [OF assms(1)] by (fastforce simp: auto_ok_def take_map comp_def)
  qed
  moreover have "sorted (map length (extras env))" using dictionaries_ok [OF assms(1,2)] by (simp add: assms(3) user_ok_def)
  ultimately have "by_length env" by (simp add: by_length_def)
  then show ?thesis by (rule deterministic_intact)
qed

theorem stages_with_dictionaries_restore_witness:
  "let s = \<lparr>out_buf = [0x41, 0x42], fuzzer = (), a_collect = replicate 32 0, a_len = 0, prev_cksum = 0, first_cksum = 0\<rparr>
   in intact [0x41, 0x42] (deterministic (idle_dict [3] [[65]]) [0x41, 0x42] s)"
proof -
  have u: "user_tokens (add_extra stable [65] no_tokens) = [[65]]"
    by (simp add: add_extra_def add_extra_nocheck_def no_tokens_def stable_def)
  have d: "dictionaries stable (add_extra stable [65] no_tokens)" "dictionaries stable no_tokens"
    unfolding no_tokens_def by (auto intro!: dictionaries.intros)
  have a: "\<forall>x. \<exists>st'. dictionaries stable st' \<and> a_extras (idle_dict [3] [[65]]) x = map data (auto_tokens st')"
    by (intro allI exI [of _ no_tokens]) (simp add: d(2) idle_dict_def, simp add: no_tokens_def)
  from stages_with_dictionaries_restore [OF sorting_ok_stable d(1) _ a, of "\<lparr>out_buf = [0x41, 0x42], fuzzer = (), a_collect = replicate 32 0, a_len = 0,
      prev_cksum = 0, first_cksum = 0\<rparr>"]
  show ?thesis by (simp add: Let_def u idle_dict_def)
qed
end
